(* ===== verification/Neo_Prelude.thy ===== *)
theory Neo_Prelude
  imports Main "HOL-Library.Word"
begin

text \<open>
  Shared ground of the development: the machine types of the 32-bit C program, the ways the
  kernel can stop, sequencing of fallible steps, counted loops over \<open>unsigned int\<close>, byte
  memory with little-endian 32-bit accesses, and the lemmas on words that every component uses.
  The collection \<open>addr_simps\<close> rewrites the bit masks of the paging code into
  \<open>take_bit\<close>, \<open>mask\<close> and friends; \<open>mem_simps\<close> evaluates reads after writes.
\<close>

unbundle bit_operations_syntax

named_theorems addr_simps
named_theorems mem_simps

section \<open>Machine types and ways to stop\<close>

type_synonym u8 = "8 word"
type_synonym u16 = "16 word"
type_synonym u32 = "32 word"
type_synonym u64 = "64 word"

text \<open>
  \<open>panic\<close> and an unhandled page fault never return to their caller; they are the \<open>Inl\<close>
  values of a \<open>kres\<close>. \<open>Halted\<close> is a loop the kernel never leaves, \<open>Undefined\<close> an access that C
  leaves undefined, such as an argument that was not passed.
\<close>

datatype panic = Panic string | PageFault u32 | Halted | Undefined

type_synonym 'a kres = "panic + 'a"

definition kbind :: "'e + 'a \<Rightarrow> ('a \<Rightarrow> 'e + 'b) \<Rightarrow> 'e + 'b" where
  "kbind m f = (case m of Inl e \<Rightarrow> Inl e | Inr x \<Rightarrow> f x)"

lemma kbind_simps [simp]: "kbind (Inl e) f = Inl e" "kbind (Inr x) f = f x"
  by (simp_all add: kbind_def)

lemma kbind_eq_Inr: "kbind m f = Inr y \<longleftrightarrow> (\<exists>x. m = Inr x \<and> f x = Inr y)"
  by (cases m) simp_all

lemma kbind_assoc: "kbind (kbind m f) g = kbind m (\<lambda>x. kbind (f x) g)"
  by (cases m) simp_all

lemma kbind_cong [fundef_cong]:
  "m = m' \<Longrightarrow> (\<And>x. m' = Inr x \<Longrightarrow> f x = f' x) \<Longrightarrow> kbind m f = kbind m' f'"
  by (cases m') simp_all

text \<open>A loop whose model is a partial function: \<open>None\<close> is a loop without end.\<close>

definition or_halt :: "'s option \<Rightarrow> 's kres" where
  "or_halt r = (case r of None \<Rightarrow> Inl Halted | Some s \<Rightarrow> Inr s)"

lemma or_halt_simps [simp]: "or_halt None = Inl Halted" "or_halt (Some s) = Inr s"
  by (simp_all add: or_halt_def)

text \<open>A list of statements that may fail, in a row.\<close>

fun fold_err :: "('x \<Rightarrow> 's \<Rightarrow> 'e + 's) \<Rightarrow> 'x list \<Rightarrow> 's \<Rightarrow> 'e + 's" where
  "fold_err f [] s = Inr s"
| "fold_err f (x # xs) s = kbind (f x s) (fold_err f xs)"

text \<open>The signed value of a C \<open>char\<close> on x86.\<close>

definition schar :: "char \<Rightarrow> int" where
  "schar c = (let n = of_char c :: int in if n \<ge> 128 then n - 256 else n)"

section \<open>Arithmetic of unsigned int\<close>

lemma unat_inc: "i < n \<Longrightarrow> unat (i + 1) = Suc (unat i)" for i n :: "'a::len word"
  by unat_arith

lemma inc_le_iff: "i < n \<Longrightarrow> i + 1 \<le> n" for i n :: "'a::len word"
  by (simp add: word_le_nat_alt unat_inc word_less_nat_alt Suc_le_eq)

lemma inc_le_iff': "i < n \<Longrightarrow> i + 1 \<le> k \<longleftrightarrow> i < k" for i n k :: "'a::len word"
  by (simp add: word_le_nat_alt unat_inc word_less_nat_alt Suc_le_eq)

lemma less_inc_iff: "i < n \<Longrightarrow> k < i + 1 \<longleftrightarrow> k \<le> i" for i n k :: "'a::len word"
  by (simp add: word_le_nat_alt unat_inc word_less_nat_alt less_Suc_eq_le)

lemma word_mod_div_inject:
  fixes j k :: "'a::len word"
  shows "j div d = k div d \<Longrightarrow> j mod d = k mod d \<Longrightarrow> j = k"
  by (metis word_mod_div_equality)

lemma take_bit_zero_bit: "take_bit n a = 0 \<Longrightarrow> bit a k \<Longrightarrow> n \<le> k" for a :: "'a::len word"
  by (metis bit_take_bit_iff bit_0_eq bot_apply bot_bool_def not_le)

lemma take_bit_self_iff: "take_bit n x = x \<longleftrightarrow> unat x < 2 ^ n" for x :: "'a::len word"
  by (simp add: word_unat_eq_iff unsigned_take_bit_eq take_bit_nat_eq_self_iff)

lemma take_bit_zero_iff: "take_bit n x = 0 \<longleftrightarrow> 2 ^ n dvd unat x" for x :: "'a::len word"
  by (simp add: word_unat_eq_iff unsigned_take_bit_eq take_bit_eq_0_iff)

text \<open>A base aligned to \<open>2 ^ n\<close> plus an offset below \<open>2 ^ n\<close>: the two parts do not mix.\<close>

lemma base_plus_or:
  fixes a i :: "'a::len word"
  assumes "take_bit n a = 0" "take_bit n i = i"
  shows "a + i = a OR i"
proof -
  have "\<not> (bit a k \<and> bit i k)" for k
    by (metis assms bit_take_bit_iff leD take_bit_zero_bit)
  then have "a AND i = 0"
    by (intro bit_word_eqI) (simp add: bit_and_iff)
  then show ?thesis
    by (rule disjunctive_add_eq_or)
qed

lemma base_plus_low:
  fixes a i :: "'a::len word"
  assumes "take_bit n a = 0" "take_bit n i = i"
  shows "take_bit n (a + i) = i"
  using assms by (simp add: base_plus_or [OF assms])

lemma base_plus_high:
  fixes a i :: "'a::len word"
  assumes "take_bit n a = 0" "take_bit n i = i"
  shows "(a + i) AND NOT (mask n) = a"
proof (rule bit_word_eqI)
  fix k assume k: "k < LENGTH('a)"
  have "bit i k \<Longrightarrow> k < n" "bit a k \<Longrightarrow> n \<le> k"
    by (metis assms(2) bit_take_bit_iff) (rule take_bit_zero_bit [OF assms(1)])
  then show "bit ((a + i) AND NOT (mask n)) k \<longleftrightarrow> bit a k"
    using k by (auto simp: base_plus_or [OF assms] bit_simps)
qed

lemma base_plus_inject:
  fixes a i :: "'a::len word"
  assumes "take_bit n a = 0" "take_bit n i = i" "take_bit n b = 0" "take_bit n j = j"
  shows "a + i = b + j \<longleftrightarrow> a = b \<and> i = j"
  using base_plus_high [OF assms(1,2)] base_plus_high [OF assms(3,4)]
    base_plus_low [OF assms(1,2)] base_plus_low [OF assms(3,4)]
  by metis

lemma split_base_low: "a = (a AND NOT (mask n)) + take_bit n a" for a :: "'a::len word"
proof -
  have "take_bit n (a AND NOT (mask n)) = 0"
    by (rule bit_word_eqI) (auto simp: bit_simps)
  then have "(a AND NOT (mask n)) + take_bit n a = (a AND NOT (mask n)) OR take_bit n a"
    by (rule base_plus_or) simp
  also have "\<dots> = a"
    by (rule bit_word_eqI) (auto simp: bit_simps)
  finally show ?thesis by simp
qed

lemma take_bit_high [simp]: "take_bit n (a AND NOT (mask n)) = 0" for a :: "'a::len word"
  by (rule bit_word_eqI) (auto simp: bit_simps)

lemma ucast_u8_u32 [simp]: "ucast (ucast x :: u32) = x" for x :: u8
  by (rule bit_word_eqI) (auto simp: bit_simps)

lemma unat_ucast_u32: "unat (ucast x :: u32) = unat x" for x :: u8
  using unsigned_less [of x, where ?'a = nat]
  by (simp add: unsigned_ucast_eq take_bit_nat_eq_self_iff)

section \<open>Counted loops\<close>

text \<open>\<^verbatim>\<open>for (unsigned int i = lo; i < n; i++) body\<close>, with and without a failing body.\<close>

function for_u32 :: "u32 \<Rightarrow> u32 \<Rightarrow> (u32 \<Rightarrow> 's \<Rightarrow> 's) \<Rightarrow> 's \<Rightarrow> 's" where
  "for_u32 i n f s = (if i < n then for_u32 (i + 1) n f (f i s) else s)"
  by pat_completeness auto
termination
  by (relation "measure (\<lambda>(i, n, f, s). unat n - unat i)") (auto simp: unat_inc word_less_nat_alt)

function for_err :: "u32 \<Rightarrow> u32 \<Rightarrow> (u32 \<Rightarrow> 's \<Rightarrow> 'e + 's) \<Rightarrow> 's \<Rightarrow> 'e + 's" where
  "for_err i n f s = (if i < n then kbind (f i s) (for_err (i + 1) n f) else Inr s)"
  by pat_completeness auto
termination
  by (relation "measure (\<lambda>(i, n, f, s). unat n - unat i)") (auto simp: unat_inc word_less_nat_alt)

declare for_u32.simps [simp del] for_err.simps [simp del]

lemma for_u32_done [simp]: "\<not> i < n \<Longrightarrow> for_u32 i n f s = s"
  by (simp add: for_u32.simps)

lemma for_err_done [simp]: "\<not> i < n \<Longrightarrow> for_err i n f s = Inr s"
  by (simp add: for_err.simps)

text \<open>The invariant rule of a counted loop: what holds before each round holds at the end.\<close>

lemma for_u32_invariant:
  assumes "P i s" "i \<le> n"
    and "\<And>k s. i \<le> k \<Longrightarrow> k < n \<Longrightarrow> P k s \<Longrightarrow> P (k + 1) (f k s)"
  shows "P n (for_u32 i n f s)"
  using assms
proof (induction i n f s rule: for_u32.induct)
  case (1 i n f s)
  show ?case
  proof (cases "i < n")
    case True
    have "P n (for_u32 (i + 1) n f (f i s))"
    proof (rule "1.IH" [OF True])
      show "P (i + 1) (f i s)" using "1.prems"(1,3) True by simp
      show "i + 1 \<le> n" using True by (rule inc_le_iff)
      show "P (k + 1) (f k s)" if "i + 1 \<le> k" "k < n" "P k s" for k s
        using "1.prems"(3) that True by (simp add: inc_le_iff' [OF True] order.strict_implies_order)
    qed
    then show ?thesis using True by (simp add: for_u32.simps [of i])
  next
    case False
    then show ?thesis using "1.prems" by (simp add: order.antisym)
  qed
qed

lemma for_err_invariant:
  assumes "P i s" "i \<le> n"
    and "\<And>k s. i \<le> k \<Longrightarrow> k < n \<Longrightarrow> P k s \<Longrightarrow> \<exists>s'. f k s = Inr s' \<and> P (k + 1) s'"
  shows "\<exists>s'. for_err i n f s = Inr s' \<and> P n s'"
  using assms
proof (induction i n f s rule: for_err.induct)
  case (1 i n f s)
  show ?case
  proof (cases "i < n")
    case True
    with "1.prems"(1,3) obtain s' where s': "f i s = Inr s'" "P (i + 1) s'" by blast
    have "\<exists>s''. for_err (i + 1) n f s' = Inr s'' \<and> P n s''"
    proof (rule "1.IH" [OF True s'(1)])
      show "P (i + 1) s'" by (rule s')
      show "i + 1 \<le> n" using True by (rule inc_le_iff)
      show "\<exists>s'. f k s = Inr s' \<and> P (k + 1) s'" if "i + 1 \<le> k" "k < n" "P k s" for k s
        using "1.prems"(3) that True by (simp add: inc_le_iff' [OF True] order.strict_implies_order)
    qed
    then show ?thesis using True s' by (simp add: for_err.simps [of i])
  next
    case False
    then show ?thesis using "1.prems" by (simp add: order.antisym)
  qed
qed

section \<open>Byte memory\<close>

type_synonym memory = "u32 \<Rightarrow> u8"

definition load32 :: "memory \<Rightarrow> u32 \<Rightarrow> u32" where
  "load32 m a = ucast (m a) OR push_bit 8 (ucast (m (a + 1)))
     OR push_bit 16 (ucast (m (a + 2))) OR push_bit 24 (ucast (m (a + 3)))"

definition store32 :: "memory \<Rightarrow> u32 \<Rightarrow> u32 \<Rightarrow> memory" where
  "store32 m a v = m(a := ucast v, a + 1 := ucast (drop_bit 8 v),
     a + 2 := ucast (drop_bit 16 v), a + 3 := ucast (drop_bit 24 v))"

abbreviation aligned4 :: "u32 \<Rightarrow> bool" where
  "aligned4 a \<equiv> take_bit 2 a = 0"

abbreviation aligned_page :: "u32 \<Rightarrow> bool" where
  "aligned_page a \<equiv> take_bit 12 a = 0"

lemma load32_store32_same [simp, mem_simps]: "load32 (store32 m a v) a = v"
proof -
  have "n - 16 < 8" if "\<not> bit v (24 + (n - 24))" "bit v n" for n :: nat
    using that by (cases "24 \<le> n") auto
  then show ?thesis
    by (auto simp: load32_def store32_def bit_simps intro!: bit_word_eqI)
qed

lemma store32_other: "a \<notin> {b, b + 1, b + 2, b + 3} \<Longrightarrow> store32 m b v a = m a"
  by (auto simp: store32_def)

lemma aligned4_apart:
  assumes "aligned4 a" "aligned4 b" "a \<noteq> b" "i < 4" "j < 4"
  shows "a + i \<noteq> b + j"
proof -
  have "take_bit 2 i = i" "take_bit 2 j = j"
    using assms(4,5) by (simp_all add: take_bit_self_iff word_less_nat_alt)
  with assms(1-3) show ?thesis by (simp add: base_plus_inject)
qed

lemma load32_store32_other [mem_simps]:
  assumes "aligned4 a" "aligned4 b" "a \<noteq> b"
  shows "load32 (store32 m b v) a = load32 m a"
proof -
  have "store32 m b v (a + i) = m (a + i)" if "i < 4" for i
    using aligned4_apart [OF assms that, of 0] aligned4_apart [OF assms that, of 1]
      aligned4_apart [OF assms that, of 2] aligned4_apart [OF assms that, of 3]
    by (auto simp: store32_def)
  from this [of 0] this [of 1] this [of 2] this [of 3] show ?thesis
    by (simp add: load32_def)
qed

section \<open>Page arithmetic\<close>

lemma page_mask [addr_simps]: "(0xFFFFF000 :: u32) = NOT (mask 12)"
  by (simp add: mask_eq_exp_minus_1)

lemma offset_mask [addr_simps]: "x AND 0xFFF = take_bit 12 x" for x :: u32
  by (simp add: take_bit_eq_mask mask_eq_exp_minus_1)

lemma index_mask [addr_simps]: "x AND 0x3FF = take_bit 10 x" for x :: u32
  by (simp add: take_bit_eq_mask mask_eq_exp_minus_1)

lemma page_times [addr_simps]: "x * 4096 = push_bit 12 x" for x :: u32
  by (simp add: push_bit_eq_mult)

lemma page_div [addr_simps]: "x div 4096 = drop_bit 12 x" for x :: u32
  by (simp add: drop_bit_eq_div)

lemma aligned_push [simp]: "take_bit 12 (push_bit 12 x) = 0" for x :: u32
  by (rule bit_word_eqI) (auto simp: bit_simps)

lemma aligned_page_4: "aligned_page a \<Longrightarrow> aligned4 a"
  using take_bit_take_bit [of 2 12 a] by simp

end
