(* ===== verification/Ports.thy ===== *)
theory Ports
  imports Neo_Prelude
begin

text \<open>
  Port input and output (src/src/kernel/asm/io.h), the serial line (src/src/drivers/serial.c)
  and the CMOS clock (src/src/kernel/cmos.h). The devices are not part of the program: the state
  carries a function \<open>io_dev\<close> that answers a read from the whole history of port accesses,
  which is the most a deterministic device can depend on. \<open>io_log\<close> is that history, newest
  access first.

  \<open>kio\<close> is the base record of the kernel's state; the other components extend it.
  \<open>tick\<close> is the timer count of src/src/kernel/sched.c, read by the console's cursor.
\<close>

datatype io_event =
    Outb u16 u8 | Outw u16 u16 | Outl u16 u32
  | Inb u16 u8 | Inw u16 u16 | Inl_port u16 u32

record kio =
  io_log :: "io_event list"
  io_dev :: "io_event list \<Rightarrow> u16 \<Rightarrow> u32"
  tick :: u32

section \<open>asm/io.h\<close>

definition outb :: "u16 \<Rightarrow> u8 \<Rightarrow> 'a kio_scheme \<Rightarrow> 'a kio_scheme" where
  "outb port val s = s\<lparr>io_log := Outb port val # io_log s\<rparr>"

definition inb :: "u16 \<Rightarrow> 'a kio_scheme \<Rightarrow> u8 \<times> 'a kio_scheme" where
  "inb port s = (let val = ucast (io_dev s (io_log s) port)
     in (val, s\<lparr>io_log := Inb port val # io_log s\<rparr>))"

definition outw :: "u16 \<Rightarrow> u16 \<Rightarrow> 'a kio_scheme \<Rightarrow> 'a kio_scheme" where
  "outw port val s = s\<lparr>io_log := Outw port val # io_log s\<rparr>"

definition inw :: "u16 \<Rightarrow> 'a kio_scheme \<Rightarrow> u16 \<times> 'a kio_scheme" where
  "inw port s = (let val = ucast (io_dev s (io_log s) port)
     in (val, s\<lparr>io_log := Inw port val # io_log s\<rparr>))"

definition outl :: "u16 \<Rightarrow> u32 \<Rightarrow> 'a kio_scheme \<Rightarrow> 'a kio_scheme" where
  "outl port val s = s\<lparr>io_log := Outl port val # io_log s\<rparr>"

definition inl :: "u16 \<Rightarrow> 'a kio_scheme \<Rightarrow> u32 \<times> 'a kio_scheme" where
  "inl port s = (let val = io_dev s (io_log s) port
     in (val, s\<lparr>io_log := Inl_port port val # io_log s\<rparr>))"

lemma inb_simps [simp]:
  "io_dev (snd (inb p s)) = io_dev s"
  "io_log (snd (inb p s)) = Inb p (fst (inb p s)) # io_log s"
  "fst (inb p s) = ucast (io_dev s (io_log s) p)"
  by (simp_all add: inb_def Let_def)

lemma outb_simps [simp]:
  "io_dev (outb p v s) = io_dev s"
  "io_log (outb p v s) = Outb p v # io_log s"
  "tick (outb p v s) = tick s"
  by (simp_all add: outb_def)

section \<open>drivers/serial.c\<close>

definition COM1 :: u16 where
  "COM1 = 0x3F8"

definition serial_init :: "'a kio_scheme \<Rightarrow> 'a kio_scheme" where
  "serial_init s =
    (let s = outb (COM1 + 3) 0x80 s;
         s = outb (COM1 + 0) 0x01 s;
         s = outb (COM1 + 1) 0x00 s;
         s = outb (COM1 + 3) 0x03 s;
         s = outb (COM1 + 2) 0xC7 s
     in outb (COM1 + 1) 0x00 s)"

text \<open>The wait for the transmitter ends only if the device reports it empty; \<open>None\<close> is a wait without end.\<close>

partial_function (option) serial_wait :: "'a kio_scheme \<Rightarrow> 'a kio_scheme option" where
  "serial_wait s =
    (if fst (inb (COM1 + 5) s) AND 0x20 = 0 then serial_wait (snd (inb (COM1 + 5) s))
     else Some (snd (inb (COM1 + 5) s)))"

definition serial_putchar :: "char \<Rightarrow> 'a kio_scheme \<Rightarrow> 'a kio_scheme option" where
  "serial_putchar c s = map_option (outb (COM1 + 0) (of_char c)) (serial_wait s)"

fun serial_write :: "string \<Rightarrow> 'a kio_scheme \<Rightarrow> 'a kio_scheme option" where
  "serial_write [] s = Some s"
| "serial_write (c # cs) s = Option.bind (serial_putchar c s) (serial_write cs)"

text \<open>The bytes a history has put on the line, oldest first.\<close>

fun sent_bytes :: "io_event list \<Rightarrow> u8 list" where
  "sent_bytes [] = []"
| "sent_bytes (Outb p v # l) = sent_bytes l @ (if p = COM1 then [v] else [])"
| "sent_bytes (_ # l) = sent_bytes l"

text \<open>\<open>polls n s\<close>: the state after \<open>n\<close> reads of the line status register.\<close>

definition polls :: "nat \<Rightarrow> 'a kio_scheme \<Rightarrow> 'a kio_scheme" where
  "polls n s = ((\<lambda>s. snd (inb (COM1 + 5) s)) ^^ n) s"

definition tx_ready :: "'a kio_scheme \<Rightarrow> bool" where
  "tx_ready s \<longleftrightarrow> fst (inb (COM1 + 5) s) AND 0x20 \<noteq> 0"

lemma serial_wait_ready:
  assumes "tx_ready (polls n s)" "\<forall>m < n. \<not> tx_ready (polls m s)"
  shows "serial_wait s = Some (polls (Suc n) s)"
  using assms
proof (induction n arbitrary: s)
  case 0
  then show ?case
    by (simp add: polls_def tx_ready_def serial_wait.simps [of s])
next
  case (Suc n)
  let ?t = "snd (inb (COM1 + 5) s)"
  have p: "polls (Suc k) s = polls k ?t" for k
    using funpow_swap1 [of "\<lambda>s. snd (inb (COM1 + 5) s)" k s] by (simp add: polls_def)
  from Suc.prems(2) have "\<not> tx_ready (polls 0 s)" by blast
  then have step: "serial_wait s = serial_wait ?t"
    by (simp add: polls_def tx_ready_def serial_wait.simps [of s])
  have "\<not> tx_ready (polls m ?t)" if "m < n" for m
    using Suc.prems(2) that p [of m] by (metis Suc_mono)
  with Suc.IH [of ?t] Suc.prems(1) show ?case
    by (simp add: step p)
qed

lemma sent_bytes_polls: "sent_bytes (io_log (polls n s)) = sent_bytes (io_log s)"
  by (induction n) (simp_all add: polls_def)

lemma serial_putchar_sends:
  assumes "\<exists>n. tx_ready (polls n s)"
  shows "\<exists>s'. serial_putchar c s = Some s' \<and>
    sent_bytes (io_log s') = sent_bytes (io_log s) @ [of_char c]"
proof -
  from assms obtain n where "tx_ready (polls n s)" "\<forall>m < n. \<not> tx_ready (polls m s)"
    using exists_least_iff [of "\<lambda>n. tx_ready (polls n s)"] by blast
  then have "serial_wait s = Some (polls (Suc n) s)" by (rule serial_wait_ready)
  then show ?thesis
    by (simp add: serial_putchar_def sent_bytes_polls)
qed

section \<open>cmos.h\<close>

definition cmos_read :: "u8 \<Rightarrow> 'a kio_scheme \<Rightarrow> u8 \<times> 'a kio_scheme" where
  "cmos_read reg s = inb 0x71 (outb 0x70 reg s)"

definition bcd_value :: "u32 \<Rightarrow> u32" where
  "bcd_value b = (b AND 0xF) + drop_bit 4 b * 10"

definition cmos_get :: "u8 \<Rightarrow> 'a kio_scheme \<Rightarrow> u32 \<times> 'a kio_scheme" where
  "cmos_get reg s = (let (b, s) = cmos_read reg s in (bcd_value (ucast b), s))"

definition cmos_get_second :: "'a kio_scheme \<Rightarrow> u32 \<times> 'a kio_scheme" where
  "cmos_get_second = cmos_get 0x00"

definition cmos_get_minute :: "'a kio_scheme \<Rightarrow> u32 \<times> 'a kio_scheme" where
  "cmos_get_minute = cmos_get 0x02"

definition cmos_get_hour :: "'a kio_scheme \<Rightarrow> u32 \<times> 'a kio_scheme" where
  "cmos_get_hour = cmos_get 0x04"

definition cmos_get_day :: "'a kio_scheme \<Rightarrow> u32 \<times> 'a kio_scheme" where
  "cmos_get_day = cmos_get 0x07"

definition cmos_get_month :: "'a kio_scheme \<Rightarrow> u32 \<times> 'a kio_scheme" where
  "cmos_get_month = cmos_get 0x08"

definition cmos_get_year :: "'a kio_scheme \<Rightarrow> u32 \<times> 'a kio_scheme" where
  "cmos_get_year = cmos_get 0x09"

definition cmos_get_century :: "'a kio_scheme \<Rightarrow> u32 \<times> 'a kio_scheme" where
  "cmos_get_century = cmos_get 0x32"

text \<open>The binary-coded decimal of a two-digit number, the format of the clock's registers.\<close>

definition bcd_encode :: "nat \<Rightarrow> u8" where
  "bcd_encode n = of_nat (16 * (n div 10) + n mod 10)"

lemma bcd_value_encode:
  assumes "n < 100"
  shows "bcd_value (ucast (bcd_encode n)) = of_nat n"
proof -
  let ?m = "16 * (n div 10) + n mod 10"
  have "unat (bcd_encode n) = ?m"
    unfolding bcd_encode_def using assms by (intro of_nat_inverse) auto
  then have u: "unat (ucast (bcd_encode n) :: u32) = ?m"
    by (simp add: unat_ucast_u32)
  have low: "b AND 0xF = b mod 16" for b :: u32
    using take_bit_eq_mask [of 4 b] by (simp add: mask_eq_exp_minus_1 take_bit_eq_mod)
  have "unat (ucast (bcd_encode n) AND 0xF :: u32) = n mod 10"
    using u by (simp add: low unat_mod)
  moreover have "unat (drop_bit 4 (ucast (bcd_encode n)) :: u32) = n div 10"
    using u by (simp add: drop_bit_eq_div unat_div)
  ultimately have "unat (bcd_value (ucast (bcd_encode n))) = n"
    using assms by (simp add: bcd_value_def unat_word_ariths)
  then show ?thesis
    by (metis of_nat_unat ucast_id)
qed

lemma cmos_get_reads:
  assumes "\<And>l. io_dev s (Outb 0x70 reg # l) 0x71 = ucast (bcd_encode n)" "n < 100"
  shows "fst (cmos_get reg s) = of_nat n"
  using assms
  by (simp add: cmos_get_def cmos_read_def case_prod_beta bcd_value_encode)

section \<open>The serial line and the clock\<close>

lemma serial_wait_keeps:
  assumes "serial_wait s = Some t"
  shows "\<exists>l. t = s\<lparr>io_log := l\<rparr>"
proof (rule serial_wait.raw_induct [OF _ assms])
  fix wait :: "'a kio_scheme \<Rightarrow> 'a kio_scheme option" and s t :: "'a kio_scheme"
  let ?u = "snd (inb (COM1 + 5) s)"
  assume IH: "\<And>x y. wait x = Some y \<Longrightarrow> \<exists>l. y = x\<lparr>io_log := l\<rparr>"
    and t: "(if fst (inb (COM1 + 5) s) AND 0x20 = 0 then wait ?u else Some ?u) = Some t"
  have "?u = s\<lparr>io_log := Inb (COM1 + 5) (fst (inb (COM1 + 5) s)) # io_log s\<rparr>"
    by (simp add: inb_def Let_def)
  then obtain l where u: "?u = s\<lparr>io_log := l\<rparr>" by blast
  show "\<exists>l. t = s\<lparr>io_log := l\<rparr>"
  proof (cases "fst (inb (COM1 + 5) s) AND 0x20 = 0")
    case True
    with IH [of ?u t] t u show ?thesis by auto
  next
    case False
    with t u show ?thesis by auto
  qed
qed

text \<open>\<open>serial_ok s\<close>: whatever was sent before, the transmitter is eventually found empty. It depends on the
  device alone.\<close>

definition serial_ok :: "'a kio_scheme \<Rightarrow> bool" where
  "serial_ok s \<longleftrightarrow> (\<forall>l. \<exists>n. tx_ready (polls n (s\<lparr>io_log := l\<rparr>)))"

lemma polls_same:
  assumes "io_dev t = io_dev s" "io_log t = io_log s"
  shows "io_dev (polls n t) = io_dev (polls n s) \<and> io_log (polls n t) = io_log (polls n s)"
  using assms by (induction n) (simp_all add: polls_def)

lemma serial_ok_dev: "io_dev t = io_dev s \<Longrightarrow> serial_ok t = serial_ok s"
  using polls_same [of "t\<lparr>io_log := l\<rparr>" "s\<lparr>io_log := l\<rparr>" for l] by (simp add: serial_ok_def tx_ready_def)

lemma serial_putchar_keeps:
  assumes "serial_putchar c s = Some t"
  shows "\<exists>l. t = s\<lparr>io_log := l\<rparr>"
proof -
  obtain w where w: "serial_wait s = Some w" "t = outb (COM1 + 0) (of_char c) w"
    using assms by (auto simp: serial_putchar_def)
  with serial_wait_keeps [OF w(1)] show ?thesis by (auto simp: outb_def)
qed

lemma serial_putchar_ok:
  assumes "serial_ok s"
  shows "\<exists>l. serial_putchar c s = Some (s\<lparr>io_log := l\<rparr>) \<and> sent_bytes l = sent_bytes (io_log s) @ [of_char c]"
proof -
  have "\<exists>n. tx_ready (polls n (s\<lparr>io_log := io_log s\<rparr>))" using assms unfolding serial_ok_def by blast
  then have "\<exists>n. tx_ready (polls n s)" by simp
  from serial_putchar_sends [OF this, of c] obtain t where
    t: "serial_putchar c s = Some t" "sent_bytes (io_log t) = sent_bytes (io_log s) @ [of_char c]" by blast
  with serial_putchar_keeps [OF t(1)] show ?thesis by auto
qed

text \<open>C37: as long as the transmitter is eventually found empty whatever was sent before,
  \<open>serial_write\<close> returns and has put exactly the bytes of the string on the line, in order.\<close>

theorem serial_write_sends:
  assumes "\<And>l. \<exists>n. tx_ready (polls n (s\<lparr>io_log := l\<rparr>))"
  shows "\<exists>s'. serial_write cs s = Some s' \<and>
    sent_bytes (io_log s') = sent_bytes (io_log s) @ map of_char cs"
  using assms
proof (induction cs arbitrary: s)
  case Nil
  then show ?case by simp
next
  case (Cons c cs)
  have "serial_ok s" using Cons.prems by (simp add: serial_ok_def)
  from serial_putchar_ok [OF this, of c] obtain l where
    l: "serial_putchar c s = Some (s\<lparr>io_log := l\<rparr>)" "sent_bytes l = sent_bytes (io_log s) @ [of_char c]" by blast
  have "\<exists>n. tx_ready (polls n (s\<lparr>io_log := l, io_log := l'\<rparr>))" for l' using Cons.prems by simp
  from Cons.IH [OF this] l show ?case by auto
qed

definition demo_kio :: kio where
  "demo_kio = \<lparr>io_log = [], io_dev = (\<lambda>l p. if p = 0x3FD then 0x20 else 0x59), tick = 0\<rparr>"

theorem serial_write_sends_witness:
  "\<exists>s'. serial_write ''ok'' demo_kio = Some s' \<and> sent_bytes (io_log s') = [111, 107]"
proof -
  have "tx_ready (polls 0 (demo_kio\<lparr>io_log := l\<rparr>))" for l
    by (simp add: tx_ready_def polls_def demo_kio_def inb_def COM1_def)
  then have "\<exists>n. tx_ready (polls n (demo_kio\<lparr>io_log := l\<rparr>))" for l by blast
  from serial_write_sends [OF this, of "''ok''"] show ?thesis
    by (simp add: demo_kio_def)
qed

text \<open>The clock registers: when the chip answers the selected register with the
  binary-coded decimal of a number below 100, \<open>cmos_get\<close> returns that number.\<close>

theorem clock_register_decoded:
  assumes "\<And>l. io_dev s (Outb 0x70 reg # l) 0x71 = ucast (bcd_encode n)" "n < 100"
  shows "fst (cmos_get reg s) = of_nat n"
  using assms by (rule cmos_get_reads)

theorem clock_register_decoded_witness: "fst (cmos_get_minute demo_kio) = 59"
proof -
  have "io_dev demo_kio (Outb 0x70 0x02 # l) 0x71 = ucast (bcd_encode 59)" for l
    by (simp add: demo_kio_def bcd_encode_def)
  from clock_register_decoded [OF this] show ?thesis
    by (simp add: cmos_get_minute_def)
qed

end
