(* ===== verification/Text_Console.thy ===== *)
theory Text_Console
  imports Neo_Prelude
begin

text \<open>
  The contract of a character console, shared by the VGA text driver and the framebuffer
  console: the cursor stays on the screen, a plain character is put at the cursor and moves it
  one column, a newline starts the next row, and at the bottom row everything moves up by one.
  What whole strings leave on the screen is proved here once, for both drivers.
\<close>

definition plain :: "char \<Rightarrow> bool" where
  "plain c \<longleftrightarrow> c \<notin> {CHR 0x0A, CHR 0x0D, CHR 0x08, CHR 0x09}"

locale text_console =
  fixes putc :: "char \<Rightarrow> 's \<Rightarrow> 's"
    and cell :: "'s \<Rightarrow> int \<Rightarrow> int \<Rightarrow> 'c"
    and row :: "'s \<Rightarrow> int" and col :: "'s \<Rightarrow> int"
    and height :: "'s \<Rightarrow> int" and width :: "'s \<Rightarrow> int"
    and ink :: "'s \<Rightarrow> char \<Rightarrow> 'c"
    and inv :: "'s \<Rightarrow> bool"
  assumes inv_putc: "inv s \<Longrightarrow> inv (putc c s)"
    and inv_on: "inv s \<Longrightarrow> 0 \<le> row s \<and> row s < height s \<and> 0 \<le> col s \<and> col s < width s"
    and same_putc: "inv s \<Longrightarrow> ink (putc c s) = ink s \<and> height (putc c s) = height s \<and> width (putc c s) = width s"
    and plain_putc: "inv s \<Longrightarrow> plain c \<Longrightarrow> col s + 1 < width s \<Longrightarrow>
      row (putc c s) = row s \<and> col (putc c s) = col s + 1 \<and>
      (\<forall>r k. 0 \<le> r \<longrightarrow> r < height s \<longrightarrow> 0 \<le> k \<longrightarrow> k < width s \<longrightarrow>
         cell (putc c s) r k = (if r = row s \<and> k = col s then ink s c else cell s r k))"
    and newline_scrolls: "inv s \<Longrightarrow> row s + 1 = height s \<Longrightarrow>
      row (putc (CHR 0x0A) s) = row s \<and> col (putc (CHR 0x0A) s) = 0 \<and>
      (\<forall>r k. 0 \<le> r \<longrightarrow> r < height s \<longrightarrow> 0 \<le> k \<longrightarrow> k < width s \<longrightarrow>
         cell (putc (CHR 0x0A) s) r k = (if r + 1 < height s then cell s (r + 1) k else ink s CHR '' ''))"
    and newline_moves: "inv s \<Longrightarrow> row s + 1 < height s \<Longrightarrow>
      row (putc (CHR 0x0A) s) = row s + 1 \<and> col (putc (CHR 0x0A) s) = 0 \<and>
      (\<forall>r k. 0 \<le> r \<longrightarrow> r < height s \<longrightarrow> 0 \<le> k \<longrightarrow> k < width s \<longrightarrow>
         cell (putc (CHR 0x0A) s) r k = cell s r k)"
begin

lemma inv_puts: "inv s \<Longrightarrow> inv (fold putc cs s)"
  by (induction cs arbitrary: s) (simp_all add: inv_putc)

text \<open>A plain string that fits on the current row is shown there, and nothing else changes.\<close>

lemma puts_shown:
  assumes "inv s" "\<forall>c \<in> set cs. plain c" "col s + int (length cs) < width s"
  shows "row (fold putc cs s) = row s \<and> col (fold putc cs s) = col s + int (length cs) \<and>
    (\<forall>r k. 0 \<le> r \<longrightarrow> r < height s \<longrightarrow> 0 \<le> k \<longrightarrow> k < width s \<longrightarrow>
       cell (fold putc cs s) r k =
       (if r = row s \<and> col s \<le> k \<and> k < col s + int (length cs)
        then ink s (cs ! nat (k - col s)) else cell s r k))"
  using assms
proof (induction cs arbitrary: s)
  case Nil
  then show ?case by auto
next
  case (Cons c cs)
  let ?t = "putc c s"
  have c: "plain c" "col s + 1 < width s" using Cons.prems by simp_all
  note st = plain_putc [OF Cons.prems(1) c] same_putc [OF Cons.prems(1), of c]
  have IH: "row (fold putc cs ?t) = row ?t \<and> col (fold putc cs ?t) = col ?t + int (length cs) \<and>
    (\<forall>r k. 0 \<le> r \<longrightarrow> r < height ?t \<longrightarrow> 0 \<le> k \<longrightarrow> k < width ?t \<longrightarrow>
       cell (fold putc cs ?t) r k =
       (if r = row ?t \<and> col ?t \<le> k \<and> k < col ?t + int (length cs)
        then ink ?t (cs ! nat (k - col ?t)) else cell ?t r k))"
    using Cons.prems st by (intro Cons.IH inv_putc) auto
  have "cell (fold putc cs ?t) r k =
      (if r = row s \<and> col s \<le> k \<and> k < col s + int (length (c # cs))
       then ink s ((c # cs) ! nat (k - col s)) else cell s r k)"
    if "0 \<le> r" "r < height s" "0 \<le> k" "k < width s" for r k
  proof (cases "col s + 1 \<le> k")
    case True
    then have "nat (k - col s) - Suc 0 = nat (k - (col s + 1))" by simp
    with True show ?thesis using that IH st by auto
  next
    case False
    then show ?thesis using that IH st by auto
  qed
  then show ?case using IH st by simp
qed

text \<open>A plain string and a newline on the bottom row: the string ends up one row higher.\<close>

lemma line_scrolls_up:
  assumes "inv s" "\<forall>c \<in> set cs. plain c" "col s + int (length cs) < width s"
    and "row s + 1 = height s" "0 < row s" "i < length cs"
  shows "cell (putc (CHR 0x0A) (fold putc cs s)) (row s - 1) (col s + int i) = ink s (cs ! i)"
proof -
  let ?t = "fold putc cs s"
  have same: "height ?t = height s \<and> width ?t = width s \<and> ink ?t = ink s"
    using assms(1) by (induction cs arbitrary: s) (auto simp: same_putc inv_putc)
  have t: "inv ?t" by (rule inv_puts [OF assms(1)])
  have on: "0 \<le> col s" using inv_on [OF assms(1)] by simp
  have "cell (putc (CHR 0x0A) ?t) (row s - 1) (col s + int i) = cell ?t (row s) (col s + int i)"
    using newline_scrolls [OF t] same puts_shown [OF assms(1-3)] assms on by auto
  also have "\<dots> = ink s (cs ! i)"
    using puts_shown [OF assms(1-3)] inv_on [OF assms(1)] assms on by auto
  finally show ?thesis .
qed

end

end
