(* ===== verification/Vga.thy ===== *)
theory Vga
  imports Ports Text_Console
begin

text \<open>
  The VGA text driver, src/src/drivers/vga.c and vga.h. The text buffer at 0xB8000 is
  \<open>vga_buffer\<close>, indexed as the C array is; row, column and colour are the file's static
  variables. \<open>vga_inv\<close> keeps the cursor on the 80 by 25 screen, so that no store leaves the
  buffer, and the interpretation \<open>vgc\<close> of the character console gives what strings show.
\<close>

record vga = kio +
  vga_buffer :: "nat \<Rightarrow> u16"
  vga_row :: u32
  vga_column :: u32
  vga_color :: u8

definition VGA_WIDTH :: u32 where "VGA_WIDTH = 80"
definition VGA_HEIGHT :: u32 where "VGA_HEIGHT = 25"

datatype vga_colour = VGA_BLACK | VGA_BLUE | VGA_GREEN | VGA_CYAN | VGA_RED | VGA_MAGENTA | VGA_BROWN
  | VGA_LIGHT_GREY | VGA_DARK_GREY | VGA_LIGHT_BLUE | VGA_LIGHT_GREEN | VGA_LIGHT_CYAN | VGA_LIGHT_RED
  | VGA_LIGHT_MAGENTA | VGA_LIGHT_BROWN | VGA_WHITE

fun colour_code :: "vga_colour \<Rightarrow> u8" where
  "colour_code VGA_BLACK = 0" | "colour_code VGA_BLUE = 1" | "colour_code VGA_GREEN = 2"
| "colour_code VGA_CYAN = 3" | "colour_code VGA_RED = 4" | "colour_code VGA_MAGENTA = 5"
| "colour_code VGA_BROWN = 6" | "colour_code VGA_LIGHT_GREY = 7" | "colour_code VGA_DARK_GREY = 8"
| "colour_code VGA_LIGHT_BLUE = 9" | "colour_code VGA_LIGHT_GREEN = 10" | "colour_code VGA_LIGHT_CYAN = 11"
| "colour_code VGA_LIGHT_RED = 12" | "colour_code VGA_LIGHT_MAGENTA = 13"
| "colour_code VGA_LIGHT_BROWN = 14" | "colour_code VGA_WHITE = 15"

definition vga_entry_color :: "vga_colour \<Rightarrow> vga_colour \<Rightarrow> u8" where
  "vga_entry_color fg bg = colour_code fg OR push_bit 4 (colour_code bg)"

definition vga_entry :: "u8 \<Rightarrow> u8 \<Rightarrow> u16" where
  "vga_entry uc color = ucast uc OR push_bit 8 (ucast color)"

definition vga_set :: "u32 \<Rightarrow> u16 \<Rightarrow> 'a vga_scheme \<Rightarrow> 'a vga_scheme" where
  "vga_set index v s = s\<lparr>vga_buffer := (vga_buffer s)(unat index := v)\<rparr>"

definition vga_update_cursor :: "'a vga_scheme \<Rightarrow> 'a vga_scheme" where
  "vga_update_cursor s =
    (let pos = ucast (vga_row s * VGA_WIDTH + vga_column s) :: u16;
         s = outb 0x3D4 0x0E s;
         s = outb 0x3D5 (ucast (drop_bit 8 pos)) s;
         s = outb 0x3D4 0x0F s
     in outb 0x3D5 (ucast (pos AND 0xFF)) s)"

definition vga_init :: "'a vga_scheme \<Rightarrow> 'a vga_scheme" where
  "vga_init s =
    (let s = s\<lparr>vga_row := 0, vga_column := 0, vga_color := vga_entry_color VGA_LIGHT_GREY VGA_BLACK\<rparr>
     in for_u32 0 VGA_HEIGHT (\<lambda>y. for_u32 0 VGA_WIDTH (\<lambda>x s.
          vga_set (y * VGA_WIDTH + x) (vga_entry (of_char CHR '' '') (vga_color s)) s)) s)"

definition vga_setcolor :: "u8 \<Rightarrow> 'a vga_scheme \<Rightarrow> 'a vga_scheme" where
  "vga_setcolor color s = s\<lparr>vga_color := color\<rparr>"

definition vga_put_at :: "char \<Rightarrow> 'a vga_scheme \<Rightarrow> 'a vga_scheme" where
  "vga_put_at c s =
    (if c = CHR 0x0A then s\<lparr>vga_column := 0, vga_row := vga_row s + 1\<rparr>
     else if c = CHR 0x0D then s\<lparr>vga_column := 0\<rparr>
     else if c = CHR 0x08 then
       let s = (if vga_column s > 0 then s\<lparr>vga_column := vga_column s - 1\<rparr>
                else if vga_row s > 0 then s\<lparr>vga_row := vga_row s - 1, vga_column := VGA_WIDTH - 1\<rparr>
                else s);
           index = vga_row s * VGA_WIDTH + vga_column s
       in vga_set index (vga_entry (of_char CHR '' '') (vga_color s)) s
     else if c = CHR 0x09 then s\<lparr>vga_column := (vga_column s + 4) AND NOT 3\<rparr>
     else
       let index = vga_row s * VGA_WIDTH + vga_column s;
           s = vga_set index (vga_entry (of_char c) (vga_color s)) s
       in s\<lparr>vga_column := vga_column s + 1\<rparr>)"

definition vga_scroll :: "'a vga_scheme \<Rightarrow> 'a vga_scheme" where
  "vga_scroll s =
    (let s = for_u32 0 (VGA_HEIGHT - 1) (\<lambda>y. for_u32 0 VGA_WIDTH (\<lambda>x s.
               vga_set (y * VGA_WIDTH + x) (vga_buffer s (unat ((y + 1) * VGA_WIDTH + x))) s)) s;
         s = for_u32 0 VGA_WIDTH (\<lambda>x s.
               vga_set ((VGA_HEIGHT - 1) * VGA_WIDTH + x)
                 (vga_entry (of_char CHR '' '') (vga_color s)) s) s
     in s\<lparr>vga_row := VGA_HEIGHT - 1\<rparr>)"

definition vga_putchar :: "char \<Rightarrow> 'a vga_scheme \<Rightarrow> 'a vga_scheme" where
  "vga_putchar c s =
    (let s = vga_put_at c s;
         s = (if vga_column s \<ge> VGA_WIDTH then s\<lparr>vga_column := 0, vga_row := vga_row s + 1\<rparr> else s);
         s = (if vga_row s \<ge> VGA_HEIGHT then vga_scroll s else s)
     in vga_update_cursor s)"

definition vga_cursor_up :: "'a vga_scheme \<Rightarrow> 'a vga_scheme" where
  "vga_cursor_up s = vga_update_cursor (if vga_row s > 0 then s\<lparr>vga_row := vga_row s - 1\<rparr> else s)"

definition vga_cursor_down :: "'a vga_scheme \<Rightarrow> 'a vga_scheme" where
  "vga_cursor_down s =
    vga_update_cursor (if vga_row s < VGA_HEIGHT - 1 then s\<lparr>vga_row := vga_row s + 1\<rparr> else s)"

definition vga_cursor_left :: "'a vga_scheme \<Rightarrow> 'a vga_scheme" where
  "vga_cursor_left s =
    vga_update_cursor
      (if vga_column s > 0 then s\<lparr>vga_column := vga_column s - 1\<rparr>
       else if vga_row s > 0 then s\<lparr>vga_row := vga_row s - 1, vga_column := VGA_WIDTH - 1\<rparr>
       else s)"

definition vga_cursor_right :: "'a vga_scheme \<Rightarrow> 'a vga_scheme" where
  "vga_cursor_right s =
    vga_update_cursor
      (if vga_column s < VGA_WIDTH - 1 then s\<lparr>vga_column := vga_column s + 1\<rparr>
       else if vga_row s < VGA_HEIGHT - 1 then s\<lparr>vga_row := vga_row s + 1, vga_column := 0\<rparr>
       else s)"

definition vga_write :: "string \<Rightarrow> 'a vga_scheme \<Rightarrow> 'a vga_scheme" where
  "vga_write str s = fold vga_putchar str s"

section \<open>Scrolling\<close>

lemma vga_index:
  assumes "y < 25" "x < 80"
  shows "unat (y * VGA_WIDTH + x) = unat y * 80 + unat x"
proof -
  have "unat y < 25" "unat x < 80" using assms by (simp_all add: word_less_nat_alt)
  then show ?thesis by (simp add: VGA_WIDTH_def unat_word_ariths)
qed

lemma vga_buffer_id: "b = vga_buffer s \<Longrightarrow> s = s\<lparr>vga_buffer := b\<rparr>"
  by simp

lemma vga_copy_row:
  assumes "y < 24"
  shows "for_u32 0 VGA_WIDTH (\<lambda>x s. vga_set (y * VGA_WIDTH + x)
      (vga_buffer s (unat ((y + 1) * VGA_WIDTH + x))) s) s =
    s\<lparr>vga_buffer := (\<lambda>i. if unat y * 80 \<le> i \<and> i < unat y * 80 + 80 then vga_buffer s (i + 80)
       else vga_buffer s i)\<rparr>"
proof -
  let ?P = "\<lambda>k t. t = s\<lparr>vga_buffer := (\<lambda>i. if unat y * 80 \<le> i \<and> i < unat y * 80 + unat k
      then vga_buffer s (i + 80) else vga_buffer s i)\<rparr>"
  have y: "unat y < 24" "unat (y + 1) = Suc (unat y)" "y < 25" "y + 1 < 25"
    using assms unat_inc [OF assms] by (simp_all add: word_less_nat_alt)
  have "?P VGA_WIDTH (for_u32 0 VGA_WIDTH (\<lambda>x s. vga_set (y * VGA_WIDTH + x)
      (vga_buffer s (unat ((y + 1) * VGA_WIDTH + x))) s) s)"
  proof (rule for_u32_invariant)
    fix k t
    assume k: "k < VGA_WIDTH" and P: "?P k t"
    then have k80: "k < 80" "unat k < 80" by (simp_all add: VGA_WIDTH_def word_less_nat_alt)
    show "?P (k + 1) (vga_set (y * VGA_WIDTH + k) (vga_buffer t (unat ((y + 1) * VGA_WIDTH + k))) t)"
      using P y vga_index [OF y(3) k80(1)] vga_index [OF y(4) k80(1)] unat_inc [OF k]
      by (auto simp: vga_set_def fun_eq_iff algebra_simps)
  qed (auto simp: VGA_WIDTH_def fun_eq_iff intro!: vga_buffer_id)
  then show ?thesis by (simp add: VGA_WIDTH_def)
qed

lemma vga_blank_row:
  "for_u32 0 VGA_WIDTH (\<lambda>x s. vga_set ((VGA_HEIGHT - 1) * VGA_WIDTH + x)
      (vga_entry (of_char CHR '' '') (vga_color s)) s) s =
    s\<lparr>vga_buffer := (\<lambda>i. if 1920 \<le> i \<and> i < 2000 then vga_entry (of_char CHR '' '') (vga_color s)
       else vga_buffer s i)\<rparr>"
proof -
  let ?P = "\<lambda>k t. t = s\<lparr>vga_buffer := (\<lambda>i. if 1920 \<le> i \<and> i < 1920 + unat k
      then vga_entry (of_char CHR '' '') (vga_color s) else vga_buffer s i)\<rparr>"
  have "?P VGA_WIDTH (for_u32 0 VGA_WIDTH (\<lambda>x s. vga_set ((VGA_HEIGHT - 1) * VGA_WIDTH + x)
      (vga_entry (of_char CHR '' '') (vga_color s)) s) s)"
  proof (rule for_u32_invariant)
    fix k t
    assume k: "k < VGA_WIDTH" and P: "?P k t"
    have "unat ((VGA_HEIGHT - 1) * VGA_WIDTH + k) = 1920 + unat k"
      using k vga_index [of "VGA_HEIGHT - 1" k] by (simp add: VGA_WIDTH_def VGA_HEIGHT_def)
    then show "?P (k + 1) (vga_set ((VGA_HEIGHT - 1) * VGA_WIDTH + k)
        (vga_entry (of_char CHR '' '') (vga_color t)) t)"
      using P unat_inc [OF k] by (auto simp: vga_set_def fun_eq_iff)
  qed (auto simp: VGA_WIDTH_def fun_eq_iff intro!: vga_buffer_id)
  then show ?thesis by (simp add: VGA_WIDTH_def)
qed

lemma vga_copy_rows:
  "for_u32 0 (VGA_HEIGHT - 1) (\<lambda>y. for_u32 0 VGA_WIDTH (\<lambda>x s.
      vga_set (y * VGA_WIDTH + x) (vga_buffer s (unat ((y + 1) * VGA_WIDTH + x))) s)) s =
    s\<lparr>vga_buffer := (\<lambda>i. if i < 1920 then vga_buffer s (i + 80) else vga_buffer s i)\<rparr>"
proof -
  let ?P = "\<lambda>k t. t = s\<lparr>vga_buffer := (\<lambda>i. if i < unat k * 80
      then vga_buffer s (i + 80) else vga_buffer s i)\<rparr>"
  have "?P (VGA_HEIGHT - 1) (for_u32 0 (VGA_HEIGHT - 1) (\<lambda>y. for_u32 0 VGA_WIDTH (\<lambda>x s.
      vga_set (y * VGA_WIDTH + x) (vga_buffer s (unat ((y + 1) * VGA_WIDTH + x))) s)) s)"
  proof (rule for_u32_invariant)
    fix k t
    assume k: "k < VGA_HEIGHT - 1" and P: "?P k t"
    then have "k < 24" by (simp add: VGA_HEIGHT_def)
    then show "?P (k + 1) (for_u32 0 VGA_WIDTH (\<lambda>x s.
        vga_set (k * VGA_WIDTH + x) (vga_buffer s (unat ((k + 1) * VGA_WIDTH + x))) s) t)"
      using P unat_inc [OF k] by (auto simp: vga_copy_row fun_eq_iff)
  qed (auto simp: VGA_HEIGHT_def fun_eq_iff intro!: vga_buffer_id)
  then show ?thesis by (simp add: VGA_HEIGHT_def)
qed

lemma vga_scroll_effect:
  "vga_scroll s = s\<lparr>vga_buffer := (\<lambda>i. if i < 1920 then vga_buffer s (i + 80)
      else if i < 2000 then vga_entry (of_char CHR '' '') (vga_color s) else vga_buffer s i),
    vga_row := 24\<rparr>"
  unfolding vga_scroll_def Let_def vga_copy_rows vga_blank_row
  by (auto simp: VGA_HEIGHT_def fun_eq_iff)

section \<open>The driver as a character console\<close>

definition vga_inv :: "'a vga_scheme \<Rightarrow> bool" where
  "vga_inv s \<longleftrightarrow> vga_row s < VGA_HEIGHT \<and> vga_column s < VGA_WIDTH"

definition vga_cell :: "'a vga_scheme \<Rightarrow> int \<Rightarrow> int \<Rightarrow> u16" where
  "vga_cell s r k = vga_buffer s (nat r * 80 + nat k)"

lemma update_cursor_fields [simp]:
  "vga_buffer (vga_update_cursor s) = vga_buffer s" "vga_row (vga_update_cursor s) = vga_row s"
  "vga_column (vga_update_cursor s) = vga_column s" "vga_color (vga_update_cursor s) = vga_color s"
  by (simp_all add: vga_update_cursor_def outb_def Let_def)

lemma vga_color_putchar [simp]: "vga_color (vga_putchar c s) = vga_color s"
  by (simp add: vga_putchar_def vga_put_at_def vga_scroll_effect vga_set_def Let_def)

lemma vga_putchar_inv:
  assumes "vga_inv s"
  shows "vga_inv (vga_putchar c s)"
proof -
  let ?t = "vga_put_at c s"
  have "vga_row ?t < VGA_HEIGHT \<or> vga_row ?t = VGA_HEIGHT \<and> vga_column ?t = 0"
    using assms
    by (auto simp: vga_inv_def vga_put_at_def vga_set_def Let_def VGA_HEIGHT_def VGA_WIDTH_def)
       unat_arith+
  then show ?thesis
    using assms unfolding vga_inv_def
    by (auto simp: vga_putchar_def vga_scroll_effect Let_def VGA_HEIGHT_def VGA_WIDTH_def not_le)
qed

lemma vga_put_plain:
  assumes "plain c" "vga_column s + 1 < VGA_WIDTH" "vga_inv s"
  shows "vga_putchar c s = vga_update_cursor ((vga_set (vga_row s * VGA_WIDTH + vga_column s)
      (vga_entry (of_char c) (vga_color s)) s)\<lparr>vga_column := vga_column s + 1\<rparr>)"
  using assms
  by (auto simp: plain_def vga_putchar_def vga_put_at_def vga_set_def vga_inv_def Let_def not_le)

lemma vga_newline:
  assumes "vga_inv s"
  shows "vga_putchar (CHR 0x0A) s = vga_update_cursor
    (if vga_row s + 1 < VGA_HEIGHT then s\<lparr>vga_column := 0, vga_row := vga_row s + 1\<rparr>
     else vga_scroll (s\<lparr>vga_column := 0, vga_row := vga_row s + 1\<rparr>))"
  using assms
  by (auto simp: vga_putchar_def vga_put_at_def vga_inv_def Let_def not_le VGA_WIDTH_def)

lemma uint_succ_less: "x < VGA_HEIGHT \<Longrightarrow> uint (x + 1) = uint x + 1"
    "x < VGA_WIDTH \<Longrightarrow> uint (x + 1) = uint x + 1" for x :: u32
  using unat_inc [of x VGA_HEIGHT] unat_inc [of x VGA_WIDTH] uint_nat [of x] uint_nat [of "x + 1"]
  by linarith+

lemma vga_cell_inject:
  assumes "0 \<le> r" "0 \<le> k" "k < 80" "uint y < 80"
  shows "nat r * 80 + nat k = unat x * 80 + unat y \<longleftrightarrow> r = uint x \<and> k = uint y"
proof -
  have eq: "m * 80 + n = a * 80 + b \<longleftrightarrow> m = a \<and> n = b" if "n < 80" "b < 80" for m n a b :: nat
  proof
    assume e: "m * 80 + n = a * 80 + b"
    have "(m * 80 + n) div 80 = m" "(a * 80 + b) div 80 = a" using that by simp_all
    with e show "m = a \<and> n = b" by simp
  qed simp
  obtain m n where mn: "r = int m" "k = int n"
    using assms(1,2) by (metis nonneg_int_cases)
  then have "n < 80" "unat y < 80"
    using assms(3,4) by (simp, simp only: uint_nat of_nat_less_numeral_iff)
  then show ?thesis
    by (simp only: mn uint_nat nat_int of_nat_eq_iff eq)
qed

interpretation vgc: text_console vga_putchar vga_cell "\<lambda>s. uint (vga_row s)" "\<lambda>s. uint (vga_column s)"
  "\<lambda>_. 25" "\<lambda>_. 80" "\<lambda>s c. vga_entry (of_char c) (vga_color s)" vga_inv
proof
  fix s :: "'a vga_scheme" and c :: char
  assume inv: "vga_inv s"
  then have b: "vga_row s < VGA_HEIGHT" "vga_column s < VGA_WIDTH"
    "uint (vga_row s) < 25" "uint (vga_column s) < 80"
    by (simp_all add: vga_inv_def VGA_HEIGHT_def VGA_WIDTH_def word_less_def)
  have idx: "unat (vga_row s * VGA_WIDTH + vga_column s) = unat (vga_row s) * 80 + unat (vga_column s)"
    using b(1,2) by (simp add: vga_index VGA_HEIGHT_def VGA_WIDTH_def [symmetric])
  show "vga_inv (vga_putchar c s)" by (rule vga_putchar_inv [OF inv])
  show "0 \<le> uint (vga_row s) \<and> uint (vga_row s) < 25 \<and> 0 \<le> uint (vga_column s) \<and> uint (vga_column s) < 80"
    using b by simp
  show "(\<lambda>ca. vga_entry (of_char ca) (vga_color (vga_putchar c s))) =
      (\<lambda>c. vga_entry (of_char c) (vga_color s)) \<and> 25 = (25::int) \<and> 80 = (80::int)"
    by simp
  show "uint (vga_row (vga_putchar c s)) = uint (vga_row s) \<and>
      uint (vga_column (vga_putchar c s)) = uint (vga_column s) + 1 \<and>
      (\<forall>r k. 0 \<le> r \<longrightarrow> r < 25 \<longrightarrow> 0 \<le> k \<longrightarrow> k < 80 \<longrightarrow> vga_cell (vga_putchar c s) r k =
        (if r = uint (vga_row s) \<and> k = uint (vga_column s)
         then vga_entry (of_char c) (vga_color s) else vga_cell s r k))"
    if "plain c" "uint (vga_column s) + 1 < 80"
  proof -
    have "vga_column s + 1 < VGA_WIDTH"
      using that(2) uint_succ_less(2) [OF b(2)] by (simp add: word_less_def VGA_WIDTH_def)
    then show ?thesis
      using vga_put_plain [OF that(1) _ inv] uint_succ_less(2) [OF b(2)] b
      by (simp add: vga_cell_def vga_set_def idx vga_cell_inject)
  qed
  have row: "uint (vga_row s + 1) = uint (vga_row s) + 1" by (rule uint_succ_less(1) [OF b(1)])
  show "uint (vga_row (vga_putchar (CHR 0x0A) s)) = uint (vga_row s) \<and>
      uint (vga_column (vga_putchar (CHR 0x0A) s)) = 0 \<and>
      (\<forall>r k. 0 \<le> r \<longrightarrow> r < 25 \<longrightarrow> 0 \<le> k \<longrightarrow> k < 80 \<longrightarrow> vga_cell (vga_putchar (CHR 0x0A) s) r k =
        (if r + 1 < 25 then vga_cell s (r + 1) k else vga_entry (of_char CHR '' '') (vga_color s)))"
    if "uint (vga_row s) + 1 = 25"
    using that row by (auto simp: vga_newline [OF inv] VGA_HEIGHT_def word_less_def vga_scroll_effect
        vga_cell_def nat_add_distrib)
      (simp add: ac_simps)
  show "uint (vga_row (vga_putchar (CHR 0x0A) s)) = uint (vga_row s) + 1 \<and>
      uint (vga_column (vga_putchar (CHR 0x0A) s)) = 0 \<and>
      (\<forall>r k. 0 \<le> r \<longrightarrow> r < 25 \<longrightarrow> 0 \<le> k \<longrightarrow> k < 80 \<longrightarrow>
        vga_cell (vga_putchar (CHR 0x0A) s) r k = vga_cell s r k)"
    if "uint (vga_row s) + 1 < 25"
    using that row by (simp add: vga_newline [OF inv] VGA_HEIGHT_def word_less_def vga_cell_def)
qed

text \<open>C36: with the cursor on the bottom row of the text screen, writing a line that fits
  shows it one row higher after its newline, in the current colour; the cursor is back at
  column 0 of the bottom row, which is blank.\<close>

theorem vga_line_scrolls:
  assumes "vga_inv s" "list_all plain cs" "uint (vga_column s) + int (length cs) < 80" "vga_row s = 24"
  shows "(\<forall>i < length cs. vga_cell (vga_write (cs @ [CHR 0x0A]) s) 23 (uint (vga_column s) + int i) =
      vga_entry (of_char (cs ! i)) (vga_color s)) \<and>
    vga_row (vga_write (cs @ [CHR 0x0A]) s) = 24 \<and> vga_column (vga_write (cs @ [CHR 0x0A]) s) = 0 \<and>
    (\<forall>k. 0 \<le> k \<longrightarrow> k < 80 \<longrightarrow> vga_cell (vga_write (cs @ [CHR 0x0A]) s) 24 k =
      vga_entry (of_char CHR '' '') (vga_color s))"
proof (intro conjI allI impI)
  let ?t = "fold vga_putchar cs s"
  have p: "\<forall>c \<in> set cs. plain c" using assms(2) by (simp add: list_all_iff)
  have row: "uint (vga_row s) + 1 = 25" "0 < uint (vga_row s)" using assms(4) by simp_all
  have col: "vga_color (fold vga_putchar cs s) = vga_color s" for s :: "'a vga_scheme"
    by (induction cs arbitrary: s) simp_all
  have t: "vga_inv ?t" "uint (vga_row ?t) + 1 = 25" "vga_color ?t = vga_color s"
    using vgc.inv_puts [OF assms(1)] vgc.puts_shown [OF assms(1) p assms(3)] assms(4)
    by (simp_all add: col)
  show "vga_cell (vga_write (cs @ [CHR 0x0A]) s) 23 (uint (vga_column s) + int i) =
      vga_entry (of_char (cs ! i)) (vga_color s)" if "i < length cs" for i
    using vgc.line_scrolls_up [OF assms(1) p assms(3) row that] assms(4) by (simp add: vga_write_def)
  have new: "uint (vga_row (vga_putchar (CHR 0x0A) ?t)) = uint (vga_row ?t)"
    "uint (vga_column (vga_putchar (CHR 0x0A) ?t)) = 0"
    using vgc.newline_scrolls [OF t(1,2)] by simp_all
  have "uint (vga_row (vga_putchar (CHR 0x0A) ?t)) = 24" using new(1) t(2) by linarith
  then show "vga_row (vga_write (cs @ [CHR 0x0A]) s) = 24"
    by (simp add: vga_write_def word_uint_eq_iff)
  show "vga_column (vga_write (cs @ [CHR 0x0A]) s) = 0"
    using new(2) by (simp add: vga_write_def word_uint_eq_iff)
  show "vga_cell (vga_write (cs @ [CHR 0x0A]) s) 24 k = vga_entry (of_char CHR '' '') (vga_color s)"
    if "0 \<le> k" "k < 80" for k
    using vgc.newline_scrolls [OF t(1,2)] t(3) that by (simp add: vga_write_def)
qed

definition demo_vga :: vga where
  "demo_vga = \<lparr>io_log = [], io_dev = (\<lambda>_ _. 0), tick = 0,
     vga_buffer = (\<lambda>_. 0), vga_row = 24, vga_column = 0, vga_color = 7\<rparr>"

theorem vga_line_scrolls_witness:
  "vga_cell (vga_write [CHR ''o'', CHR ''k'', CHR 0x0A] demo_vga) 23 1 = 0x076B"
proof -
  have h: "vga_inv demo_vga" "list_all plain ''ok''"
    "uint (vga_column demo_vga) + int (length ''ok'') < 80" "vga_row demo_vga = 24"
    by (simp_all add: vga_inv_def VGA_HEIGHT_def VGA_WIDTH_def demo_vga_def plain_def)
  have "vga_entry 0x6B 7 = 0x076B" by (simp add: vga_entry_def)
  with vga_line_scrolls [OF h, THEN conjunct1, rule_format, of 1] show ?thesis
    by (simp add: demo_vga_def)
qed

end
