(* ===== verification/Framebuffer.thy ===== *)
theory Framebuffer
  imports Vga
begin

text \<open>
  The drawing half of src/src/drivers/framebuffer.c: the font and the pixel operations on the
  linear framebuffer. \<open>fb\<close> holds the file's static variables and \<open>vram\<close>, the bytes of the
  address space the pixel stores go to. A C \<open>int\<close> is an \<open>int\<close>; conversions to
  \<open>unsigned int\<close> are \<open>word_of_int\<close>, conversions back are \<open>sint\<close>.

  The locale \<open>surface\<close> is the contract of a drawing surface: a plotted pixel shows its colour
  and no other pixel changes. What a batch of plots shows is proved once in it; the
  interpretation \<open>fbs\<close> discharges the contract for the framebuffer's 32-bit stores, and the
  rectangle, glyph and clear operations rest on it.
\<close>

record fb = vga +
  fb_ptr :: u32
  fb_width :: u32
  fb_height :: u32
  fb_pitch :: u32
  fb_bpp :: u32
  fb_enabled :: bool
  vram :: memory

section \<open>Font\<close>

definition fb_font :: "u8 list list" where
  "fb_font = [
    [0x00, 0x00, 0x00, 0x00, 0x00, 0x00, 0x00, 0x00],
    [0x18, 0x18, 0x18, 0x18, 0x18, 0x00, 0x18, 0x00],
    [0x6C, 0x6C, 0x6C, 0x00, 0x00, 0x00, 0x00, 0x00],
    [0x14, 0x14, 0x7E, 0x28, 0xFC, 0x50, 0x50, 0x00],
    [0x08, 0x3E, 0x48, 0x3C, 0x0A, 0x7C, 0x08, 0x00],
    [0x64, 0x94, 0x68, 0x10, 0x2E, 0x52, 0x4C, 0x00],
    [0x38, 0x44, 0x48, 0x30, 0x4A, 0x44, 0x3A, 0x00],
    [0x18, 0x18, 0x30, 0x00, 0x00, 0x00, 0x00, 0x00],
    [0x06, 0x0C, 0x18, 0x18, 0x18, 0x0C, 0x06, 0x00],
    [0x60, 0x30, 0x18, 0x18, 0x18, 0x30, 0x60, 0x00],
    [0x08, 0x6A, 0x3E, 0x1C, 0x3E, 0x6A, 0x08, 0x00],
    [0x08, 0x08, 0x08, 0xFE, 0x08, 0x08, 0x08, 0x00],
    [0x00, 0x00, 0x00, 0x00, 0x00, 0x18, 0x18, 0x30],
    [0x00, 0x00, 0x00, 0x7E, 0x00, 0x00, 0x00, 0x00],
    [0x00, 0x00, 0x00, 0x00, 0x00, 0x18, 0x18, 0x00],
    [0x02, 0x04, 0x08, 0x10, 0x20, 0x40, 0x80, 0x00],
    [0x3C, 0x46, 0x4A, 0x52, 0x62, 0x42, 0x3C, 0x00],
    [0x08, 0x18, 0x28, 0x08, 0x08, 0x08, 0x3E, 0x00],
    [0x3C, 0x42, 0x02, 0x04, 0x18, 0x20, 0x7E, 0x00],
    [0x3C, 0x42, 0x02, 0x1C, 0x02, 0x42, 0x3C, 0x00],
    [0x04, 0x0C, 0x14, 0x24, 0x7E, 0x04, 0x04, 0x00],
    [0x7E, 0x40, 0x78, 0x04, 0x02, 0x44, 0x38, 0x00],
    [0x1C, 0x20, 0x40, 0x7C, 0x42, 0x42, 0x3C, 0x00],
    [0x7E, 0x02, 0x04, 0x08, 0x10, 0x20, 0x20, 0x00],
    [0x3C, 0x42, 0x42, 0x3C, 0x42, 0x42, 0x3C, 0x00],
    [0x3C, 0x42, 0x42, 0x3E, 0x02, 0x04, 0x38, 0x00],
    [0x00, 0x18, 0x18, 0x00, 0x00, 0x18, 0x18, 0x00],
    [0x00, 0x18, 0x18, 0x00, 0x00, 0x18, 0x18, 0x30],
    [0x04, 0x08, 0x10, 0x20, 0x10, 0x08, 0x04, 0x00],
    [0x00, 0x00, 0x7E, 0x00, 0x7E, 0x00, 0x00, 0x00],
    [0x20, 0x10, 0x08, 0x04, 0x08, 0x10, 0x20, 0x00],
    [0x3C, 0x42, 0x02, 0x0C, 0x10, 0x00, 0x10, 0x00],
    [0x3C, 0x42, 0x4E, 0x52, 0x4E, 0x40, 0x3C, 0x00],
    [0x18, 0x24, 0x42, 0x42, 0x7E, 0x42, 0x42, 0x00],
    [0x7C, 0x42, 0x42, 0x7C, 0x42, 0x42, 0x7C, 0x00],
    [0x3C, 0x42, 0x40, 0x40, 0x40, 0x42, 0x3C, 0x00],
    [0x78, 0x44, 0x42, 0x42, 0x42, 0x44, 0x78, 0x00],
    [0x7E, 0x40, 0x40, 0x78, 0x40, 0x40, 0x7E, 0x00],
    [0x7E, 0x40, 0x40, 0x78, 0x40, 0x40, 0x40, 0x00],
    [0x3C, 0x42, 0x40, 0x4E, 0x42, 0x42, 0x3C, 0x00],
    [0x42, 0x42, 0x42, 0x7E, 0x42, 0x42, 0x42, 0x00],
    [0x3E, 0x08, 0x08, 0x08, 0x08, 0x08, 0x3E, 0x00],
    [0x02, 0x02, 0x02, 0x02, 0x42, 0x42, 0x3C, 0x00],
    [0x42, 0x44, 0x48, 0x70, 0x48, 0x44, 0x42, 0x00],
    [0x40, 0x40, 0x40, 0x40, 0x40, 0x40, 0x7E, 0x00],
    [0x42, 0x66, 0x5A, 0x5A, 0x42, 0x42, 0x42, 0x00],
    [0x42, 0x62, 0x52, 0x4A, 0x46, 0x42, 0x42, 0x00],
    [0x3C, 0x42, 0x42, 0x42, 0x42, 0x42, 0x3C, 0x00],
    [0x7C, 0x42, 0x42, 0x7C, 0x40, 0x40, 0x40, 0x00],
    [0x3C, 0x42, 0x42, 0x42, 0x4A, 0x44, 0x3A, 0x00],
    [0x7C, 0x42, 0x42, 0x7C, 0x44, 0x42, 0x42, 0x00],
    [0x3C, 0x42, 0x40, 0x3C, 0x02, 0x42, 0x3C, 0x00],
    [0xFE, 0x10, 0x10, 0x10, 0x10, 0x10, 0x10, 0x00],
    [0x42, 0x42, 0x42, 0x42, 0x42, 0x42, 0x3C, 0x00],
    [0x42, 0x42, 0x42, 0x42, 0x42, 0x24, 0x18, 0x00],
    [0x42, 0x42, 0x42, 0x5A, 0x5A, 0x66, 0x42, 0x00],
    [0x42, 0x42, 0x24, 0x18, 0x24, 0x42, 0x42, 0x00],
    [0x82, 0x44, 0x28, 0x10, 0x10, 0x10, 0x10, 0x00],
    [0x7E, 0x02, 0x04, 0x18, 0x20, 0x40, 0x7E, 0x00],
    [0x3E, 0x20, 0x20, 0x20, 0x20, 0x20, 0x3E, 0x00],
    [0x80, 0x40, 0x20, 0x10, 0x08, 0x04, 0x02, 0x00],
    [0x7C, 0x04, 0x04, 0x04, 0x04, 0x04, 0x7C, 0x00],
    [0x10, 0x38, 0x6C, 0x82, 0x00, 0x00, 0x00, 0x00],
    [0x00, 0x00, 0x00, 0x00, 0x00, 0x00, 0x00, 0xFF],
    [0x18, 0x18, 0x0C, 0x00, 0x00, 0x00, 0x00, 0x00],
    [0x00, 0x00, 0x3C, 0x02, 0x3E, 0x42, 0x3E, 0x00],
    [0x40, 0x40, 0x5C, 0x62, 0x42, 0x62, 0x5C, 0x00],
    [0x00, 0x00, 0x3C, 0x42, 0x40, 0x42, 0x3C, 0x00],
    [0x02, 0x02, 0x3A, 0x46, 0x42, 0x46, 0x3A, 0x00],
    [0x00, 0x00, 0x3C, 0x42, 0x7E, 0x40, 0x3C, 0x00],
    [0x0C, 0x12, 0x10, 0x7C, 0x10, 0x10, 0x10, 0x00],
    [0x00, 0x3A, 0x46, 0x46, 0x3A, 0x02, 0x3C, 0x00],
    [0x40, 0x40, 0x5C, 0x62, 0x42, 0x42, 0x42, 0x00],
    [0x08, 0x00, 0x18, 0x08, 0x08, 0x08, 0x3E, 0x00],
    [0x04, 0x00, 0x0C, 0x04, 0x04, 0x44, 0x38, 0x00],
    [0x40, 0x40, 0x44, 0x48, 0x70, 0x48, 0x44, 0x00],
    [0x18, 0x08, 0x08, 0x08, 0x08, 0x08, 0x3E, 0x00],
    [0x00, 0x00, 0xFC, 0x92, 0x92, 0x92, 0x92, 0x00],
    [0x00, 0x00, 0x5C, 0x62, 0x42, 0x42, 0x42, 0x00],
    [0x00, 0x00, 0x3C, 0x42, 0x42, 0x42, 0x3C, 0x00],
    [0x00, 0x5C, 0x62, 0x62, 0x5C, 0x40, 0x40, 0x00],
    [0x00, 0x3A, 0x46, 0x46, 0x3A, 0x02, 0x02, 0x00],
    [0x00, 0x00, 0x5C, 0x62, 0x40, 0x40, 0x40, 0x00],
    [0x00, 0x00, 0x3E, 0x40, 0x3C, 0x02, 0x7C, 0x00],
    [0x10, 0x10, 0x7C, 0x10, 0x10, 0x12, 0x0C, 0x00],
    [0x00, 0x00, 0x42, 0x42, 0x42, 0x46, 0x3A, 0x00],
    [0x00, 0x00, 0x42, 0x42, 0x42, 0x24, 0x18, 0x00],
    [0x00, 0x00, 0x92, 0x92, 0x92, 0x92, 0x6C, 0x00],
    [0x00, 0x00, 0x42, 0x24, 0x18, 0x24, 0x42, 0x00],
    [0x00, 0x00, 0x42, 0x42, 0x46, 0x3A, 0x02, 0x3C],
    [0x00, 0x00, 0x7E, 0x04, 0x18, 0x20, 0x7E, 0x00],
    [0x0E, 0x10, 0x10, 0x60, 0x10, 0x10, 0x0E, 0x00],
    [0x18, 0x18, 0x18, 0x00, 0x18, 0x18, 0x18, 0x00],
    [0x70, 0x08, 0x08, 0x06, 0x08, 0x08, 0x70, 0x00],
    [0x00, 0x00, 0x62, 0x92, 0x8C, 0x00, 0x00, 0x00]]"

section \<open>Operations\<close>

text \<open>\<^verbatim>\<open>for (int i = lo; i < hi; i++) body\<close>\<close>

definition for_int :: "int \<Rightarrow> int \<Rightarrow> (int \<Rightarrow> 's \<Rightarrow> 's) \<Rightarrow> 's \<Rightarrow> 's" where
  "for_int lo hi f s = fold f [lo..hi - 1] s"

text \<open>\<^verbatim>\<open>*(unsigned int *)(fb_ptr + row * fb_pitch + col * bpp) = color\<close>\<close>

definition fb_store :: "int \<Rightarrow> int \<Rightarrow> u32 \<Rightarrow> 'a fb_scheme \<Rightarrow> 'a fb_scheme" where
  "fb_store col row color s =
    (let offset = word_of_int row * fb_pitch s + word_of_int col * (fb_bpp s div 8)
     in s\<lparr>vram := store32 (vram s) (fb_ptr s + offset) color\<rparr>)"

definition fb_putpixel :: "int \<Rightarrow> int \<Rightarrow> u32 \<Rightarrow> 'a fb_scheme \<Rightarrow> 'a fb_scheme" where
  "fb_putpixel x y color s =
    (if \<not> fb_enabled s \<or> x < 0 \<or> fb_width s \<le> word_of_int x \<or> y < 0 \<or> fb_height s \<le> word_of_int y
     then s else fb_store x y color s)"

text \<open>The sum of two values of type \<open>int\<close>, as the processor adds them.\<close>

definition int_add :: "int \<Rightarrow> int \<Rightarrow> int" where
  "int_add a b = sint (word_of_int (a + b) :: u32)"

definition fb_fillrect :: "int \<Rightarrow> int \<Rightarrow> int \<Rightarrow> int \<Rightarrow> u32 \<Rightarrow> 'a fb_scheme \<Rightarrow> 'a fb_scheme" where
  "fb_fillrect x y w h color s =
    (if \<not> fb_enabled s then s
     else for_int y (min (int_add y h) (sint (fb_height s))) (\<lambda>row.
            for_int x (min (int_add x w) (sint (fb_width s))) (\<lambda>col. fb_store col row color)) s)"

definition glyph_bit :: "u8 \<Rightarrow> int \<Rightarrow> bool" where
  "glyph_bit line col \<longleftrightarrow> (ucast line :: u32) AND push_bit (nat (7 - col)) 1 \<noteq> 0"

definition fb_drawchar :: "int \<Rightarrow> int \<Rightarrow> char \<Rightarrow> u32 \<Rightarrow> u32 \<Rightarrow> 'a fb_scheme \<Rightarrow> 'a fb_scheme" where
  "fb_drawchar x y c fg bg s =
    (if \<not> fb_enabled s then s
     else if schar c < 0x20 \<or> schar c > 0x7E then s
     else
       let glyph = fb_font ! nat (schar c - 0x20) in
       for_int 0 8 (\<lambda>row.
         let line = glyph ! nat row in
         for_int 0 8 (\<lambda>col s.
           let color = (if glyph_bit line col then fg else bg);
               px = x + col;
               py = y + row
           in if px \<ge> 0 \<and> word_of_int px < fb_width s \<and> py \<ge> 0 \<and> word_of_int py < fb_height s
              then fb_store px py color s else s)) s)"

fun fb_drawstring_loop :: "int \<Rightarrow> int \<Rightarrow> string \<Rightarrow> u32 \<Rightarrow> u32 \<Rightarrow> 'a fb_scheme \<Rightarrow> 'a fb_scheme" where
  "fb_drawstring_loop cx y [] fg bg s = s"
| "fb_drawstring_loop cx y (c # cs) fg bg s =
    fb_drawstring_loop (cx + 10) y cs fg bg (fb_drawchar cx y c fg bg s)"

definition fb_drawstring :: "int \<Rightarrow> int \<Rightarrow> string \<Rightarrow> u32 \<Rightarrow> u32 \<Rightarrow> 'a fb_scheme \<Rightarrow> 'a fb_scheme" where
  "fb_drawstring x y str fg bg s =
    (if \<not> fb_enabled s then s else fb_drawstring_loop x y str fg bg s)"

definition fb_clear :: "u32 \<Rightarrow> 'a fb_scheme \<Rightarrow> 'a fb_scheme" where
  "fb_clear color s =
    (if \<not> fb_enabled s then s
     else for_u32 0 (fb_height s) (\<lambda>y.
            for_u32 0 (fb_width s) (\<lambda>x s.
              let offset = y * fb_pitch s + x * (fb_bpp s div 8)
              in s\<lparr>vram := store32 (vram s) (fb_ptr s + offset) color\<rparr>)) s)"

definition fb_rgb :: "u8 \<Rightarrow> u8 \<Rightarrow> u8 \<Rightarrow> u32" where
  "fb_rgb r g b = push_bit 24 0xFF OR push_bit 16 (ucast r) OR push_bit 8 (ucast g) OR ucast b"

definition fb_get_width :: "'a fb_scheme \<Rightarrow> u32" where
  "fb_get_width s = fb_width s"

definition fb_get_height :: "'a fb_scheme \<Rightarrow> u32" where
  "fb_get_height s = fb_height s"

definition fb_get_bpp :: "'a fb_scheme \<Rightarrow> u32" where
  "fb_get_bpp s = fb_bpp s"

definition fb_is_enabled :: "'a fb_scheme \<Rightarrow> bool" where
  "fb_is_enabled s = fb_enabled s"

section \<open>Frame: drawing changes the video memory only\<close>

definition vram_frame :: "('a fb_scheme \<Rightarrow> 'p) \<Rightarrow> bool" where
  "vram_frame p \<longleftrightarrow> (\<forall>s v. p (s\<lparr>vram := v\<rparr>) = p s)"

lemma fold_frame: "(\<And>x s. p (f x s) = p s) \<Longrightarrow> p (fold f xs s) = p s"
  by (induction xs arbitrary: s) simp_all

lemma for_int_frame: "(\<And>i s. p (f i s) = p s) \<Longrightarrow> p (for_int lo hi f s) = p s"
  by (simp add: for_int_def fold_frame)

lemma fb_store_frame: "vram_frame p \<Longrightarrow> p (fb_store x y c s) = p s"
  by (simp add: vram_frame_def fb_store_def)

lemma fb_fillrect_frame: "vram_frame p \<Longrightarrow> p (fb_fillrect x y w h c s) = p s"
  by (simp add: fb_fillrect_def for_int_frame fb_store_frame)

lemma fb_drawchar_frame: "vram_frame p \<Longrightarrow> p (fb_drawchar x y c fg bg s) = p s"
  by (simp add: fb_drawchar_def Let_def for_int_frame fb_store_frame)

lemma fb_drawstring_frame: "vram_frame p \<Longrightarrow> p (fb_drawstring x y str fg bg s) = p s"
proof -
  assume "vram_frame p"
  then have "p (fb_drawstring_loop cx y str fg bg s) = p s" for cx
    by (induction str arbitrary: cx s) (simp_all add: fb_drawchar_frame)
  then show ?thesis by (simp add: fb_drawstring_def)
qed

section \<open>The contract of a drawing surface\<close>

locale surface =
  fixes plot :: "int \<Rightarrow> int \<Rightarrow> u32 \<Rightarrow> 's \<Rightarrow> 's"
    and pix :: "'s \<Rightarrow> int \<Rightarrow> int \<Rightarrow> u32"
    and on :: "'s \<Rightarrow> int \<Rightarrow> int \<Rightarrow> bool"
    and geom :: "'s \<Rightarrow> bool"
  assumes pix_plot: "geom s \<Longrightarrow> on s x y \<Longrightarrow> on s i j \<Longrightarrow>
      pix (plot x y c s) i j = (if i = x \<and> j = y then c else pix s i j)"
    and geom_plot: "geom s \<Longrightarrow> on s x y \<Longrightarrow> geom (plot x y c s)"
    and on_plot: "on (plot x y c s) i j = on s i j"
begin

definition plots :: "(int \<Rightarrow> int \<Rightarrow> u32) \<Rightarrow> (int \<times> int) list \<Rightarrow> 's \<Rightarrow> 's" where
  "plots f ps s = fold (\<lambda>(x, y) s. if on s x y then plot x y (f x y) s else s) ps s"

lemma plots_Nil [simp]: "plots f [] s = s"
  by (simp add: plots_def)

lemma plots_Cons [simp]:
  "plots f ((x, y) # ps) s = plots f ps (if on s x y then plot x y (f x y) s else s)"
  by (simp add: plots_def)

lemma plots_on: "on (plots f ps s) i j = on s i j"
proof (induction ps arbitrary: s)
  case (Cons p ps)
  then show ?case by (cases p) (simp add: on_plot)
qed simp

lemma plots_geom: "geom s \<Longrightarrow> geom (plots f ps s)"
proof (induction ps arbitrary: s)
  case (Cons p ps)
  then show ?case by (cases p) (simp add: geom_plot)
qed simp

lemma plots_snoc:
  "plots f (ps @ [(x, y)]) s =
    (if on s x y then plot x y (f x y) (plots f ps s) else plots f ps s)"
proof -
  have "plots f (ps @ [(x, y)]) s =
      (if on (plots f ps s) x y then plot x y (f x y) (plots f ps s) else plots f ps s)"
    by (simp add: plots_def)
  then show ?thesis by (simp only: plots_on)
qed

lemma plots_fold:
  assumes "\<forall>(x, y) \<in> set ps. on s x y"
  shows "fold (\<lambda>(x, y). plot x y (f x y)) ps s = plots f ps s"
  using assms
proof (induction ps arbitrary: s)
  case (Cons p ps)
  then show ?case by (cases p) (auto simp: on_plot)
qed simp

lemma plots_pix:
  assumes "geom s" "on s i j"
  shows "pix (plots f ps s) i j = (if (i, j) \<in> set ps then f i j else pix s i j)"
proof (induction ps rule: rev_induct)
  case (snoc p ps)
  obtain x y where p: "p = (x, y)" by (cases p)
  have "on s x y \<Longrightarrow> pix (plot x y (f x y) (plots f ps s)) i j =
      (if i = x \<and> j = y then f x y else pix (plots f ps s) i j)"
    using assms by (intro pix_plot) (simp_all add: plots_geom plots_on)
  with snoc assms show ?case
    by (auto simp: p plots_snoc)
qed simp

end

section \<open>The framebuffer is a drawing surface\<close>

definition fb_addr :: "'a fb_scheme \<Rightarrow> int \<Rightarrow> int \<Rightarrow> u32" where
  "fb_addr s x y = fb_ptr s + (word_of_int y * fb_pitch s + word_of_int x * (fb_bpp s div 8))"

definition fb_pixel :: "'a fb_scheme \<Rightarrow> int \<Rightarrow> int \<Rightarrow> u32" where
  "fb_pixel s x y = load32 (vram s) (fb_addr s x y)"

definition fb_on :: "'a fb_scheme \<Rightarrow> int \<Rightarrow> int \<Rightarrow> bool" where
  "fb_on s x y \<longleftrightarrow> 0 \<le> x \<and> x < uint (fb_width s) \<and> 0 \<le> y \<and> y < uint (fb_height s)"

text \<open>
  The geometry the drawing code relies on: 32 bits per pixel, rows of whole words at least as
  long as the visible part, and a buffer that does not wrap around the address space.
\<close>

definition fb_geom :: "'a fb_scheme \<Rightarrow> bool" where
  "fb_geom s \<longleftrightarrow> fb_bpp s = 32 \<and> 4 dvd uint (fb_ptr s) \<and> 4 dvd uint (fb_pitch s) \<and>
     4 * uint (fb_width s) \<le> uint (fb_pitch s) \<and>
     uint (fb_ptr s) + uint (fb_pitch s) * uint (fb_height s) \<le> 2 ^ 32 \<and>
     uint (fb_height s) < 2 ^ 31"

lemma uint_word_of_int_id: "0 \<le> k \<Longrightarrow> k < 2 ^ 32 \<Longrightarrow> uint (word_of_int k :: u32) = k"
  by (simp add: uint_word_of_int)

lemma bytes_per_pixel: "(32 :: u32) div 8 = 4"
  by (simp add: word_unat_eq_iff unat_div)

lemma fb_row_bound:
  assumes "fb_geom s" "fb_on s x y"
  shows "y * uint (fb_pitch s) + 4 * x + 4 \<le> uint (fb_pitch s) * uint (fb_height s)"
proof -
  have "(y + 1) * uint (fb_pitch s) \<le> uint (fb_height s) * uint (fb_pitch s)"
    using assms by (intro mult_right_mono) (auto simp: fb_on_def)
  moreover have "4 * x + 4 \<le> uint (fb_pitch s)"
    using assms by (auto simp: fb_on_def fb_geom_def)
  ultimately show ?thesis by (simp add: algebra_simps)
qed

lemma uint_fb_addr:
  assumes "fb_geom s" "fb_on s x y"
  shows "uint (fb_addr s x y) = uint (fb_ptr s) + y * uint (fb_pitch s) + 4 * x"
proof -
  let ?P = "uint (fb_pitch s)" and ?k = "uint (fb_ptr s) + y * uint (fb_pitch s) + 4 * x"
  have nn: "0 \<le> y * ?P" using assms by (simp add: fb_on_def)
  have bound: "?k + 4 \<le> 2 ^ 32"
    using fb_row_bound [OF assms] assms(1) by (simp add: fb_geom_def)
  have "fb_bpp s div 8 = 4"
    using assms(1) by (simp only: fb_geom_def bytes_per_pixel)
  then have "fb_addr s x y = word_of_int ?k"
    by (simp add: fb_addr_def algebra_simps)
  moreover have "0 \<le> ?k"
    using nn assms(2) by (simp add: fb_on_def)
  moreover have "?k < 2 ^ 32"
    using bound by simp
  ultimately show ?thesis
    by (simp only: uint_word_of_int_id)
qed

lemma fb_addr_aligned:
  assumes "fb_geom s" "fb_on s x y"
  shows "aligned4 (fb_addr s x y)"
proof -
  have "4 dvd uint (fb_addr s x y)"
    unfolding uint_fb_addr [OF assms] using assms(1) by (simp add: fb_geom_def)
  then have "int 4 dvd int (unat (fb_addr s x y))" by simp
  then have "4 dvd unat (fb_addr s x y)" unfolding int_dvd_int_iff .
  then show ?thesis by (simp add: take_bit_zero_iff)
qed

lemma fb_addr_inject:
  assumes "fb_geom s" "fb_on s x y" "fb_on s i j"
  shows "fb_addr s i j = fb_addr s x y \<longleftrightarrow> i = x \<and> j = y"
proof
  let ?P = "uint (fb_pitch s)"
  have r: "0 \<le> 4 * x" "4 * x < ?P" "0 \<le> 4 * i" "4 * i < ?P"
    using assms by (auto simp: fb_geom_def fb_on_def)
  assume "fb_addr s i j = fb_addr s x y"
  then have eq: "j * ?P + 4 * i = y * ?P + 4 * x"
    using uint_fb_addr [OF assms(1,2)] uint_fb_addr [OF assms(1,3)] by simp
  have "j = (j * ?P + 4 * i) div ?P" using r by simp
  also have "\<dots> = y" unfolding eq using r by simp
  finally have "j = y" .
  with eq show "i = x \<and> j = y" by simp
qed simp

lemma fb_store_simps [simp]:
  "fb_on (fb_store x y c s) = fb_on s"
  "fb_addr (fb_store x y c s) = fb_addr s"
  "fb_geom (fb_store x y c s) = fb_geom s"
  "fb_enabled (fb_store x y c s) = fb_enabled s"
  "fb_width (fb_store x y c s) = fb_width s"
  "fb_height (fb_store x y c s) = fb_height s"
  by (auto simp: fb_store_def fb_on_def fb_addr_def fb_geom_def fun_eq_iff)

interpretation fbs: surface fb_store fb_pixel fb_on fb_geom
proof
  fix s :: "'a fb_scheme" and x y i j c
  assume g: "fb_geom s" "fb_on s x y" "fb_on s i j"
  have v: "vram (fb_store x y c s) = store32 (vram s) (fb_addr s x y) c"
    by (simp add: fb_store_def fb_addr_def)
  show "fb_pixel (fb_store x y c s) i j = (if i = x \<and> j = y then c else fb_pixel s i j)"
    using fb_addr_inject [OF g] fb_addr_aligned [OF g(1,2)] fb_addr_aligned [OF g(1,3)]
    by (auto simp: fb_pixel_def v load32_store32_other)
qed simp_all

section \<open>What the drawing operations show\<close>

lemma fold_rows:
  "fold (\<lambda>r. fold (\<lambda>c. g c r) cs) rs s = fold (\<lambda>(c, r). g c r) [(c, r). r \<leftarrow> rs, c \<leftarrow> cs] s"
proof (induction rs arbitrary: s)
  case (Cons r rs)
  have "fold (\<lambda>c. g c r) cs t = fold (\<lambda>(c, r). g c r) (map (\<lambda>c. (c, r)) cs) t" for t
    by (induction cs arbitrary: t) auto
  then show ?case by (simp add: Cons)
qed simp

lemma for_u32_fold: "for_u32 i n f = fold f (map of_nat [unat i..<unat n])"
proof
  fix s show "for_u32 i n f s = fold f (map of_nat [unat i..<unat n]) s"
  proof (induction i n f s rule: for_u32.induct)
    case (1 i n f s)
    show ?case
    proof (cases "i < n")
      case True
      then have "[unat i..<unat n] = unat i # [unat (i + 1)..<unat n]"
        by (simp add: unat_inc word_less_nat_alt upt_rec)
      with 1 True show ?thesis by (simp add: for_u32.simps [of i])
    qed (simp add: word_less_nat_alt)
  qed
qed

lemma for_int_fold: "for_int lo hi f = fold f [lo..hi - 1]"
  by (simp add: for_int_def fun_eq_iff)

lemma sint_small: "uint w < 2 ^ 31 \<Longrightarrow> sint w = uint w" for w :: u32
  by (simp add: sint_uint signed_take_bit_int_eq_self_iff order_trans [OF _ uint_ge_0])

lemma map_int_upt: "map int [0..<n] = [0..int n - 1]"
  by (induction n) (simp_all add: upto_rec2)

lemma upto_uint: "[0..uint w - 1] = map int [0..<unat w]" for w :: u32
  using map_int_upt [of "unat w"] by simp

abbreviation int_range :: "int \<Rightarrow> bool" where
  "int_range a \<equiv> - (2 ^ 31) \<le> a \<and> a < 2 ^ 31"

lemma int_add_small: "int_range (a + b) \<Longrightarrow> int_add a b = a + b"
  unfolding int_add_def int_word_sint by (simp add: mod_pos_pos_trivial)

lemma int_range_uint: "uint w < 2 ^ 31 \<Longrightarrow> int_range (0 + uint w)" for w :: u32
  using uint_ge_0 [of w] by linarith

text \<open>A rectangle of the screen is painted, and nothing else.\<close>

lemma fb_fillrect_pixels:
  assumes "fb_geom s" "fb_enabled s" "fb_on s i j" "0 \<le> x" "0 \<le> y" "int_range (x + w)" "int_range (y + h)"
  shows "fb_pixel (fb_fillrect x y w h c s) i j =
    (if x \<le> i \<and> i < x + w \<and> y \<le> j \<and> j < y + h then c else fb_pixel s i j)"
proof -
  let ?W = "min (x + w) (sint (fb_width s))" and ?H = "min (y + h) (sint (fb_height s))"
  let ?ps = "[(c, r). r \<leftarrow> [y..?H - 1], c \<leftarrow> [x..?W - 1]]"
  have small: "uint (fb_width s) < 2 ^ 31" "uint (fb_height s) < 2 ^ 31"
    using assms(1) uint_lt2p [of "fb_pitch s"] by (simp_all add: fb_geom_def)
  then have sint: "sint (fb_width s) = uint (fb_width s)" "sint (fb_height s) = uint (fb_height s)"
    by (simp_all add: sint_small)
  have on: "\<forall>(a, b) \<in> set ?ps. fb_on s a b"
    using assms(4,5) by (auto simp: fb_on_def sint)
  have "fb_fillrect x y w h c s = fold (\<lambda>(a, b). fb_store a b c) ?ps s"
    using assms(2) by (simp add: fb_fillrect_def for_int_fold fold_rows int_add_small [OF assms(6)] int_add_small [OF assms(7)])
  also have "\<dots> = fbs.plots (\<lambda>_ _. c) ?ps s"
    using fbs.plots_fold [OF on, of "\<lambda>_ _. c"] by simp
  finally have "fb_pixel (fb_fillrect x y w h c s) i j =
      (if (i, j) \<in> set ?ps then c else fb_pixel s i j)"
    by (simp only: fbs.plots_pix [OF assms(1,3)])
  moreover have "(i, j) \<in> set ?ps \<longleftrightarrow> x \<le> i \<and> i < x + w \<and> y \<le> j \<and> j < y + h"
    using assms(3) by (force simp: fb_on_def sint intro!: bexI [of _ j] image_eqI [of _ _ i])
  ultimately show ?thesis by simp
qed

lemma fb_clear_fillrect:
  assumes "fb_geom s" "fb_enabled s"
  shows "fb_clear c s = fb_fillrect 0 0 (uint (fb_width s)) (uint (fb_height s)) c s"
proof -
  have small: "uint (fb_width s) < 2 ^ 31" "uint (fb_height s) < 2 ^ 31"
    using assms(1) uint_lt2p [of "fb_pitch s"] by (simp_all add: fb_geom_def)
  have st: "(\<lambda>t. t\<lparr>vram := store32 (vram t)
        (fb_ptr t + (of_nat y * fb_pitch t + of_nat x * (fb_bpp t div 8))) c\<rparr>) =
      (fb_store (int x) (int y) c :: 'a fb_scheme \<Rightarrow> 'a fb_scheme)" for x y
    by (simp add: fb_store_def fun_eq_iff)
  show ?thesis
    using small assms(2)
    by (simp add: fb_clear_def fb_fillrect_def for_int_fold for_u32_fold fold_map comp_def st
        sint_small upto_uint int_add_small [OF int_range_uint])
qed

lemma fb_clear_pixels:
  assumes "fb_geom s" "fb_enabled s" "fb_on s i j"
  shows "fb_pixel (fb_clear c s) i j = c"
proof -
  have "uint (fb_width s) < 2 ^ 31" "uint (fb_height s) < 2 ^ 31"
    using assms(1) uint_lt2p [of "fb_pitch s"] by (simp_all add: fb_geom_def)
  then have r: "int_range (0 + uint (fb_width s))" "int_range (0 + uint (fb_height s))"
    by (simp_all only: int_range_uint)
  show ?thesis
    using fb_fillrect_pixels [OF assms order.refl order.refl r] assms by (simp add: fb_clear_fillrect fb_on_def)
qed

text \<open>There is no clipping on the left: a column to the left of the screen is the end of the row above.\<close>

lemma fb_fillrect_left:
  assumes g: "fb_geom s" "fb_enabled s" and p: "fb_pitch s = fb_width s * (fb_bpp s div 8)"
    and on: "fb_on s (uint (fb_width s) - 1) (r - 1)" "r < uint (fb_height s)"
  shows "fb_pixel (fb_fillrect (- 1) r 1 1 c s) (uint (fb_width s) - 1) (r - 1) = c"
proof -
  have small: "uint (fb_width s) < 2 ^ 31" "uint (fb_height s) < 2 ^ 31"
    using g(1) uint_lt2p [of "fb_pitch s"] by (simp_all add: fb_geom_def)
  have r: "int_range (r + 1)" "1 \<le> r" using on small(2) by (auto simp: fb_on_def)
  have "sint (fb_height s) = uint (fb_height s)" "sint (fb_width s) = uint (fb_width s)" using small by (simp_all add: sint_small)
  moreover have "[r..r] = [r]" by simp
  ultimately have "fb_fillrect (- 1) r 1 1 c s = fb_store (- 1) r c s"
    using g(2) on(2) int_add_small [OF r(1)]
    by (simp add: fb_fillrect_def for_int_def int_add_def min_def)
  also have "\<dots> = fb_store (uint (fb_width s) - 1) (r - 1) c s"
    by (simp add: fb_store_def p Let_def algebra_simps)
  finally show ?thesis using fbs.pix_plot [OF g(1) on(1) on(1)] by simp
qed

text \<open>C30: drawing a printable character paints its 8 by 8 glyph in the two colours at the given
  place, clipped to the screen, and leaves every other visible pixel as it was.\<close>

theorem fb_drawchar_pixels:
  fixes s :: "'a fb_scheme"
  assumes "fb_geom s" "fb_enabled s" "fb_on s i j"
    and "0x20 \<le> schar ch" "schar ch \<le> 0x7E"
    and "x + 8 < 2 ^ 31" "y + 8 < 2 ^ 31"
  shows "fb_pixel (fb_drawchar x y ch fg bg s) i j =
    (if x \<le> i \<and> i < x + 8 \<and> y \<le> j \<and> j < y + 8
     then if glyph_bit (fb_font ! nat (schar ch - 0x20) ! nat (j - y)) (i - x) then fg else bg
     else fb_pixel s i j)"
proof -
  let ?g = "fb_font ! nat (schar ch - 0x20)"
  let ?f = "\<lambda>a b. if glyph_bit (?g ! nat (b - y)) (a - x) then fg else bg"
  let ?base = "[(c, r). r \<leftarrow> [0..8 - 1 :: int], c \<leftarrow> [0..8 - 1 :: int]]"
  let ?ps = "map (\<lambda>(c, r). (x + c, y + r)) ?base"
  let ?step = "\<lambda>c r t. let color = (if glyph_bit (?g ! nat r) c then fg else bg); px = x + c; py = y + r
    in if px \<ge> 0 \<and> word_of_int px < fb_width t \<and> py \<ge> 0 \<and> word_of_int py < fb_height t
       then fb_store px py color t else t"
  have guard: "(a \<ge> 0 \<and> word_of_int a < fb_width t \<and> b \<ge> 0 \<and> word_of_int b < fb_height t) = fb_on t a b"
    if "a < 2 ^ 31" "b < 2 ^ 31" for a b and t :: "'a fb_scheme"
    using that by (auto simp: fb_on_def word_less_def uint_word_of_int_id)
  have "fb_drawchar x y ch fg bg s =
      fold (\<lambda>r. fold (\<lambda>c. ?step c r) [0..8 - 1]) [0..8 - 1] s"
  proof -
    have "\<not> (schar ch < 0x20 \<or> schar ch > 0x7E)" using assms(4,5) by simp
    with assms(2) show ?thesis
      unfolding fb_drawchar_def for_int_fold Let_def by (simp only: if_False simp_thms)
  qed
  also have "\<dots> = fold (\<lambda>(c, r). ?step c r) ?base s"
    by (rule fold_rows)
  also have "\<dots> = fold (\<lambda>(a, b) t. if fb_on t a b then fb_store a b (?f a b) t else t) ?ps s"
    unfolding fold_map
  proof (rule fold_cong [OF refl refl])
    fix p assume "p \<in> set ?base"
    then obtain c r where p: "p = (c, r)" and b: "x + c < 2 ^ 31" "y + r < 2 ^ 31"
      using assms(6,7) by auto
    show "((\<lambda>(c, r). ?step c r) p :: 'a fb_scheme \<Rightarrow> 'a fb_scheme) =
        ((\<lambda>(a, b) t. if fb_on t a b then fb_store a b (?f a b) t else t) \<circ> (\<lambda>(c, r). (x + c, y + r))) p"
      by (simp only: p prod.case comp_apply Let_def guard [OF b] add_diff_cancel_left')
  qed
  finally have "fb_drawchar x y ch fg bg s = fbs.plots ?f ?ps s"
    by (simp only: fbs.plots_def)
  then have "fb_pixel (fb_drawchar x y ch fg bg s) i j =
      (if (i, j) \<in> set ?ps then ?f i j else fb_pixel s i j)"
    by (simp only: fbs.plots_pix [OF assms(1,3)])
  moreover have "(i, j) \<in> set ?ps \<longleftrightarrow> x \<le> i \<and> i < x + 8 \<and> y \<le> j \<and> j < y + 8" (is "_ = ?in")
  proof
    assume ?in
    then have "(i - x, j - y) \<in> set ?base"
      by (auto intro!: bexI [of _ "j - y"] image_eqI [of _ _ "i - x"])
    then show "(i, j) \<in> set ?ps"
      by (auto intro!: image_eqI [of _ _ "(i - x, j - y)"])
  qed auto
  ultimately show ?thesis by simp
qed

definition demo_fb :: fb where
  "demo_fb = \<lparr>io_log = [], io_dev = (\<lambda>_ _. 0), tick = 0,
     vga_buffer = (\<lambda>_. 0), vga_row = 0, vga_column = 0, vga_color = 0, fb_ptr = 0x1000,
     fb_width = 8, fb_height = 8, fb_pitch = 32, fb_bpp = 32, fb_enabled = True, vram = (\<lambda>_. 0)\<rparr>"

theorem fb_drawchar_pixels_witness:
  "fb_pixel (fb_drawchar 0 0 CHR ''H'' 7 9 demo_fb) 1 0 = 7 \<and>
   fb_pixel (fb_drawchar 0 0 CHR ''H'' 7 9 demo_fb) 0 0 = 9"
proof -
  have g: "fb_geom demo_fb" "fb_enabled demo_fb" by (simp_all add: fb_geom_def demo_fb_def)
  have o: "fb_on demo_fb 1 0" "fb_on demo_fb 0 0" by (simp_all add: fb_on_def demo_fb_def)
  have c: "0x20 \<le> schar CHR ''H''" "schar CHR ''H'' \<le> 0x7E" by (simp_all add: schar_def)
  have f: "fb_font ! nat (schar CHR ''H'' - 0x20) = [0x42, 0x42, 0x42, 0x7E, 0x42, 0x42, 0x42, 0x00]"
    by (simp add: schar_def fb_font_def)
  show ?thesis
    using fb_drawchar_pixels [OF g o(1) c, of 0 0 7 9] fb_drawchar_pixels [OF g o(2) c, of 0 0 7 9]
    unfolding f by (simp add: glyph_bit_def)
qed

text \<open>C31: for a rectangle that does not start to the left of or above the screen and whose right and lower ends do
  not overflow an \<open>int\<close>, \<open>fb_fillrect\<close> paints exactly the part of it that is on the screen.
  \<open>fb_clear\<close> paints every visible pixel. On the left nothing is clipped: in a mode without padding a
  pixel at column -1 is painted at the end of the row above.\<close>

theorem fb_rectangles:
  assumes "fb_geom s" "fb_enabled s" "fb_on s i j" "0 \<le> x" "0 \<le> y" "int_range (x + w)" "int_range (y + h)"
  shows "fb_pixel (fb_fillrect x y w h c s) i j =
      (if x \<le> i \<and> i < x + w \<and> y \<le> j \<and> j < y + h then c else fb_pixel s i j) \<and>
    fb_pixel (fb_clear c s) i j = c \<and>
    (fb_pitch s = fb_width s * (fb_bpp s div 8) \<longrightarrow> j + 1 < uint (fb_height s) \<longrightarrow> i + 1 = uint (fb_width s) \<longrightarrow>
      fb_pixel (fb_fillrect (- 1) (j + 1) 1 1 c s) i j = c)"
proof (intro conjI impI)
  assume p: "fb_pitch s = fb_width s * (fb_bpp s div 8)" "j + 1 < uint (fb_height s)" "i + 1 = uint (fb_width s)"
  then have "i = uint (fb_width s) - 1" by simp
  with fb_fillrect_left [OF assms(1,2) p(1), of "j + 1" c] assms(3) p(2)
  show "fb_pixel (fb_fillrect (- 1) (j + 1) 1 1 c s) i j = c" by simp
qed (rule fb_fillrect_pixels [OF assms] fb_clear_pixels [OF assms(1-3)])+

theorem fb_rectangles_witness:
  "fb_pixel (fb_fillrect 2 3 4 4 7 demo_fb) 5 6 = 7 \<and>
   fb_pixel (fb_fillrect 2 3 4 4 7 demo_fb) 1 6 = fb_pixel demo_fb 1 6 \<and>
   fb_pixel (fb_fillrect (- 1) 1 1 1 7 demo_fb) 7 0 = 7"
proof -
  have g: "fb_geom demo_fb" "fb_enabled demo_fb" by (simp_all add: fb_geom_def demo_fb_def)
  have o: "fb_on demo_fb 5 6" "fb_on demo_fb 1 6" "fb_on demo_fb 7 0" by (simp_all add: fb_on_def demo_fb_def)
  show ?thesis
    using fb_rectangles [OF g o(1), of 2 3 4 4 7] fb_rectangles [OF g o(2), of 2 3 4 4 7]
      fb_rectangles [OF g o(3), of 2 3 4 4 7] by (simp add: demo_fb_def)
qed

end
