(* ===== verification/Fbcon.thy ===== *)
theory Fbcon
  imports Framebuffer
begin

text \<open>
  The framebuffer console, src/src/drivers/fbcon.c: a character grid of at most 200 by 200
  cells, the text position, the blinking cursor and their drawing. \<open>fbcon\<close> extends the
  framebuffer's state by the file's static variables; the array \<open>buf\<close> is the function
  \<open>con_buf\<close> of row and column, and \<open>con_inv\<close> states that every access stays inside it.
\<close>

record fbcon = fb +
  con_buf :: "int \<Rightarrow> int \<Rightarrow> char"
  COLS :: int
  ROWS :: int
  con_cx :: int
  con_cy :: int
  visible :: bool
  cursor_shown :: bool
  cursor_blink :: bool
  cursor_last_toggle :: u32
  cursor_x :: int
  cursor_y :: int

definition CHAR_W :: int where "CHAR_W = 10"
definition CHAR_H :: int where "CHAR_H = 10"
definition MAX_COLS :: int where "MAX_COLS = 200"
definition MAX_ROWS :: int where "MAX_ROWS = 200"
definition TAB :: int where "TAB = 4"
definition BLINK_RATE :: u32 where "BLINK_RATE = 125"

definition con_fg :: u32 where "con_fg = fb_rgb 200 200 200"
definition con_bg :: u32 where "con_bg = fb_rgb 0 0 0"

definition buf_set :: "int \<Rightarrow> int \<Rightarrow> char \<Rightarrow> 'a fbcon_scheme \<Rightarrow> 'a fbcon_scheme" where
  "buf_set y x c s = s\<lparr>con_buf := (con_buf s)(y := (con_buf s y)(x := c))\<rparr>"

definition cursor_show :: "'a fbcon_scheme \<Rightarrow> 'a fbcon_scheme" where
  "cursor_show s =
    (if \<not> visible s \<or> \<not> fb_is_enabled s then s
     else (fb_fillrect (con_cx s * CHAR_W) (con_cy s * CHAR_H) 8 8 con_fg s)
            \<lparr>cursor_shown := True, cursor_x := con_cx s, cursor_y := con_cy s\<rparr>)"

definition cursor_hide :: "'a fbcon_scheme \<Rightarrow> 'a fbcon_scheme" where
  "cursor_hide s =
    (if \<not> visible s \<or> \<not> fb_is_enabled s then s
     else if cursor_shown s
     then (fb_drawchar (cursor_x s * CHAR_W) (cursor_y s * CHAR_H)
             (con_buf s (cursor_y s) (cursor_x s)) con_fg con_bg s)\<lparr>cursor_shown := False\<rparr>
     else s)"

definition scroll :: "'a fbcon_scheme \<Rightarrow> 'a fbcon_scheme" where
  "scroll s =
    (let s = for_int 1 (ROWS s) (\<lambda>y. for_int 0 (COLS s) (\<lambda>x s. buf_set (y - 1) x (con_buf s y x) s)) s;
         s = for_int 0 (COLS s) (\<lambda>x. buf_set (ROWS s - 1) x CHR '' '') s
     in s\<lparr>con_cy := con_cy s - 1\<rparr>)"

definition fbcon_init :: "'a fbcon_scheme \<Rightarrow> 'a fbcon_scheme" where
  "fbcon_init s =
    for_int 0 MAX_ROWS (\<lambda>y. for_int 0 MAX_COLS (\<lambda>x. buf_set y x CHR '' ''))
      (s\<lparr>COLS := 80, ROWS := 25, con_cx := 0, con_cy := 0, visible := False,
         cursor_shown := False, cursor_blink := False, cursor_last_toggle := 0\<rparr>)"

definition fbcon_resize :: "'a fbcon_scheme \<Rightarrow> 'a fbcon_scheme" where
  "fbcon_resize s =
    (let fw = fb_get_width s; fh = fb_get_height s in
     if fw < 1 \<or> fh < 1 then s
     else
       let nc = fw div 10; nr = fh div 10;
           nc = (if nc < 1 then 1 else nc);
           nr = (if nr < 1 then 1 else nr);
           nc = (if nc > 200 then 200 else nc);
           nr = (if nr > 200 then 200 else nr);
           s = s\<lparr>COLS := sint nc, ROWS := sint nr\<rparr>;
           s = (if con_cx s \<ge> COLS s then s\<lparr>con_cx := COLS s - 1\<rparr> else s);
           s = (if con_cy s \<ge> ROWS s then s\<lparr>con_cy := ROWS s - 1\<rparr> else s)
       in s\<lparr>cursor_shown := False\<rparr>)"

definition fbcon_redraw :: "'a fbcon_scheme \<Rightarrow> 'a fbcon_scheme" where
  "fbcon_redraw s =
    (if \<not> fb_is_enabled s then s
     else
       let s = for_int 0 (ROWS s) (\<lambda>y. for_int 0 (COLS s) (\<lambda>x s.
                 fb_drawchar (x * CHAR_W) (y * CHAR_H) (con_buf s y x) con_fg con_bg s)) s;
           s = s\<lparr>cursor_shown := False\<rparr>
       in if cursor_blink s then cursor_show s else s)"

text \<open>The branches of \<open>fbcon_putchar\<close> on the character, then the wrapping both share.\<close>

definition putchar_at :: "char \<Rightarrow> 'a fbcon_scheme \<Rightarrow> 'a fbcon_scheme" where
  "putchar_at c s =
    (if c = CHR 0x0A then s\<lparr>con_cx := 0, con_cy := con_cy s + 1\<rparr>
     else if c = CHR 0x0D then s\<lparr>con_cx := 0\<rparr>
     else if c = CHR 0x08 then
       let s = (if con_cx s > 0 then s\<lparr>con_cx := con_cx s - 1\<rparr>
                else if con_cy s > 0 then s\<lparr>con_cy := con_cy s - 1, con_cx := COLS s - 1\<rparr>
                else s);
           s = buf_set (con_cy s) (con_cx s) CHR '' '' s
       in if visible s
          then fb_drawchar (con_cx s * CHAR_W) (con_cy s * CHAR_H) CHR '' '' con_fg con_bg s else s
     else if c = CHR 0x09 then s\<lparr>con_cx := (con_cx s + TAB) AND NOT (TAB - 1)\<rparr>
     else
       let s = buf_set (con_cy s) (con_cx s) c s;
           s = (if visible s
                then fb_drawchar (con_cx s * CHAR_W) (con_cy s * CHAR_H) c con_fg con_bg s else s)
       in s\<lparr>con_cx := con_cx s + 1\<rparr>)"

definition putchar_wrap :: "'a fbcon_scheme \<Rightarrow> 'a fbcon_scheme" where
  "putchar_wrap s =
    (let s = (if con_cx s \<ge> COLS s then s\<lparr>con_cx := 0, con_cy := con_cy s + 1\<rparr> else s)
     in if con_cy s \<ge> ROWS s
        then (let s = scroll s in if visible s then fbcon_redraw s else s) else s)"

definition fbcon_putchar :: "char \<Rightarrow> 'a fbcon_scheme \<Rightarrow> 'a fbcon_scheme" where
  "fbcon_putchar c s =
    (if COLS s = 0 \<or> ROWS s = 0 then s
     else
       let s = putchar_wrap (putchar_at c (cursor_hide s))
       in cursor_show (s\<lparr>cursor_blink := True, cursor_last_toggle := tick s\<rparr>))"

definition fbcon_set_visible :: "bool \<Rightarrow> 'a fbcon_scheme \<Rightarrow> 'a fbcon_scheme" where
  "fbcon_set_visible v s =
    (let s = s\<lparr>visible := v\<rparr>
     in if v then s\<lparr>cursor_blink := True, cursor_last_toggle := tick s\<rparr> else s)"

definition fbcon_get_visible :: "'a fbcon_scheme \<Rightarrow> bool" where
  "fbcon_get_visible s = visible s"

definition fbcon_cursor_up :: "'a fbcon_scheme \<Rightarrow> 'a fbcon_scheme" where
  "fbcon_cursor_up s =
    (let s = cursor_hide s;
         s = (if con_cy s > 0 then s\<lparr>con_cy := con_cy s - 1\<rparr> else s)
     in cursor_show s)"

definition fbcon_cursor_down :: "'a fbcon_scheme \<Rightarrow> 'a fbcon_scheme" where
  "fbcon_cursor_down s =
    (let s = cursor_hide s;
         s = (if con_cy s < ROWS s - 1 then s\<lparr>con_cy := con_cy s + 1\<rparr> else s)
     in cursor_show s)"

definition fbcon_cursor_left :: "'a fbcon_scheme \<Rightarrow> 'a fbcon_scheme" where
  "fbcon_cursor_left s =
    (let s = cursor_hide s;
         s = (if con_cx s > 0 then s\<lparr>con_cx := con_cx s - 1\<rparr>
              else if con_cy s > 0 then s\<lparr>con_cy := con_cy s - 1, con_cx := COLS s - 1\<rparr>
              else s)
     in cursor_show s)"

definition fbcon_cursor_right :: "'a fbcon_scheme \<Rightarrow> 'a fbcon_scheme" where
  "fbcon_cursor_right s =
    (let s = cursor_hide s;
         s = (if con_cx s < COLS s - 1 then s\<lparr>con_cx := con_cx s + 1\<rparr>
              else if con_cy s < ROWS s - 1 then s\<lparr>con_cy := con_cy s + 1, con_cx := 0\<rparr>
              else s)
     in cursor_show s)"

definition fbcon_tick :: "'a fbcon_scheme \<Rightarrow> 'a fbcon_scheme" where
  "fbcon_tick s =
    (if \<not> visible s then (cursor_hide s)\<lparr>cursor_blink := False\<rparr>
     else
       let now = tick s in
       if now - cursor_last_toggle s \<ge> BLINK_RATE
       then (let s = s\<lparr>cursor_last_toggle := now, cursor_blink := \<not> cursor_blink s\<rparr>
             in if cursor_blink s then cursor_show s else cursor_hide s)
       else s)"

section \<open>Frame: the console changes its own variables and the video memory only\<close>

definition con_frame :: "('a fbcon_scheme \<Rightarrow> 'p) \<Rightarrow> bool" where
  "con_frame p \<longleftrightarrow> vram_frame p \<and>
     (\<forall>s v. p (s\<lparr>con_buf := v\<rparr>) = p s) \<and> (\<forall>s v. p (s\<lparr>con_cx := v\<rparr>) = p s) \<and>
     (\<forall>s v. p (s\<lparr>con_cy := v\<rparr>) = p s) \<and> (\<forall>s v. p (s\<lparr>cursor_shown := v\<rparr>) = p s) \<and>
     (\<forall>s v. p (s\<lparr>cursor_blink := v\<rparr>) = p s) \<and> (\<forall>s v. p (s\<lparr>cursor_last_toggle := v\<rparr>) = p s) \<and>
     (\<forall>s v. p (s\<lparr>cursor_x := v\<rparr>) = p s) \<and> (\<forall>s v. p (s\<lparr>cursor_y := v\<rparr>) = p s)"

lemma con_frameD:
  assumes "con_frame p"
  shows "vram_frame p"
    "p (s\<lparr>con_buf := b\<rparr>) = p s" "p (s\<lparr>con_cx := k\<rparr>) = p s" "p (s\<lparr>con_cy := k\<rparr>) = p s"
    "p (s\<lparr>cursor_shown := f\<rparr>) = p s" "p (s\<lparr>cursor_blink := f\<rparr>) = p s"
    "p (s\<lparr>cursor_last_toggle := t\<rparr>) = p s" "p (s\<lparr>cursor_x := k\<rparr>) = p s" "p (s\<lparr>cursor_y := k\<rparr>) = p s"
  using assms by (simp_all add: con_frame_def)

lemma buf_set_frame:
  assumes p: "con_frame p"
  shows "p (buf_set y x c s) = p s"
  by (simp add: buf_set_def con_frameD [OF p])

lemma cursor_frames:
  assumes p: "con_frame p"
  shows "p (cursor_show s) = p s" "p (cursor_hide s) = p s"
  by (simp_all add: cursor_show_def cursor_hide_def con_frameD [OF p]
      fb_fillrect_frame [OF con_frameD(1) [OF p]] fb_drawchar_frame [OF con_frameD(1) [OF p]])

lemma scroll_frame:
  assumes p: "con_frame p"
  shows "p (scroll s) = p s"
  by (simp add: scroll_def Let_def con_frameD [OF p] for_int_frame [of p] buf_set_frame [OF p])

lemma fbcon_redraw_frame:
  assumes p: "con_frame p"
  shows "p (fbcon_redraw s) = p s"
  by (simp add: fbcon_redraw_def Let_def con_frameD [OF p] for_int_frame [of p]
      fb_drawchar_frame [OF con_frameD(1) [OF p]] cursor_frames [OF p])

lemma fbcon_putchar_frame:
  assumes p: "con_frame p"
  shows "p (fbcon_putchar c s) = p s"
proof -
  note f = con_frameD [OF p] fb_drawchar_frame [OF con_frameD(1) [OF p]] buf_set_frame [OF p]
    cursor_frames [OF p] scroll_frame [OF p] fbcon_redraw_frame [OF p]
  have at: "p (putchar_at c s) = p s" for s by (simp add: putchar_at_def Let_def f)
  have wrap: "p (putchar_wrap s) = p s" for s by (simp add: putchar_wrap_def Let_def f)
  show ?thesis by (simp add: fbcon_putchar_def Let_def f at wrap)
qed

lemma fbcon_cursor_frames:
  assumes p: "con_frame p"
  shows "p (fbcon_cursor_up s) = p s" "p (fbcon_cursor_down s) = p s"
    "p (fbcon_cursor_left s) = p s" "p (fbcon_cursor_right s) = p s" "p (fbcon_tick s) = p s"
  by (simp_all add: fbcon_cursor_up_def fbcon_cursor_down_def fbcon_cursor_left_def
      fbcon_cursor_right_def fbcon_tick_def Let_def con_frameD [OF p] cursor_frames [OF p])

section \<open>Fields the drawing steps leave alone\<close>

lemma draw_fields [simp]:
  fixes s :: "'a fbcon_scheme"
  shows "con_buf (fb_drawchar x y c f b s) = con_buf s" "COLS (fb_drawchar x y c f b s) = COLS s"
    "ROWS (fb_drawchar x y c f b s) = ROWS s" "con_cx (fb_drawchar x y c f b s) = con_cx s"
    "con_cy (fb_drawchar x y c f b s) = con_cy s" "visible (fb_drawchar x y c f b s) = visible s"
    "cursor_shown (fb_drawchar x y c f b s) = cursor_shown s"
    "cursor_blink (fb_drawchar x y c f b s) = cursor_blink s"
    "cursor_x (fb_drawchar x y c f b s) = cursor_x s" "cursor_y (fb_drawchar x y c f b s) = cursor_y s"
    "fb_enabled (fb_drawchar x y c f b s) = fb_enabled s"
  by (rule fb_drawchar_frame, simp add: vram_frame_def)+

lemma fill_fields [simp]:
  fixes s :: "'a fbcon_scheme"
  shows "con_buf (fb_fillrect x y w h c s) = con_buf s" "COLS (fb_fillrect x y w h c s) = COLS s"
    "ROWS (fb_fillrect x y w h c s) = ROWS s" "con_cx (fb_fillrect x y w h c s) = con_cx s"
    "con_cy (fb_fillrect x y w h c s) = con_cy s" "visible (fb_fillrect x y w h c s) = visible s"
    "fb_enabled (fb_fillrect x y w h c s) = fb_enabled s"
  by (rule fb_fillrect_frame, simp add: vram_frame_def)+

lemma cursor_fields [simp]:
  "con_buf (cursor_show s) = con_buf s" "con_buf (cursor_hide s) = con_buf s"
  "con_cx (cursor_show s) = con_cx s" "con_cx (cursor_hide s) = con_cx s"
  "con_cy (cursor_show s) = con_cy s" "con_cy (cursor_hide s) = con_cy s"
  "COLS (cursor_show s) = COLS s" "COLS (cursor_hide s) = COLS s"
  "ROWS (cursor_show s) = ROWS s" "ROWS (cursor_hide s) = ROWS s"
  "visible (cursor_show s) = visible s" "visible (cursor_hide s) = visible s"
  by (simp_all add: cursor_show_def cursor_hide_def)

lemma redraw_fields [simp]:
  "con_buf (fbcon_redraw s) = con_buf s" "con_cx (fbcon_redraw s) = con_cx s"
  "con_cy (fbcon_redraw s) = con_cy s" "COLS (fbcon_redraw s) = COLS s" "ROWS (fbcon_redraw s) = ROWS s"
  by (simp_all add: fbcon_redraw_def Let_def for_int_frame [of con_buf] for_int_frame [of con_cx]
      for_int_frame [of con_cy] for_int_frame [of COLS] for_int_frame [of ROWS])

section \<open>Scrolling moves the grid up by one row\<close>

lemma for_int_extend: "lo \<le> hi \<Longrightarrow> for_int lo (hi + 1) f s = f hi (for_int lo hi f s)"
  by (simp add: for_int_def upto_rec2)

lemma for_int_empty [simp]: "hi \<le> lo \<Longrightarrow> for_int lo hi f s = s"
  by (simp add: for_int_def)

lemma con_buf_id: "b = con_buf s \<Longrightarrow> s = s\<lparr>con_buf := b\<rparr>"
  by simp

lemma copy_row:
  assumes "0 \<le> n"
  shows "for_int 0 n (\<lambda>x s. buf_set (y - 1) x (con_buf s y x) s) s =
    s\<lparr>con_buf := (con_buf s)(y - 1 := \<lambda>x. if 0 \<le> x \<and> x < n then con_buf s y x else con_buf s (y - 1) x)\<rparr>"
  using assms
proof (induction n rule: int_ge_induct)
  case base
  then show ?case by (auto intro!: con_buf_id simp: fun_eq_iff)
next
  case (step n)
  then show ?case by (auto simp: for_int_extend buf_set_def fun_eq_iff)
qed

lemma copy_rows:
  assumes "1 \<le> m" "0 \<le> n"
  shows "for_int 1 m (\<lambda>y. for_int 0 n (\<lambda>x s. buf_set (y - 1) x (con_buf s y x) s)) s =
    s\<lparr>con_buf := (\<lambda>r x. if 0 \<le> r \<and> r < m - 1 \<and> 0 \<le> x \<and> x < n then con_buf s (r + 1) x
       else con_buf s r x)\<rparr>"
  using assms(1)
proof (induction m rule: int_ge_induct)
  case base
  then show ?case by (auto intro!: con_buf_id simp: fun_eq_iff)
next
  case (step m)
  then show ?case
    using assms(2) by (auto simp: for_int_extend copy_row fun_eq_iff)
qed

lemma blank_row:
  assumes "0 \<le> n"
  shows "for_int 0 n (\<lambda>x. buf_set r x c) s =
    s\<lparr>con_buf := (con_buf s)(r := \<lambda>x. if 0 \<le> x \<and> x < n then c else con_buf s r x)\<rparr>"
  using assms
proof (induction n rule: int_ge_induct)
  case base
  then show ?case by (auto intro!: con_buf_id simp: fun_eq_iff)
next
  case (step n)
  then show ?case by (auto simp: for_int_extend buf_set_def fun_eq_iff)
qed

lemma scroll_effect:
  assumes "1 \<le> ROWS s" "0 \<le> COLS s"
  shows "scroll s = s\<lparr>con_buf := (\<lambda>r x. if 0 \<le> r \<and> r < ROWS s \<and> 0 \<le> x \<and> x < COLS s
      then if r + 1 < ROWS s then con_buf s (r + 1) x else CHR '' '' else con_buf s r x),
    con_cy := con_cy s - 1\<rparr>"
  using assms by (auto simp: scroll_def Let_def copy_rows blank_row fun_eq_iff)

section \<open>The console stays inside its buffer\<close>

definition con_inv :: "'a fbcon_scheme \<Rightarrow> bool" where
  "con_inv s \<longleftrightarrow> 1 \<le> COLS s \<and> COLS s \<le> MAX_COLS \<and> 1 \<le> ROWS s \<and> ROWS s \<le> MAX_ROWS \<and>
     0 \<le> con_cx s \<and> con_cx s < COLS s \<and> 0 \<le> con_cy s \<and> con_cy s < ROWS s \<and>
     (cursor_shown s \<longrightarrow> 0 \<le> cursor_x s \<and> cursor_x s < COLS s \<and> 0 \<le> cursor_y s \<and> cursor_y s < ROWS s)"

lemma cursor_show_inv: "con_inv s \<Longrightarrow> con_inv (cursor_show s)"
  by (simp add: con_inv_def cursor_show_def)

lemma cursor_hide_inv: "con_inv s \<Longrightarrow> con_inv (cursor_hide s)"
  by (auto simp: con_inv_def cursor_hide_def)

lemma tab_stop: "0 \<le> x \<Longrightarrow> 0 \<le> (x + TAB) AND NOT (TAB - 1)" for x :: int
  by (simp add: TAB_def)

lemma redraw_inv:
  assumes "con_inv s"
  shows "con_inv (fbcon_redraw s)"
proof -
  let ?t = "for_int 0 (ROWS s) (\<lambda>y. for_int 0 (COLS s) (\<lambda>x s.
      fb_drawchar (x * CHAR_W) (y * CHAR_H) (con_buf s y x) con_fg con_bg s)) s"
  have "con_inv (?t\<lparr>cursor_shown := False\<rparr>)"
    using assms by (simp add: con_inv_def for_int_frame [of COLS] for_int_frame [of ROWS]
        for_int_frame [of con_cx] for_int_frame [of con_cy])
  then show ?thesis
    using assms by (simp add: fbcon_redraw_def Let_def cursor_show_inv)
qed

lemma wrap_inv:
  assumes "1 \<le> COLS s" "COLS s \<le> MAX_COLS" "1 \<le> ROWS s" "ROWS s \<le> MAX_ROWS" "0 \<le> con_cx s"
    "0 \<le> con_cy s" "con_cx s < COLS s \<Longrightarrow> con_cy s \<le> ROWS s" "\<not> con_cx s < COLS s \<Longrightarrow> con_cy s < ROWS s"
    "cursor_shown s \<Longrightarrow> 0 \<le> cursor_x s \<and> cursor_x s < COLS s \<and> 0 \<le> cursor_y s \<and> cursor_y s < ROWS s"
  shows "con_inv (putchar_wrap s)"
proof -
  let ?t = "if con_cx s \<ge> COLS s then s\<lparr>con_cx := 0, con_cy := con_cy s + 1\<rparr> else s"
  have "con_inv ?t" if "con_cy ?t < ROWS ?t"
    using assms that by (auto simp: con_inv_def)
  moreover have "con_inv (scroll ?t)" if "\<not> con_cy ?t < ROWS ?t"
    using assms that by (auto simp: con_inv_def scroll_effect)
  ultimately show ?thesis
    by (auto simp: putchar_wrap_def Let_def redraw_inv not_le not_less)
qed

lemma putchar_at_fields [simp]:
  "COLS (putchar_at c s) = COLS s" "ROWS (putchar_at c s) = ROWS s"
  "cursor_shown (putchar_at c s) = cursor_shown s"
  "cursor_x (putchar_at c s) = cursor_x s" "cursor_y (putchar_at c s) = cursor_y s"
  by (simp_all add: putchar_at_def Let_def buf_set_def)

lemma putchar_at_cy:
  "con_cy (putchar_at c s) =
    (if c = CHR 0x0A then con_cy s + 1
     else if c = CHR 0x08 \<and> con_cx s \<le> 0 \<and> con_cy s > 0 then con_cy s - 1 else con_cy s)"
  by (simp add: putchar_at_def Let_def buf_set_def)

lemma putchar_at_cx:
  "con_cx (putchar_at c s) =
    (if c = CHR 0x0A \<or> c = CHR 0x0D then 0
     else if c = CHR 0x08
     then (if con_cx s > 0 then con_cx s - 1 else if con_cy s > 0 then COLS s - 1 else con_cx s)
     else if c = CHR 0x09 then (con_cx s + TAB) AND NOT (TAB - 1) else con_cx s + 1)"
  by (simp add: putchar_at_def Let_def buf_set_def)

lemma putchar_at_wrap_inv:
  assumes "con_inv s"
  shows "con_inv (putchar_wrap (putchar_at c s))"
  using assms tab_stop [of "con_cx s"]
  by (intro wrap_inv) (simp_all add: con_inv_def putchar_at_cx putchar_at_cy split: if_splits)

lemma fbcon_putchar_inv: "con_inv s \<Longrightarrow> con_inv (fbcon_putchar c s)"
proof -
  assume "con_inv s"
  then have "con_inv (putchar_wrap (putchar_at c (cursor_hide s)))"
    by (intro putchar_at_wrap_inv cursor_hide_inv)
  then have "con_inv ((putchar_wrap (putchar_at c (cursor_hide s)))\<lparr>cursor_blink := b, cursor_last_toggle := t\<rparr>)" for b t
    by (simp add: con_inv_def)
  with \<open>con_inv s\<close> show ?thesis
    by (simp add: fbcon_putchar_def Let_def cursor_show_inv)
qed

lemma fbcon_init_inv: "con_inv (fbcon_init s)"
  by (simp add: fbcon_init_def con_inv_def MAX_COLS_def MAX_ROWS_def buf_set_def
      for_int_frame [of COLS] for_int_frame [of ROWS] for_int_frame [of con_cx]
      for_int_frame [of con_cy] for_int_frame [of cursor_shown])

lemma clamp_cells:
  fixes n :: u32
  shows "1 \<le> sint (let n = (if n < 1 then 1 else n) in if n > 200 then 200 else n) \<and>
    sint (let n = (if n < 1 then 1 else n) in if n > 200 then 200 else n) \<le> 200"
proof -
  let ?m = "let n = (if n < 1 then 1 else n) in if n > 200 then 200 else n"
  have "1 \<le> ?m" "?m \<le> 200" by (auto simp: Let_def not_less word_le_nat_alt Suc_le_eq unat_gt_0)
  then have "1 \<le> uint ?m" "uint ?m \<le> 200" by (simp_all add: word_le_def)
  then show ?thesis by (simp add: sint_small)
qed

lemma fbcon_resize_inv:
  assumes "con_inv s"
  shows "con_inv (fbcon_resize s)"
proof (cases "fb_get_width s < 1 \<or> fb_get_height s < 1")
  case True
  then show ?thesis using assms by (simp add: fbcon_resize_def)
next
  case False
  note c = clamp_cells [of "fb_get_width s div 10", unfolded Let_def]
    clamp_cells [of "fb_get_height s div 10", unfolded Let_def]
  show ?thesis
    using False assms c unfolding fbcon_resize_def Let_def con_inv_def MAX_COLS_def MAX_ROWS_def
    by simp
qed

lemma fbcon_moves_inv:
  assumes "con_inv s"
  shows "con_inv (fbcon_cursor_up s)" "con_inv (fbcon_cursor_down s)"
    "con_inv (fbcon_cursor_left s)" "con_inv (fbcon_cursor_right s)" "con_inv (fbcon_tick s)"
    "con_inv (fbcon_set_visible v s)"
proof -
  have h: "con_inv (cursor_hide s)" by (rule cursor_hide_inv [OF assms])
  have blink: "con_inv (s\<lparr>cursor_last_toggle := t, cursor_blink := b\<rparr>)" for t b
    using assms by (simp add: con_inv_def)
  show "con_inv (fbcon_cursor_up s)" "con_inv (fbcon_cursor_down s)"
    "con_inv (fbcon_cursor_left s)" "con_inv (fbcon_cursor_right s)"
    using h unfolding fbcon_cursor_up_def fbcon_cursor_down_def fbcon_cursor_left_def
      fbcon_cursor_right_def Let_def
    by (intro cursor_show_inv; simp add: con_inv_def)+
  show "con_inv (fbcon_tick s)"
  proof -
    have "con_inv ((cursor_hide s)\<lparr>cursor_blink := False\<rparr>)" using h by (simp add: con_inv_def)
    then show ?thesis
      using assms blink by (simp add: fbcon_tick_def Let_def cursor_show_inv cursor_hide_inv)
  qed
  show "con_inv (fbcon_set_visible v s)"
    using assms by (simp add: fbcon_set_visible_def con_inv_def Let_def)
qed

section \<open>The console as a character console\<close>

lemma putchar_geometry [simp]: "COLS (fbcon_putchar c s) = COLS s" "ROWS (fbcon_putchar c s) = ROWS s"
  by (rule fbcon_putchar_frame, simp add: con_frame_def vram_frame_def)+

lemma fbcon_putchar_text:
  assumes "con_inv s"
  shows "con_buf (fbcon_putchar c s) = con_buf (putchar_wrap (putchar_at c (cursor_hide s)))"
    "con_cx (fbcon_putchar c s) = con_cx (putchar_wrap (putchar_at c (cursor_hide s)))"
    "con_cy (fbcon_putchar c s) = con_cy (putchar_wrap (putchar_at c (cursor_hide s)))"
  using assms by (auto simp: fbcon_putchar_def Let_def con_inv_def)

lemma wrap_stays: "con_cx s < COLS s \<Longrightarrow> con_cy s < ROWS s \<Longrightarrow> putchar_wrap s = s"
  by (simp add: putchar_wrap_def)

interpretation fbc: text_console fbcon_putchar con_buf con_cy con_cx ROWS COLS "\<lambda>_ c. c" con_inv
proof
  fix s :: "'a fbcon_scheme" and c :: char
  assume inv: "con_inv s"
  then have b: "1 \<le> ROWS s" "0 \<le> COLS s" "0 < COLS s" "con_cx s < COLS s" "con_cy s < ROWS s"
    "0 \<le> con_cy s" "0 \<le> con_cx s"
    by (simp_all add: con_inv_def)
  show "con_inv (fbcon_putchar c s)" by (rule fbcon_putchar_inv [OF inv])
  show "0 \<le> con_cy s \<and> con_cy s < ROWS s \<and> 0 \<le> con_cx s \<and> con_cx s < COLS s" using b by simp
  show "(\<lambda>c. c) = (\<lambda>c. c) \<and> ROWS (fbcon_putchar c s) = ROWS s \<and> COLS (fbcon_putchar c s) = COLS s"
    by simp
  show "con_cy (fbcon_putchar c s) = con_cy s \<and> con_cx (fbcon_putchar c s) = con_cx s + 1 \<and>
      (\<forall>r k. 0 \<le> r \<longrightarrow> r < ROWS s \<longrightarrow> 0 \<le> k \<longrightarrow> k < COLS s \<longrightarrow>
        con_buf (fbcon_putchar c s) r k = (if r = con_cy s \<and> k = con_cx s then c else con_buf s r k))"
    if "plain c" "con_cx s + 1 < COLS s"
  proof -
    from that(1) have "c \<noteq> CHR 0x0A" "c \<noteq> CHR 0x0D" "c \<noteq> CHR 0x08" "c \<noteq> CHR 0x09"
      by (auto simp: plain_def)
    moreover from this have "putchar_wrap (putchar_at c (cursor_hide s)) = putchar_at c (cursor_hide s)"
      using that(2) b by (intro wrap_stays) (simp_all add: putchar_at_cx putchar_at_cy)
    ultimately show ?thesis
      by (simp add: fbcon_putchar_text [OF inv] putchar_at_def Let_def buf_set_def)
  qed
  let ?n = "putchar_at (CHR 0x0A) (cursor_hide s)"
  have n: "con_cx ?n = 0" "con_cy ?n = con_cy s + 1" "con_buf ?n = con_buf s"
    by (simp_all add: putchar_at_def)
  show "con_cy (fbcon_putchar (CHR 0x0A) s) = con_cy s \<and> con_cx (fbcon_putchar (CHR 0x0A) s) = 0 \<and>
      (\<forall>r k. 0 \<le> r \<longrightarrow> r < ROWS s \<longrightarrow> 0 \<le> k \<longrightarrow> k < COLS s \<longrightarrow>
        con_buf (fbcon_putchar (CHR 0x0A) s) r k =
        (if r + 1 < ROWS s then con_buf s (r + 1) k else CHR '' ''))"
    if "con_cy s + 1 = ROWS s"
    using that b n by (simp add: fbcon_putchar_text [OF inv] putchar_wrap_def Let_def scroll_effect)
  show "con_cy (fbcon_putchar (CHR 0x0A) s) = con_cy s + 1 \<and> con_cx (fbcon_putchar (CHR 0x0A) s) = 0 \<and>
      (\<forall>r k. 0 \<le> r \<longrightarrow> r < ROWS s \<longrightarrow> 0 \<le> k \<longrightarrow> k < COLS s \<longrightarrow>
        con_buf (fbcon_putchar (CHR 0x0A) s) r k = con_buf s r k)"
    if "con_cy s + 1 < ROWS s"
    using that b n by (simp add: fbcon_putchar_text [OF inv] wrap_stays)
qed

section \<open>Every run of the console\<close>

text \<open>
  The states the console can be in: after \<open>fbcon_init\<close>, any sequence of its operations, of
  timer ticks and of changes to the framebuffer underneath it (\<open>fb_init\<close>, drawing by others).
\<close>

inductive con_reach :: "'a fbcon_scheme \<Rightarrow> bool" where
  init: "con_reach (fbcon_init s)"
| putc: "con_reach s \<Longrightarrow> con_reach (fbcon_putchar c s)"
| redraw: "con_reach s \<Longrightarrow> con_reach (fbcon_redraw s)"
| resize: "con_reach s \<Longrightarrow> con_reach (fbcon_resize s)"
| set_vis: "con_reach s \<Longrightarrow> con_reach (fbcon_set_visible v s)"
| up: "con_reach s \<Longrightarrow> con_reach (fbcon_cursor_up s)"
| down: "con_reach s \<Longrightarrow> con_reach (fbcon_cursor_down s)"
| left: "con_reach s \<Longrightarrow> con_reach (fbcon_cursor_left s)"
| right: "con_reach s \<Longrightarrow> con_reach (fbcon_cursor_right s)"
| blink: "con_reach s \<Longrightarrow> con_reach (fbcon_tick s)"
| timer: "con_reach s \<Longrightarrow> con_reach (s\<lparr>tick := t\<rparr>)"
| screen: "con_reach s \<Longrightarrow> con_reach (s\<lparr>fb_ptr := p, fb_width := w, fb_height := h, fb_pitch := q,
    fb_bpp := b, fb_enabled := e, vram := v\<rparr>)"

lemma con_reach_inv: "con_reach s \<Longrightarrow> con_inv s"
proof (induction rule: con_reach.induct)
  case (timer s t)
  then show ?case by (simp add: con_inv_def)
next
  case (screen s p w h q b e v)
  then show ?case by (simp add: con_inv_def)
qed (simp_all add: fbcon_init_inv fbcon_putchar_inv redraw_inv fbcon_resize_inv fbcon_moves_inv)

lemma putchar_buffer_bounds:
  assumes "con_inv s" "\<not> (0 \<le> r \<and> r < ROWS s \<and> 0 \<le> k \<and> k < COLS s)"
  shows "con_buf (fbcon_putchar c s) r k = con_buf s r k"
proof -
  let ?a = "putchar_at c (cursor_hide s)"
  from assms have "con_buf ?a r k = con_buf s r k"
    by (auto simp: putchar_at_def buf_set_def Let_def con_inv_def)
  moreover have "con_buf (putchar_wrap ?a) r k = con_buf ?a r k"
    using assms by (auto simp: putchar_wrap_def Let_def scroll_effect con_inv_def)
  ultimately show ?thesis by (simp add: fbcon_putchar_text [OF assms(1)])
qed

text \<open>C28: in every reachable state of the framebuffer console the cursor is on the grid and
  the grid fits the 200 by 200 buffer, and putting any character, control characters included,
  leaves every cell outside the visible grid alone: no store leaves the array.\<close>

theorem console_in_bounds:
  assumes "con_reach s"
  shows "0 \<le> con_cx s \<and> con_cx s < COLS s \<and> COLS s \<le> 200 \<and>
    0 \<le> con_cy s \<and> con_cy s < ROWS s \<and> ROWS s \<le> 200 \<and>
    (\<forall>r k. \<not> (0 \<le> r \<and> r < ROWS s \<and> 0 \<le> k \<and> k < COLS s) \<longrightarrow>
       con_buf (fbcon_putchar c s) r k = con_buf s r k)"
  using con_reach_inv [OF assms] putchar_buffer_bounds [of s]
  by (auto simp: con_inv_def MAX_COLS_def MAX_ROWS_def)

definition demo_con :: fbcon where
  "demo_con = fbcon_init \<lparr>io_log = [], io_dev = (\<lambda>_ _. 0), tick = 0,
     vga_buffer = (\<lambda>_. 0), vga_row = 0, vga_column = 0, vga_color = 0,
     fb_ptr = 0, fb_width = 0, fb_height = 0, fb_pitch = 0, fb_bpp = 0, fb_enabled = False,
     vram = (\<lambda>_. 0), con_buf = (\<lambda>_ _. CHR 0x00), COLS = 80, ROWS = 25, con_cx = 0, con_cy = 0,
     visible = True, cursor_shown = False, cursor_blink = True, cursor_last_toggle = 0,
     cursor_x = -1, cursor_y = -1\<rparr>"

lemma demo_con_geometry: "COLS demo_con = 80" "ROWS demo_con = 25" "con_cx demo_con = 0" "con_cy demo_con = 0"
  by (simp_all add: demo_con_def fbcon_init_def buf_set_def
      for_int_frame [of COLS] for_int_frame [of ROWS] for_int_frame [of con_cx]
      for_int_frame [of con_cy])

lemma demo_con_log: "io_log demo_con = []"
  by (simp add: demo_con_def fbcon_init_def buf_set_def for_int_frame [of io_log])

theorem console_in_bounds_witness:
  "con_buf (fbcon_putchar CHR 0x08 demo_con) (-1) 5 = con_buf demo_con (-1) 5"
proof -
  have "con_reach demo_con" unfolding demo_con_def by (rule con_reach.init)
  from console_in_bounds [OF this, of "CHR 0x08"] show ?thesis by simp
qed

text \<open>C29: a string of printable characters that fits on the current row appears there, cell
  by cell, the cursor ends right after it and no other cell of the grid changes.\<close>

theorem console_shows_string:
  assumes "con_reach s" "list_all plain cs" "con_cx s + int (length cs) < COLS s"
  shows "con_cy (fold fbcon_putchar cs s) = con_cy s \<and>
    con_cx (fold fbcon_putchar cs s) = con_cx s + int (length cs) \<and>
    (\<forall>r k. 0 \<le> r \<longrightarrow> r < ROWS s \<longrightarrow> 0 \<le> k \<longrightarrow> k < COLS s \<longrightarrow> con_buf (fold fbcon_putchar cs s) r k =
      (if r = con_cy s \<and> con_cx s \<le> k \<and> k < con_cx s + int (length cs)
       then cs ! nat (k - con_cx s) else con_buf s r k))"
  using fbc.puts_shown [OF con_reach_inv [OF assms(1)], of cs] assms(2,3)
  by (simp add: list_all_iff)

theorem console_shows_string_witness:
  "con_cx (fold fbcon_putchar ''hi'' demo_con) = 2 \<and>
   con_buf (fold fbcon_putchar ''hi'' demo_con) 0 1 = CHR ''i''"
proof -
  have h: "con_reach demo_con" "list_all plain ''hi''" "con_cx demo_con + int (length ''hi'') < COLS demo_con"
    by (simp_all add: demo_con_geometry plain_def) (simp add: demo_con_def con_reach.init)
  show ?thesis
    using console_shows_string [OF h] by (simp add: demo_con_geometry)
qed

end
