(* ===== verification/Printf.thy ===== *)
theory Printf
  imports Fbcon
begin

text \<open>
  Formatted output, src/src/kernel/printf.c. \<open>vprintf\<close> gives the characters the C function
  hands to \<open>putchar\<close>, in order, and how it ended: normally, by reading past the end of the
  format string (a format that ends in a percent sign), or by taking an argument that is not
  there. The arguments are the values the caller passed; a string argument is its characters
  up to the terminating zero. \<open>putchar\<close> sends a character down the serial line and puts it on the
  console; it does not return when the transmitter never becomes empty. \<open>printf\<close> is undefined where
  the C function reads what is not there.

  The digit loops of the three number formats meet the contract \<open>radix\<close>, in which reading
  back the printed digits, their number and the absence of leading zeros are proved once.
\<close>

datatype parg = PInt u32 | PStr string

datatype fmt_end = Finished | FmtOverrun | NoArgument

section \<open>Digits\<close>

definition hex_digits :: string where
  "hex_digits = ''0123456789abcdef''"

text \<open>\<^verbatim>\<open>while (n > 0) { buf[i++] = '0' + n % 10; n /= 10; }\<close>, the buffer's contents.\<close>

function dec_buf :: "u32 \<Rightarrow> string" where
  "dec_buf n = (if n > 0 then char_of (48 + unat (n mod 10)) # dec_buf (n div 10) else [])"
  by pat_completeness auto
termination
  by (relation "measure unat") (auto simp: unat_div word_greater_zero_iff unat_gt_0)

function hex_buf :: "u32 \<Rightarrow> string" where
  "hex_buf n = (if n > 0 then hex_digits ! unat (n AND 0xF) # hex_buf (drop_bit 4 n) else [])"
  by pat_completeness auto
termination
  by (relation "measure unat") (auto simp: drop_bit_eq_div unat_div word_greater_zero_iff unat_gt_0)

declare dec_buf.simps [simp del] hex_buf.simps [simp del]

definition fmt_u :: "u32 \<Rightarrow> string" where
  "fmt_u n = rev ((if n = 0 then ''0'' else '''') @ dec_buf n)"

text \<open>The signed loop runs while the signed value is positive.\<close>

definition fmt_d :: "u32 \<Rightarrow> string" where
  "fmt_d n =
    (let neg = sint n < 0; m = (if neg then - n else n)
     in (if neg then ''-'' else '''') @
        rev ((if m = 0 then ''0'' else '''') @ (if sint m > 0 then dec_buf m else [])))"

definition fmt_x :: "u32 \<Rightarrow> string" where
  "fmt_x n = rev ((if n = 0 then ''0'' else '''') @ hex_buf n)"

section \<open>vprintf and printf\<close>

definition emit :: "string \<Rightarrow> string \<times> fmt_end \<Rightarrow> string \<times> fmt_end" where
  "emit out r = (out @ fst r, snd r)"

fun vprintf :: "string \<Rightarrow> parg list \<Rightarrow> string \<times> fmt_end" where
  "vprintf [] args = ([], Finished)"
| "vprintf [c] args = (if c = CHR ''%'' then ([], FmtOverrun) else ([c], Finished))"
| "vprintf (c # d # p) args =
    (if c = CHR ''%'' then
       if d = CHR ''s'' then
         (case args of PStr str # args \<Rightarrow> emit str (vprintf p args) | _ \<Rightarrow> ([], NoArgument))
       else if d = CHR ''d'' then
         (case args of PInt n # args \<Rightarrow> emit (fmt_d n) (vprintf p args) | _ \<Rightarrow> ([], NoArgument))
       else if d = CHR ''u'' then
         (case args of PInt n # args \<Rightarrow> emit (fmt_u n) (vprintf p args) | _ \<Rightarrow> ([], NoArgument))
       else if d = CHR ''x'' then
         (case args of PInt n # args \<Rightarrow> emit (fmt_x n) (vprintf p args) | _ \<Rightarrow> ([], NoArgument))
       else if d = CHR ''c'' then
         (case args of PInt n # args \<Rightarrow> emit [char_of (unat n)] (vprintf p args) | _ \<Rightarrow> ([], NoArgument))
       else if d = CHR ''%'' then emit ''%'' (vprintf p args)
       else vprintf p args
     else emit [c] (vprintf (d # p) args))"

definition putchar :: "char \<Rightarrow> 'a fbcon_scheme \<Rightarrow> 'a fbcon_scheme kres" where
  "putchar c s = kbind (or_halt (serial_putchar c s)) (\<lambda>s. Inr (fbcon_putchar c s))"

definition printf :: "string \<Rightarrow> parg list \<Rightarrow> 'a fbcon_scheme \<Rightarrow> 'a fbcon_scheme kres" where
  "printf fmt args s =
    (case vprintf fmt args of (out, end) \<Rightarrow>
      kbind (fold_err putchar out s) (\<lambda>s. if end = Finished then Inr s else Inl Undefined))"

text \<open>The number a string of digits denotes, most significant digit first.\<close>

definition digit_val :: "char \<Rightarrow> nat" where
  "digit_val c = (let n = of_char c in if n < 58 then n - 48 else n - 87)"

definition read_digits :: "nat \<Rightarrow> string \<Rightarrow> nat" where
  "read_digits b xs = foldl (\<lambda>acc c. b * acc + digit_val c) 0 xs"

fun read_signed :: "string \<Rightarrow> int" where
  "read_signed [] = 0"
| "read_signed (c # cs) =
    (if c = CHR ''-'' then - int (read_digits 10 cs) else int (read_digits 10 (c # cs)))"

text \<open>The digits of a number in base \<open>b\<close>, and an integer in decimal.\<close>

fun in_base :: "nat \<Rightarrow> nat \<Rightarrow> string" where
  "in_base b n = (if n < b \<or> b < 2 then [hex_digits ! (n mod 16)] else in_base b (n div b) @ [hex_digits ! (n mod b)])"

declare in_base.simps [simp del]

definition show_int :: "int \<Rightarrow> string" where
  "show_int i = (if i < 0 then ''-'' else []) @ in_base 10 (nat \<bar>i\<bar>)"

lemma hex_digit_val: "i < 16 \<Longrightarrow> digit_val (hex_digits ! i) = i"
proof -
  have "\<forall>i \<in> set [0..<16]. digit_val (hex_digits ! i) = i" by code_simp
  then show "i < 16 \<Longrightarrow> digit_val (hex_digits ! i) = i" by simp
qed

section \<open>The contract of a digit loop\<close>

locale radix =
  fixes b :: nat and push :: "u32 \<Rightarrow> string"
  assumes base: "1 < b" "b \<le> 16"
    and push_0: "push 0 = []"
    and push_digit: "n \<noteq> 0 \<Longrightarrow> \<exists>m. push n = (hex_digits ! (unat n mod b)) # push m \<and> unat m = unat n div b"
begin

lemma push_step: "n \<noteq> 0 \<Longrightarrow> \<exists>c m. push n = c # push m \<and> digit_val c = unat n mod b \<and> unat m = unat n div b"
  using push_digit [of n] hex_digit_val [of "unat n mod b"] base less_le_trans [of "unat n mod b" b 16] by fastforce

lemma rev_push: "n \<noteq> 0 \<Longrightarrow> rev (push n) = in_base b (unat n)"
proof (induction "unat n" arbitrary: n rule: less_induct)
  case less
  obtain m where m: "push n = (hex_digits ! (unat n mod b)) # push m" "unat m = unat n div b"
    using push_digit [OF less.prems] by blast
  show ?case
  proof (cases "unat n < b")
    case True
    then have "m = 0" using m(2) by (simp add: unat_eq_0)
    then show ?thesis using True m(1) base by (simp add: push_0 in_base.simps [of b])
  next
    case False
    have "m \<noteq> 0" using m(2) False base(1) by (auto simp: unat_eq_0 [symmetric] div_eq_0_iff)
    moreover have "unat m < unat n" using m(2) base(1) less.prems by (simp add: unat_gt_0)
    ultimately have "rev (push m) = in_base b (unat n div b)" using less.hyps [of m] m(2) by simp
    then show ?thesis using False m(1) base(1) by (simp add: in_base.simps [of b "unat n"])
  qed
qed

lemma read_push: "read_digits b (rev (push n)) = unat n"
proof (induction "unat n" arbitrary: n rule: less_induct)
  case less
  show ?case
  proof (cases "n = 0")
    case True
    then show ?thesis by (simp add: push_0 read_digits_def)
  next
    case False
    with push_step obtain c m where p: "push n = c # push m" "digit_val c = unat n mod b" "unat m = unat n div b"
      by blast
    have "unat m < unat n" using p(3) base False by (simp add: unat_gt_0)
    then have "read_digits b (rev (push m)) = unat m" by (rule less)
    then show ?thesis using p by (simp add: read_digits_def)
  qed
qed

lemma length_push: "unat n < b ^ k \<Longrightarrow> length (push n) \<le> k"
proof (induction k arbitrary: n)
  case 0
  then have "n = 0" by (simp add: unat_eq_zero)
  then show ?case by (simp add: push_0)
next
  case (Suc k)
  show ?case
  proof (cases "n = 0")
    case True
    then show ?thesis by (simp add: push_0)
  next
    case False
    with push_step obtain c m where p: "push n = c # push m" "unat m = unat n div b" by blast
    have "unat m < b ^ k"
      using Suc.prems base p(2) by (simp add: less_mult_imp_div_less mult.commute)
    then show ?thesis using Suc.IH [of m] p(1) by simp
  qed
qed

lemma leading_nonzero: "n \<noteq> 0 \<Longrightarrow> push n \<noteq> [] \<and> digit_val (hd (rev (push n))) \<noteq> 0"
proof (induction "unat n" arbitrary: n rule: less_induct)
  case less
  from less.prems push_step obtain c m where
    p: "push n = c # push m" "digit_val c = unat n mod b" "unat m = unat n div b" by blast
  have lt: "unat m < unat n" using p(3) base less.prems by (simp add: unat_gt_0)
  show ?case
  proof (cases "m = 0")
    case True
    with p(3) have "unat n < b" using base by (simp add: div_eq_0_iff)
    then show ?thesis using p(1,2) less.prems True by (simp add: push_0 unat_eq_zero)
  next
    case False
    with less.hyps [OF lt] show ?thesis using p(1) by simp
  qed
qed

end

lemma low_nibble: "b AND 0xF = b mod 16" for b :: u32
  using take_bit_eq_mask [of 4 b] by (simp add: mask_eq_exp_minus_1 take_bit_eq_mod)

lemma dec_digit: "i < 10 \<Longrightarrow> char_of (48 + i) = hex_digits ! i"
proof -
  have "\<forall>i \<in> set [0..<10]. char_of (48 + i) = hex_digits ! i" by code_simp
  then show "i < 10 \<Longrightarrow> char_of (48 + i) = hex_digits ! i" by simp
qed

interpretation dec: radix 10 dec_buf
proof
  show "dec_buf 0 = []" by (simp add: dec_buf.simps)
  fix n :: u32 assume "n \<noteq> 0"
  then show "\<exists>m. dec_buf n = (hex_digits ! (unat n mod 10)) # dec_buf m \<and> unat m = unat n div 10"
    by (intro exI [of _ "n div 10"])
       (simp add: dec_buf.simps [of n] word_greater_zero_iff unat_mod unat_div dec_digit)
qed simp_all

interpretation hex: radix 16 hex_buf
proof
  show "hex_buf 0 = []" by (simp add: hex_buf.simps)
  fix n :: u32 assume "n \<noteq> 0"
  then show "\<exists>m. hex_buf n = (hex_digits ! (unat n mod 16)) # hex_buf m \<and> unat m = unat n div 16"
    by (intro exI [of _ "drop_bit 4 n"])
       (simp add: hex_buf.simps [of n] word_greater_zero_iff low_nibble unat_mod drop_bit_eq_div unat_div)
qed simp_all

section \<open>What is printed\<close>

lemma fmt_u_reads: "read_digits 10 (fmt_u n) = unat n \<and> length (fmt_u n) \<le> 10"
proof (cases "n = 0")
  case True
  then show ?thesis by (simp add: fmt_u_def dec.push_0 read_digits_def digit_val_def)
next
  case False
  have "unat n < 10 ^ 10" using unsigned_less [of n, where ?'a = nat] by simp
  with False show ?thesis by (simp add: fmt_u_def dec.read_push dec.length_push)
qed

lemma fmt_x_reads: "read_digits 16 (fmt_x n) = unat n \<and> length (fmt_x n) \<le> 8"
proof (cases "n = 0")
  case True
  then show ?thesis by (simp add: fmt_x_def hex.push_0 read_digits_def digit_val_def)
next
  case False
  have "unat n < 16 ^ 8" using unsigned_less [of n, where ?'a = nat] by simp
  with False show ?thesis by (simp add: fmt_x_def hex.read_push hex.length_push)
qed

lemma dec_buf_chars: "c \<in> set (dec_buf n) \<Longrightarrow> \<exists>i < 10. c = char_of (48 + i :: nat)"
proof (induction n rule: dec_buf.induct)
  case (1 n)
  have "unat (n mod 10) < 10" by (simp add: unat_mod)
  with 1 show ?case by (auto simp: dec_buf.simps [of n] split: if_splits)
qed

lemma fmt_u_head: "\<exists>c cs. fmt_u n = c # cs \<and> c \<noteq> CHR ''-''"
proof (cases "n = 0")
  case True
  then show ?thesis by (simp add: fmt_u_def dec.push_0)
next
  case False
  then obtain c cs where e: "fmt_u n = c # cs"
    using dec.leading_nonzero [OF False] by (cases "fmt_u n") (auto simp: fmt_u_def)
  then have "c \<in> set (dec_buf n)" using False by (metis fmt_u_def append_Nil list.set_intros(1) set_rev)
  then obtain i where "i < 10" "c = char_of (48 + i :: nat)" using dec_buf_chars by blast
  then have "of_char c \<noteq> (45 :: nat)" by simp
  then have "c \<noteq> CHR ''-''" by auto
  with e show ?thesis by blast
qed

lemma sint_cases: "sint n = (if uint n < 2 ^ 31 then uint n else uint n - 2 ^ 32)" for n :: u32
proof (cases "uint n < 2 ^ 31")
  case True
  then show ?thesis by (simp add: sint_small)
next
  case False
  have "sint n = (uint n + 2 ^ 31) mod 2 ^ 32 - 2 ^ 31"
    using int_word_sint [of "uint n", where ?'a = 32] by simp
  also have "uint n + 2 ^ 31 = (uint n - 2 ^ 31) + 2 ^ 32" by simp
  also have "((uint n - 2 ^ 31) + 2 ^ 32) mod 2 ^ 32 = (uint n - 2 ^ 31) mod 2 ^ 32"
    by (rule mod_add_self2)
  also have "\<dots> = uint n - 2 ^ 31"
    using False uint_lt2p [of n] by (intro mod_pos_pos_trivial) simp_all
  finally show ?thesis using False by simp
qed

lemma fmt_d_nonneg: "0 \<le> sint n \<Longrightarrow> fmt_d n = fmt_u n"
proof (cases "n = 0")
  case True
  then show ?thesis by (simp add: fmt_d_def fmt_u_def dec.push_0)
next
  case False
  then have "uint n \<noteq> 0" by (simp add: uint_0_iff)
  then have "sint n \<noteq> 0" using uint_lt2p [of n] by (auto simp: sint_cases)
  then show "0 \<le> sint n \<Longrightarrow> fmt_d n = fmt_u n"
    by (simp add: fmt_d_def fmt_u_def Let_def)
qed

lemma fmt_d_negative:
  assumes "n \<noteq> 0x80000000" "\<not> 0 \<le> sint n"
  shows "fmt_d n = CHR ''-'' # fmt_u (- n)" "unat (- n) = nat \<bar>sint n\<bar>"
proof -
  have big: "2 ^ 31 \<le> uint n" "sint n = uint n - 2 ^ 32" using assms(2) by (auto simp: sint_cases split: if_splits)
  have "uint n \<noteq> uint (0x80000000 :: u32)" using assms(1) word_uint_eq_iff by blast
  with big have gt: "2 ^ 31 < uint n" by simp
  have "n \<noteq> 0" using gt by auto
  have m: "uint (- n) = 2 ^ 32 - uint n"
    using gt uint_lt2p [of n] by (simp add: uint_word_ariths zmod_zminus1_eq_if)
  then have pos: "sint (- n) > 0" "- n \<noteq> 0"
    using gt uint_lt2p [of n] by (simp_all add: sint_cases \<open>n \<noteq> 0\<close>)
  with assms(2) show "fmt_d n = CHR ''-'' # fmt_u (- n)" by (simp add: fmt_d_def fmt_u_def Let_def)
  show "unat (- n) = nat \<bar>sint n\<bar>" using m big(2) assms(2) by (simp add: nat_uint_eq [symmetric])
qed

lemma fmt_d_reads:
  assumes "n \<noteq> 0x80000000"
  shows "read_signed (fmt_d n) = sint n"
proof (cases "0 \<le> sint n")
  case True
  then have "sint n = uint n"
    using uint_lt2p [of n] by (simp add: sint_cases split: if_splits)
  moreover obtain c cs where "fmt_u n = c # cs" "c \<noteq> CHR ''-''" using fmt_u_head by blast
  ultimately show ?thesis
    using True fmt_u_reads [of n] by (simp add: fmt_d_nonneg)
next
  case False
  then show ?thesis using fmt_d_negative [OF assms False] fmt_u_reads [of "- n"] by simp
qed

text \<open>The smallest \<open>int\<close> has no positive counterpart: the loop prints its sign and no digit.\<close>

lemma fmt_d_int_min: "fmt_d 0x80000000 = ''-''"
  by (simp add: fmt_d_def sint_cases)

lemma fmt_u_digits: "fmt_u n = in_base 10 (unat n)"
  using dec.rev_push [of n] by (cases "n = 0") (simp_all add: fmt_u_def dec.push_0 in_base.simps hex_digits_def)

lemma fmt_x_digits: "fmt_x n = in_base 16 (unat n)"
  using hex.rev_push [of n] by (cases "n = 0") (simp_all add: fmt_x_def hex.push_0 in_base.simps hex_digits_def)

lemma fmt_d_digits:
  assumes "n \<noteq> 0x80000000"
  shows "fmt_d n = show_int (sint n)"
proof (cases "0 \<le> sint n")
  case True
  then have "nat \<bar>sint n\<bar> = unat n" using uint_lt2p [of n] by (simp add: sint_cases split: if_splits)
  then show ?thesis using True by (simp add: fmt_d_nonneg fmt_u_digits show_int_def)
next
  case False
  note N = fmt_d_negative [OF assms False]
  then show ?thesis using False by (simp add: fmt_u_digits show_int_def)
qed

section \<open>Where it goes\<close>

text \<open>Output changes the console, the video memory and the history of the ports only.\<close>

definition out_frame :: "('a fbcon_scheme \<Rightarrow> 'p) \<Rightarrow> bool" where
  "out_frame p \<longleftrightarrow> con_frame p \<and> (\<forall>s v. p (s\<lparr>io_log := v\<rparr>) = p s)"

lemma putchar_frame:
  assumes p: "out_frame p" and t: "putchar c s = Inr t"
  shows "p t = p s"
proof -
  obtain u where u: "serial_putchar c s = Some u" "t = fbcon_putchar c u"
    using t by (cases "serial_putchar c s") (auto simp: putchar_def)
  have "con_frame p" "p u = p s" using p serial_putchar_keeps [OF u(1)] by (auto simp: out_frame_def)
  then show ?thesis by (simp add: u(2) fbcon_putchar_frame)
qed

lemma fold_err_frame:
  assumes "\<And>x s t. f x s = Inr t \<Longrightarrow> p t = p s" "fold_err f xs s = Inr t"
  shows "p t = p s"
  using assms(2) by (induction xs arbitrary: s) (auto simp: kbind_eq_Inr assms(1))

lemma printf_frame: "out_frame p \<Longrightarrow> printf fmt args s = Inr t \<Longrightarrow> p t = p s"
  using fold_err_frame [of putchar p "fst (vprintf fmt args)" s t] putchar_frame [of p]
  by (auto simp: printf_def kbind_eq_Inr split: prod.splits if_splits)

text \<open>When the serial line works, output always returns. The screen of \<open>printf\<close> is then a character
  console like the one it writes to.\<close>

definition put_both :: "char \<Rightarrow> 'a fbcon_scheme \<Rightarrow> 'a fbcon_scheme" where
  "put_both c s = (case putchar c s of Inl e \<Rightarrow> s | Inr t \<Rightarrow> t)"

lemma fbcon_putchar_ports: "io_log (fbcon_putchar c s) = io_log s" "io_dev (fbcon_putchar c s) = io_dev s"
  by (rule fbcon_putchar_frame, simp add: con_frame_def vram_frame_def)+

lemma put_both_ok:
  fixes s :: "'a fbcon_scheme"
  assumes "serial_ok s"
  shows "\<exists>l. put_both c s = fbcon_putchar c (s\<lparr>io_log := l\<rparr>) \<and> putchar c s = Inr (put_both c s) \<and>
    sent_bytes (io_log (put_both c s)) = sent_bytes (io_log s) @ [of_char c] \<and> serial_ok (put_both c s)"
proof -
  obtain l where l: "serial_putchar c s = Some (s\<lparr>io_log := l\<rparr>)" "sent_bytes l = sent_bytes (io_log s) @ [of_char c]"
    using serial_putchar_ok [OF assms] by blast
  have "serial_ok (fbcon_putchar c (s\<lparr>io_log := l\<rparr>)) = serial_ok s"
    by (rule serial_ok_dev) (simp add: fbcon_putchar_ports)
  then show ?thesis using l assms by (intro exI [of _ l]) (simp add: put_both_def putchar_def fbcon_putchar_ports)
qed

lemma con_inv_log [simp]: "con_inv (s\<lparr>io_log := l\<rparr>) = con_inv s"
  by (simp add: con_inv_def)

interpretation prc: text_console put_both con_buf con_cy con_cx ROWS COLS "\<lambda>_ c. c" "\<lambda>s. con_inv s \<and> serial_ok s"
proof
  fix s :: "'a fbcon_scheme" and c :: char
  assume s: "con_inv s \<and> serial_ok s"
  then show "0 \<le> con_cy s \<and> con_cy s < ROWS s \<and> 0 \<le> con_cx s \<and> con_cx s < COLS s" by (intro fbc.inv_on) simp
  obtain l where l: "put_both c s = fbcon_putchar c (s\<lparr>io_log := l\<rparr>)" "serial_ok (put_both c s)"
    using put_both_ok s by blast
  obtain k where k: "put_both (CHR 0x0A) s = fbcon_putchar (CHR 0x0A) (s\<lparr>io_log := k\<rparr>)" using put_both_ok s by blast
  show "con_inv (put_both c s) \<and> serial_ok (put_both c s)" using l s fbcon_putchar_inv [of "s\<lparr>io_log := l\<rparr>" c] by simp
  show "(\<lambda>c. c) = (\<lambda>c. c) \<and> ROWS (put_both c s) = ROWS s \<and> COLS (put_both c s) = COLS s" by (simp add: l)
  show "con_cy (put_both c s) = con_cy s \<and> con_cx (put_both c s) = con_cx s + 1 \<and>
      (\<forall>r k. 0 \<le> r \<longrightarrow> r < ROWS s \<longrightarrow> 0 \<le> k \<longrightarrow> k < COLS s \<longrightarrow>
        con_buf (put_both c s) r k = (if r = con_cy s \<and> k = con_cx s then c else con_buf s r k))"
    if "plain c" "con_cx s + 1 < COLS s"
    using fbc.plain_putc [of "s\<lparr>io_log := l\<rparr>" c] s that by (simp add: l)
  show "con_cy (put_both (CHR 0x0A) s) = con_cy s \<and> con_cx (put_both (CHR 0x0A) s) = 0 \<and>
      (\<forall>r k. 0 \<le> r \<longrightarrow> r < ROWS s \<longrightarrow> 0 \<le> k \<longrightarrow> k < COLS s \<longrightarrow>
        con_buf (put_both (CHR 0x0A) s) r k = (if r + 1 < ROWS s then con_buf s (r + 1) k else CHR '' ''))"
    if "con_cy s + 1 = ROWS s"
    using fbc.newline_scrolls [of "s\<lparr>io_log := k\<rparr>"] s that by (simp add: k)
  show "con_cy (put_both (CHR 0x0A) s) = con_cy s + 1 \<and> con_cx (put_both (CHR 0x0A) s) = 0 \<and>
      (\<forall>r k. 0 \<le> r \<longrightarrow> r < ROWS s \<longrightarrow> 0 \<le> k \<longrightarrow> k < COLS s \<longrightarrow>
        con_buf (put_both (CHR 0x0A) s) r k = con_buf s r k)"
    if "con_cy s + 1 < ROWS s"
    using fbc.newline_moves [of "s\<lparr>io_log := k\<rparr>"] s that by (simp add: k)
qed

lemma put_chars_ok:
  assumes "serial_ok s"
  shows "fold_err putchar cs s = Inr (fold put_both cs s) \<and>
    sent_bytes (io_log (fold put_both cs s)) = sent_bytes (io_log s) @ map of_char cs"
  using assms
proof (induction cs arbitrary: s)
  case (Cons c cs)
  then show ?case using put_both_ok [OF Cons.prems, of c] by auto
qed simp

lemma printf_ok:
  assumes "serial_ok s" "vprintf fmt args = (out, Finished)"
  shows "printf fmt args s = Inr (fold put_both out s)"
  using put_chars_ok [OF assms(1), of out] assms(2) by (simp add: printf_def)

lemma printf_con_inv:
  assumes "con_inv s" "printf fmt args s = Inr t"
  shows "con_inv t"
proof -
  have step: "con_inv u" if "con_inv s" "putchar c s = Inr u" for c and s u :: "'a fbcon_scheme"
    using that serial_putchar_keeps [of c s] fbcon_putchar_inv [of "s\<lparr>io_log := l\<rparr>" c for l]
    by (cases "serial_putchar c s") (auto simp: putchar_def)
  have "con_inv s \<Longrightarrow> fold_err putchar cs s = Inr u \<Longrightarrow> con_inv u" for cs and u :: "'a fbcon_scheme"
    using step by (induction cs arbitrary: s) (auto simp: kbind_eq_Inr)
  then show ?thesis using assms by (auto simp: printf_def kbind_eq_Inr split: prod.splits if_splits)
qed

section \<open>Formats\<close>

text \<open>A format as a list of its parts, the arguments that go with it, and what should be printed.\<close>

datatype item = Text char | Str string | Dec u32 | Uns u32 | Hex u32 | Chr u32 | Percent

fun item_fmt :: "item \<Rightarrow> string" where
  "item_fmt (Text c) = [c]"
| "item_fmt (Str str) = ''%s''"
| "item_fmt (Dec n) = ''%d''"
| "item_fmt (Uns n) = ''%u''"
| "item_fmt (Hex n) = ''%x''"
| "item_fmt (Chr n) = ''%c''"
| "item_fmt Percent = ''%%''"

fun item_args :: "item \<Rightarrow> parg list" where
  "item_args (Str str) = [PStr str]"
| "item_args (Dec n) = [PInt n]"
| "item_args (Uns n) = [PInt n]"
| "item_args (Hex n) = [PInt n]"
| "item_args (Chr n) = [PInt n]"
| "item_args _ = []"

fun item_text :: "item \<Rightarrow> string" where
  "item_text (Text c) = [c]"
| "item_text (Str str) = str"
| "item_text (Dec n) = show_int (sint n)"
| "item_text (Uns n) = in_base 10 (unat n)"
| "item_text (Hex n) = in_base 16 (unat n)"
| "item_text (Chr n) = [char_of (unat n)]"
| "item_text Percent = ''%''"

fun item_ok :: "item \<Rightarrow> bool" where
  "item_ok (Text c) \<longleftrightarrow> c \<noteq> CHR ''%''"
| "item_ok (Dec n) \<longleftrightarrow> n \<noteq> 0x80000000"
| "item_ok _ \<longleftrightarrow> True"

lemma vprintf_text: "c \<noteq> CHR ''%'' \<Longrightarrow> vprintf (c # p) args = emit [c] (vprintf p args)"
  by (cases p) (simp_all add: emit_def)

lemma vprintf_items:
  "list_all item_ok its \<Longrightarrow>
    vprintf (concat (map item_fmt its)) (concat (map item_args its)) = (concat (map item_text its), Finished)"
proof (induction its)
  case (Cons i its)
  then show ?case
    by (cases i) (simp_all add: vprintf_text emit_def fmt_d_digits fmt_u_digits fmt_x_digits)
qed simp

section \<open>Properties\<close>

text \<open>C32: \<^verbatim>\<open>%u\<close> and \<^verbatim>\<open>%x\<close> print every unsigned value so that reading the digits back gives it,
  in at most 10 and 8 characters, so that the 12 and 10 character buffers are never overrun.\<close>

theorem printf_unsigned_roundtrip:
  "read_digits 10 (fmt_u n) = unat n \<and> read_digits 16 (fmt_x n) = unat n \<and>
   length (fmt_u n) \<le> 10 \<and> length (fmt_x n) \<le> 8"
  by (simp add: fmt_u_reads fmt_x_reads)

text \<open>C33: \<^verbatim>\<open>%d\<close> prints every \<open>int\<close> but the smallest so that reading it back gives it.\<close>

theorem printf_signed_roundtrip:
  "n \<noteq> 0x80000000 \<Longrightarrow> read_signed (fmt_d n) = sint n"
  by (rule fmt_d_reads)

theorem printf_signed_roundtrip_witness:
  "(0xFFFFFF85 :: u32) \<noteq> 0x80000000 \<and> read_signed (fmt_d 0xFFFFFF85) = -123"
proof -
  have h: "(0xFFFFFF85 :: u32) \<noteq> 0x80000000" by simp
  have "sint (0xFFFFFF85 :: u32) = -123" by (simp add: sint_cases)
  with printf_signed_roundtrip [OF h] h show ?thesis by simp
qed

text \<open>The smallest \<open>int\<close> is printed as a sign without digits, and the width digits of
  \<^verbatim>\<open>%04u\<close>, which the kernel's clock message uses, are printed as text while its arguments
  are never taken.\<close>

theorem printf_gaps:
  "fmt_d 0x80000000 = ''-'' \<and> vprintf ''%04u-%02u'' [PInt 2026, PInt 11] = (''4u-2u'', Finished)"
  by (simp add: fmt_d_int_min emit_def)

text \<open>C34: \<open>printf\<close> of a format made of text and of the conversions it knows, with the arguments that go with them
  (no \<^verbatim>\<open>%d\<close> of the smallest \<open>int\<close>). When the transmitter is always eventually empty, it returns, and the
  bytes that have gone down the serial line are those of the text with every conversion replaced by its
  argument, numbers in decimal or hexadecimal. When that text is plain and fits on the row of the
  cursor, the console shows it there and nothing else has changed.\<close>

theorem printf_outputs:
  fixes s :: "'a fbcon_scheme"
  assumes "serial_ok s" "list_all item_ok its" "con_inv s"
  defines "out \<equiv> concat (map item_text its)"
  shows "\<exists>t. printf (concat (map item_fmt its)) (concat (map item_args its)) s = Inr t \<and> con_inv t \<and>
    sent_bytes (io_log t) = sent_bytes (io_log s) @ map of_char out \<and>
    (list_all plain out \<longrightarrow> con_cx s + int (length out) < COLS s \<longrightarrow>
      con_cy t = con_cy s \<and> con_cx t = con_cx s + int (length out) \<and>
      (\<forall>r k. 0 \<le> r \<longrightarrow> r < ROWS s \<longrightarrow> 0 \<le> k \<longrightarrow> k < COLS s \<longrightarrow> con_buf t r k =
        (if r = con_cy s \<and> con_cx s \<le> k \<and> k < con_cx s + int (length out)
         then out ! nat (k - con_cx s) else con_buf s r k)))"
proof -
  have inv: "con_inv s \<and> serial_ok s" using assms by simp
  have "printf (concat (map item_fmt its)) (concat (map item_args its)) s = Inr (fold put_both out s)"
    using printf_ok [OF assms(1) vprintf_items [OF assms(2)]] by (simp add: out_def)
  then show ?thesis
    using prc.puts_shown [OF inv, of out] prc.inv_puts [OF inv, of out] put_chars_ok [OF assms(1), of out]
    by (intro exI [of _ "fold put_both out s"]) (simp add: list_all_iff)
qed

definition demo_out :: fbcon where
  "demo_out = demo_con\<lparr>io_dev := (\<lambda>l p. if p = 0x3FD then 0x20 else 0)\<rparr>"

lemma serial_ready: "io_dev s = (\<lambda>l p. if p = 0x3FD then 0x20 else 0) \<Longrightarrow> serial_ok s"
  unfolding serial_ok_def by (intro allI exI [of _ 0]) (simp add: tx_ready_def polls_def inb_def COM1_def)

theorem printf_outputs_witness:
  "\<exists>t. printf ''n=%d %x'' [PInt 0xFFFFFFF4, PInt 255] demo_out = Inr t \<and>
    sent_bytes (io_log t) = [110, 61, 45, 49, 50, 32, 102, 102] \<and> con_buf t 0 3 = CHR ''1''"
proof -
  let ?its = "[Text CHR ''n'', Text CHR ''='', Dec 0xFFFFFFF4, Text CHR '' '', Hex 255]"
  have x: "concat (map item_text ?its) = ''n=-12 ff''"
    by (simp add: show_int_def in_base.simps hex_digits_def sint_cases)
  have log: "io_log demo_out = []" and g: "COLS demo_out = 80" "ROWS demo_out = 25" "con_cx demo_out = 0" "con_cy demo_out = 0"
    using demo_con_geometry by (simp_all add: demo_out_def demo_con_log)
  have h: "serial_ok demo_out" "list_all item_ok ?its" "con_inv demo_out"
    using con_reach_inv [OF con_reach.init] by (simp_all add: serial_ready demo_out_def con_inv_def demo_con_def)
  show ?thesis using printf_outputs [OF h] unfolding x by (auto simp: log g plain_def)
qed

end
