(* ===== verification/Ps2.thy ===== *)
theory Ps2
  imports Printf "HOL-Library.Sublist"
begin

text \<open>
  The PS/2 keyboard, src/src/drivers/ps2.c and ps2.h: the interrupt handler that turns scan
  codes into characters and key codes, and the 128-slot ring buffer between the handler and the
  kernel's readers. The buffer's array \<open>keybuf\<close> is a function of the slot number; the code of
  a character is its ASCII value, as in the C tables.

  The ring buffer meets the contract \<open>bounded_queue\<close>: it behaves as a queue of at most 127
  codes that drops what does not fit. Order, loss and the interleaving of the handler with the
  readers are proved from the contract.
\<close>

record ps2 = fbcon +
  keybuf :: "u32 \<Rightarrow> int"
  keybuf_head :: u32
  keybuf_tail :: u32
  extended :: bool
  shift_pressed :: bool
  ctrl_pressed :: bool
  alt_pressed :: bool
  caps_pressed :: bool

definition PS2_DATA :: u16 where "PS2_DATA = 0x60"
definition PS2_CMD :: u16 where "PS2_CMD = 0x64"
definition PS2_STATUS :: u16 where "PS2_STATUS = 0x64"
definition KEYBUF_SIZE :: u32 where "KEYBUF_SIZE = 128"

definition KEY_UP :: int where "KEY_UP = 256"
definition KEY_DOWN :: int where "KEY_DOWN = 257"
definition KEY_LEFT :: int where "KEY_LEFT = 258"
definition KEY_RIGHT :: int where "KEY_RIGHT = 259"
definition KEY_HOME :: int where "KEY_HOME = 260"
definition KEY_END :: int where "KEY_END = 261"
definition KEY_PGUP :: int where "KEY_PGUP = 262"
definition KEY_PGDN :: int where "KEY_PGDN = 263"
definition KEY_INS :: int where "KEY_INS = 264"
definition KEY_DEL :: int where "KEY_DEL = 265"
definition KEY_F1 :: int where "KEY_F1 = 266"
definition KEY_F11 :: int where "KEY_F11 = 276"
definition KEY_F12 :: int where "KEY_F12 = 277"

lemmas key_codes = KEY_UP_def KEY_DOWN_def KEY_LEFT_def KEY_RIGHT_def KEY_HOME_def KEY_END_def
  KEY_PGUP_def KEY_PGDN_def KEY_INS_def KEY_DEL_def KEY_F1_def KEY_F11_def KEY_F12_def

definition keymap_lower :: "int list" where
  "keymap_lower = [
    0, 27, 49, 50, 51, 52, 53, 54, 55, 56, 57, 48, 45, 61, 8, 9,
    113, 119, 101, 114, 116, 121, 117, 105, 111, 112, 91, 93, 10, 0, 97, 115,
    100, 102, 103, 104, 106, 107, 108, 59, 39, 96, 0, 92, 122, 120, 99, 118,
    98, 110, 109, 44, 46, 47, 0, 42, 0, 32, 0, 0, 0, 0, 0, 0,
    0, 0, 0, 0, 0, 0, 0, 0, 0, 0, 0, 0, 0, 0, 0, 0,
    0, 0, 0, 0, 0, 0, 0, 0, 0, 0, 0, 0, 0, 0, 0, 0,
    0, 0, 0, 0, 0, 0, 0, 0, 0, 0, 0, 0, 0, 0, 0, 0,
    0, 0, 0, 0, 0, 0, 0, 0, 0, 0, 0, 0, 0, 0, 0, 0]"

definition keymap_upper :: "int list" where
  "keymap_upper = [
    0, 27, 33, 64, 35, 36, 37, 94, 38, 42, 40, 41, 95, 43, 8, 9,
    81, 87, 69, 82, 84, 89, 85, 73, 79, 80, 123, 125, 10, 0, 65, 83,
    68, 70, 71, 72, 74, 75, 76, 58, 34, 126, 0, 124, 90, 88, 67, 86,
    66, 78, 77, 60, 62, 63, 0, 42, 0, 32, 0, 0, 0, 0, 0, 0,
    0, 0, 0, 0, 0, 0, 0, 0, 0, 0, 0, 0, 0, 0, 0, 0,
    0, 0, 0, 0, 0, 0, 0, 0, 0, 0, 0, 0, 0, 0, 0, 0,
    0, 0, 0, 0, 0, 0, 0, 0, 0, 0, 0, 0, 0, 0, 0, 0,
    0, 0, 0, 0, 0, 0, 0, 0, 0, 0, 0, 0, 0, 0, 0, 0]"

section \<open>The ring buffer\<close>

definition buf_put :: "int \<Rightarrow> 'a ps2_scheme \<Rightarrow> 'a ps2_scheme" where
  "buf_put val s =
    (let next = (keybuf_head s + 1) mod KEYBUF_SIZE in
     if next \<noteq> keybuf_tail s
     then s\<lparr>keybuf := (keybuf s)(keybuf_head s := val), keybuf_head := next\<rparr>
     else s)"

definition ps2_poll :: "'a ps2_scheme \<Rightarrow> int \<times> 'a ps2_scheme" where
  "ps2_poll s =
    (if keybuf_head s \<noteq> keybuf_tail s
     then (let tail = keybuf_tail s; c = keybuf s tail
           in (c, s\<lparr>keybuf_tail := (tail + 1) mod KEYBUF_SIZE\<rparr>))
     else (-1, s))"

text \<open>\<open>ps2_getchar\<close> spins while the buffer is empty; a handler that never runs leaves it there.\<close>

definition ps2_getchar :: "'a ps2_scheme \<Rightarrow> (int \<times> 'a ps2_scheme) option" where
  "ps2_getchar s =
    (if keybuf_head s = keybuf_tail s then None
     else (let tail = keybuf_tail s; c = keybuf s tail
           in Some (c, s\<lparr>keybuf_tail := (tail + 1) mod KEYBUF_SIZE\<rparr>)))"

definition ps2_is_ctrl :: "'a ps2_scheme \<Rightarrow> bool" where "ps2_is_ctrl s = ctrl_pressed s"
definition ps2_is_shift :: "'a ps2_scheme \<Rightarrow> bool" where "ps2_is_shift s = shift_pressed s"
definition ps2_is_alt :: "'a ps2_scheme \<Rightarrow> bool" where "ps2_is_alt s = alt_pressed s"

section \<open>The interrupt handler\<close>

definition extended_key :: "u8 \<Rightarrow> int" where
  "extended_key sc =
    (if sc = 0x48 then KEY_UP else if sc = 0x50 then KEY_DOWN
     else if sc = 0x4B then KEY_LEFT else if sc = 0x4D then KEY_RIGHT
     else if sc = 0x47 then KEY_HOME else if sc = 0x4F then KEY_END
     else if sc = 0x49 then KEY_PGUP else if sc = 0x51 then KEY_PGDN
     else if sc = 0x52 then KEY_INS else if sc = 0x53 then KEY_DEL else 0)"

text \<open>The character of a key press under the modifiers: the tail of \<open>keyboard_handler\<close>.\<close>

definition key_char :: "'a ps2_scheme \<Rightarrow> u8 \<Rightarrow> int" where
  "key_char s sc =
    (let c = (if shift_pressed s then keymap_upper ! unat sc else keymap_lower ! unat sc) in
     if c = 0 then 0
     else
       let c = (if caps_pressed s \<and> (97 \<le> c \<and> c \<le> 122 \<or> 65 \<le> c \<and> c \<le> 90) then c XOR 32 else c)
       in if ctrl_pressed s then
            if 97 \<le> c \<and> c \<le> 122 then c - (97 - 1)
            else if 65 \<le> c \<and> c \<le> 90 then c - (65 - 1) else c
          else c)"

definition handle_scancode :: "u8 \<Rightarrow> 'a ps2_scheme \<Rightarrow> 'a ps2_scheme" where
  "handle_scancode sc s =
    (if sc = 0xE0 then s\<lparr>extended := True\<rparr>
     else if extended s then
       let s = s\<lparr>extended := False\<rparr> in
       if sc AND 0x80 \<noteq> 0 then s
       else let val = extended_key sc in if val \<noteq> 0 then buf_put val s else s
     else if sc = 0x2A \<or> sc = 0x36 then s\<lparr>shift_pressed := True\<rparr>
     else if sc = 0xAA \<or> sc = 0xB6 then s\<lparr>shift_pressed := False\<rparr>
     else if sc = 0x1D then s\<lparr>ctrl_pressed := True\<rparr>
     else if sc = 0x9D then s\<lparr>ctrl_pressed := False\<rparr>
     else if sc = 0x38 then s\<lparr>alt_pressed := True\<rparr>
     else if sc = 0xB8 then s\<lparr>alt_pressed := False\<rparr>
     else if sc = 0x3A then s\<lparr>caps_pressed := \<not> caps_pressed s\<rparr>
     else if sc = 0xBA then s
     else if sc AND 0x80 \<noteq> 0 then s
     else if sc \<ge> 0x3B \<and> sc \<le> 0x44 then buf_put (KEY_F1 + (uint sc - 0x3B)) s
     else if sc = 0x57 then buf_put KEY_F11 s
     else if sc = 0x58 then buf_put KEY_F12 s
     else let c = key_char s sc in if c = 0 then s else buf_put c s)"

definition keyboard_handler :: "'a ps2_scheme \<Rightarrow> 'a ps2_scheme" where
  "keyboard_handler s = (let (sc, s) = inb PS2_DATA s in handle_scancode sc s)"

section \<open>The contract of a bounded queue\<close>

locale bounded_queue =
  fixes put :: "'v \<Rightarrow> 's \<Rightarrow> 's" and get :: "'s \<Rightarrow> ('v \<times> 's) option"
    and items :: "'s \<Rightarrow> 'v list" and cap :: nat and inv :: "'s \<Rightarrow> bool"
  assumes inv_put: "inv s \<Longrightarrow> inv (put v s)"
    and inv_get: "inv s \<Longrightarrow> get s = Some (v, t) \<Longrightarrow> inv t"
    and items_put: "inv s \<Longrightarrow> items (put v s) = (if length (items s) < cap then items s @ [v] else items s)"
    and items_get: "inv s \<Longrightarrow> items s = [] \<and> get s = None \<or> (\<exists>v t. get s = Some (v, t) \<and> items s = v # items t)"
    and items_bound: "inv s \<Longrightarrow> length (items s) \<le> cap"
begin

lemma inv_puts: "inv s \<Longrightarrow> inv (fold put vs s)"
  by (induction vs arbitrary: s) (simp_all add: inv_put)

text \<open>What arrives while there is room is kept in order; the rest is dropped.\<close>

lemma items_puts:
  assumes "inv s"
  shows "items (fold put vs s) = items s @ take (cap - length (items s)) vs"
  using assms
proof (induction vs arbitrary: s)
  case Nil
  then show ?case by simp
next
  case (Cons v vs)
  have "length (items s) \<le> cap" by (rule items_bound [OF Cons.prems])
  then show ?case
    using Cons.IH [OF inv_put [OF Cons.prems]] items_put [OF Cons.prems]
    by (cases "length (items s) < cap") (auto simp: take_Cons' Suc_diff_Suc)
qed

fun drain :: "nat \<Rightarrow> 's \<Rightarrow> 'v list" where
  "drain 0 s = []"
| "drain (Suc n) s = (case get s of None \<Rightarrow> [] | Some (v, t) \<Rightarrow> v # drain n t)"

lemma drain_items:
  assumes "inv s"
  shows "drain n s = take n (items s)"
  using assms
proof (induction n arbitrary: s)
  case 0
  then show ?case by simp
next
  case (Suc n)
  from items_get [OF Suc.prems] show ?case
    using Suc.IH inv_get [OF Suc.prems] by (auto split: option.split)
qed

end

section \<open>The ring buffer is a bounded queue\<close>

text \<open>Distance from tail to head, and the slot \<open>i\<close> places after the tail.\<close>

definition ring_count :: "nat \<Rightarrow> nat \<Rightarrow> nat" where
  "ring_count h t = (if t \<le> h then h - t else h + 128 - t)"

definition ring_slot :: "nat \<Rightarrow> nat \<Rightarrow> nat" where
  "ring_slot t i = (if t + i < 128 then t + i else t + i - 128)"

definition ring_next :: "nat \<Rightarrow> nat" where
  "ring_next h = (if h + 1 < 128 then h + 1 else 0)"

lemmas ring_defs = ring_count_def ring_slot_def ring_next_def

definition keys :: "'a ps2_scheme \<Rightarrow> int list" where
  "keys s = map (\<lambda>i. keybuf s (of_nat (ring_slot (unat (keybuf_tail s)) i)))
     [0..<ring_count (unat (keybuf_head s)) (unat (keybuf_tail s))]"

definition key_inv :: "'a ps2_scheme \<Rightarrow> bool" where
  "key_inv s \<longleftrightarrow> keybuf_head s < KEYBUF_SIZE \<and> keybuf_tail s < KEYBUF_SIZE"

lemma unat_next:
  assumes "h < KEYBUF_SIZE"
  shows "unat ((h + 1) mod KEYBUF_SIZE) = ring_next (unat h)" "(h + 1) mod KEYBUF_SIZE < KEYBUF_SIZE"
proof -
  have h: "unat h < 128" using assms by (simp add: KEYBUF_SIZE_def word_less_nat_alt)
  have "unat ((h + 1) mod KEYBUF_SIZE) = Suc (unat h) mod 128"
    using unat_inc [OF assms] by (simp add: unat_mod KEYBUF_SIZE_def)
  also have "\<dots> = ring_next (unat h)"
    using h by (cases "unat h = 127") (simp_all add: ring_next_def)
  finally show e: "unat ((h + 1) mod KEYBUF_SIZE) = ring_next (unat h)" .
  have "ring_next (unat h) < 128" by (simp add: ring_next_def)
  then show "(h + 1) mod KEYBUF_SIZE < KEYBUF_SIZE"
    unfolding word_less_nat_alt e by (simp add: KEYBUF_SIZE_def)
qed

lemma ring_facts:
  assumes "h < 128" "t < 128"
  shows "ring_count h t \<le> 127" "ring_next h = t \<longleftrightarrow> ring_count h t = 127"
    "ring_next h \<noteq> t \<Longrightarrow> ring_count (ring_next h) t = Suc (ring_count h t)"
    "ring_slot t (ring_count h t) = h" "i < ring_count h t \<Longrightarrow> ring_slot t i \<noteq> h"
    "ring_slot t i < 128 \<or> 128 \<le> i" "ring_slot (ring_next t) i = ring_slot t (Suc i) \<or> 127 \<le> i"
    "h \<noteq> t \<Longrightarrow> ring_count h t = Suc (ring_count h (ring_next t))" "ring_count h t = 0 \<longleftrightarrow> h = t"
    "ring_slot t 0 = t"
  using assms unfolding ring_defs
  by (cases "t \<le> h"; cases "h + 1 < 128"; cases "t + 1 < 128"; simp; linarith)+

lemma key_invD:
  assumes "key_inv s"
  shows "unat (keybuf_head s) < 128" "unat (keybuf_tail s) < 128"
  using assms by (simp_all add: key_inv_def KEYBUF_SIZE_def word_less_nat_alt)

lemma length_keys: "length (keys s) = ring_count (unat (keybuf_head s)) (unat (keybuf_tail s))"
  by (simp add: keys_def)

lemma of_nat_unat_eq: "n < 128 \<Longrightarrow> (of_nat n :: u32) = w \<longleftrightarrow> n = unat w"
  by (simp add: word_unat_eq_iff unat_of_nat)

lemma keys_put:
  assumes "key_inv s"
  shows "keys (buf_put v s) = (if length (keys s) < 127 then keys s @ [v] else keys s)"
proof -
  let ?h = "unat (keybuf_head s)" and ?t = "unat (keybuf_tail s)"
  note ht = key_invD [OF assms] and n = unat_next [of "keybuf_head s"]
  have hd: "keybuf_head s < KEYBUF_SIZE" using assms by (simp add: key_inv_def)
  note f = ring_facts [OF ht]
  have full: "(keybuf_head s + 1) mod KEYBUF_SIZE = keybuf_tail s \<longleftrightarrow> ring_count ?h ?t = 127"
    using f(2) n(1) [OF hd] by (simp add: word_unat_eq_iff)
  show ?thesis
  proof (cases "ring_count ?h ?t = 127")
    case True
    then show ?thesis using full by (simp add: buf_put_def length_keys)
  next
    case False
    then have lt: "ring_count ?h ?t < 127" "ring_next ?h \<noteq> ?t" using f(1,2) by auto
    have "keys (buf_put v s) = map (\<lambda>i. ((keybuf s)(keybuf_head s := v)) (of_nat (ring_slot ?t i)))
        [0..<Suc (ring_count ?h ?t)]"
      using False full n(1) [OF hd] f(3) [OF lt(2)] by (simp add: buf_put_def keys_def Let_def)
    also have "\<dots> = keys s @ [v]"
    proof -
      have "(of_nat (ring_slot ?t i) :: u32) \<noteq> keybuf_head s" if "i < ring_count ?h ?t" for i
      proof -
        have "ring_slot ?t i < 128" using f(6) [of i] that lt(1) by linarith
        then show ?thesis using f(5) [OF that] by (simp add: of_nat_unat_eq)
      qed
      moreover have "(of_nat (ring_slot ?t (ring_count ?h ?t)) :: u32) = keybuf_head s"
        using f(4) by simp
      ultimately show ?thesis by (simp add: keys_def)
    qed
    finally show ?thesis using lt by (simp add: length_keys)
  qed
qed

lemma keys_get:
  assumes "key_inv s"
  shows "keys s = [] \<and> ps2_getchar s = None \<or> (\<exists>v t. ps2_getchar s = Some (v, t) \<and> keys s = v # keys t)"
proof (cases "keybuf_head s = keybuf_tail s")
  case True
  then show ?thesis by (simp add: ps2_getchar_def keys_def ring_count_def)
next
  case False
  let ?h = "unat (keybuf_head s)" and ?t = "unat (keybuf_tail s)"
  note ht = key_invD [OF assms]
  note f = ring_facts [OF ht]
  have tl: "keybuf_tail s < KEYBUF_SIZE" using assms by (simp add: key_inv_def)
  have ne: "?h \<noteq> ?t" using False by (simp add: word_unat_eq_iff)
  let ?u = "s\<lparr>keybuf_tail := (keybuf_tail s + 1) mod KEYBUF_SIZE\<rparr>"
  have "keys s = keybuf s (of_nat (ring_slot ?t 0)) #
      map (\<lambda>i. keybuf s (of_nat (ring_slot ?t (Suc i)))) [0..<ring_count ?h (ring_next ?t)]"
    using f(8) [OF ne] by (simp add: keys_def map_upt_Suc del: upt_Suc)
  also have "map (\<lambda>i. keybuf s (of_nat (ring_slot ?t (Suc i)))) [0..<ring_count ?h (ring_next ?t)] = keys ?u"
  proof -
    have "ring_slot (ring_next ?t) i = ring_slot ?t (Suc i)" if "i < ring_count ?h (ring_next ?t)" for i
    proof -
      have "\<not> 127 \<le> i" using f(1) f(8) [OF ne] that by linarith
      with f(7) [of i] show ?thesis by blast
    qed
    then show ?thesis using unat_next(1) [OF tl] by (simp add: keys_def)
  qed
  finally show ?thesis
    using False f(10) by (simp add: ps2_getchar_def Let_def)
qed

interpretation kq: bounded_queue buf_put ps2_getchar keys 127 key_inv
proof
  fix s t :: "'a ps2_scheme" and v
  assume inv: "key_inv s"
  show "key_inv (buf_put v s)"
    using inv unat_next(2) [of "keybuf_head s"] by (simp add: key_inv_def buf_put_def Let_def)
  show "key_inv t" if "ps2_getchar s = Some (v, t)"
    using inv that unat_next(2) [of "keybuf_tail s"]
    by (simp add: key_inv_def ps2_getchar_def Let_def split: if_splits)
       (elim conjE, hypsubst, simp)
  show "keys (buf_put v s) = (if length (keys s) < 127 then keys s @ [v] else keys s)"
    by (rule keys_put [OF inv])
  show "keys s = [] \<and> ps2_getchar s = None \<or> (\<exists>v t. ps2_getchar s = Some (v, t) \<and> keys s = v # keys t)"
    by (rule keys_get [OF inv])
  show "length (keys s) \<le> 127"
    using ring_facts(1) [OF key_invD [OF inv]] by (simp add: length_keys)
qed

section \<open>Handler and readers\<close>

text \<open>The code a scan code produces in a state, if any; the handler puts exactly this code.\<close>

definition scancode_key :: "'a ps2_scheme \<Rightarrow> u8 \<Rightarrow> int option" where
  "scancode_key s sc =
    (if sc = 0xE0 then None
     else if extended s then
       if sc AND 0x80 \<noteq> 0 \<or> extended_key sc = 0 then None else Some (extended_key sc)
     else if sc \<in> {0x2A, 0x36, 0xAA, 0xB6, 0x1D, 0x9D, 0x38, 0xB8, 0x3A, 0xBA} \<or> sc AND 0x80 \<noteq> 0 then None
     else if sc \<ge> 0x3B \<and> sc \<le> 0x44 then Some (KEY_F1 + (uint sc - 0x3B))
     else if sc = 0x57 then Some KEY_F11
     else if sc = 0x58 then Some KEY_F12
     else if key_char s sc = 0 then None else Some (key_char s sc))"

lemma keys_cong:
  "keybuf t = keybuf s \<Longrightarrow> keybuf_head t = keybuf_head s \<Longrightarrow> keybuf_tail t = keybuf_tail s \<Longrightarrow>
   keys t = keys s \<and> (key_inv t \<longleftrightarrow> key_inv s)"
  by (simp add: keys_def key_inv_def)

lemma handle_scancode_put:
  "\<exists>t. keybuf t = keybuf s \<and> keybuf_head t = keybuf_head s \<and> keybuf_tail t = keybuf_tail s \<and>
     handle_scancode sc s = (case scancode_key s sc of None \<Rightarrow> t | Some v \<Rightarrow> buf_put v t)"
proof -
  consider "sc = 0xE0" | "sc \<noteq> 0xE0" "extended s"
    | "sc \<noteq> 0xE0" "\<not> extended s" "sc \<in> {0x2A, 0x36, 0xAA, 0xB6, 0x1D, 0x9D, 0x38, 0xB8, 0x3A, 0xBA}"
    | "sc \<noteq> 0xE0" "\<not> extended s" "sc \<notin> {0x2A, 0x36, 0xAA, 0xB6, 0x1D, 0x9D, 0x38, 0xB8, 0x3A, 0xBA}"
    by blast
  then show ?thesis
  proof cases
    case 1
    then show ?thesis
      by (intro exI [of _ "s\<lparr>extended := True\<rparr>"]) (simp add: handle_scancode_def scancode_key_def)
  next
    case 2
    then show ?thesis
      by (intro exI [of _ "s\<lparr>extended := False\<rparr>"])
         (simp add: handle_scancode_def scancode_key_def Let_def)
  next
    case 3
    then have "scancode_key s sc = None" by (simp add: scancode_key_def)
    moreover have "keybuf (handle_scancode sc s) = keybuf s"
        "keybuf_head (handle_scancode sc s) = keybuf_head s"
        "keybuf_tail (handle_scancode sc s) = keybuf_tail s"
      using 3 by (auto simp: handle_scancode_def)
    ultimately show ?thesis by auto
  next
    case 4
    then show ?thesis
      by (intro exI [of _ s]) (simp add: handle_scancode_def scancode_key_def Let_def)
  qed
qed

lemma handle_scancode_keys:
  assumes "key_inv s"
  shows "key_inv (handle_scancode sc s)"
    "keys (handle_scancode sc s) = keys s @ (case scancode_key s sc of None \<Rightarrow> []
       | Some v \<Rightarrow> if length (keys s) < 127 then [v] else [])"
proof -
  obtain t where t: "keybuf t = keybuf s" "keybuf_head t = keybuf_head s" "keybuf_tail t = keybuf_tail s"
    and h: "handle_scancode sc s = (case scancode_key s sc of None \<Rightarrow> t | Some v \<Rightarrow> buf_put v t)"
    using handle_scancode_put by blast
  have ts: "keys t = keys s" "key_inv t" using keys_cong [OF t] assms by auto
  show "key_inv (handle_scancode sc s)"
    using ts h by (auto split: option.split intro: kq.inv_put)
  show "keys (handle_scancode sc s) = keys s @ (case scancode_key s sc of None \<Rightarrow> []
       | Some v \<Rightarrow> if length (keys s) < 127 then [v] else [])"
    using ts h by (auto simp: kq.items_put [OF ts(2)] split: option.split)
qed

text \<open>
  A run of the keyboard: interrupts that deliver a scan code and polls by the kernel, in any
  order. The result lists the codes the polls returned, the codes the handler produced, and
  the final state.
\<close>

datatype kb_event = Scancode u8 | Poll

fun kb_run :: "kb_event list \<Rightarrow> 'a ps2_scheme \<Rightarrow> int list \<times> int list \<times> 'a ps2_scheme" where
  "kb_run [] s = ([], [], s)"
| "kb_run (Scancode sc # es) s =
    (let (rs, ps, t) = kb_run es (handle_scancode sc s)
     in (rs, (case scancode_key s sc of None \<Rightarrow> ps | Some v \<Rightarrow> v # ps), t))"
| "kb_run (Poll # es) s =
    (let (c, s) = ps2_poll s; (rs, ps, t) = kb_run es s
     in (if c < 0 then rs else c # rs, ps, t))"

definition key_range :: "'a ps2_scheme \<Rightarrow> bool" where
  "key_range s \<longleftrightarrow> (\<forall>v \<in> set (keys s). 0 < v \<and> v \<le> KEY_F12)"

lemma make_code: "sc AND 0x80 = 0 \<Longrightarrow> unat sc < 128" for sc :: u8
proof -
  assume z: "sc AND 0x80 = 0"
  have "bit (sc AND 0x80) 7 = bit sc 7" by (simp add: bit_and_iff)
  then have "\<not> bit sc 7" using z by simp
  have "take_bit 7 sc = sc"
  proof (rule bit_word_eqI)
    fix n assume "n < LENGTH(8)"
    then have "n < 7 \<or> n = 7" by auto
    with \<open>\<not> bit sc 7\<close> show "bit (take_bit 7 sc) n = bit sc n" by (auto simp: bit_simps)
  qed
  then show ?thesis by (simp add: take_bit_self_iff)
qed

lemma keymap_entries: "\<forall>x \<in> set (keymap_lower @ keymap_upper). 0 \<le> x \<and> x \<le> 126"
    "length keymap_lower = 128" "length keymap_upper = 128"
  by (simp_all add: keymap_lower_def keymap_upper_def)

lemma xor_32_letter:
  assumes "65 \<le> c \<and> c \<le> 90 \<or> 97 \<le> c \<and> c \<le> 122"
  shows "c XOR 32 = (if c \<le> 90 then c + 32 else c - 32 :: int)"
proof -
  have all: "\<forall>c \<in> set ([65..90] @ [97..122]). c XOR 32 = (if c \<le> 90 then c + 32 else c - 32 :: int)"
    by code_simp
  have "c \<in> set ([65..90] @ [97..122])"
    using assms unfolding set_append set_upto by auto
  with all show ?thesis by (rule bspec)
qed

lemma key_char_range:
  assumes "sc AND 0x80 = 0" "key_char s sc \<noteq> 0"
  shows "0 < key_char s sc \<and> key_char s sc \<le> 126"
proof -
  define c where "c = (if shift_pressed s then keymap_upper ! unat sc else keymap_lower ! unat sc)"
  have "c \<in> set (keymap_lower @ keymap_upper)"
    using make_code [OF assms(1)] keymap_entries(2,3) by (auto simp: c_def)
  then have c: "0 \<le> c" "c \<le> 126" using keymap_entries(1) by auto
  define d where "d = (if caps_pressed s \<and> (97 \<le> c \<and> c \<le> 122 \<or> 65 \<le> c \<and> c \<le> 90) then c XOR 32 else c)"
  have k: "key_char s sc = (if c = 0 then 0 else if ctrl_pressed s then
      if 97 \<le> d \<and> d \<le> 122 then d - (97 - 1) else if 65 \<le> d \<and> d \<le> 90 then d - (65 - 1) else d else d)"
    by (simp only: key_char_def Let_def c_def d_def)
  with assms(2) have "c \<noteq> 0" by auto
  then have "0 < d" "d \<le> 126"
    using c xor_32_letter [of c] by (auto simp: d_def)
  then show ?thesis using k \<open>c \<noteq> 0\<close> by simp
qed

lemma scancode_key_range:
  assumes "scancode_key s sc = Some v"
  shows "0 < v \<and> v \<le> KEY_F12"
proof (cases "extended s")
  case True
  with assms show ?thesis
    by (auto simp: scancode_key_def extended_key_def key_codes split: if_splits)
next
  case False
  have F: "v = KEY_F1 + (uint sc - 0x3B) \<Longrightarrow> 0x3B \<le> sc \<Longrightarrow> sc \<le> 0x44 \<Longrightarrow> 0 < v \<and> v \<le> KEY_F12"
    by (simp add: word_le_def key_codes)
  have K: "sc AND 0x80 = 0 \<Longrightarrow> key_char s sc \<noteq> 0 \<Longrightarrow> v = key_char s sc \<Longrightarrow> 0 < v \<and> v \<le> KEY_F12"
    using key_char_range [of sc s] by (simp add: key_codes)
  from assms False F K show ?thesis
    by (simp add: scancode_key_def split: if_splits) (auto simp: key_codes)
qed

lemma poll_getchar:
  "ps2_poll s = (case ps2_getchar s of None \<Rightarrow> (-1, s) | Some r \<Rightarrow> r)"
  by (simp add: ps2_poll_def ps2_getchar_def Let_def)

text \<open>C20: for any interleaving of keyboard interrupts and polls, the codes read, followed by the
  codes still buffered, are the old buffer followed by codes the handler produced, in the order
  it produced them; nothing is lost while fewer than 128 codes are outstanding; and the buffer
  holds only positive codes, so that a poll's -1 always means an empty buffer.\<close>

theorem keyboard_fifo:
  assumes "key_inv s" "key_range s" "kb_run es s = (rs, ps, t)"
  shows "key_inv t \<and> key_range t \<and> (\<exists>kept. subseq kept ps \<and> rs @ keys t = keys s @ kept) \<and>
    (length (keys s) + length es \<le> 127 \<longrightarrow> rs @ keys t = keys s @ ps)"
  using assms
proof (induction es arbitrary: s rs ps)
  case Nil
  then show ?case by auto
next
  case (Cons e es)
  show ?case
  proof (cases e)
    case (Scancode sc)
    let ?u = "handle_scancode sc s"
    note k = handle_scancode_keys [OF Cons.prems(1), of sc]
    obtain ps' where r: "kb_run es ?u = (rs, ps', t)"
      and ps: "ps = (case scancode_key s sc of None \<Rightarrow> ps' | Some v \<Rightarrow> v # ps')"
      using Cons.prems(3) Scancode by (auto simp: Let_def split: prod.splits)
    have "key_range ?u"
      using Cons.prems(2) scancode_key_range [of s sc]
      by (auto simp: key_range_def k(2) split: option.splits if_splits)
    note IH = Cons.IH [OF k(1) this r]
    show ?thesis
    proof (cases "scancode_key s sc")
      case None
      then show ?thesis using IH ps k(2) by auto
    next
      case (Some v)
      then show ?thesis
        using IH ps k(2) by (cases "length (keys s) < 127") (auto intro: subseq_Cons')
    qed
  next
    case Poll
    from kq.items_get [OF Cons.prems(1)] consider
        "keys s = []" "ps2_getchar s = None"
      | v u where "ps2_getchar s = Some (v, u)" "keys s = v # keys u"
      by metis
    then show ?thesis
    proof cases
      case 1
      then have "kb_run es s = (rs, ps, t)"
        using Cons.prems(3) Poll by (auto simp: poll_getchar Let_def split: prod.splits)
      from Cons.IH [OF Cons.prems(1,2) this] show ?thesis by auto
    next
      case (2 v u)
      then have "0 < v" "key_range u" using Cons.prems(2) by (auto simp: key_range_def)
      then obtain rs' where "rs = v # rs'" "kb_run es u = (rs', ps, t)"
        using Cons.prems(3) Poll 2 by (auto simp: poll_getchar Let_def split: prod.splits)
      with Cons.IH [OF kq.inv_get [OF Cons.prems(1) 2(1)] \<open>key_range u\<close>] 2(2) show ?thesis by auto
    qed
  qed
qed

definition demo_ps2 :: ps2 where
  "demo_ps2 = \<lparr>io_log = [], io_dev = (\<lambda>_ _. 0), tick = 0,
     vga_buffer = (\<lambda>_. 0), vga_row = 0, vga_column = 0, vga_color = 0, fb_ptr = 0,
     fb_width = 0, fb_height = 0, fb_pitch = 0, fb_bpp = 0, fb_enabled = False, vram = (\<lambda>_. 0),
     con_buf = (\<lambda>_ _. CHR '' ''), COLS = 80, ROWS = 25, con_cx = 0, con_cy = 0, visible = False,
     cursor_shown = False, cursor_blink = False, cursor_last_toggle = 0, cursor_x = 0, cursor_y = 0,
     keybuf = (\<lambda>_. 0), keybuf_head = 0, keybuf_tail = 0, extended = False, shift_pressed = False,
     ctrl_pressed = False, alt_pressed = False, caps_pressed = False\<rparr>"

text \<open>Shift, the key of the letter h, a poll: the capital letter is read.\<close>

theorem keyboard_fifo_witness:
  "fst (kb_run [Scancode 0x2A, Scancode 0x23, Poll] demo_ps2) = [72]"
proof -
  obtain rs ps t where r: "kb_run [Scancode 0x2A, Scancode 0x23, Poll] demo_ps2 = (rs, ps, t)"
    by (metis prod_cases3)
  have i: "key_inv demo_ps2" "key_range demo_ps2" "keys demo_ps2 = []"
    by (simp_all add: key_inv_def key_range_def keys_def demo_ps2_def KEYBUF_SIZE_def ring_count_def)
  have "rs = [72]" "ps = [72]"
    using r by (auto simp: Let_def demo_ps2_def handle_scancode_def scancode_key_def key_char_def
        buf_put_def ps2_poll_def keymap_upper_def KEYBUF_SIZE_def)
  moreover have "rs @ keys t = keys demo_ps2 @ ps"
    using keyboard_fifo [OF i(1,2) r] i(3) by simp
  ultimately show ?thesis using r by simp
qed

text \<open>The letter keys: with Control the code is the letter's number; otherwise Shift and
  Caps Lock together choose the case, each undoing the other.\<close>

theorem letter_keys:
  assumes "sc AND 0x80 = 0" "97 \<le> keymap_lower ! unat sc" "keymap_lower ! unat sc \<le> 122"
  shows "key_char s sc = (if ctrl_pressed s then keymap_lower ! unat sc - 96
    else if shift_pressed s \<noteq> caps_pressed s then keymap_lower ! unat sc - 32
    else keymap_lower ! unat sc)"
proof -
  have all: "\<forall>i \<in> set [0..<128]. 97 \<le> keymap_lower ! i \<and> keymap_lower ! i \<le> 122 \<longrightarrow>
      keymap_upper ! i = keymap_lower ! i - 32"
    by code_simp
  have "unat sc \<in> set [0..<128]" using make_code [OF assms(1)] by simp
  with all assms(2,3) have u: "keymap_upper ! unat sc = keymap_lower ! unat sc - 32" by blast
  let ?l = "keymap_lower ! unat sc"
  have x: "?l XOR 32 = ?l - 32" "(?l - 32) XOR 32 = ?l"
    using xor_32_letter [of ?l] xor_32_letter [of "?l - 32"] assms(2,3) by auto
  show ?thesis
    using assms(2,3) u x by (auto simp: key_char_def Let_def)
qed

theorem letter_keys_witness:
  "key_char demo_ps2 0x1E = 97 \<and> key_char (demo_ps2\<lparr>shift_pressed := True\<rparr>) 0x1E = 65 \<and>
   key_char (demo_ps2\<lparr>ctrl_pressed := True\<rparr>) 0x1E = 1"
proof -
  have h: "(0x1E :: u8) AND 0x80 = 0" "97 \<le> keymap_lower ! unat (0x1E :: u8)"
      "keymap_lower ! unat (0x1E :: u8) \<le> 122"
    by (simp_all add: keymap_lower_def)
  have l: "keymap_lower ! unat (0x1E :: u8) = 97" by (simp add: keymap_lower_def)
  show ?thesis
    unfolding letter_keys [OF h] l by (simp add: demo_ps2_def)
qed

end
