(* ===== verification/Pmm.thy ===== *)
theory Pmm
  imports Ps2 Printf
begin

text \<open>
  The physical page allocator, src/src/kernel/pmm.c, and the boot information it reads
  (struct multiboot_info and struct multiboot_mmap_entry of src/src/boot/multiboot.h).
  Physical memory enters the kernel state here; the memory map is read from it entry by entry.
  The loops over the map end only if the entry size moves the pointer past the end, so they are
  partial functions, and \<open>mmap_at\<close> says when a map in memory is the list of its entries.
  The invariant \<open>pmm_inv\<close> ties \<open>free_count\<close> to the clear bits of the bitmap; the
  interpretation \<open>fra\<close> shows that the allocator is a \<open>frame_allocator\<close>, the contract the
  paging code builds on.
\<close>

section \<open>State and boot information\<close>

record pmm = ps2 +
  phys_mem :: memory
  pmm_bitmap :: "u32 \<Rightarrow> u32"
  free_count :: u32
  total_pages :: u32

record multiboot_info =
  mb_flags :: u32
  mem_lower :: u32
  mem_upper :: u32
  cmdline :: u32
  mmap_length :: u32
  mmap_addr :: u32
  framebuffer_addr :: u64
  framebuffer_pitch :: u32
  framebuffer_width :: u32
  framebuffer_height :: u32
  framebuffer_bpp :: u8
  framebuffer_type :: u8
  mmap_entry_size :: u32

record mmap_entry =
  addr_low :: u32
  len_low :: u32
  entry_type :: u32

definition PAGE_SIZE :: u32 where "PAGE_SIZE = 4096"
definition PMM_MAX_PAGES :: u32 where "PMM_MAX_PAGES = 1048576"
definition PMM_BITMAP_SIZE :: u32 where "PMM_BITMAP_SIZE = PMM_MAX_PAGES div 32"
definition MBOOT_FLAG_EFI :: u32 where "MBOOT_FLAG_EFI = push_bit 24 1"

definition read_entry :: "memory \<Rightarrow> u32 \<Rightarrow> mmap_entry" where
  "read_entry m a = \<lparr>addr_low = load32 m a, len_low = load32 m (a + 8), entry_type = load32 m (a + 16)\<rparr>"

definition entry_end :: "mmap_entry \<Rightarrow> u32" where
  "entry_end e = addr_low e + len_low e"

section \<open>The bitmap\<close>

definition pmm_test :: "u32 \<Rightarrow> 'a pmm_scheme \<Rightarrow> bool" where
  "pmm_test i s \<longleftrightarrow> drop_bit (unat (i mod 32)) (pmm_bitmap s (i div 32)) AND 1 \<noteq> 0"

definition pmm_set :: "u32 \<Rightarrow> 'a pmm_scheme \<Rightarrow> 'a pmm_scheme" where
  "pmm_set i s = s\<lparr>pmm_bitmap := (pmm_bitmap s)
     (i div 32 := pmm_bitmap s (i div 32) OR push_bit (unat (i mod 32)) 1)\<rparr>"

definition pmm_clear :: "u32 \<Rightarrow> 'a pmm_scheme \<Rightarrow> 'a pmm_scheme" where
  "pmm_clear i s = s\<lparr>pmm_bitmap := (pmm_bitmap s)
     (i div 32 := pmm_bitmap s (i div 32) AND NOT (push_bit (unat (i mod 32)) 1))\<rparr>"

definition pmm_reserve :: "u32 \<Rightarrow> 'a pmm_scheme \<Rightarrow> 'a pmm_scheme" where
  "pmm_reserve i s = (if \<not> pmm_test i s then (pmm_set i s)\<lparr>free_count := free_count s - 1\<rparr> else s)"

definition pmm_release :: "u32 \<Rightarrow> 'a pmm_scheme \<Rightarrow> 'a pmm_scheme" where
  "pmm_release page s =
    (if page < total_pages s \<and> pmm_test page s
     then (pmm_clear page s)\<lparr>free_count := free_count s + 1\<rparr> else s)"

section \<open>pmm_init\<close>

partial_function (option) total_mem_loop :: "memory \<Rightarrow> u32 \<Rightarrow> u32 \<Rightarrow> u32 \<Rightarrow> u32 \<Rightarrow> u32 option" where
  "total_mem_loop m esz mmap_end mmap total_mem =
    (if mmap < mmap_end
     then let end = entry_end (read_entry m mmap)
          in total_mem_loop m esz mmap_end (mmap + esz) (if end > total_mem then end else total_mem)
     else Some total_mem)"

text \<open>The frames a map entry takes out of the pool: the loop ends at the first of \<open>ep\<close> and
  \<open>total_pages\<close>.\<close>

definition reserve_entry :: "u32 \<Rightarrow> mmap_entry \<Rightarrow> 'a pmm_scheme \<Rightarrow> 'a pmm_scheme" where
  "reserve_entry total_mem e s =
    (if entry_type e \<noteq> 1 \<and> addr_low e < total_mem
     then let end = (if entry_end e > total_mem then total_mem else entry_end e);
              sp = (addr_low e + PAGE_SIZE - 1) div PAGE_SIZE;
              ep = (end + PAGE_SIZE - 1) div PAGE_SIZE
          in for_u32 sp (min ep (total_pages s)) pmm_reserve s
     else s)"

partial_function (option) reserve_loop ::
    "u32 \<Rightarrow> u32 \<Rightarrow> u32 \<Rightarrow> u32 \<Rightarrow> 'a pmm_scheme \<Rightarrow> 'a pmm_scheme option" where
  "reserve_loop esz mmap_end total_mem mmap s =
    (if mmap < mmap_end
     then reserve_loop esz mmap_end total_mem (mmap + esz)
            (reserve_entry total_mem (read_entry (phys_mem s) mmap) s)
     else Some s)"

definition has_mmap :: "multiboot_info \<Rightarrow> bool" where
  "has_mmap mbd \<longleftrightarrow> mb_flags mbd AND push_bit 6 1 \<noteq> 0"

definition detect_memory :: "multiboot_info \<Rightarrow> 'a pmm_scheme \<Rightarrow> u32 option" where
  "detect_memory mbd s =
    map_option (\<lambda>total_mem. if total_mem = 0 \<and> mb_flags mbd AND push_bit 0 1 \<noteq> 0
                            then (mem_upper mbd + 1024) * 1024 else total_mem)
      (if has_mmap mbd
       then total_mem_loop (phys_mem s) (mmap_entry_size mbd) (mmap_addr mbd + mmap_length mbd)
              (mmap_addr mbd) 0
       else Some 0)"

text \<open>The fixed part: size, page 0 and the kernel image between the linker's two symbols.\<close>

definition reserve_kernel :: "u32 \<Rightarrow> u32 \<Rightarrow> u32 \<Rightarrow> 'a pmm_scheme \<Rightarrow> 'a pmm_scheme" where
  "reserve_kernel kernel_start kernel_end total_mem s =
    (let tp = total_mem div PAGE_SIZE;
         tp = (if tp > PMM_MAX_PAGES then PMM_MAX_PAGES else tp);
         s = s\<lparr>total_pages := tp, free_count := tp\<rparr>;
         s = s\<lparr>pmm_bitmap := (pmm_bitmap s)(0 := pmm_bitmap s 0 OR 1), free_count := free_count s - 1\<rparr>;
         ksp = kernel_start div PAGE_SIZE;
         kep = (kernel_end + PAGE_SIZE - 1) div PAGE_SIZE
     in for_u32 ksp kep pmm_reserve s)"

definition pmm_init :: "u32 \<Rightarrow> u32 \<Rightarrow> multiboot_info \<Rightarrow> 'a pmm_scheme \<Rightarrow> 'a pmm_scheme kres" where
  "pmm_init kernel_start kernel_end mbd s =
    kbind (printf ''[pmm] boot: %s\<newline>''
             [PStr (if mb_flags mbd AND MBOOT_FLAG_EFI \<noteq> 0 then ''efi'' else ''bios'')] s) (\<lambda>s.
    kbind (or_halt (detect_memory mbd s)) (\<lambda>total_mem.
      let s = reserve_kernel kernel_start kernel_end total_mem s
      in if has_mmap mbd
         then or_halt (reserve_loop (mmap_entry_size mbd) (mmap_addr mbd + mmap_length mbd) total_mem
                (mmap_addr mbd) s)
         else Inr s))"

section \<open>Allocation and release\<close>

function pmm_scan :: "u32 \<Rightarrow> u32 \<Rightarrow> 'a pmm_scheme \<Rightarrow> u32 option" where
  "pmm_scan i n s =
    (if i < n then if \<not> pmm_test i s then Some i else pmm_scan (i + 1) n s else None)"
  by pat_completeness auto
termination
  by (relation "measure (\<lambda>(i, n, s). unat n - unat i)") (auto simp: unat_inc word_less_nat_alt)

declare pmm_scan.simps [simp del]

definition pmm_alloc_page :: "'a pmm_scheme \<Rightarrow> u32 \<times> 'a pmm_scheme" where
  "pmm_alloc_page s =
    (if free_count s = 0 then (0, s)
     else case pmm_scan 0 (total_pages s) s of
       None \<Rightarrow> (0, s)
     | Some i \<Rightarrow> (i * PAGE_SIZE, (pmm_set i s)\<lparr>free_count := free_count s - 1\<rparr>))"

definition pmm_free_page :: "u32 \<Rightarrow> 'a pmm_scheme \<Rightarrow> 'a pmm_scheme" where
  "pmm_free_page addr s = pmm_release (addr div PAGE_SIZE) s"

text \<open>The inner search stops at the first used frame of the run.\<close>

function run_free :: "u32 \<Rightarrow> u32 \<Rightarrow> u32 \<Rightarrow> 'a pmm_scheme \<Rightarrow> bool" where
  "run_free i j count s =
    (if j < count then if pmm_test (i + j) s then False else run_free i (j + 1) count s else True)"
  by pat_completeness auto
termination
  by (relation "measure (\<lambda>(i, j, count, s). unat count - unat j)")
    (auto simp: unat_inc word_less_nat_alt)

declare run_free.simps [simp del]

partial_function (option) run_scan :: "u32 \<Rightarrow> u32 \<Rightarrow> u32 \<Rightarrow> 'a pmm_scheme \<Rightarrow> u32 option option" where
  "run_scan i lim count s =
    (if i \<le> lim then if run_free i 0 count s then Some (Some i) else run_scan (i + 1) lim count s
     else Some None)"

definition pmm_alloc_pages :: "u32 \<Rightarrow> 'a pmm_scheme \<Rightarrow> (u32 \<times> 'a pmm_scheme) option" where
  "pmm_alloc_pages count s =
    (if count = 0 \<or> free_count s < count then Some (0, s)
     else map_option (\<lambda>r. case r of
         None \<Rightarrow> (0, s)
       | Some i \<Rightarrow> (i * PAGE_SIZE, for_u32 0 count (\<lambda>j s.
            (pmm_set (i + j) s)\<lparr>free_count := free_count s - 1\<rparr>) s))
       (run_scan 0 (total_pages s - count) count s))"

definition pmm_free_pages :: "u32 \<Rightarrow> u32 \<Rightarrow> 'a pmm_scheme \<Rightarrow> 'a pmm_scheme" where
  "pmm_free_pages addr count s =
    (let start_page = addr div PAGE_SIZE
     in for_u32 0 count (\<lambda>i. pmm_release (start_page + i)) s)"

definition pmm_get_free_page_count :: "'a pmm_scheme \<Rightarrow> u32" where
  "pmm_get_free_page_count s = free_count s"

definition pmm_get_total_page_count :: "'a pmm_scheme \<Rightarrow> u32" where
  "pmm_get_total_page_count s = total_pages s"

section \<open>Bits of the bitmap\<close>

lemma pmm_test_bit: "pmm_test i s \<longleftrightarrow> bit (pmm_bitmap s (i div 32)) (unat (i mod 32))"
  by (simp add: pmm_test_def and_one_eq odd_iff_mod_2_eq_one [symmetric] bit_iff_odd_drop_bit)

lemma unat_mod_32: "unat (i mod 32) < 32" for i :: u32
  by (simp add: unat_mod)

lemma frame_index_inject:
  "i div 32 = j div 32 \<Longrightarrow> unat (i mod 32) = unat (j mod 32) \<Longrightarrow> i = j" for i j :: u32
  using word_mod_div_inject [of i 32 j] word_unat_eq_iff [of "i mod 32" "j mod 32"] by blast

lemma pmm_test_set [simp]: "pmm_test i (pmm_set j s) \<longleftrightarrow> i = j \<or> pmm_test i s"
  using frame_index_inject [of i j] unat_mod_32 [of i] unat_mod_32 [of j]
  by (auto simp: pmm_test_bit pmm_set_def bit_simps)

lemma pmm_test_clear [simp]: "pmm_test i (pmm_clear j s) \<longleftrightarrow> i \<noteq> j \<and> pmm_test i s"
  using frame_index_inject [of i j] unat_mod_32 [of i] unat_mod_32 [of j]
  by (auto simp: pmm_test_bit pmm_clear_def bit_simps)

lemma pmm_set_fields [simp]:
  "free_count (pmm_set i s) = free_count s" "total_pages (pmm_set i s) = total_pages s"
  "phys_mem (pmm_set i s) = phys_mem s" "free_count (pmm_clear i s) = free_count s"
  "total_pages (pmm_clear i s) = total_pages s" "phys_mem (pmm_clear i s) = phys_mem s"
  by (simp_all add: pmm_set_def pmm_clear_def)

lemma pmm_test_fields [simp]: "pmm_test i (s\<lparr>free_count := c\<rparr>) = pmm_test i s"
    "pmm_test i (s\<lparr>total_pages := n\<rparr>) = pmm_test i s" "pmm_test i (s\<lparr>phys_mem := m\<rparr>) = pmm_test i s"
  by (simp_all add: pmm_test_def)

section \<open>The invariant\<close>

definition free_frames :: "'a pmm_scheme \<Rightarrow> u32 set" where
  "free_frames s = {i. i < total_pages s \<and> \<not> pmm_test i s}"

definition count_ok :: "'a pmm_scheme \<Rightarrow> bool" where
  "count_ok s \<longleftrightarrow> unat (free_count s) = card (free_frames s)"

definition pmm_inv :: "'a pmm_scheme \<Rightarrow> bool" where
  "pmm_inv s \<longleftrightarrow> total_pages s \<le> PMM_MAX_PAGES \<and> count_ok s \<and> 0 \<notin> free_frames s"

lemma finite_u32 [simp]: "finite (A :: u32 set)"
  by (rule finite_subset [OF subset_UNIV]) simp

lemma card_below: "card {i. i < n} = unat n" for n :: u32
proof -
  have k: "unat (of_nat k :: u32) = k" if "k < unat n" for k
    using that unsigned_less [of n, where ?'a = nat] by (intro of_nat_inverse) auto
  have "bij_betw unat {i. i < n} {..< unat n}"
    by (rule bij_betw_byWitness [where f' = of_nat]) (auto simp: word_less_nat_alt k)
  then show ?thesis by (simp add: bij_betw_same_card)
qed

lemma card_free_frames: "card (free_frames s) \<le> unat (total_pages s)"
proof -
  have "card (free_frames s) \<le> card {i. i < total_pages s}"
    by (rule card_mono) (auto simp: free_frames_def)
  then show ?thesis by (simp add: card_below)
qed

lemma take_frame:
  assumes "count_ok s" "i \<in> free_frames s"
  shows "count_ok ((pmm_set i s)\<lparr>free_count := free_count s - 1\<rparr>)"
    and "free_frames ((pmm_set i s)\<lparr>free_count := free_count s - 1\<rparr>) = free_frames s - {i}"
proof -
  show f: "free_frames ((pmm_set i s)\<lparr>free_count := free_count s - 1\<rparr>) = free_frames s - {i}"
    by (auto simp: free_frames_def)
  have c: "0 < card (free_frames s)" using assms(2) by (auto simp: card_gt_0_iff)
  then have "free_count s \<noteq> 0" using assms(1) by (auto simp: count_ok_def)
  then have "unat (free_count s - 1) = unat (free_count s) - 1" by (rule unat_minus_one)
  then show "count_ok ((pmm_set i s)\<lparr>free_count := free_count s - 1\<rparr>)"
    unfolding count_ok_def f using assms by (simp add: count_ok_def)
qed

lemma give_frame:
  assumes "count_ok s" "i < total_pages s" "pmm_test i s"
  shows "count_ok ((pmm_clear i s)\<lparr>free_count := free_count s + 1\<rparr>)"
    and "free_frames ((pmm_clear i s)\<lparr>free_count := free_count s + 1\<rparr>) = insert i (free_frames s)"
proof -
  let ?t = "(pmm_clear i s)\<lparr>free_count := free_count s + 1\<rparr>"
  show f: "free_frames ?t = insert i (free_frames s)"
    using assms(2) by (auto simp: free_frames_def)
  have n: "i \<notin> free_frames s" using assms(3) by (simp add: free_frames_def)
  have "Suc (card (free_frames s)) = card (free_frames ?t)" using n by (simp add: f)
  also have "\<dots> \<le> unat (total_pages s)" using card_free_frames [of ?t] by simp
  finally have "free_count s < total_pages s"
    using assms(1) by (simp add: count_ok_def word_less_nat_alt)
  then have "unat (free_count s + 1) = Suc (unat (free_count s))" by (rule unat_inc)
  then show "count_ok ?t"
    unfolding count_ok_def f using assms n by (simp add: count_ok_def)
qed

section \<open>The contract of a frame allocator\<close>

text \<open>
  What the rest of the kernel relies on. \<open>pool\<close> is the set of free frames (by address) and
  \<open>managed\<close> the set of all frames the allocator knows. A frame is handed out at most once
  until it is given back, and giving back a frame makes exactly that frame available again.
\<close>

locale frame_allocator =
  fixes alloc :: "'s \<Rightarrow> u32 \<times> 's"
    and free :: "u32 \<Rightarrow> 's \<Rightarrow> 's"
    and pool :: "'s \<Rightarrow> u32 set" and managed :: "'s \<Rightarrow> u32 set"
    and inv :: "'s \<Rightarrow> bool"
  assumes pool_frames: "inv s \<Longrightarrow> a \<in> pool s \<Longrightarrow> a \<noteq> 0 \<and> aligned_page a \<and> a \<in> managed s"
    and alloc_empty: "inv s \<Longrightarrow> pool s = {} \<Longrightarrow> alloc s = (0, s)"
    and alloc_takes: "inv s \<Longrightarrow> pool s \<noteq> {} \<Longrightarrow> alloc s = (a, t) \<Longrightarrow>
      a \<in> pool s \<and> pool t = pool s - {a} \<and> managed t = managed s \<and> inv t"
    and free_gives: "inv s \<Longrightarrow> a \<in> managed s \<Longrightarrow> a \<noteq> 0 \<Longrightarrow>
      pool (free a s) = insert a (pool s) \<and> managed (free a s) = managed s \<and> inv (free a s)"
begin

lemma alloc_inv: "inv s \<Longrightarrow> inv (snd (alloc s))"
  using alloc_empty [of s] alloc_takes [of s "fst (alloc s)" "snd (alloc s)"]
  by (cases "pool s = {}") simp_all

text \<open>The frames a client holds stay apart from the pool; together they never change.\<close>

definition separate :: "u32 set \<Rightarrow> 's \<Rightarrow> bool" where
  "separate held s \<longleftrightarrow> inv s \<and> held \<inter> pool s = {} \<and> 0 \<notin> held \<and> held \<subseteq> managed s"

lemma separate_alloc:
  assumes "separate held s" "alloc s = (a, t)"
  shows "a \<notin> held \<and> separate (if a = 0 then held else insert a held) t \<and>
    (if a = 0 then held else insert a held) \<union> pool t = held \<union> pool s"
proof (cases "pool s = {}")
  case True
  then show ?thesis using assms alloc_empty [of s] by (auto simp: separate_def)
next
  case False
  then have t: "a \<in> pool s" "pool t = pool s - {a}" "managed t = managed s" "inv t"
    using assms alloc_takes [of s a t] by (auto simp: separate_def)
  moreover have "a \<noteq> 0" "a \<in> managed s" using pool_frames [of s a] t(1) assms(1)
    by (auto simp: separate_def)
  ultimately show ?thesis using assms(1) by (auto simp: separate_def)
qed

lemma separate_free:
  assumes "separate held s" "a \<in> held"
  shows "separate (held - {a}) (free a s) \<and> (held - {a}) \<union> pool (free a s) = held \<union> pool s"
proof -
  have "pool (free a s) = insert a (pool s)" "managed (free a s) = managed s" "inv (free a s)"
    using assms free_gives [of s a] by (auto simp: separate_def)
  then show ?thesis using assms by (auto simp: separate_def)
qed

lemma alloc_zero_iff:
  assumes "inv s"
  shows "fst (alloc s) = 0 \<longleftrightarrow> pool s = {}"
  using alloc_empty [OF assms] alloc_takes [OF assms, of "fst (alloc s)" "snd (alloc s)"]
    pool_frames [OF assms, of "fst (alloc s)"]
  by (cases "pool s = {}") auto

lemma alloc_then_free:
  assumes "inv s" "pool s \<noteq> {}" "alloc s = (a, t)"
  shows "pool (free a t) = pool s \<and> inv (free a t)"
proof -
  have t: "a \<in> pool s" "pool t = pool s - {a}" "managed t = managed s" "inv t"
    using alloc_takes [OF assms] by auto
  then have "a \<noteq> 0" "a \<in> managed t" using pool_frames [OF assms(1) t(1)] by auto
  from free_gives [OF t(4) this(2,1)] t show ?thesis by auto
qed

end

section \<open>Allocation takes the lowest free frame\<close>

lemma pmm_scan_none: "pmm_scan i n s = None \<longleftrightarrow> (\<forall>k. i \<le> k \<longrightarrow> k < n \<longrightarrow> pmm_test k s)"
proof (induction i n s rule: pmm_scan.induct)
  case (1 i n s)
  show ?case
  proof (cases "i < n \<and> pmm_test i s")
    case True
    then have "pmm_scan i n s = pmm_scan (i + 1) n s" by (simp add: pmm_scan.simps [of i])
    moreover have "i + 1 \<le> k \<longleftrightarrow> i \<le> k \<and> k \<noteq> i" for k
      using True by (auto simp: inc_le_iff' [of i n])
    ultimately show ?thesis using "1.IH" True by auto
  next
    case False
    then show ?thesis by (auto simp: pmm_scan.simps [of i])
  qed
qed

lemma pmm_scan_some:
  "pmm_scan i n s = Some k \<Longrightarrow>
    i \<le> k \<and> k < n \<and> \<not> pmm_test k s \<and> (\<forall>j. i \<le> j \<longrightarrow> j < k \<longrightarrow> pmm_test j s)"
proof (induction i n s rule: pmm_scan.induct)
  case (1 i n s)
  show ?case
  proof (cases "i < n \<and> pmm_test i s")
    case True
    then have "pmm_scan (i + 1) n s = Some k" using "1.prems" by (simp add: pmm_scan.simps [of i])
    moreover have "i + 1 \<le> j \<longleftrightarrow> i \<le> j \<and> j \<noteq> i" for j
      using True by (auto simp: inc_le_iff' [of i n])
    ultimately show ?thesis using "1.IH" True by auto
  next
    case False
    then show ?thesis using "1.prems" by (auto simp: pmm_scan.simps [of i] split: if_splits)
  qed
qed

lemma alloc_none:
  assumes "free_frames s = {}"
  shows "pmm_alloc_page s = (0, s)"
proof -
  have "pmm_scan 0 (total_pages s) s = None"
    using assms by (auto simp: pmm_scan_none free_frames_def)
  then show ?thesis by (simp add: pmm_alloc_page_def)
qed

lemma alloc_some:
  assumes "count_ok s" "free_frames s \<noteq> {}"
  shows "\<exists>i \<in> free_frames s. (\<forall>j \<in> free_frames s. i \<le> j) \<and>
    pmm_alloc_page s = (i * PAGE_SIZE, (pmm_set i s)\<lparr>free_count := free_count s - 1\<rparr>)"
proof -
  have "free_count s \<noteq> 0"
    using assms by (metis count_ok_def card_0_eq finite_u32 unat_0)
  obtain i where i: "pmm_scan 0 (total_pages s) s = Some i"
    using assms(2) pmm_scan_none [of 0 "total_pages s" s] by (fastforce simp: free_frames_def)
  with pmm_scan_some [OF i] \<open>free_count s \<noteq> 0\<close> show ?thesis
    by (intro bexI [of _ i]) (auto simp: pmm_alloc_page_def free_frames_def not_less [symmetric])
qed

section \<open>The bitmap allocator is a frame allocator\<close>

definition pmm_pool :: "'a pmm_scheme \<Rightarrow> u32 set" where
  "pmm_pool s = {a. aligned_page a \<and> a div PAGE_SIZE \<in> free_frames s}"

definition pmm_managed :: "'a pmm_scheme \<Rightarrow> u32 set" where
  "pmm_managed s = {a. aligned_page a \<and> a div PAGE_SIZE < total_pages s}"

lemma frame_addr:
  assumes "i < PMM_MAX_PAGES"
  shows "i * PAGE_SIZE div PAGE_SIZE = i" "aligned_page (i * PAGE_SIZE)"
    "i \<noteq> 0 \<Longrightarrow> i * PAGE_SIZE \<noteq> 0"
proof -
  have "unat i < 2 ^ 20" using assms by (simp add: PMM_MAX_PAGES_def word_less_nat_alt)
  then have u: "unat (i * 4096) = unat i * 4096" by (simp add: unat_word_ariths)
  then show d: "i * PAGE_SIZE div PAGE_SIZE = i"
    by (simp add: PAGE_SIZE_def word_unat_eq_iff unat_div)
  show "aligned_page (i * PAGE_SIZE)" by (simp add: PAGE_SIZE_def page_times)
  show "i * PAGE_SIZE \<noteq> 0" if "i \<noteq> 0" using d that by auto
qed

lemma aligned_index: "aligned_page a \<Longrightarrow> a div PAGE_SIZE * PAGE_SIZE = a"
proof -
  assume "aligned_page a"
  then have "a mod 4096 = 0" by (simp add: take_bit_eq_mod)
  then show ?thesis using word_mod_div_equality [of a 4096] by (simp add: PAGE_SIZE_def)
qed

lemma aligned_index_iff:
  assumes "aligned_page a" "i < PMM_MAX_PAGES"
  shows "a div PAGE_SIZE = i \<longleftrightarrow> a = i * PAGE_SIZE"
  using aligned_index [OF assms(1)] frame_addr(1) [OF assms(2)] by auto

lemma free_frames_max: "pmm_inv s \<Longrightarrow> i \<in> free_frames s \<Longrightarrow> i < PMM_MAX_PAGES"
  by (auto simp: pmm_inv_def free_frames_def)

lemma pool_remove:
  assumes "pmm_inv s" "i \<in> free_frames s" "free_frames t = free_frames s - {i}"
  shows "pmm_pool t = pmm_pool s - {i * PAGE_SIZE}"
  using aligned_index_iff [OF _ free_frames_max [OF assms(1,2)]]
  unfolding pmm_pool_def assms(3) by blast

interpretation fra: frame_allocator pmm_alloc_page pmm_free_page pmm_pool pmm_managed pmm_inv
proof
  fix s t :: "'a pmm_scheme" and a :: u32
  assume inv: "pmm_inv s"
  have max: "i < PMM_MAX_PAGES" if "i < total_pages s" for i
    using inv that by (auto simp: pmm_inv_def)
  show "a \<noteq> 0 \<and> aligned_page a \<and> a \<in> pmm_managed s" if "a \<in> pmm_pool s"
  proof -
    have "a div PAGE_SIZE \<in> free_frames s" "aligned_page a" using that by (simp_all add: pmm_pool_def)
    moreover have "0 div PAGE_SIZE = 0" by simp
    ultimately show ?thesis
      using inv unfolding pmm_managed_def pmm_inv_def free_frames_def by auto
  qed
  have addr_pool: "i * PAGE_SIZE \<in> pmm_pool s" if "i \<in> free_frames s" for i
    using frame_addr [OF free_frames_max [OF inv that]] that by (simp add: pmm_pool_def)
  show "pmm_alloc_page s = (0, s)" if "pmm_pool s = {}"
    using that addr_pool by (intro alloc_none) blast
  show "a \<in> pmm_pool s \<and> pmm_pool t = pmm_pool s - {a} \<and> pmm_managed t = pmm_managed s \<and> pmm_inv t"
    if pool: "pmm_pool s \<noteq> {}" and al: "pmm_alloc_page s = (a, t)"
  proof -
    have ok: "count_ok s" using inv by (simp add: pmm_inv_def)
    from pool have "free_frames s \<noteq> {}" by (auto simp: pmm_pool_def)
    with alloc_some [OF ok] al obtain i where i: "i \<in> free_frames s" "a = i * PAGE_SIZE"
      "t = (pmm_set i s)\<lparr>free_count := free_count s - 1\<rparr>" by auto
    note tf = take_frame [OF ok i(1)]
    show ?thesis
      using i tf inv addr_pool pool_remove [OF inv i(1), of t]
      by (simp add: pmm_managed_def pmm_inv_def)
  qed
  show "pmm_pool (pmm_free_page a s) = insert a (pmm_pool s) \<and>
      pmm_managed (pmm_free_page a s) = pmm_managed s \<and> pmm_inv (pmm_free_page a s)"
    if m: "a \<in> pmm_managed s" and "a \<noteq> 0"
  proof -
    let ?i = "a div PAGE_SIZE"
    have i: "aligned_page a" "?i < total_pages s" using m by (simp_all add: pmm_managed_def)
    have nz: "?i \<noteq> 0" using aligned_index [OF i(1)] \<open>a \<noteq> 0\<close> by auto
    show ?thesis
    proof (cases "pmm_test ?i s")
      case True
      note gf = give_frame [of s ?i, OF _ i(2) True]
      have "free_frames (pmm_free_page a s) = insert ?i (free_frames s)"
        using gf inv i(2) True by (simp add: pmm_free_page_def pmm_release_def pmm_inv_def)
      moreover have "pmm_pool (pmm_free_page a s) = insert a (pmm_pool s)"
        using calculation i(1) aligned_index_iff [OF _ max [OF i(2)]] aligned_index [OF i(1)]
        by (auto simp: pmm_pool_def)
      ultimately show ?thesis
        using gf inv i(2) True nz
        by (simp add: pmm_free_page_def pmm_release_def pmm_inv_def pmm_managed_def)
    next
      case False
      then have "a \<in> pmm_pool s" using i by (simp add: pmm_pool_def free_frames_def)
      with False show ?thesis
        using inv by (auto simp: pmm_free_page_def pmm_release_def)
    qed
  qed
qed

section \<open>Runs of frames\<close>

lemma run_free_iff: "run_free i j count s \<longleftrightarrow> (\<forall>k. j \<le> k \<longrightarrow> k < count \<longrightarrow> \<not> pmm_test (i + k) s)"
proof (induction i j count s rule: run_free.induct)
  case (1 i j count s)
  show ?case
  proof (cases "j < count \<and> \<not> pmm_test (i + j) s")
    case True
    then have "run_free i j count s = run_free i (j + 1) count s" by (simp add: run_free.simps [of i j])
    moreover have "j + 1 \<le> k \<longleftrightarrow> j \<le> k \<and> k \<noteq> j" for k
      using True by (auto simp: inc_le_iff' [of j count])
    ultimately show ?thesis using "1.IH" True by auto
  next
    case False
    then show ?thesis by (auto simp: run_free.simps [of i j])
  qed
qed

text \<open>The search ends, because its bound is below the largest \<open>unsigned int\<close>.\<close>

lemma run_scan_ends:
  assumes "lim < - 1"
  shows "\<exists>r. run_scan i lim count s = Some r \<and>
    (case r of None \<Rightarrow> \<forall>k. i \<le> k \<longrightarrow> k \<le> lim \<longrightarrow> \<not> run_free k 0 count s
     | Some k \<Rightarrow> i \<le> k \<and> k \<le> lim \<and> run_free k 0 count s)"
proof (induction "Suc (unat lim) - unat i" arbitrary: i)
  case 0
  then have "\<not> i \<le> lim" by (simp add: word_le_nat_alt)
  then show ?case by (auto simp: run_scan.simps [of i])
next
  case (Suc n)
  show ?case
  proof (cases "i \<le> lim \<and> \<not> run_free i 0 count s")
    case True
    have i: "i < - 1" using True assms by auto
    have u: "n = Suc (unat lim) - unat (i + 1)" using Suc(2) unat_inc [OF i] by simp
    have le: "i + 1 \<le> k \<longleftrightarrow> i \<le> k \<and> k \<noteq> i" for k by (auto simp: inc_le_iff' [OF i])
    have step: "run_scan i lim count s = run_scan (i + 1) lim count s"
      using True by (simp add: run_scan.simps [of i])
    from Suc(1) [OF u] obtain r where r: "run_scan (i + 1) lim count s = Some r"
      "case r of None \<Rightarrow> \<forall>k. i + 1 \<le> k \<longrightarrow> k \<le> lim \<longrightarrow> \<not> run_free k 0 count s
       | Some k \<Rightarrow> i + 1 \<le> k \<and> k \<le> lim \<and> run_free k 0 count s" by blast
    show ?thesis
      unfolding step using r True by (cases r) (auto simp: le)
  next
    case False
    then show ?thesis by (auto simp: run_scan.simps [of i])
  qed
qed

lemma take_run:
  assumes "count_ok s" "\<And>k. k < count \<Longrightarrow> i + k \<in> free_frames s"
  shows "let t = for_u32 0 count (\<lambda>j s. (pmm_set (i + j) s)\<lparr>free_count := free_count s - 1\<rparr>) s
    in count_ok t \<and> total_pages t = total_pages s \<and> free_frames t = free_frames s - (+) i ` {..< count}"
proof -
  let ?f = "\<lambda>j s. (pmm_set (i + j) s)\<lparr>free_count := free_count s - 1\<rparr>"
  let ?P = "\<lambda>k t. count_ok t \<and> total_pages t = total_pages s \<and> free_frames t = free_frames s - (+) i ` {..< k}"
  have "?P count (for_u32 0 count ?f s)"
  proof (rule for_u32_invariant)
    fix k t
    assume k: "k < count" and P: "?P k t"
    have "i + k \<in> free_frames t" using P assms(2) [OF k] by auto
    with P have "count_ok (?f k t)" "free_frames (?f k t) = free_frames t - {i + k}"
      using take_frame [of t "i + k"] by blast+
    moreover have "{..< k + 1} = insert k {..< k}" using k by (auto simp: less_inc_iff)
    ultimately show "?P (k + 1) (?f k t)" using P by auto
  qed (use assms(1) in auto)
  then show ?thesis by (simp add: Let_def)
qed

lemma run_below:
  fixes i k n count :: u32
  assumes "i \<le> n - count" "count \<le> n" "k < count"
  shows "i + k < n"
  using assms by unat_arith

lemma alloc_pages_effect:
  assumes "pmm_inv s" "0 < count" "count \<le> free_count s"
  shows "\<exists>r. run_scan 0 (total_pages s - count) count s = Some r \<and>
    (case r of
       None \<Rightarrow> \<forall>k. k \<le> total_pages s - count \<longrightarrow> \<not> (+) k ` {..< count} \<subseteq> free_frames s
     | Some i \<Rightarrow> i \<le> total_pages s - count \<and> (+) i ` {..< count} \<subseteq> free_frames s)"
proof -
  have n: "count \<le> total_pages s" "total_pages s \<le> PMM_MAX_PAGES"
    using assms card_free_frames [of s]
    by (auto simp: pmm_inv_def count_ok_def word_le_nat_alt)
  have "total_pages s - count \<le> PMM_MAX_PAGES"
    using n word_sub_le_iff [of "total_pages s" count] by (metis order.trans)
  also have "\<dots> < - 1" by (simp add: PMM_MAX_PAGES_def)
  finally have "total_pages s - count < - 1" .
  from run_scan_ends [OF this, of 0 count s] obtain r where
    r: "run_scan 0 (total_pages s - count) count s = Some r"
      "case r of None \<Rightarrow> \<forall>k. 0 \<le> k \<longrightarrow> k \<le> total_pages s - count \<longrightarrow> \<not> run_free k 0 count s
       | Some k \<Rightarrow> 0 \<le> k \<and> k \<le> total_pages s - count \<and> run_free k 0 count s" by blast
  have "run_free k 0 count s \<longleftrightarrow> (+) k ` {..< count} \<subseteq> free_frames s"
    if "k \<le> total_pages s - count" for k
    using run_below [OF that n(1)] by (auto simp: run_free_iff free_frames_def)
  with r show ?thesis by (intro exI [of _ r]) (auto split: option.splits)
qed

text \<open>C24: \<open>pmm_alloc_pages\<close> returns: either 0 with nothing changed, when no run of
  that length is free, or the address of a run of free frames, which it takes out of the pool.\<close>

theorem alloc_pages_run:
  assumes "pmm_inv s" "0 < count" "count \<le> free_count s"
  shows "\<exists>a t. pmm_alloc_pages count s = Some (a, t) \<and>
    (let run = (\<lambda>k. a div PAGE_SIZE + k) ` {..< count} in
      if a = 0 then t = s \<and> (\<forall>i. i \<le> total_pages s - count \<longrightarrow> \<not> (+) i ` {..< count} \<subseteq> free_frames s)
      else pmm_inv t \<and> run \<subseteq> free_frames s \<and> free_frames t = free_frames s - run)"
proof -
  from alloc_pages_effect [OF assms] obtain r where
    r: "run_scan 0 (total_pages s - count) count s = Some r"
      "case r of None \<Rightarrow> \<forall>k. k \<le> total_pages s - count \<longrightarrow> \<not> (+) k ` {..< count} \<subseteq> free_frames s
       | Some i \<Rightarrow> i \<le> total_pages s - count \<and> (+) i ` {..< count} \<subseteq> free_frames s" by blast
  have g: "\<not> (count = 0 \<or> free_count s < count)" using assms by auto
  show ?thesis
  proof (cases r)
    case None
    then show ?thesis using r g by (simp add: pmm_alloc_pages_def)
  next
    case (Some i)
    with r have i: "(+) i ` {..< count} \<subseteq> free_frames s" by simp
    with assms(2) have "i + 0 \<in> free_frames s" by blast
    then have i0: "i \<in> free_frames s" by simp
    then have m: "i < PMM_MAX_PAGES" "i \<noteq> 0"
      using assms(1) free_frames_max by (auto simp: pmm_inv_def)
    note a = frame_addr [OF m(1)] frame_addr(3) [OF m(1,2)]
    let ?t = "for_u32 0 count (\<lambda>j s. (pmm_set (i + j) s)\<lparr>free_count := free_count s - 1\<rparr>) s"
    have t: "count_ok ?t" "total_pages ?t = total_pages s" "free_frames ?t = free_frames s - (+) i ` {..< count}"
      using take_run [of s count i] assms(1) i by (auto simp: pmm_inv_def Let_def)
    have "pmm_alloc_pages count s = Some (i * PAGE_SIZE, ?t)"
      using g r(1) Some by (simp add: pmm_alloc_pages_def)
    moreover have "pmm_inv ?t" using t assms(1) by (simp add: pmm_inv_def)
    ultimately show ?thesis using t i a by auto
  qed
qed

section \<open>The pool after pmm_init\<close>

text \<open>A memory map in memory: the entries from \<open>a\<close> in steps of \<open>esz\<close> below \<open>lim\<close>.\<close>

fun mmap_at :: "memory \<Rightarrow> u32 \<Rightarrow> u32 \<Rightarrow> u32 \<Rightarrow> mmap_entry list \<Rightarrow> bool" where
  "mmap_at m esz lim a [] \<longleftrightarrow> \<not> a < lim"
| "mmap_at m esz lim a (e # es) \<longleftrightarrow> a < lim \<and> e = read_entry m a \<and> mmap_at m esz lim (a + esz) es"

definition mem_top :: "mmap_entry list \<Rightarrow> u32" where
  "mem_top es = fold (\<lambda>e t. max t (entry_end e)) es 0"

definition map_reserves :: "u32 \<Rightarrow> mmap_entry \<Rightarrow> u32 \<Rightarrow> bool" where
  "map_reserves mtop e i \<longleftrightarrow> entry_type e \<noteq> 1 \<and> addr_low e < mtop \<and>
     (addr_low e + PAGE_SIZE - 1) div PAGE_SIZE \<le> i \<and>
     i < (min (entry_end e) mtop + PAGE_SIZE - 1) div PAGE_SIZE"

text \<open>Every map whose entry size is positive and whose end is not near the top of the address
  space is such a list, so both loops of \<open>pmm_init\<close> end on it.\<close>

lemma mmap_at_exists:
  assumes "0 < esz" "unat lim + unat esz < 2 ^ 32"
  shows "\<exists>es. mmap_at m esz lim a es"
proof (induction "unat lim - unat a" arbitrary: a rule: less_induct)
  case less
  show ?case
  proof (cases "a < lim")
    case True
    then have "unat (a + esz) = unat a + unat esz"
      using assms(2) by (simp add: word_less_nat_alt unat_word_ariths)
    moreover have "0 < unat esz" using assms(1) by (simp add: unat_gt_0)
    ultimately have "unat lim - unat (a + esz) < unat lim - unat a"
      using True by (simp add: word_less_nat_alt)
    then obtain es where "mmap_at m esz lim (a + esz) es" using less by blast
    then show ?thesis using True by (intro exI [of _ "read_entry m a # es"]) simp
  next
    case False
    then show ?thesis by (intro exI [of _ "[]"]) simp
  qed
qed

lemma total_mem_loop_fold:
  "mmap_at m esz lim a es \<Longrightarrow> total_mem_loop m esz lim a t = Some (fold (\<lambda>e t. max t (entry_end e)) es t)"
proof (induction es arbitrary: a t)
  case (Cons e es)
  then have "total_mem_loop m esz lim a t = total_mem_loop m esz lim (a + esz) (max t (entry_end e))"
    by (subst total_mem_loop.simps) (auto simp: Let_def max_def)
  with Cons show ?case by simp
qed (simp add: total_mem_loop.simps)

lemma reserve_fields [simp]:
  "total_pages (pmm_reserve i s) = total_pages s" "phys_mem (pmm_reserve i s) = phys_mem s"
  by (simp_all add: pmm_reserve_def)

lemma pmm_test_reserve [simp]: "pmm_test i (pmm_reserve j s) \<longleftrightarrow> i = j \<or> pmm_test i s"
  by (auto simp: pmm_reserve_def)

lemma count_ok_reserve: "count_ok s \<Longrightarrow> i < total_pages s \<Longrightarrow> count_ok (pmm_reserve i s)"
  using take_frame(1) [of s i] by (simp add: pmm_reserve_def free_frames_def)

lemma reserve_range:
  fixes s :: "'a pmm_scheme"
  assumes "count_ok s" "hi \<le> total_pages s"
  shows "let t = for_u32 lo hi pmm_reserve s in count_ok t \<and> total_pages t = total_pages s \<and>
    phys_mem t = phys_mem s \<and> (\<forall>i. pmm_test i t \<longleftrightarrow> pmm_test i s \<or> lo \<le> i \<and> i < hi)"
proof (cases "lo \<le> hi")
  case True
  let ?P = "\<lambda>k t. count_ok t \<and> total_pages t = total_pages s \<and> phys_mem t = phys_mem s \<and>
    (\<forall>i. pmm_test i t \<longleftrightarrow> pmm_test i s \<or> lo \<le> i \<and> i < k)"
  have "?P hi (for_u32 lo hi pmm_reserve s)"
  proof (rule for_u32_invariant)
    fix k and t :: "'a pmm_scheme"
    assume k: "lo \<le> k" "k < hi" and P: "?P k t"
    then have "count_ok (pmm_reserve k t)"
      using assms(2) by (intro count_ok_reserve) auto
    moreover have "lo \<le> i \<and> i < k + 1 \<longleftrightarrow> i = k \<or> lo \<le> i \<and> i < k" for i
      using k(1) by (simp add: less_inc_iff [OF k(2)] le_less) blast
    ultimately show "?P (k + 1) (pmm_reserve k t)" using P by (simp only: reserve_fields pmm_test_reserve) blast
  qed (use assms True in \<open>auto dest: leD\<close>)
  then show ?thesis by (simp add: Let_def)
next
  case False
  then have "\<not> lo < hi" "\<not> (lo \<le> i \<and> i < hi)" for i by auto
  then show ?thesis using assms by auto
qed

lemma reserve_entry_effect:
  assumes "count_ok s"
  shows "let t = reserve_entry mtop e s in count_ok t \<and> total_pages t = total_pages s \<and>
    phys_mem t = phys_mem s \<and>
    (\<forall>i. pmm_test i t \<longleftrightarrow> pmm_test i s \<or> map_reserves mtop e i \<and> i < total_pages s)"
proof (cases "entry_type e \<noteq> 1 \<and> addr_low e < mtop")
  case True
  have m: "(if entry_end e > mtop then mtop else entry_end e) = min (entry_end e) mtop"
    by (auto simp: min_def)
  show ?thesis
    using True reserve_range [OF assms, of "min ((min (entry_end e) mtop + PAGE_SIZE - 1) div PAGE_SIZE) (total_pages s)"
        "(addr_low e + PAGE_SIZE - 1) div PAGE_SIZE"]
    by (auto simp: reserve_entry_def map_reserves_def Let_def m)
next
  case False
  then show ?thesis using assms by (auto simp: reserve_entry_def map_reserves_def)
qed

lemma reserve_loop_effect:
  "mmap_at (phys_mem s) esz lim a es \<Longrightarrow> count_ok s \<Longrightarrow>
   \<exists>t. reserve_loop esz lim mtop a s = Some t \<and> count_ok t \<and> total_pages t = total_pages s \<and>
    (\<forall>i. pmm_test i t \<longleftrightarrow> pmm_test i s \<or> (\<exists>e \<in> set es. map_reserves mtop e i) \<and> i < total_pages s)"
proof (induction es arbitrary: a s)
  case Nil
  then show ?case by (simp add: reserve_loop.simps [of _ _ _ a])
next
  case (Cons e es)
  let ?u = "reserve_entry mtop e s"
  have e: "a < lim" "e = read_entry (phys_mem s) a" using Cons.prems by simp_all
  have u: "count_ok ?u" "total_pages ?u = total_pages s" "phys_mem ?u = phys_mem s"
    "\<And>i. pmm_test i ?u \<longleftrightarrow> pmm_test i s \<or> map_reserves mtop e i \<and> i < total_pages s"
    using reserve_entry_effect [OF Cons.prems(2), of mtop e] by (simp_all add: Let_def)
  have "reserve_loop esz lim mtop a s = reserve_loop esz lim mtop (a + esz) ?u"
    using e by (simp add: reserve_loop.simps [of _ _ _ a])
  moreover have "mmap_at (phys_mem ?u) esz lim (a + esz) es" using Cons.prems u(3) by simp
  from Cons.IH [OF this u(1)] obtain t where t: "reserve_loop esz lim mtop (a + esz) ?u = Some t"
    "count_ok t" "total_pages t = total_pages ?u"
    "\<forall>i. pmm_test i t \<longleftrightarrow> pmm_test i ?u \<or> (\<exists>e \<in> set es. map_reserves mtop e i) \<and> i < total_pages ?u"
    by blast
  ultimately show ?case using u by auto
qed

lemma printf_pmm:
  assumes "printf f as s = Inr t"
  shows "phys_mem t = phys_mem s" "pmm_bitmap t = pmm_bitmap s"
  by (rule printf_frame [OF _ assms]; simp add: out_frame_def con_frame_def vram_frame_def)+

text \<open>An entry of the memory map covers an address. Rounding both ends of an entry up to pages takes the frames
  whose first byte it covers.\<close>

definition covers :: "mmap_entry \<Rightarrow> u32 \<Rightarrow> bool" where
  "covers e a \<longleftrightarrow> unat (addr_low e) \<le> unat a \<and> unat a < unat (addr_low e) + unat (len_low e)"

lemma mem_top_end: "e \<in> set es \<Longrightarrow> entry_end e \<le> mem_top es"
proof -
  have m: "t \<le> fold (\<lambda>e t. max t (entry_end e)) es t" for es and t :: u32
    by (induction es arbitrary: t) (auto intro: order_trans [OF max.cobounded1])
  have "e \<in> set es \<Longrightarrow> entry_end e \<le> fold (\<lambda>e t. max t (entry_end e)) es t" for es and t :: u32
    by (induction es arbitrary: t) (auto intro: order_trans [OF max.cobounded2 m])
  then show "e \<in> set es \<Longrightarrow> entry_end e \<le> mem_top es" by (simp add: mem_top_def)
qed

lemma unat_page_up: "unat x + 4095 < 2 ^ 32 \<Longrightarrow> unat ((x + PAGE_SIZE - 1) div PAGE_SIZE) = (unat x + 4095) div 4096" for x :: u32
proof -
  assume "unat x + 4095 < 2 ^ 32"
  then have "unat (x + 4095) = unat x + 4095" by (simp add: unat_word_ariths)
  moreover have "x + PAGE_SIZE - 1 = x + 4095" by (simp add: PAGE_SIZE_def)
  ultimately show ?thesis by (simp only: unat_div PAGE_SIZE_def) simp
qed

lemma map_reserves_covers:
  assumes e: "unat (addr_low e) + unat (len_low e) \<le> unat mt" and top: "unat mt + 4095 < 2 ^ 32"
    and i: "i < mt div PAGE_SIZE"
  shows "map_reserves mt e i \<longleftrightarrow> entry_type e \<noteq> 1 \<and> covers e (i * PAGE_SIZE)"
proof -
  have n: "unat (entry_end e) = unat (addr_low e) + unat (len_low e)"
    using e top unsigned_less [of mt, where ?'a = nat] unfolding entry_end_def by (simp add: unat_word_ariths)
  then have m: "min (entry_end e) mt = entry_end e" using e by (simp add: min_def word_le_nat_alt)
  have "unat i < unat mt div 4096" using i by (simp add: word_less_nat_alt unat_div PAGE_SIZE_def)
  then have "unat i * 4096 < 2 ^ 32" using top by linarith
  then have u: "unat (i * PAGE_SIZE) = unat i * 4096" by (simp add: unat_word_ariths PAGE_SIZE_def)
  have s: "unat ((addr_low e + PAGE_SIZE - 1) div PAGE_SIZE) = (unat (addr_low e) + 4095) div 4096"
    "unat ((entry_end e + PAGE_SIZE - 1) div PAGE_SIZE) = (unat (entry_end e) + 4095) div 4096"
    using e top n by (intro unat_page_up, simp)+
  have "addr_low e < mt \<and> (addr_low e + PAGE_SIZE - 1) div PAGE_SIZE \<le> i \<and> i < (entry_end e + PAGE_SIZE - 1) div PAGE_SIZE
    \<longleftrightarrow> covers e (i * PAGE_SIZE)"
    unfolding word_le_nat_alt word_less_nat_alt s covers_def u n using e by linarith
  then show ?thesis by (auto simp: map_reserves_def m)
qed

lemma reserve_kernel_effect:
  assumes "pmm_bitmap s = (\<lambda>_. 0)" "PAGE_SIZE \<le> mem"
    and "(ke + PAGE_SIZE - 1) div PAGE_SIZE \<le> mem div PAGE_SIZE"
  shows "let t = reserve_kernel ks ke mem s in count_ok t \<and> total_pages t = mem div PAGE_SIZE \<and>
    mem div PAGE_SIZE \<le> PMM_MAX_PAGES \<and> phys_mem t = phys_mem s \<and>
    (\<forall>i. pmm_test i t \<longleftrightarrow> i = 0 \<or> ks div PAGE_SIZE \<le> i \<and> i < (ke + PAGE_SIZE - 1) div PAGE_SIZE)"
proof -
  let ?n = "mem div PAGE_SIZE"
  let ?u = "s\<lparr>total_pages := ?n, pmm_bitmap := (\<lambda>_. 0)(0 := 1), free_count := ?n - 1\<rparr>"
  have u: "unat ?n = unat mem div 4096" by (simp add: PAGE_SIZE_def unat_div)
  have max: "?n \<le> PMM_MAX_PAGES"
    using unsigned_less [of mem, where ?'a = nat] u by (simp add: PMM_MAX_PAGES_def word_le_nat_alt)
  have pos: "?n \<noteq> 0" using u assms(2) by (auto simp: PAGE_SIZE_def word_le_nat_alt unat_eq_0 [symmetric])
  have t: "pmm_test i ?u \<longleftrightarrow> i = 0" for i
    using frame_index_inject [of i 0] by (auto simp: pmm_test_bit bit_1_iff)
  have "free_frames ?u = {i. i < ?n} - {0}" by (auto simp: free_frames_def t simp del: pmm_test_fields)
  then have "card (free_frames ?u) = unat ?n - 1"
    using pos by (simp add: card_below word_gt_0)
  then have "count_ok ?u" by (simp add: count_ok_def unat_minus_one [OF pos])
  moreover have "reserve_kernel ks ke mem s =
      for_u32 (ks div PAGE_SIZE) ((ke + PAGE_SIZE - 1) div PAGE_SIZE) pmm_reserve ?u"
    using max assms(1) by (simp add: reserve_kernel_def Let_def not_less)
  ultimately show ?thesis
    using reserve_range [of ?u "(ke + PAGE_SIZE - 1) div PAGE_SIZE" "ks div PAGE_SIZE"] assms(3) max t
    by (simp add: Let_def)
qed

lemma pmm_init_effect:
  fixes s :: "'a pmm_scheme"
  assumes "pmm_bitmap s = (\<lambda>_. 0)" "has_mmap mbd"
    and "mmap_at (phys_mem s) (mmap_entry_size mbd) (mmap_addr mbd + mmap_length mbd) (mmap_addr mbd) es"
    and "PAGE_SIZE \<le> mem_top es"
    and "(ke + PAGE_SIZE - 1) div PAGE_SIZE \<le> mem_top es div PAGE_SIZE" "serial_ok s"
    and ends: "\<forall>e\<in>set es. unat (addr_low e) + unat (len_low e) < 2 ^ 32" "unat (mem_top es) + 4095 < 2 ^ 32"
  shows "\<exists>t. pmm_init ks ke mbd s = Inr t \<and> pmm_inv t \<and> total_pages t = mem_top es div PAGE_SIZE \<and>
    free_frames t = {i. i \<noteq> 0 \<and> i < mem_top es div PAGE_SIZE \<and>
      \<not> (ks div PAGE_SIZE \<le> i \<and> i < (ke + PAGE_SIZE - 1) div PAGE_SIZE) \<and>
      \<not> (\<exists>e \<in> set es. entry_type e \<noteq> 1 \<and> covers e (i * PAGE_SIZE))}"
proof -
  let ?fmt = "''[pmm] boot: %s\<newline>''" and ?arg = "if mb_flags mbd AND MBOOT_FLAG_EFI \<noteq> 0 then ''efi'' else ''bios''"
  have "vprintf ?fmt [PStr ?arg] = (''[pmm] boot: '' @ ?arg @ [CHR 0x0A], Finished)" by (simp add: emit_def)
  from printf_ok [OF assms(6) this] obtain v where p: "printf ?fmt [PStr ?arg] s = Inr v" by blast
  note P = printf_pmm [OF p]
  have "mem_top es \<noteq> 0" using assms(4) by (auto simp: PAGE_SIZE_def)
  then have d: "detect_memory mbd v = Some (mem_top es)"
    using total_mem_loop_fold [OF assms(3), of 0] assms(2) by (simp add: detect_memory_def mem_top_def P)
  let ?k = "reserve_kernel ks ke (mem_top es) v"
  have k: "count_ok ?k" "total_pages ?k = mem_top es div PAGE_SIZE" "mem_top es div PAGE_SIZE \<le> PMM_MAX_PAGES"
    "phys_mem ?k = phys_mem s"
    "\<And>i. pmm_test i ?k \<longleftrightarrow> i = 0 \<or> ks div PAGE_SIZE \<le> i \<and> i < (ke + PAGE_SIZE - 1) div PAGE_SIZE"
    using reserve_kernel_effect [of v "mem_top es" ke ks] assms by (simp_all add: Let_def P)
  have "mmap_at (phys_mem ?k) (mmap_entry_size mbd) (mmap_addr mbd + mmap_length mbd) (mmap_addr mbd) es"
    using assms(3) k(4) by simp
  from reserve_loop_effect [OF this k(1), of "mem_top es"] obtain t where
    t: "reserve_loop (mmap_entry_size mbd) (mmap_addr mbd + mmap_length mbd) (mem_top es) (mmap_addr mbd) ?k = Some t"
      "count_ok t" "total_pages t = total_pages ?k"
      "\<forall>i. pmm_test i t \<longleftrightarrow> pmm_test i ?k \<or>
        (\<exists>e \<in> set es. map_reserves (mem_top es) e i) \<and> i < total_pages ?k" by blast
  have "pmm_init ks ke mbd s = Inr t"
    using p d t(1) assms(2) by (simp add: pmm_init_def Let_def)
  moreover have c: "map_reserves (mem_top es) e i \<longleftrightarrow> entry_type e \<noteq> 1 \<and> covers e (i * PAGE_SIZE)"
    if "e \<in> set es" "i < mem_top es div PAGE_SIZE" for e i
  proof (rule map_reserves_covers [OF _ ends(2) that(2)])
    have "unat (entry_end e) = unat (addr_low e) + unat (len_low e)"
      using ends(1) that(1) by (simp add: entry_end_def unat_word_ariths)
    then show "unat (addr_low e) + unat (len_low e) \<le> unat (mem_top es)"
      using mem_top_end [OF that(1)] by (simp add: word_le_nat_alt)
  qed
  have "free_frames t = {i. i \<noteq> 0 \<and> i < mem_top es div PAGE_SIZE \<and>
      \<not> (ks div PAGE_SIZE \<le> i \<and> i < (ke + PAGE_SIZE - 1) div PAGE_SIZE) \<and>
      \<not> (\<exists>e \<in> set es. entry_type e \<noteq> 1 \<and> covers e (i * PAGE_SIZE))}"
    unfolding free_frames_def t(3) k(2)
  proof (intro Collect_cong)
    fix i
    have "(\<exists>e \<in> set es. map_reserves (mem_top es) e i) \<longleftrightarrow> (\<exists>e \<in> set es. entry_type e \<noteq> 1 \<and> covers e (i * PAGE_SIZE))"
      if "i < mem_top es div PAGE_SIZE" by (rule bex_cong [OF refl]) (rule c [OF _ that])
    then show "i < mem_top es div PAGE_SIZE \<and> \<not> pmm_test i t \<longleftrightarrow> i \<noteq> 0 \<and> i < mem_top es div PAGE_SIZE \<and>
      \<not> (ks div PAGE_SIZE \<le> i \<and> i < (ke + PAGE_SIZE - 1) div PAGE_SIZE) \<and>
      \<not> (\<exists>e \<in> set es. entry_type e \<noteq> 1 \<and> covers e (i * PAGE_SIZE))"
      unfolding t(4) [rule_format] k(2,5) by argo
  qed
  ultimately show ?thesis using t k by (auto simp: pmm_inv_def)
qed

section \<open>Clients of the allocator\<close>

text \<open>Everything a client can do with a sound allocator, and the frames it holds.\<close>

inductive pmm_client :: "u32 set \<Rightarrow> 'a pmm_scheme \<Rightarrow> bool" where
  start: "pmm_inv s \<Longrightarrow> pmm_client {} s"
| alloc: "pmm_client h s \<Longrightarrow> pmm_alloc_page s = (a, t) \<Longrightarrow> pmm_client (if a = 0 then h else insert a h) t"
| release: "pmm_client h s \<Longrightarrow> a \<in> h \<Longrightarrow> pmm_client (h - {a}) (pmm_free_page a s)"

lemma pmm_client_separate: "pmm_client h s \<Longrightarrow> fra.separate h s"
proof (induction rule: pmm_client.induct)
  case (start s)
  then show ?case by (simp add: fra.separate_def)
next
  case (alloc h s a t)
  then show ?case using fra.separate_alloc [of h s a t] by simp
next
  case (release h s a)
  then show ?case using fra.separate_free [of h s a] by simp
qed

lemma card_pool: "pmm_inv s \<Longrightarrow> card (pmm_pool s) = unat (free_count s)"
proof -
  assume inv: "pmm_inv s"
  have "bij_betw (\<lambda>i. i * PAGE_SIZE) (free_frames s) (pmm_pool s)"
    by (rule bij_betw_byWitness [where f' = "\<lambda>a. a div PAGE_SIZE"])
      (auto simp: pmm_pool_def frame_addr [OF free_frames_max [OF inv]] aligned_index)
  then show ?thesis using inv by (simp add: bij_betw_same_card [symmetric] pmm_inv_def count_ok_def)
qed

text \<open>C5: whatever a client has allocated and given back so far, the next allocation is 0
  exactly when no frame is free, and otherwise a page-aligned frame that is not the null frame
  and that the client does not hold already; \<open>free_count\<close> is the number of free frames.\<close>

theorem frames_exclusive:
  assumes "pmm_client h s" "pmm_alloc_page s = (a, t)"
  shows "a \<notin> h \<and> aligned_page a \<and> (a = 0 \<longleftrightarrow> pmm_pool s = {}) \<and> unat (free_count s) = card (pmm_pool s)"
proof -
  have sep: "fra.separate h s" by (rule pmm_client_separate [OF assms(1)])
  then have inv: "pmm_inv s" by (simp add: fra.separate_def)
  have z: "a = 0 \<longleftrightarrow> pmm_pool s = {}" using fra.alloc_zero_iff [OF inv] assms(2) by simp
  moreover have "aligned_page a"
    using fra.alloc_takes [OF inv _ assms(2)] fra.pool_frames [OF inv, of a] z by (cases "a = 0") auto
  ultimately show ?thesis
    using fra.separate_alloc [OF sep assms(2)] card_pool [OF inv] by auto
qed

definition demo_pmm :: pmm where
  "demo_pmm = ps2.extend demo_ps2 (pmm.fields (\<lambda>_. 0) (\<lambda>_. 1) 2 3)"

lemma demo_pmm_fields:
  "total_pages demo_pmm = 3" "free_count demo_pmm = 2" "pmm_bitmap demo_pmm = (\<lambda>_. 1)"
  by (simp_all add: demo_pmm_def demo_ps2_def ps2.defs pmm.defs)

lemma u32_below_3: "i < 3 \<longleftrightarrow> i = 0 \<or> i = 1 \<or> i = 2" for i :: u32
  by unat_arith

lemma demo_pmm_free: "free_frames demo_pmm = {1, 2}"
  by (auto simp: free_frames_def pmm_test_bit demo_pmm_fields u32_below_3 bit_1_iff)

lemma demo_pmm_inv: "pmm_inv demo_pmm"
  by (simp add: pmm_inv_def demo_pmm_free count_ok_def demo_pmm_fields PMM_MAX_PAGES_def)

theorem frames_exclusive_witness:
  "fst (pmm_alloc_page (snd (pmm_alloc_page demo_pmm))) \<noteq> fst (pmm_alloc_page demo_pmm)"
proof -
  obtain a t where a: "pmm_alloc_page demo_pmm = (a, t)" by fastforce
  obtain b u where b: "pmm_alloc_page t = (b, u)" by fastforce
  have c: "pmm_client {} demo_pmm" by (rule pmm_client.start [OF demo_pmm_inv])
  have "0x1000 \<in> pmm_pool demo_pmm" by (simp add: pmm_pool_def demo_pmm_free PAGE_SIZE_def)
  then have "a \<noteq> 0" using frames_exclusive [OF c a] by auto
  then have "pmm_client {a} t" using pmm_client.alloc [OF c a] by simp
  from frames_exclusive [OF this b] show ?thesis by (auto simp: a b)
qed

theorem alloc_pages_run_witness:
  "\<exists>a t. pmm_alloc_pages 2 demo_pmm = Some (a, t) \<and> (a = 0 \<or> pmm_inv t)"
proof -
  have h: "(0::u32) < 2" "2 \<le> free_count demo_pmm" by (simp_all add: demo_pmm_fields)
  from alloc_pages_run [OF demo_pmm_inv h] show ?thesis
    by (auto simp: Let_def split: if_splits)
qed

section \<open>What the pool holds after boot\<close>

text \<open>C6: with a memory map that lies in memory as a list of entries, none of which ends beyond 0xFFFFF000, a kernel
  image below the end of memory and a serial line that works, \<open>pmm_init\<close> returns with a sound
  allocator: the pool is every frame below the highest end of an entry but frame 0, the frames that the
  kernel image touches and the frames whose first byte lies in an unavailable entry. A frame of which
  an unavailable entry covers only a later part stays in the pool.\<close>

theorem pmm_init_pool:
  assumes "pmm_bitmap s = (\<lambda>_. 0)" "has_mmap mbd"
    and "mmap_at (phys_mem s) (mmap_entry_size mbd) (mmap_addr mbd + mmap_length mbd) (mmap_addr mbd) es"
    and "PAGE_SIZE \<le> mem_top es"
    and "(ke + PAGE_SIZE - 1) div PAGE_SIZE \<le> mem_top es div PAGE_SIZE" "serial_ok s"
    and "\<forall>e\<in>set es. unat (addr_low e) + unat (len_low e) < 2 ^ 32" "unat (mem_top es) + 4095 < 2 ^ 32"
  shows "\<exists>t. pmm_init ks ke mbd s = Inr t \<and> pmm_inv t \<and> total_pages t = mem_top es div PAGE_SIZE \<and>
    free_frames t = {i. i \<noteq> 0 \<and> i < mem_top es div PAGE_SIZE \<and>
      \<not> (ks div PAGE_SIZE \<le> i \<and> i < (ke + PAGE_SIZE - 1) div PAGE_SIZE) \<and>
      \<not> (\<exists>e \<in> set es. entry_type e \<noteq> 1 \<and> covers e (i * PAGE_SIZE))}"
  using assms by (rule pmm_init_effect)

text \<open>The memory map of a PC with 128 MiB, as a boot loader passes it: conventional memory up to
  0x9FC00, the extended BIOS data area, the BIOS ROM and memory above 1 MiB.\<close>

definition pc_map :: "(u32 \<times> u32) list" where
  "pc_map = [(0x1000, 0), (0x1008, 0x9FC00), (0x1010, 1),
             (0x1018, 0x9FC00), (0x1020, 0x400), (0x1028, 2),
             (0x1030, 0xF0000), (0x1038, 0x10000), (0x1040, 2),
             (0x1048, 0x100000), (0x1050, 0x7F00000), (0x1058, 1)]"

definition pc_entries :: "mmap_entry list" where
  "pc_entries = [\<lparr>addr_low = 0, len_low = 0x9FC00, entry_type = 1\<rparr>,
                 \<lparr>addr_low = 0x9FC00, len_low = 0x400, entry_type = 2\<rparr>,
                 \<lparr>addr_low = 0xF0000, len_low = 0x10000, entry_type = 2\<rparr>,
                 \<lparr>addr_low = 0x100000, len_low = 0x7F00000, entry_type = 1\<rparr>]"

definition pc_state :: pmm where
  "pc_state = ps2.extend (demo_ps2\<lparr>io_dev := (\<lambda>l p. if p = 0x3FD then 0x20 else 0)\<rparr>)
     (pmm.fields (fold (\<lambda>(a, v) m. store32 m a v) pc_map (\<lambda>_. 0)) (\<lambda>_. 0) 0 0)"

definition pc_mbd :: multiboot_info where
  "pc_mbd = \<lparr>mb_flags = 0x40, mem_lower = 0, mem_upper = 0, cmdline = 0, mmap_length = 0x60, mmap_addr = 0x1000,
     framebuffer_addr = 0, framebuffer_pitch = 0, framebuffer_width = 0, framebuffer_height = 0,
     framebuffer_bpp = 0, framebuffer_type = 0, mmap_entry_size = 24\<rparr>"

lemma pc_boot:
  "pmm_bitmap pc_state = (\<lambda>_. 0)" "has_mmap pc_mbd"
  "mmap_at (phys_mem pc_state) (mmap_entry_size pc_mbd) (mmap_addr pc_mbd + mmap_length pc_mbd)
     (mmap_addr pc_mbd) pc_entries"
  "PAGE_SIZE \<le> mem_top pc_entries"
  "(0x140000 + PAGE_SIZE - 1) div PAGE_SIZE \<le> mem_top pc_entries div PAGE_SIZE" "serial_ok pc_state"
  "\<forall>e\<in>set pc_entries. unat (addr_low e) + unat (len_low e) < 2 ^ 32" "unat (mem_top pc_entries) + 4095 < 2 ^ 32"
proof -
  show "serial_ok pc_state" by (rule serial_ready) (simp add: pc_state_def demo_ps2_def ps2.defs pmm.defs)
  show "pmm_bitmap pc_state = (\<lambda>_. 0)" by (simp add: pc_state_def demo_ps2_def ps2.defs pmm.defs)
  show "has_mmap pc_mbd" by (simp add: has_mmap_def pc_mbd_def)
  have "phys_mem pc_state = fold (\<lambda>(a, v) m. store32 m a v) pc_map (\<lambda>_. 0)"
    by (simp add: pc_state_def demo_ps2_def ps2.defs pmm.defs)
  then show "mmap_at (phys_mem pc_state) (mmap_entry_size pc_mbd) (mmap_addr pc_mbd + mmap_length pc_mbd)
     (mmap_addr pc_mbd) pc_entries"
    by (simp add: pc_mbd_def pc_entries_def read_entry_def pc_map_def mem_simps)
  show "PAGE_SIZE \<le> mem_top pc_entries"
    "(0x140000 + PAGE_SIZE - 1) div PAGE_SIZE \<le> mem_top pc_entries div PAGE_SIZE"
    "\<forall>e\<in>set pc_entries. unat (addr_low e) + unat (len_low e) < 2 ^ 32" "unat (mem_top pc_entries) + 4095 < 2 ^ 32"
    by (simp_all add: mem_top_def pc_entries_def entry_end_def PAGE_SIZE_def)
qed

theorem pmm_init_pool_witness:
  "\<exists>t. pmm_init 0x100000 0x140000 pc_mbd pc_state = Inr t \<and> pmm_inv t \<and> total_pages t = 0x8000 \<and>
    0x200 \<in> free_frames t \<and> 0x120 \<notin> free_frames t \<and> 0xF5 \<notin> free_frames t \<and> 0x9F \<in> free_frames t"
proof -
  from pmm_init_pool [OF pc_boot, of "0x100000"] obtain t where
    t: "pmm_init 0x100000 0x140000 pc_mbd pc_state = Inr t" "pmm_inv t"
      "total_pages t = mem_top pc_entries div PAGE_SIZE"
      "free_frames t = {i. i \<noteq> 0 \<and> i < mem_top pc_entries div PAGE_SIZE \<and>
        \<not> (0x100000 div PAGE_SIZE \<le> i \<and> i < (0x140000 + PAGE_SIZE - 1) div PAGE_SIZE) \<and>
        \<not> (\<exists>e \<in> set pc_entries. entry_type e \<noteq> 1 \<and> covers e (i * PAGE_SIZE))}" by blast
  have m: "mem_top pc_entries = 0x8000000" by (simp add: mem_top_def pc_entries_def entry_end_def)
  show ?thesis
    using t unfolding m by (simp add: PAGE_SIZE_def covers_def pc_entries_def)
qed

text \<open>With that map the pool holds frames that are not memory of the kernel's: the last page
  of conventional memory, whose upper part is the reserved BIOS data area (the start of an
  unavailable entry is rounded up, not down), and the frames of the display window from 0xA0000,
  which no entry mentions.\<close>

theorem pmm_pool_not_ram:
  "\<exists>t. pmm_init 0x100000 0x140000 pc_mbd pc_state = Inr t \<and>
    0x9F000 \<in> pmm_pool t \<and> 0xA0000 \<in> pmm_pool t \<and> 0xB8000 \<in> pmm_pool t"
proof -
  from pmm_init_effect [OF pc_boot, of "0x100000"] obtain t where
    t: "pmm_init 0x100000 0x140000 pc_mbd pc_state = Inr t"
      "free_frames t = {i. i \<noteq> 0 \<and> i < mem_top pc_entries div PAGE_SIZE \<and>
        \<not> (0x100000 div PAGE_SIZE \<le> i \<and> i < (0x140000 + PAGE_SIZE - 1) div PAGE_SIZE) \<and>
        \<not> (\<exists>e \<in> set pc_entries. entry_type e \<noteq> 1 \<and> covers e (i * PAGE_SIZE))}" by blast
  have m: "mem_top pc_entries = 0x8000000" by (simp add: mem_top_def pc_entries_def entry_end_def)
  show ?thesis
    using t unfolding m by (simp add: pmm_pool_def PAGE_SIZE_def covers_def pc_entries_def)
qed

section \<open>No access leaves the bitmap\<close>

lemma frame_word:
  assumes "i < PMM_MAX_PAGES"
  shows "i div 32 < PMM_BITMAP_SIZE"
  using assms by (simp add: PMM_MAX_PAGES_def PMM_BITMAP_SIZE_def word_less_nat_alt unat_div)

lemma release_outside:
  assumes "total_pages s \<le> PMM_MAX_PAGES" "PMM_BITMAP_SIZE \<le> w"
  shows "pmm_bitmap (pmm_release i s) w = pmm_bitmap s w"
proof (cases "i < total_pages s")
  case True
  then have "i div 32 \<noteq> w" using frame_word [of i] less_le_trans [OF _ assms(1)] assms(2) by auto
  then show ?thesis by (simp add: pmm_release_def pmm_clear_def)
qed (simp add: pmm_release_def)

lemma set_outside:
  assumes "i < PMM_MAX_PAGES" "PMM_BITMAP_SIZE \<le> w"
  shows "pmm_bitmap (pmm_set i s) w = pmm_bitmap s w"
  using frame_word [OF assms(1)] assms(2) by (auto simp: pmm_set_def)

lemma alloc_pages_outside:
  assumes t: "total_pages s \<le> PMM_MAX_PAGES" "free_count s \<le> total_pages s" and w: "PMM_BITMAP_SIZE \<le> w"
    and a: "pmm_alloc_pages count s = Some (a, u)"
  shows "pmm_bitmap u w = pmm_bitmap s w"
proof (cases "count = 0 \<or> free_count s < count")
  case True
  then show ?thesis using a by (simp add: pmm_alloc_pages_def)
next
  case False
  let ?lim = "total_pages s - count"
  have c: "count \<le> total_pages s" using False t(2) by (meson leI order_trans)
  then have lim: "unat ?lim = unat (total_pages s) - unat count" by (simp add: unat_sub)
  have "?lim \<le> PMM_MAX_PAGES" using lim t(1) by (simp add: word_le_nat_alt)
  then have "?lim < - 1" by (rule le_less_trans) (simp add: PMM_MAX_PAGES_def)
  from run_scan_ends [OF this, of 0 count s] obtain r where
    r: "run_scan 0 ?lim count s = Some r" "\<forall>i. r = Some i \<longrightarrow> i \<le> ?lim" by (auto split: option.splits)
  show ?thesis
  proof (cases r)
    case None
    then show ?thesis using a r(1) False by (simp add: pmm_alloc_pages_def)
  next
    case (Some i)
    let ?P = "\<lambda>(_ :: u32) v. pmm_bitmap v w = pmm_bitmap s w"
    let ?u = "for_u32 0 count (\<lambda>j s. (pmm_set (i + j) s)\<lparr>free_count := free_count s - 1\<rparr>) s"
    have "?P count ?u"
    proof (rule for_u32_invariant [of ?P])
      fix k and v :: "'a pmm_scheme"
      assume k: "k < count" and P: "?P k v"
      have "unat i + unat k < unat (total_pages s)"
        using r(2) Some k lim c by (simp add: word_le_nat_alt word_less_nat_alt)
      moreover from this have "unat (i + k) = unat i + unat k"
        using unsigned_less [of "total_pages s", where ?'a = nat] by (simp add: unat_word_ariths)
      ultimately have "i + k < PMM_MAX_PAGES" using t(1) by (simp add: word_le_nat_alt word_less_nat_alt)
      then show "?P (k + 1) ((pmm_set (i + k) v)\<lparr>free_count := free_count v - 1\<rparr>)"
        using P set_outside [OF _ w, of "i + k" v] by simp
    qed simp_all
    then show ?thesis using a r(1) False Some by (auto simp: pmm_alloc_pages_def)
  qed
qed

text \<open>C25: with at most 2 to the power 20 frames, of which no more are counted as free than there are, no word outside
  the 32768 words of the bitmap is changed by the allocation of a frame or of any number of frames in a
  row, or by giving back any address or range of addresses whatever.\<close>

theorem bitmap_in_bounds:
  assumes "total_pages s \<le> PMM_MAX_PAGES" "free_count s \<le> total_pages s" "PMM_BITMAP_SIZE \<le> w"
  shows "pmm_bitmap (snd (pmm_alloc_page s)) w = pmm_bitmap s w \<and>
    (\<forall>a t. pmm_alloc_pages count s = Some (a, t) \<longrightarrow> pmm_bitmap t w = pmm_bitmap s w) \<and>
    pmm_bitmap (pmm_free_page addr s) w = pmm_bitmap s w \<and>
    pmm_bitmap (pmm_free_pages addr count s) w = pmm_bitmap s w"
proof (intro conjI allI impI)
  show "pmm_bitmap t w = pmm_bitmap s w" if "pmm_alloc_pages count s = Some (a, t)" for a t
    by (rule alloc_pages_outside [OF assms that])
  show "pmm_bitmap (snd (pmm_alloc_page s)) w = pmm_bitmap s w"
  proof (cases "pmm_scan 0 (total_pages s) s")
    case (Some i)
    then have "i < PMM_MAX_PAGES" using pmm_scan_some [OF Some] assms(1) by auto
    then show ?thesis using Some set_outside [OF _ assms(3), of i s] by (simp add: pmm_alloc_page_def)
  qed (simp add: pmm_alloc_page_def)
  show "pmm_bitmap (pmm_free_page addr s) w = pmm_bitmap s w"
    by (simp add: pmm_free_page_def release_outside [OF assms(1,3)])
  let ?P = "\<lambda>_ t. total_pages t = total_pages s \<and> pmm_bitmap t w = pmm_bitmap s w"
  have "?P count (for_u32 0 count (\<lambda>i. pmm_release (addr div PAGE_SIZE + i)) s)"
  proof (rule for_u32_invariant [of ?P])
    fix k t
    assume P: "?P k t"
    then have "total_pages (pmm_release (addr div PAGE_SIZE + k) t) = total_pages t"
      by (simp add: pmm_release_def)
    then show "?P (k + 1) (pmm_release (addr div PAGE_SIZE + k) t)"
      using P release_outside [of t w] assms by simp
  qed simp_all
  then show "pmm_bitmap (pmm_free_pages addr count s) w = pmm_bitmap s w"
    by (simp add: pmm_free_pages_def)
qed

theorem bitmap_in_bounds_witness:
  "\<exists>a t. pmm_alloc_pages 2 demo_pmm = Some (a, t) \<and> pmm_bitmap t 32768 = 1 \<and>
    pmm_bitmap (pmm_free_pages 0xFFFFF000 2 demo_pmm) 32768 = 1"
proof -
  have h: "total_pages demo_pmm \<le> PMM_MAX_PAGES" "free_count demo_pmm \<le> total_pages demo_pmm" "PMM_BITMAP_SIZE \<le> 32768"
    by (simp_all add: demo_pmm_fields PMM_MAX_PAGES_def PMM_BITMAP_SIZE_def)
  have "total_pages demo_pmm - 2 < - 1" unfolding demo_pmm_fields by (rule le_less_trans [of _ 1048576]) simp_all
  then obtain r where "run_scan 0 (total_pages demo_pmm - 2) 2 demo_pmm = Some r" using run_scan_ends by blast
  then have "\<exists>p. pmm_alloc_pages 2 demo_pmm = Some p" by (simp add: pmm_alloc_pages_def)
  then obtain a t where "pmm_alloc_pages 2 demo_pmm = Some (a, t)" by auto
  with bitmap_in_bounds [OF h, of 2 "0xFFFFF000"] show ?thesis by (auto simp: demo_pmm_fields)
qed

end
