(* ===== verification/Idt.thy ===== *)
theory Idt
  imports Pmm
begin

text \<open>
  Descriptor tables and handler tables: src/src/kernel/gdt.c, the tables of
  src/src/kernel/idt.c with idt.h, and \<open>ps2_init\<close> of src/src/drivers/ps2.c, which installs the
  keyboard handler. Function pointers are the constructors of \<open>handler\<close>; the addresses the
  linker gives to the TSS and to the interrupt stubs are parameters. The dispatcher
  \<open>isr_handler\<close> is with the system calls. What the lemmas show is that the scattered fields of
  a descriptor read back as the base and limit that were put in.
\<close>

section \<open>State\<close>

datatype handler = Timer_handler | Keyboard_handler | Sched_tick | Page_fault_handler
  | Default_exception_handler

record idt_entry =
  i_base_lo :: u16
  i_sel :: u16
  i_always0 :: u8
  i_flags :: u8
  i_base_hi :: u16

record gdt_entry =
  limit_lo :: u16
  base_lo :: u16
  base_mid :: u8
  access :: u8
  flags_limit_hi :: u8
  base_hi :: u8

record idt = pmm +
  idt_table :: "int \<Rightarrow> idt_entry"
  irq_handlers :: "int \<Rightarrow> handler option"
  exception_handlers :: "int \<Rightarrow> handler option"
  gdt_table :: "int \<Rightarrow> gdt_entry"
  tss_ss0 :: u32
  tss_esp0 :: u32

text \<open>struct regs: what the interrupt stubs push.\<close>

record regs =
  r_gs :: u32
  r_fs :: u32
  r_es :: u32
  r_ds :: u32
  r_edi :: u32
  r_esi :: u32
  r_ebp :: u32
  r_esp :: u32
  r_ebx :: u32
  r_edx :: u32
  r_ecx :: u32
  r_eax :: u32
  r_int_no :: u32
  r_err_code :: u32
  r_eip :: u32
  r_cs :: u32
  r_eflags :: u32
  r_user_esp :: u32
  r_user_ss :: u32

definition GDT_CODE_SEG :: u16 where "GDT_CODE_SEG = 0x08"
definition GDT_DATA_SEG :: u16 where "GDT_DATA_SEG = 0x10"
definition GDT_USER_CODE_SEG :: u16 where "GDT_USER_CODE_SEG = 0x18"
definition GDT_USER_DATA_SEG :: u16 where "GDT_USER_DATA_SEG = 0x20"
definition GDT_TSS_SEG :: u16 where "GDT_TSS_SEG = 0x28"

section \<open>gdt.c\<close>

definition gdt_set :: "int \<Rightarrow> u32 \<Rightarrow> u32 \<Rightarrow> u8 \<Rightarrow> u8 \<Rightarrow> 'a idt_scheme \<Rightarrow> 'a idt_scheme" where
  "gdt_set num base limit acc flags s = s\<lparr>gdt_table := (gdt_table s)(num :=
     \<lparr>limit_lo = ucast (limit AND 0xFFFF),
      base_lo = ucast (base AND 0xFFFF),
      base_mid = ucast (drop_bit 16 base AND 0xFF),
      access = acc,
      flags_limit_hi = ucast (drop_bit 16 limit AND 0x0F) OR (flags AND 0xF0),
      base_hi = ucast (drop_bit 24 base AND 0xFF)\<rparr>)\<rparr>"

definition sizeof_tss :: u32 where "sizeof_tss = 104"

definition tss_init :: "u32 \<Rightarrow> 'a idt_scheme \<Rightarrow> 'a idt_scheme" where
  "tss_init tss_addr s =
    (let base = tss_addr;
         limit = sizeof_tss - 1;
         s = s\<lparr>tss_esp0 := 0, tss_ss0 := 0\<rparr>;
         s = s\<lparr>tss_ss0 := ucast GDT_DATA_SEG\<rparr>
     in gdt_set 5 base limit 0x89 0x00 s)"

definition tss_set_esp0 :: "u32 \<Rightarrow> 'a idt_scheme \<Rightarrow> 'a idt_scheme" where
  "tss_set_esp0 e s = s\<lparr>tss_esp0 := e\<rparr>"

definition gdt_init :: "u32 \<Rightarrow> 'a idt_scheme \<Rightarrow> 'a idt_scheme" where
  "gdt_init tss_addr s =
    (let s = gdt_set 0 0 0 0 0 s;
         s = gdt_set 1 0 0xFFFFF 0x9A 0xCF s;
         s = gdt_set 2 0 0xFFFFF 0x92 0xCF s;
         s = gdt_set 3 0 0xFFFFF 0xFA 0xCF s;
         s = gdt_set 4 0 0xFFFFF 0xF2 0xCF s
     in tss_init tss_addr s)"

section \<open>idt.c\<close>

definition idt_set :: "int \<Rightarrow> u32 \<Rightarrow> u16 \<Rightarrow> u8 \<Rightarrow> 'a idt_scheme \<Rightarrow> 'a idt_scheme" where
  "idt_set num b sel flags s = s\<lparr>idt_table := (idt_table s)(num :=
     \<lparr>i_base_lo = ucast (b AND 0xFFFF), i_sel = sel, i_always0 = 0, i_flags = flags,
      i_base_hi = ucast (drop_bit 16 b AND 0xFFFF)\<rparr>)\<rparr>"

definition pic_remap :: "'a kio_scheme \<Rightarrow> 'a kio_scheme" where
  "pic_remap s =
    (let s = outb 0x20 0x11 s; s = outb 0xA0 0x11 s;
         s = outb 0x21 0x20 s; s = outb 0xA1 0x28 s;
         s = outb 0x21 0x04 s; s = outb 0xA1 0x02 s;
         s = outb 0x21 0x01 s; s = outb 0xA1 0x01 s;
         s = outb 0x21 0xFE s
     in outb 0xA1 0xFF s)"

definition pit_init :: "'a kio_scheme \<Rightarrow> 'a kio_scheme" where
  "pit_init s =
    (let divisor = 4773 :: u16;
         s = outb 0x43 0x36 s;
         s = outb 0x40 (ucast (divisor AND 0xFF)) s
     in outb 0x40 (ucast (drop_bit 8 divisor)) s)"

definition irq_install_handler :: "int \<Rightarrow> handler \<Rightarrow> 'a idt_scheme \<Rightarrow> 'a idt_scheme" where
  "irq_install_handler irq h s = s\<lparr>irq_handlers := (irq_handlers s)(irq := Some h)\<rparr>"

definition exception_install_handler :: "int \<Rightarrow> handler \<Rightarrow> 'a idt_scheme \<Rightarrow> 'a idt_scheme" where
  "exception_install_handler num h s =
    (if num \<ge> 0 \<and> num < 32
     then s\<lparr>exception_handlers := (exception_handlers s)(num := Some h)\<rparr> else s)"

definition idt_init :: "u32 \<Rightarrow> (int \<Rightarrow> u32) \<Rightarrow> 'a idt_scheme \<Rightarrow> 'a idt_scheme" where
  "idt_init tss_addr isr_stub_table s =
    (let s = gdt_init tss_addr s;
         s = for_int 0 256 (\<lambda>i. idt_set i (isr_stub_table i) GDT_CODE_SEG 0x8E) s;
         s = for_int 0 32 (\<lambda>i s. s\<lparr>exception_handlers :=
               (exception_handlers s)(i := Some Default_exception_handler)\<rparr>) s;
         s = pic_remap s;
         s = pit_init s;
         s = irq_install_handler 0 Timer_handler s
     in idt_set 0x80 (isr_stub_table 0x80) GDT_CODE_SEG 0xEE s)"

section \<open>ps2_init\<close>

partial_function (option) ps2_wait_input :: "'a kio_scheme \<Rightarrow> 'a kio_scheme option" where
  "ps2_wait_input s =
    (if fst (inb PS2_STATUS s) AND 0x02 \<noteq> 0 then ps2_wait_input (snd (inb PS2_STATUS s))
     else Some (snd (inb PS2_STATUS s)))"

partial_function (option) ps2_drain :: "'a kio_scheme \<Rightarrow> 'a kio_scheme option" where
  "ps2_drain s =
    (if fst (inb PS2_STATUS s) AND 0x01 \<noteq> 0
     then ps2_drain (snd (inb PS2_DATA (snd (inb PS2_STATUS s))))
     else Some (snd (inb PS2_STATUS s)))"

definition ps2_init :: "'a idt_scheme \<Rightarrow> 'a idt_scheme option" where
  "ps2_init s =
    Option.bind (ps2_wait_input (irq_install_handler 1 Keyboard_handler s)) (\<lambda>s.
    Option.bind (ps2_wait_input (outb PS2_CMD 0xAE s)) (\<lambda>s.
    Option.bind (ps2_drain (outb PS2_DATA 0xF4 s)) (\<lambda>s.
    let (m, s) = inb 0x21 s in Some (outb 0x21 (m AND NOT 0x02) s))))"

section \<open>Reading descriptors back\<close>

text \<open>What the processor takes for base and limit of a segment and for the address of a gate.\<close>

definition gdt_base :: "gdt_entry \<Rightarrow> u32" where
  "gdt_base e = ucast (base_lo e) OR push_bit 16 (ucast (base_mid e)) OR push_bit 24 (ucast (base_hi e))"

definition gdt_limit :: "gdt_entry \<Rightarrow> u32" where
  "gdt_limit e = ucast (limit_lo e) OR push_bit 16 (ucast (flags_limit_hi e AND 0x0F))"

text \<open>The bytes of a segment: the limit counts pages when the granularity bit is set.\<close>

definition gdt_bytes :: "gdt_entry \<Rightarrow> nat" where
  "gdt_bytes e = (unat (gdt_limit e) + 1) * (if bit (flags_limit_hi e) 7 then 4096 else 1)"

text \<open>Bits of the access byte: present, privilege level, a code or data segment, executable, readable or
  writable. Bit 6 of the flags makes a segment 32-bit.\<close>

definition gdt_user_segment :: "gdt_entry \<Rightarrow> nat \<Rightarrow> bool \<Rightarrow> bool" where
  "gdt_user_segment e dpl code \<longleftrightarrow> bit (access e) 7 \<and> unat (drop_bit 5 (access e) AND 3) = dpl \<and> bit (access e) 4 \<and>
     (bit (access e) 3 \<longleftrightarrow> code) \<and> \<not> bit (access e) 2 \<and> bit (access e) 1 \<and> bit (flags_limit_hi e) 6"

definition idt_base :: "idt_entry \<Rightarrow> u32" where
  "idt_base e = ucast (i_base_lo e) OR push_bit 16 (ucast (i_base_hi e))"

lemma low_byte: "x AND 0xFF = take_bit 8 x" for x :: u32
  by (simp add: take_bit_eq_mask mask_eq_exp_minus_1)

lemma low_half: "x AND 0xFFFF = take_bit 16 x" for x :: u32
  by (simp add: take_bit_eq_mask mask_eq_exp_minus_1)

lemma low_4_bits: "x AND 0x0F = take_bit 4 x" for x :: u32
  by (simp add: take_bit_eq_mask mask_eq_exp_minus_1)

lemma bit_split3:
  fixes n :: nat
  assumes "n < 32"
  obtains "n < 16" | k where "n = 16 + k" "k < 8" | k where "n = 24 + k" "k < 8"
  using assms le_Suc_ex [of 16 n] le_Suc_ex [of 24 n] by (cases "n < 16"; cases "n < 24") force+

lemma nibble_parts: "(x OR (f AND 0xF0)) AND 0x0F = take_bit 4 x" for x f :: u8
proof -
  have "(x OR (f AND 0xF0)) AND 0x0F = (x AND 0x0F) OR (f AND (0xF0 AND 0x0F))"
    by (simp only: bit.conj_disj_distrib2 and.assoc)
  then show ?thesis by (simp add: take_bit_eq_mask mask_eq_exp_minus_1)
qed

lemma gdt_set_base: "gdt_base (gdt_table (gdt_set n b l a f s) n) = b"
proof (rule bit_word_eqI)
  fix i assume "i < LENGTH(32)"
  then have "i < 32" by simp
  then show "bit (gdt_base (gdt_table (gdt_set n b l a f s) n)) i \<longleftrightarrow> bit b i"
    by (cases i rule: bit_split3)
      (simp_all add: gdt_base_def gdt_set_def low_byte low_half bit_simps)
qed

lemma gdt_set_limit: "gdt_limit (gdt_table (gdt_set n b l a f s) n) = take_bit 20 l"
proof (rule bit_word_eqI)
  fix i assume "i < LENGTH(32)"
  then have "i < 32" by simp
  then show "bit (gdt_limit (gdt_table (gdt_set n b l a f s) n)) i \<longleftrightarrow> bit (take_bit 20 l) i"
    by (cases i rule: bit_split3)
      (auto simp: gdt_limit_def gdt_set_def nibble_parts low_4_bits low_half bit_simps)
qed

lemma idt_set_base: "idt_base (idt_table (idt_set n b sel f s) n) = b"
proof (rule bit_word_eqI)
  fix i assume "i < LENGTH(32)"
  then have "i < 32" by simp
  then show "bit (idt_base (idt_table (idt_set n b sel f s) n)) i \<longleftrightarrow> bit b i"
    by (cases i rule: bit_split3)
      (auto simp: idt_base_def idt_set_def low_half bit_simps)
qed

lemma idt_set_attrs:
  "i_sel (idt_table (idt_set n b sel f s) n) = sel" "i_flags (idt_table (idt_set n b sel f s) n) = f"
  by (simp_all add: idt_set_def)

section \<open>The tables after idt_init\<close>

lemma idt_fill:
  assumes "0 \<le> n"
  shows "for_int 0 n (\<lambda>i. idt_set i (stub i) sel fl) s = s\<lparr>idt_table := (\<lambda>i. if 0 \<le> i \<and> i < n
    then \<lparr>i_base_lo = ucast (stub i AND 0xFFFF), i_sel = sel, i_always0 = 0, i_flags = fl,
      i_base_hi = ucast (drop_bit 16 (stub i) AND 0xFFFF)\<rparr> else idt_table s i)\<rparr>"
  using assms
proof (induction n rule: int_ge_induct)
  case base
  then show ?case by (simp add: not_le [symmetric])
next
  case (step n)
  then show ?case by (auto simp: for_int_extend idt_set_def fun_eq_iff)
qed

lemma exception_fill:
  assumes "0 \<le> n"
  shows "for_int 0 n (\<lambda>i s. s\<lparr>exception_handlers := (exception_handlers s)(i := h)\<rparr>) s =
    s\<lparr>exception_handlers := (\<lambda>i. if 0 \<le> i \<and> i < n then h else exception_handlers s i)\<rparr>"
  using assms
proof (induction n rule: int_ge_induct)
  case base
  then show ?case by (simp add: not_le [symmetric])
next
  case (step n)
  then show ?case by (auto simp: for_int_extend fun_eq_iff)
qed

lemma device_setup_fields [simp]:
  fixes s :: "'a idt_scheme"
  shows "idt_table (pic_remap s) = idt_table s" "exception_handlers (pic_remap s) = exception_handlers s"
    "irq_handlers (pic_remap s) = irq_handlers s" "gdt_table (pic_remap s) = gdt_table s"
    "idt_table (pit_init s) = idt_table s" "exception_handlers (pit_init s) = exception_handlers s"
    "irq_handlers (pit_init s) = irq_handlers s" "gdt_table (pit_init s) = gdt_table s"
    "tss_ss0 (pic_remap s) = tss_ss0 s" "tss_ss0 (pit_init s) = tss_ss0 s"
  by (simp_all add: pic_remap_def pit_init_def outb_def Let_def)

lemma gdt_set_fields [simp]:
  "idt_table (gdt_set n b l a f s) = idt_table s" "tss_ss0 (gdt_set n b l a f s) = tss_ss0 s"
  "m \<noteq> n \<Longrightarrow> gdt_table (gdt_set n b l a f s) m = gdt_table s m"
  by (simp_all add: gdt_set_def)

lemma gdt_init_decodes:
  "i \<in> {1, 2, 3, 4} \<Longrightarrow> gdt_base (gdt_table (gdt_init tss_addr s) i) = 0 \<and>
    gdt_limit (gdt_table (gdt_init tss_addr s) i) = 0xFFFFF"
  "gdt_base (gdt_table (gdt_init tss_addr s) 5) = tss_addr"
  "gdt_limit (gdt_table (gdt_init tss_addr s) 5) = 103"
  by (auto simp: gdt_init_def tss_init_def Let_def gdt_set_base gdt_set_limit sizeof_tss_def)

lemma gdt_init_access:
  "access (gdt_table (gdt_init tss_addr s) 0) = 0" "access (gdt_table (gdt_init tss_addr s) 1) = 0x9A"
  "access (gdt_table (gdt_init tss_addr s) 2) = 0x92" "access (gdt_table (gdt_init tss_addr s) 3) = 0xFA"
  "access (gdt_table (gdt_init tss_addr s) 4) = 0xF2" "access (gdt_table (gdt_init tss_addr s) 5) = 0x89"
  by (simp_all add: gdt_init_def tss_init_def Let_def gdt_set_def)

lemma gdt_init_flags:
  "i \<in> {1, 2, 3, 4} \<Longrightarrow> flags_limit_hi (gdt_table (gdt_init tss_addr s) i) = 0xCF"
  "flags_limit_hi (gdt_table (gdt_init tss_addr s) 5) = 0"
  by (auto simp: gdt_init_def tss_init_def Let_def gdt_set_def sizeof_tss_def)

lemma gdt_init_segments:
  "gdt_user_segment (gdt_table (gdt_init tss_addr s) 1) 0 True" "gdt_user_segment (gdt_table (gdt_init tss_addr s) 2) 0 False"
  "gdt_user_segment (gdt_table (gdt_init tss_addr s) 3) 3 True" "gdt_user_segment (gdt_table (gdt_init tss_addr s) 4) 3 False"
  unfolding gdt_user_segment_def gdt_init_access by (simp_all add: gdt_init_flags)

lemma gdt_init_bytes:
  "i \<in> {1, 2, 3, 4} \<Longrightarrow> gdt_bytes (gdt_table (gdt_init tss_addr s) i) = 2 ^ 32"
  "gdt_bytes (gdt_table (gdt_init tss_addr s) 5) = 104"
  unfolding gdt_bytes_def by (simp_all add: gdt_init_flags gdt_init_decodes)

text \<open>C27: after \<open>idt_init\<close> every vector has an interrupt gate in the kernel code segment whose
  scattered halves read back as the address of its stub, and user code can raise only 0x80
  (descriptor privilege 3); all 32 exceptions have a handler. The first descriptor is not present; the next four are
  flat 32-bit segments of all 4 GiB, code and data of the kernel and then code and data of privilege level
  3; the last is an available task segment of 104 bytes at the address of the TSS, whose stack segment
  for the kernel is the data segment.\<close>

theorem idt_init_tables:
  "let t = idt_init tss_addr stub s in
    (\<forall>i. 0 \<le> i \<longrightarrow> i < 256 \<longrightarrow> idt_base (idt_table t i) = stub i \<and> i_sel (idt_table t i) = 0x08 \<and>
       i_flags (idt_table t i) = (if i = 0x80 then 0xEE else 0x8E)) \<and>
    (\<forall>i. 0 \<le> i \<longrightarrow> i < 32 \<longrightarrow> exception_handlers t i = Some Default_exception_handler) \<and>
    irq_handlers t 0 = Some Timer_handler \<and>
    access (gdt_table t 0) = 0 \<and> (\<forall>i \<in> {1, 2, 3, 4}. gdt_base (gdt_table t i) = 0 \<and> gdt_bytes (gdt_table t i) = 2 ^ 32) \<and>
    gdt_user_segment (gdt_table t 1) 0 True \<and> gdt_user_segment (gdt_table t 2) 0 False \<and>
    gdt_user_segment (gdt_table t 3) 3 True \<and> gdt_user_segment (gdt_table t 4) 3 False \<and>
    gdt_base (gdt_table t 5) = tss_addr \<and> gdt_bytes (gdt_table t 5) = 104 \<and> access (gdt_table t 5) = 0x89 \<and> tss_ss0 t = 0x10"
proof -
  let ?t = "idt_init tss_addr stub s"
  let ?g = "gdt_init tss_addr s"
  have gate: "idt_base (idt_table ?t i) = stub i \<and> i_sel (idt_table ?t i) = 0x08 \<and>
      i_flags (idt_table ?t i) = (if i = 0x80 then 0xEE else 0x8E)" if "0 \<le> i" "i < 256" for i
  proof -
    have "idt_table ?t i = idt_table (idt_set i (stub i) GDT_CODE_SEG (if i = 0x80 then 0xEE else 0x8E) ?g) i"
      using that by (simp add: idt_init_def Let_def idt_fill exception_fill idt_set_def irq_install_handler_def)
    then show ?thesis by (simp add: idt_set_base idt_set_attrs GDT_CODE_SEG_def)
  qed
  have g: "gdt_table ?t = gdt_table ?g" "tss_ss0 ?t = tss_ss0 ?g"
    by (simp_all add: idt_init_def Let_def idt_fill exception_fill idt_set_def irq_install_handler_def)
  have "tss_ss0 ?g = 0x10"
    by (simp add: gdt_init_def tss_init_def Let_def GDT_DATA_SEG_def)
  moreover have "\<forall>i. 0 \<le> i \<longrightarrow> i < 32 \<longrightarrow> exception_handlers ?t i = Some Default_exception_handler"
    "irq_handlers ?t 0 = Some Timer_handler"
    by (simp_all add: idt_init_def Let_def idt_fill exception_fill idt_set_def irq_install_handler_def)
  ultimately show ?thesis
    unfolding Let_def g using gate gdt_init_decodes(1) [of _ tss_addr s] gdt_init_decodes(2) [of tss_addr s]
      gdt_init_segments [of tss_addr s] gdt_init_bytes(1) [of _ tss_addr s] gdt_init_bytes(2) [of tss_addr s]
      gdt_init_access [of tss_addr s] by simp
qed

definition demo_idt :: idt where
  "demo_idt = pmm.extend demo_pmm (idt.fields (\<lambda>_. \<lparr>i_base_lo = 0, i_sel = 0, i_always0 = 0,
     i_flags = 0, i_base_hi = 0\<rparr>) (\<lambda>_. None) (\<lambda>_. None)
     (\<lambda>_. \<lparr>limit_lo = 0, base_lo = 0, base_mid = 0, access = 0, flags_limit_hi = 0, base_hi = 0\<rparr>) 0 0)"

theorem idt_init_tables_witness:
  "idt_base (idt_table (idt_init 0x104000 (\<lambda>i. 0x101000 + of_int i * 16) demo_idt) 14) = 0x1010E0 \<and>
    gdt_bytes (gdt_table (idt_init 0x104000 (\<lambda>i. 0x101000 + of_int i * 16) demo_idt) 3) = 2 ^ 32"
  using idt_init_tables [of "0x104000" "\<lambda>i. 0x101000 + of_int i * 16" demo_idt]
  by (simp add: Let_def)

end
