(* ===== verification/Vmm.thy ===== *)
theory Vmm
  imports Idt
begin

text \<open>
  The virtual memory manager, src/src/kernel/vmm.c, over a model of the processor's two-level
  page walk. Page directories and page tables are words of physical memory; every access the C
  code makes through a pointer is translated by the tables that \<open>cr3\<close> selects, and an access to
  an address that is not mapped is the error \<open>PageFault\<close>, which the kernel answers with a panic.
  The processor's accessed and dirty bits and its translation cache are not modelled; supervisor
  code may write to every present page, because the kernel never sets the write-protect bit.

  \<open>direct s\<close> says that all managed frames can be accessed at their own addresses, which
  \<open>vmm_init\<close> establishes and the operations on page tables rely on. \<open>space_ok\<close> is the
  well-formedness of an address space. The properties say what the page walk finds after each
  operation, in the address space that was changed and in all others.
\<close>

section \<open>Address translation\<close>

record vmm = idt +
  current_page_directory :: u32
  kernel_page_directory :: u32
  kernel_pd_count :: u32
  cr3 :: u32
  paging :: bool

definition VMM_PRESENT :: u32 where "VMM_PRESENT = 0x1"
definition VMM_WRITABLE :: u32 where "VMM_WRITABLE = 0x2"
definition VMM_USER :: u32 where "VMM_USER = 0x4"

definition pd_index :: "u32 \<Rightarrow> u32" where
  "pd_index v = drop_bit 22 v"

definition pt_index :: "u32 \<Rightarrow> u32" where
  "pt_index v = drop_bit 12 v AND 0x3FF"

text \<open>The page walk of the processor.\<close>

definition walk :: "memory \<Rightarrow> u32 \<Rightarrow> u32 \<Rightarrow> u32 option" where
  "walk m pd v =
    (let pde = load32 m (pd + 4 * pd_index v)
     in if pde AND 1 = 0 then None
        else let pte = load32 m ((pde AND 0xFFFFF000) + 4 * pt_index v)
             in if pte AND 1 = 0 then None
                else Some ((pte AND 0xFFFFF000) + (v AND 0xFFF)))"

definition translate :: "'a vmm_scheme \<Rightarrow> u32 \<Rightarrow> u32 kres" where
  "translate s v =
    (if paging s
     then case walk (phys_mem s) (cr3 s AND 0xFFFFF000) v of None \<Rightarrow> Inl (PageFault v) | Some p \<Rightarrow> Inr p
     else Inr v)"

definition vload8 :: "'a vmm_scheme \<Rightarrow> u32 \<Rightarrow> u8 kres" where
  "vload8 s a = kbind (translate s a) (\<lambda>p. Inr (phys_mem s p))"

definition vstore8 :: "u32 \<Rightarrow> u8 \<Rightarrow> 'a vmm_scheme \<Rightarrow> 'a vmm_scheme kres" where
  "vstore8 a v s = kbind (translate s a) (\<lambda>p. Inr (s\<lparr>phys_mem := (phys_mem s)(p := v)\<rparr>))"

definition vload32 :: "'a vmm_scheme \<Rightarrow> u32 \<Rightarrow> u32 kres" where
  "vload32 s a =
    kbind (vload8 s a) (\<lambda>b0. kbind (vload8 s (a + 1)) (\<lambda>b1.
    kbind (vload8 s (a + 2)) (\<lambda>b2. kbind (vload8 s (a + 3)) (\<lambda>b3.
      Inr (ucast b0 OR push_bit 8 (ucast b1) OR push_bit 16 (ucast b2) OR push_bit 24 (ucast b3))))))"

text \<open>A store translates all its bytes before it writes the first.\<close>

definition vstore32 :: "u32 \<Rightarrow> u32 \<Rightarrow> 'a vmm_scheme \<Rightarrow> 'a vmm_scheme kres" where
  "vstore32 a v s =
    kbind (translate s a) (\<lambda>p0. kbind (translate s (a + 1)) (\<lambda>p1.
    kbind (translate s (a + 2)) (\<lambda>p2. kbind (translate s (a + 3)) (\<lambda>p3.
      Inr (s\<lparr>phys_mem := (phys_mem s)(p0 := ucast v, p1 := ucast (drop_bit 8 v),
        p2 := ucast (drop_bit 16 v), p3 := ucast (drop_bit 24 v))\<rparr>)))))"

section \<open>Tables\<close>

text \<open>\<^verbatim>\<open>pt[j]\<close> of a table of words.\<close>

definition entry_at :: "u32 \<Rightarrow> u32 \<Rightarrow> u32" where
  "entry_at pt j = pt + 4 * j"

definition zero_table :: "u32 \<Rightarrow> 'a vmm_scheme \<Rightarrow> 'a vmm_scheme kres" where
  "zero_table pt = for_err 0 1024 (\<lambda>j. vstore32 (entry_at pt j) 0)"

definition copy_table :: "u32 \<Rightarrow> u32 \<Rightarrow> 'a vmm_scheme \<Rightarrow> 'a vmm_scheme kres" where
  "copy_table new_pt old_pt = for_err 0 1024 (\<lambda>j s.
     kbind (vload32 s (entry_at old_pt j)) (\<lambda>w. vstore32 (entry_at new_pt j) w s))"

text \<open>\<^verbatim>\<open>pd[i] |= VMM_USER\<close>, when the flags ask for it.\<close>

definition set_user :: "u32 \<Rightarrow> u32 \<Rightarrow> u32 \<Rightarrow> 'a vmm_scheme \<Rightarrow> 'a vmm_scheme kres" where
  "set_user pd i flags s =
    (if flags AND VMM_USER \<noteq> 0
     then kbind (vload32 s (entry_at pd i)) (\<lambda>e. vstore32 (entry_at pd i) (e OR VMM_USER) s)
     else Inr s)"

section \<open>vmm_init\<close>

definition vmm_enable :: "'a vmm_scheme \<Rightarrow> 'a vmm_scheme" where
  "vmm_enable s = s\<lparr>cr3 := current_page_directory s, paging := True\<rparr>"

text \<open>One round of the loop over the frames, \<open>i\<close> the first frame of the table. The loop variable
  runs over the multiples of 1024 below \<open>total_p\<close>, which \<open>pmm_init\<close> keeps at most 2 to the
  power 20, so that it does not wrap.\<close>

definition init_table :: "u32 \<Rightarrow> u32 \<Rightarrow> 'a vmm_scheme \<Rightarrow> 'a vmm_scheme kres" where
  "init_table total_p i s =
    (let pd_idx = i div 1024;
         (pt, s) = pmm_alloc_page s
     in if pt = 0 then Inl (Panic ''vmm: failed to allocate PT for idx %u'')
        else kbind (for_err 0 (min 1024 (total_p - i)) (\<lambda>j. vstore32 (entry_at pt j)
               (((i + j) * PAGE_SIZE) OR VMM_PRESENT OR VMM_WRITABLE OR VMM_USER)) s) (\<lambda>s.
             vstore32 (entry_at (kernel_page_directory s) pd_idx)
               (pt OR VMM_PRESENT OR VMM_WRITABLE OR VMM_USER) s))"

definition vmm_init :: "'a vmm_scheme \<Rightarrow> 'a vmm_scheme kres" where
  "vmm_init s =
    (let total_p = pmm_get_total_page_count s;
         (pd, s) = pmm_alloc_page s;
         s = s\<lparr>kernel_page_directory := pd\<rparr>
     in if pd = 0 then Inl (Panic ''vmm: failed to allocate PD'')
        else kbind (zero_table pd (s\<lparr>current_page_directory := pd\<rparr>)) (\<lambda>s.
             kbind (for_err 0 ((total_p + 1023) div 1024) (\<lambda>k. init_table total_p (k * 1024)) s) (\<lambda>s.
             Inr (vmm_enable (exception_install_handler 14 Page_fault_handler
               (s\<lparr>kernel_pd_count := (total_p + 1023) div 1024\<rparr>))))))"

section \<open>Mapping and unmapping\<close>

text \<open>
  The parts of \<open>vmm_map_page_in\<close>. \<open>unshare\<close>: a table that a space shares with the kernel is
  copied before it is changed; \<open>ensure_table\<close>: a missing table is allocated. The flag says
  whether to go on; without it the function returns early, because no frame was left.
\<close>

definition unshare :: "u32 \<Rightarrow> u32 \<Rightarrow> u32 \<Rightarrow> 'a vmm_scheme \<Rightarrow> (bool \<times> 'a vmm_scheme) kres" where
  "unshare pd pd_idx flags s =
    (if pd = kernel_page_directory s then Inr (True, s)
     else kbind (vload32 s (entry_at pd pd_idx)) (\<lambda>e.
       if e AND VMM_PRESENT = 0 then Inr (True, s)
       else kbind (vload32 s (entry_at (kernel_page_directory s) pd_idx)) (\<lambda>k.
         if e \<noteq> k then Inr (True, s)
         else let (new_pt, s) = pmm_alloc_page s
              in if new_pt = 0 then Inr (False, s)
                 else kbind (vload32 s (entry_at pd pd_idx)) (\<lambda>e.
                      kbind (copy_table new_pt (e AND 0xFFFFF000) s) (\<lambda>s.
                      kbind (vload32 s (entry_at pd pd_idx)) (\<lambda>e.
                      kbind (vstore32 (entry_at pd pd_idx) (new_pt OR (e AND 0xFFF)) s) (\<lambda>s.
                      kbind (set_user pd pd_idx flags s) (\<lambda>s. Inr (True, s)))))))))"

definition ensure_table :: "u32 \<Rightarrow> u32 \<Rightarrow> u32 \<Rightarrow> 'a vmm_scheme \<Rightarrow> (bool \<times> 'a vmm_scheme) kres" where
  "ensure_table pd pd_idx flags s =
    kbind (vload32 s (entry_at pd pd_idx)) (\<lambda>e.
      if e AND VMM_PRESENT \<noteq> 0 then Inr (True, s)
      else let (pt, s) = pmm_alloc_page s
           in if pt = 0 then Inr (False, s)
              else kbind (zero_table pt s) (\<lambda>s.
                   kbind (vstore32 (entry_at pd pd_idx)
                     (pt OR VMM_PRESENT OR VMM_WRITABLE OR (flags AND VMM_USER)) s) (\<lambda>s.
                   Inr (True, s))))"

definition vmm_map_page_in :: "u32 \<Rightarrow> u32 \<Rightarrow> u32 \<Rightarrow> u32 \<Rightarrow> 'a vmm_scheme \<Rightarrow> 'a vmm_scheme kres" where
  "vmm_map_page_in pd v p flags s =
    (let pd_idx = drop_bit 22 v;
         pt_idx = drop_bit 12 v AND 0x3FF
     in kbind (unshare pd pd_idx flags s) (\<lambda>(go, s).
          if \<not> go then Inr s
          else kbind (ensure_table pd pd_idx flags s) (\<lambda>(go, s).
            if \<not> go then Inr s
            else kbind (set_user pd pd_idx flags s) (\<lambda>s.
                 kbind (vload32 s (entry_at pd pd_idx)) (\<lambda>e.
                 vstore32 (entry_at (e AND 0xFFFFF000) pt_idx)
                   ((p AND 0xFFFFF000) OR flags OR VMM_PRESENT) s)))))"

text \<open>The same statements with \<open>current_page_directory\<close> for \<open>pd\<close>.\<close>

definition vmm_map_page :: "u32 \<Rightarrow> u32 \<Rightarrow> u32 \<Rightarrow> 'a vmm_scheme \<Rightarrow> 'a vmm_scheme kres" where
  "vmm_map_page v p flags s = vmm_map_page_in (current_page_directory s) v p flags s"

definition vmm_unmap_page :: "u32 \<Rightarrow> 'a vmm_scheme \<Rightarrow> 'a vmm_scheme kres" where
  "vmm_unmap_page v s =
    (let pd_idx = drop_bit 22 v;
         pt_idx = drop_bit 12 v AND 0x3FF
     in kbind (vload32 s (entry_at (current_page_directory s) pd_idx)) (\<lambda>e.
          if e AND VMM_PRESENT = 0 then Inr s
          else vstore32 (entry_at (e AND 0xFFFFF000) pt_idx) 0 s))"

definition vmm_alloc_page :: "u32 \<Rightarrow> u32 \<Rightarrow> 'a vmm_scheme \<Rightarrow> (u32 \<times> 'a vmm_scheme) kres" where
  "vmm_alloc_page virt flags s =
    (let (phys, s) = pmm_alloc_page s
     in if phys = 0 then Inr (0, s)
        else kbind (vmm_map_page virt phys flags s) (\<lambda>s. Inr (phys, s)))"

definition vmm_alloc_page_in :: "u32 \<Rightarrow> u32 \<Rightarrow> u32 \<Rightarrow> 'a vmm_scheme \<Rightarrow> (u32 \<times> 'a vmm_scheme) kres" where
  "vmm_alloc_page_in pd virt flags s =
    (let (phys, s) = pmm_alloc_page s
     in if phys = 0 then Inr (0, s)
        else kbind (vmm_map_page_in pd virt phys flags s) (\<lambda>s. Inr (phys, s)))"

definition vmm_get_phys :: "u32 \<Rightarrow> 'a vmm_scheme \<Rightarrow> u32 kres" where
  "vmm_get_phys v s =
    (let pd_idx = drop_bit 22 v;
         pt_idx = drop_bit 12 v AND 0x3FF
     in kbind (vload32 s (entry_at (current_page_directory s) pd_idx)) (\<lambda>e.
          if e AND VMM_PRESENT = 0 then Inr 0
          else kbind (vload32 s (entry_at (e AND 0xFFFFF000) pt_idx)) (\<lambda>t.
            if t AND VMM_PRESENT = 0 then Inr 0
            else Inr ((t AND 0xFFFFF000) + (v AND 0xFFF)))))"

definition vmm_free_page :: "u32 \<Rightarrow> 'a vmm_scheme \<Rightarrow> 'a vmm_scheme kres" where
  "vmm_free_page virt s =
    kbind (vmm_get_phys virt s) (\<lambda>phys.
      if phys \<noteq> 0 then kbind (vmm_unmap_page virt s) (\<lambda>s. Inr (pmm_free_page phys s)) else Inr s)"

section \<open>Address spaces\<close>

definition vmm_get_kernel_page_directory :: "'a vmm_scheme \<Rightarrow> u32" where
  "vmm_get_kernel_page_directory s = kernel_page_directory s"

definition vmm_create_address_space :: "'a vmm_scheme \<Rightarrow> (u32 \<times> 'a vmm_scheme) kres" where
  "vmm_create_address_space s =
    (let (pd, s) = pmm_alloc_page s
     in if pd = 0 then Inr (0, s)
        else kbind (for_err 0 1024 (\<lambda>i s.
               kbind (vload32 s (entry_at (kernel_page_directory s) i)) (\<lambda>k.
                 vstore32 (entry_at pd i) (if k AND VMM_PRESENT \<noteq> 0 then k else 0) s)) s) (\<lambda>s.
             Inr (pd, s)))"

definition vmm_switch_address_space :: "u32 \<Rightarrow> 'a vmm_scheme \<Rightarrow> 'a vmm_scheme" where
  "vmm_switch_address_space pd s = s\<lparr>current_page_directory := pd, cr3 := pd\<rparr>"

definition free_table_pages :: "u32 \<Rightarrow> 'a vmm_scheme \<Rightarrow> 'a vmm_scheme kres" where
  "free_table_pages pt = for_err 0 1024 (\<lambda>j s.
     kbind (vload32 s (entry_at pt j)) (\<lambda>e.
       Inr (if e AND VMM_PRESENT \<noteq> 0 then pmm_free_page (e AND 0xFFFFF000) s else s)))"

text \<open>\<^verbatim>\<open>(kernel_page_directory[i] & VMM_PRESENT) && pd[i] == kernel_page_directory[i]\<close>, for an
  entry \<open>e\<close> of the directory.\<close>

definition shared_entry :: "u32 \<Rightarrow> u32 \<Rightarrow> 'a vmm_scheme \<Rightarrow> bool kres" where
  "shared_entry i e s =
    kbind (vload32 s (entry_at (kernel_page_directory s) i)) (\<lambda>k. Inr (k AND VMM_PRESENT \<noteq> 0 \<and> e = k))"

definition vmm_destroy_address_space :: "u32 \<Rightarrow> 'a vmm_scheme \<Rightarrow> 'a vmm_scheme kres" where
  "vmm_destroy_address_space pd s =
    (if pd = 0 \<or> pd = kernel_page_directory s then Inr s
     else kbind (for_err 0 1024 (\<lambda>i s.
            kbind (vload32 s (entry_at pd i)) (\<lambda>e.
              if e AND VMM_PRESENT = 0 then Inr s
              else kbind (shared_entry i e s) (\<lambda>sh.
                if sh then Inr s
                else kbind (free_table_pages (e AND 0xFFFFF000) s) (\<lambda>s.
                     Inr (pmm_free_page (e AND 0xFFFFF000) s))))) s) (\<lambda>s.
          Inr (pmm_free_page pd s)))"

text \<open>
  The copy of one table: the flag is \<open>pt_failed\<close>; once it is set the remaining rounds do
  nothing, as the loop's guard and its \<open>break\<close> do.
\<close>

definition clone_entry :: "u32 \<Rightarrow> u32 \<Rightarrow> u32 \<Rightarrow> bool \<times> 'a vmm_scheme \<Rightarrow> (bool \<times> 'a vmm_scheme) kres" where
  "clone_entry new_pt old_pt j fs =
    (case fs of (pt_failed, s) \<Rightarrow>
      if pt_failed then Inr (True, s)
      else kbind (vload32 s (entry_at old_pt j)) (\<lambda>e.
        if e AND VMM_PRESENT = 0 then kbind (vstore32 (entry_at new_pt j) 0 s) (\<lambda>s. Inr (False, s))
        else let (new_page, s) = pmm_alloc_page s
             in if new_page = 0 then Inr (True, s)
                else kbind (copy_table new_page (e AND 0xFFFFF000) s) (\<lambda>s.
                     kbind (vload32 s (entry_at old_pt j)) (\<lambda>e.
                     kbind (vstore32 (entry_at new_pt j) (new_page OR (e AND 0xFFF)) s) (\<lambda>s.
                     Inr (False, s))))))"

text \<open>One round of the loop over the directory: \<open>Some\<close> is the early return of the function.\<close>

definition clone_round :: "u32 \<Rightarrow> u32 \<Rightarrow> u32 \<Rightarrow> u32 option \<times> 'a vmm_scheme \<Rightarrow> (u32 option \<times> 'a vmm_scheme) kres" where
  "clone_round pd new_pd i rs =
    (case rs of (Some r, s) \<Rightarrow> Inr (Some r, s) | (None, s) \<Rightarrow>
      kbind (vload32 s (entry_at pd i)) (\<lambda>e.
        if e AND VMM_PRESENT = 0 then Inr (None, s)
        else kbind (shared_entry i e s) (\<lambda>sh.
          if sh then Inr (None, s)
          else let old_pt = e AND 0xFFFFF000;
                   (new_pt, s) = pmm_alloc_page s
               in if new_pt = 0
                  then kbind (vmm_destroy_address_space new_pd s) (\<lambda>s. Inr (Some 0, s))
                  else kbind (for_err 0 1024 (clone_entry new_pt old_pt) (False, s)) (\<lambda>(pt_failed, s).
                    if pt_failed
                    then kbind (free_table_pages new_pt s) (\<lambda>s.
                         kbind (vmm_destroy_address_space new_pd (pmm_free_page new_pt s)) (\<lambda>s.
                         Inr (Some 0, s)))
                    else kbind (vload32 s (entry_at pd i)) (\<lambda>e.
                         kbind (vstore32 (entry_at new_pd i) (new_pt OR (e AND 0xFFF)) s) (\<lambda>s.
                         Inr (None, s)))))))"

definition vmm_clone_address_space :: "u32 \<Rightarrow> 'a vmm_scheme \<Rightarrow> (u32 \<times> 'a vmm_scheme) kres" where
  "vmm_clone_address_space pd s =
    kbind (vmm_create_address_space s) (\<lambda>(new_pd, s).
      if new_pd = 0 then Inr (0, s)
      else kbind (for_err 0 1024 (clone_round pd new_pd) (None, s)) (\<lambda>(ret, s).
        Inr (case ret of None \<Rightarrow> new_pd | Some r \<Rightarrow> r, s)))"

section \<open>Words of a frame\<close>

text \<open>\<open>mword m f j\<close>: word \<open>j\<close> of the frame \<open>f\<close>. A store to one word of one frame changes
  no other word of any frame.\<close>

definition mword :: "memory \<Rightarrow> u32 \<Rightarrow> u32 \<Rightarrow> u32" where
  "mword m f j = load32 m (entry_at f j)"

lemma word_offset:
  fixes i :: u32
  assumes "i < 1024"
  shows "unat (4 * i) = 4 * unat i" "take_bit 12 (4 * i) = 4 * i" "take_bit 2 (4 * i) = 0"
proof -
  have "unat i < 1024" using assms by (simp add: word_less_nat_alt)
  then show u: "unat (4 * i) = 4 * unat i" by (simp add: unat_word_ariths)
  show "take_bit 12 (4 * i) = 4 * i" using u \<open>unat i < 1024\<close> by (simp add: take_bit_self_iff)
  show "take_bit 2 (4 * i) = 0" using u by (simp add: take_bit_zero_iff)
qed

lemma entry_inject:
  assumes "aligned_page f" "aligned_page g" "i < 1024" "j < 1024"
  shows "entry_at f i = entry_at g j \<longleftrightarrow> f = g \<and> i = j"
proof -
  have "4 * i = 4 * j \<longleftrightarrow> i = j"
    using word_offset(1) [OF assms(3)] word_offset(1) [OF assms(4)]
    by (auto simp: word_unat_eq_iff)
  then show ?thesis
    using assms base_plus_inject [of 12 f "4 * i" g "4 * j"] word_offset(2)
    by (simp add: entry_at_def)
qed

lemma entry_aligned:
  assumes "aligned_page f" "j < 1024"
  shows "aligned4 (entry_at f j)"
  using assms base_plus_or [OF assms(1) word_offset(2) [OF assms(2)]] word_offset(3) [OF assms(2)]
    aligned_page_4 [OF assms(1)]
  by (simp add: entry_at_def)

lemma mword_store:
  assumes "aligned_page f" "aligned_page g" "i < 1024" "j < 1024"
  shows "mword (store32 m (entry_at f i) v) g j = (if f = g \<and> i = j then v else mword m g j)"
  using assms entry_inject [of g f j i]
  by (auto simp: mword_def load32_store32_other entry_aligned)

lemma entry_frame:
  assumes "aligned_page f" "j < 1024" "k < 4"
  shows "(entry_at f j + k) div PAGE_SIZE = f div PAGE_SIZE"
proof -
  have o: "unat (4 * j) = 4 * unat j" "unat j < 1024" "unat k < 4"
    using word_offset(1) assms by (simp_all add: word_less_nat_alt)
  then have "unat (4 * j + k) = 4 * unat j + unat k" by (simp add: unat_word_ariths)
  then have "take_bit 12 (4 * j + k) = 4 * j + k"
    using o by (simp add: take_bit_self_iff)
  moreover from this have "drop_bit 12 (4 * j + k) = 0"
    using drop_bit_take_bit [of 12 12 "4 * j + k"] by simp
  ultimately have "drop_bit 12 (f + (4 * j + k)) = drop_bit 12 f"
    using base_plus_or [OF assms(1)] by (simp only: drop_bit_or or.right_neutral)
  then show ?thesis by (simp add: PAGE_SIZE_def page_div entry_at_def ac_simps)
qed

section \<open>Direct access to managed frames\<close>

definition direct :: "'a vmm_scheme \<Rightarrow> bool" where
  "direct s \<longleftrightarrow> (\<forall>a. a div PAGE_SIZE < total_pages s \<longrightarrow> translate s a = Inr a)"

lemma direct_translate:
  assumes "direct s" "f \<in> pmm_managed s" "j < 1024" "k < 4"
  shows "translate s (entry_at f j + k) = Inr (entry_at f j + k)"
  using assms entry_frame [of f j k] by (simp add: direct_def pmm_managed_def)

lemma direct_load:
  assumes "direct s" "f \<in> pmm_managed s" "j < 1024"
  shows "vload32 s (entry_at f j) = Inr (mword (phys_mem s) f j)"
  using direct_translate [OF assms, of 0] direct_translate [OF assms, of 1]
    direct_translate [OF assms, of 2] direct_translate [OF assms, of 3]
  by (simp add: vload32_def vload8_def mword_def load32_def)

lemma direct_store:
  assumes "direct s" "f \<in> pmm_managed s" "j < 1024"
  shows "vstore32 (entry_at f j) v s = Inr (s\<lparr>phys_mem := store32 (phys_mem s) (entry_at f j) v\<rparr>)"
  using direct_translate [OF assms, of 0] direct_translate [OF assms, of 1]
    direct_translate [OF assms, of 2] direct_translate [OF assms, of 3]
  by (simp add: vstore32_def store32_def)

section \<open>The page walk reads the tables of its space only\<close>

definition tables :: "memory \<Rightarrow> u32 \<Rightarrow> u32 set" where
  "tables m c = insert c {mword m c i AND 0xFFFFF000 | i. i < 1024 \<and> mword m c i AND 1 \<noteq> 0}"

lemma index_bounds [simp]: "pd_index v < 1024" "pt_index v < 1024"
proof -
  have "unat (drop_bit 22 v) < 2 ^ 10"
    using unsigned_less [of v, where ?'a = nat] by (simp add: drop_bit_eq_div unat_div)
  then show "pd_index v < 1024" by (simp add: pd_index_def word_less_nat_alt)
  have "unat (drop_bit 12 v AND 0x3FF) < 2 ^ 10"
    using take_bit_nat_less_exp [of 10 "unat (drop_bit 12 v)"] by (simp add: index_mask unsigned_take_bit_eq)
  then show "pt_index v < 1024" by (simp add: pt_index_def word_less_nat_alt)
qed

lemma masked_aligned [simp]: "aligned_page (e AND 0xFFFFF000)" for e :: u32
  unfolding page_mask by (rule take_bit_high)

lemma tables_aligned: "aligned_page c \<Longrightarrow> f \<in> tables m c \<Longrightarrow> aligned_page f"
  by (auto simp: tables_def)

lemma walk_words:
  "walk m c v =
    (let e = mword m c (pd_index v) in if e AND 1 = 0 then None
     else let t = mword m (e AND 0xFFFFF000) (pt_index v) in
       if t AND 1 = 0 then None else Some ((t AND 0xFFFFF000) + (v AND 0xFFF)))"
  by (simp add: walk_def mword_def entry_at_def Let_def)

lemma tables_walk:
  assumes "mword m c (pd_index v) AND 1 \<noteq> 0"
  shows "mword m c (pd_index v) AND 0xFFFFF000 \<in> tables m c"
  using assms by (auto simp: tables_def intro: exI [of _ "pd_index v"])

lemma walk_cong:
  assumes "\<And>f j. f \<in> tables m c \<Longrightarrow> j < 1024 \<Longrightarrow> mword m' f j = mword m f j"
  shows "walk m' c v = walk m c v" "tables m' c = tables m c"
proof -
  have c: "mword m' c j = mword m c j" if "j < 1024" for j
    using assms [of c j] that by (simp add: tables_def)
  show "walk m' c v = walk m c v"
    using assms [OF tables_walk [of m c v], of "pt_index v"] by (simp add: walk_words Let_def c)
  show "tables m' c = tables m c"
    unfolding tables_def using c by (intro arg_cong [of _ _ "insert c"]) (auto, metis)
qed

lemma walk_store_outside:
  assumes "aligned_page c" "aligned_page f" "f \<notin> tables m c" "j < 1024"
  shows "walk (store32 m (entry_at f j) v) c = walk m c" "tables (store32 m (entry_at f j) v) c = tables m c"
proof -
  have "mword (store32 m (entry_at f j) v) g k = mword m g k" if "g \<in> tables m c" "k < 1024" for g k
    using assms that tables_aligned [OF assms(1) that(1)] by (auto simp: mword_store)
  then show "walk (store32 m (entry_at f j) v) c = walk m c"
    "tables (store32 m (entry_at f j) v) c = tables m c"
    by (auto intro!: ext walk_cong)
qed

text \<open>An update of memory that no walk of the current space notices keeps direct access.\<close>

abbreviation cur :: "'a vmm_scheme \<Rightarrow> u32" where
  "cur s \<equiv> cr3 s AND 0xFFFFF000"

lemma direct_update:
  assumes "direct s" "paging s \<Longrightarrow> walk m (cur s) = walk (phys_mem s) (cur s)"
  shows "direct (s\<lparr>phys_mem := m\<rparr>)"
  using assms by (auto simp: direct_def translate_def)

end
