(* ===== verification/Vmm_Frame.thy ===== *)
theory Vmm_Frame
  imports Vmm
begin

text \<open>
  What the operations of vmm.c leave alone. Whatever they do, they change only physical memory and
  the two variables of the frame allocator: \<open>mem_only s t\<close>. \<open>kept s m g\<close> says it of a
  computation that starts in \<open>s\<close>, where \<open>g\<close> selects the state of its result; the rules follow
  the structure of the code.
\<close>

named_theorems kept_intros

definition but_mem :: "'a vmm_scheme \<Rightarrow> 'a vmm_scheme" where
  "but_mem s = s\<lparr>phys_mem := (\<lambda>_. 0), pmm_bitmap := (\<lambda>_. 0), free_count := 0\<rparr>"

definition mem_only :: "'a vmm_scheme \<Rightarrow> 'a vmm_scheme \<Rightarrow> bool" where
  "mem_only s t \<longleftrightarrow> but_mem t = but_mem s"

definition kept :: "'a vmm_scheme \<Rightarrow> 'b kres \<Rightarrow> ('b \<Rightarrow> 'a vmm_scheme) \<Rightarrow> bool" where
  "kept s m g \<longleftrightarrow> (\<forall>x. m = Inr x \<longrightarrow> mem_only s (g x))"

lemma mem_only_refl [simp, kept_intros]: "mem_only s s"
  by (simp add: mem_only_def)

lemma mem_only_trans: "mem_only s t \<Longrightarrow> mem_only t u \<Longrightarrow> mem_only s u"
  by (simp add: mem_only_def)

lemma but_mem_fields [simp]:
  "total_pages (but_mem s) = total_pages s" "cr3 (but_mem s) = cr3 s" "paging (but_mem s) = paging s"
  "current_page_directory (but_mem s) = current_page_directory s"
  "kernel_page_directory (but_mem s) = kernel_page_directory s" "vmm.more (but_mem s) = vmm.more s"
  by (simp_all add: but_mem_def)

lemma mem_only_fields:
  assumes "mem_only s t"
  shows "total_pages t = total_pages s" "cr3 t = cr3 s" "paging t = paging s"
    "current_page_directory t = current_page_directory s" "kernel_page_directory t = kernel_page_directory s"
    "vmm.more t = vmm.more s" "pmm_managed t = pmm_managed s"
proof -
  note e = assms [unfolded mem_only_def]
  from arg_cong [OF e, of total_pages] show tp: "total_pages t = total_pages s" by simp
  from arg_cong [OF e, of cr3] show "cr3 t = cr3 s" by simp
  from arg_cong [OF e, of paging] show "paging t = paging s" by simp
  from arg_cong [OF e, of current_page_directory] show "current_page_directory t = current_page_directory s" by simp
  from arg_cong [OF e, of kernel_page_directory] show "kernel_page_directory t = kernel_page_directory s" by simp
  from arg_cong [OF e, of vmm.more] show "vmm.more t = vmm.more s" by simp
  show "pmm_managed t = pmm_managed s" by (simp add: pmm_managed_def tp)
qed

lemma mem_only_alloc: "pmm_alloc_page s = (a, t) \<Longrightarrow> mem_only s t"
  by (auto simp: pmm_alloc_page_def pmm_set_def mem_only_def but_mem_def split: if_splits option.splits)

lemma mem_only_free [simp, kept_intros]: "mem_only s (pmm_free_page a s)"
  by (simp add: pmm_free_page_def pmm_release_def pmm_clear_def mem_only_def but_mem_def)

lemma keptD: "kept s m g \<Longrightarrow> m = Inr x \<Longrightarrow> mem_only s (g x)"
  by (simp add: kept_def)

lemma kept_Inr [kept_intros]: "mem_only s (g x) \<Longrightarrow> kept s (Inr x) g"
  by (simp add: kept_def)

lemma kept_if [kept_intros]: "(c \<Longrightarrow> kept s a g) \<Longrightarrow> (\<not> c \<Longrightarrow> kept s b g) \<Longrightarrow> kept s (if c then a else b) g"
  by simp

lemma kept_bind: "kept s m h \<Longrightarrow> (\<And>x. kept (h x) (f x) g) \<Longrightarrow> kept s (kbind m f) g"
  by (auto simp: kept_def kbind_eq_Inr intro: mem_only_trans)

lemma kept_vload [kept_intros]: "(\<And>x. kept s (f x) g) \<Longrightarrow> kept s (kbind (vload32 s' a) f) g"
  by (auto simp: kept_def kbind_eq_Inr)

lemma kept_shared [kept_intros]: "(\<And>x. kept s (f x) g) \<Longrightarrow> kept s (kbind (shared_entry i e s') f) g"
  by (auto simp: kept_def kbind_eq_Inr)

lemma kept_alloc [kept_intros]:
  "(\<And>a t. kept t (f a t) g) \<Longrightarrow> kept s (case pmm_alloc_page s of (a, t) \<Rightarrow> f a t) g"
  using mem_only_alloc [of s] by (cases "pmm_alloc_page s") (auto simp: kept_def intro: mem_only_trans)

lemma kept_after: "mem_only s t \<Longrightarrow> kept t m g \<Longrightarrow> kept s m g"
  by (auto simp: kept_def intro: mem_only_trans)

lemma kept_for:
  assumes "\<And>i x. kept (h x) (f i x) h"
  shows "kept (h x) (for_err lo n f x) h"
proof -
  have "kept (h x) (for_err lo n f x) h" if "\<forall>i x. kept (h x) (f i x) h"
    using that
  proof (induction lo n f x rule: for_err.induct)
    case (1 i n f x)
    show ?case
    proof (cases "i < n")
      case True
      have "kept (h y) (for_err (i + 1) n f y) h" if "f i x = Inr y" for y
        using "1.IH" [OF True that "1.prems"] .
      with "1.prems" have "kept (h x) (kbind (f i x) (for_err (i + 1) n f)) h"
        unfolding kept_def kbind_eq_Inr by (metis mem_only_trans)
      with True show ?thesis by (simp add: for_err.simps [of i])
    qed (simp add: kept_def)
  qed
  with assms show ?thesis by blast
qed

lemmas kept_loop [kept_intros] = kept_for [where h = "\<lambda>t. t"]
lemmas kept_loop_snd [kept_intros] = kept_for [where h = snd]

lemma kept_vstore [kept_intros]: "kept s (vstore32 a v s) (\<lambda>t. t)"
  by (auto simp: kept_def vstore32_def kbind_eq_Inr mem_only_def but_mem_def)

text \<open>A step that yields a state, a flag and a state, or a value and a state.\<close>

lemmas kept_then [kept_intros] = kept_bind [where h = "\<lambda>t. t"]

lemma kept_then_snd:
  "kept s m snd \<Longrightarrow> (\<And>a t. kept t (f a t) g) \<Longrightarrow> kept s (kbind m (\<lambda>(a, t). f a t)) g"
  by (rule kept_bind) (auto split: prod.splits)

lemma kept_zero_table [kept_intros]: "kept s (zero_table pt s) (\<lambda>t. t)"
  unfolding zero_table_def by (intro kept_intros)

lemma kept_copy_table [kept_intros]: "kept s (copy_table new old s) (\<lambda>t. t)"
  unfolding copy_table_def by (intro kept_intros)

lemma kept_set_user [kept_intros]: "kept s (set_user pd i flags s) (\<lambda>t. t)"
  unfolding set_user_def by (intro kept_intros)

lemma kept_unshare [kept_intros]: "kept s (unshare pd i flags s) snd"
  unfolding unshare_def Let_def by (intro kept_intros) (simp_all)

lemma kept_ensure [kept_intros]: "kept s (ensure_table pd i flags s) snd"
  unfolding ensure_table_def Let_def by (intro kept_intros) (simp_all)

lemma kept_map_page_in [kept_intros]: "kept s (vmm_map_page_in pd v p flags s) (\<lambda>t. t)"
  unfolding vmm_map_page_in_def Let_def
  by (intro kept_intros kept_then_snd [OF kept_unshare] kept_then_snd [OF kept_ensure])

lemma kept_alloc_page [kept_intros]: "kept s (vmm_alloc_page v flags s) snd"
  unfolding vmm_alloc_page_def vmm_map_page_def Let_def by (intro kept_intros) simp_all

lemma kept_create [kept_intros]: "kept s (vmm_create_address_space s) snd"
  unfolding vmm_create_address_space_def Let_def by (intro kept_intros) simp_all

lemma kept_free_table [kept_intros]: "kept s (free_table_pages pt s) (\<lambda>t. t)"
  unfolding free_table_pages_def by (intro kept_intros) simp

lemma kept_destroy [kept_intros]: "kept s (vmm_destroy_address_space pd s) (\<lambda>t. t)"
  unfolding vmm_destroy_address_space_def by (intro kept_intros)

lemma kept_clone_entry: "kept (snd x) (clone_entry new old j x) snd"
  unfolding clone_entry_def Let_def by (cases x, simp only: prod.case snd_conv) (intro kept_intros; simp)

lemma kept_clone_round: "kept (snd x) (clone_round pd new_pd i x) snd"
  unfolding clone_round_def Let_def
  by (cases x; cases "fst x"; simp only: prod.case fst_conv snd_conv option.case)
    (intro kept_intros kept_then_snd [OF kept_for [where h = snd, OF kept_clone_entry, of "(_, _)", unfolded snd_conv]]
       kept_after [OF mem_only_free kept_destroy]; simp)+

lemma kept_clone [kept_intros]: "kept s (vmm_clone_address_space pd s) snd"
  unfolding vmm_clone_address_space_def
  by (intro kept_intros kept_then_snd [OF kept_create]
       kept_then_snd [OF kept_for [where h = snd, OF kept_clone_round, of "(_, _)", unfolded snd_conv]]) simp_all

end
