(* ===== verification/Address_Spaces.thy ===== *)
theory Address_Spaces
  imports Vmm_Frame
begin

text \<open>
  What the operations of src/src/kernel/vmm.c do to address spaces. \<open>space_ok\<close> is the
  well-formedness of one space: its directory and tables are managed frames outside the pool, no
  two entries share a table. \<open>other\<close> says that a space does not use a given directory and no
  free frame, so that work on that directory cannot reach it before the last store.
\<close>

section \<open>Fields the allocator leaves alone\<close>

lemma pmm_set_vmm [simp]:
  fixes s :: "'a vmm_scheme"
  shows "current_page_directory (pmm_set i s) = current_page_directory s"
    "kernel_page_directory (pmm_set i s) = kernel_page_directory s"
    "cr3 (pmm_set i s) = cr3 s" "paging (pmm_set i s) = paging s"
    "current_page_directory (pmm_clear i s) = current_page_directory s"
    "kernel_page_directory (pmm_clear i s) = kernel_page_directory s"
    "cr3 (pmm_clear i s) = cr3 s" "paging (pmm_clear i s) = paging s"
  by (simp_all add: pmm_set_def pmm_clear_def)

lemma alloc_keeps:
  fixes s :: "'a vmm_scheme"
  assumes "pmm_alloc_page s = (a, t)"
  shows "phys_mem t = phys_mem s" "total_pages t = total_pages s" "cr3 t = cr3 s" "paging t = paging s"
    "current_page_directory t = current_page_directory s" "kernel_page_directory t = kernel_page_directory s"
  using assms by (auto simp: pmm_alloc_page_def split: if_splits option.splits)

lemma free_keeps [simp]:
  fixes s :: "'a vmm_scheme"
  shows "phys_mem (pmm_free_page a s) = phys_mem s" "total_pages (pmm_free_page a s) = total_pages s"
    "cr3 (pmm_free_page a s) = cr3 s" "paging (pmm_free_page a s) = paging s"
    "current_page_directory (pmm_free_page a s) = current_page_directory s"
    "kernel_page_directory (pmm_free_page a s) = kernel_page_directory s"
  by (simp_all add: pmm_free_page_def pmm_release_def)

lemma direct_cong:
  assumes "direct s" "phys_mem t = phys_mem s" "total_pages t = total_pages s" "cr3 t = cr3 s" "paging t = paging s"
  shows "direct t"
proof -
  have "translate t = translate s" by (simp add: fun_eq_iff translate_def assms(2-))
  with assms(1,3) show ?thesis by (simp add: direct_def)
qed

lemma memory_fields [simp]:
  fixes s :: "'a vmm_scheme"
  shows "pmm_pool (s\<lparr>phys_mem := m\<rparr>) = pmm_pool s" "pmm_managed (s\<lparr>phys_mem := m\<rparr>) = pmm_managed s"
    "pmm_inv (s\<lparr>phys_mem := m\<rparr>) = pmm_inv s"
  by (simp_all add: pmm_pool_def pmm_managed_def pmm_inv_def free_frames_def count_ok_def)

lemma managed_aligned: "f \<in> pmm_managed s \<Longrightarrow> aligned_page f"
  by (simp add: pmm_managed_def)

lemma alloc_frame:
  fixes s :: "'a vmm_scheme"
  assumes "pmm_inv s" "direct s" "pmm_alloc_page s = (a, t)" "a \<noteq> 0"
  shows "a \<in> pmm_pool s" "pmm_pool t = pmm_pool s - {a}" "pmm_managed t = pmm_managed s" "pmm_inv t"
    "a \<in> pmm_managed t" "aligned_page a" "direct t"
proof -
  have "pmm_pool s \<noteq> {}" using fra.alloc_zero_iff [OF assms(1)] assms(3,4) by auto
  with fra.alloc_takes [OF assms(1) _ assms(3)] show
    a: "a \<in> pmm_pool s" "pmm_pool t = pmm_pool s - {a}" "pmm_managed t = pmm_managed s" "pmm_inv t"
    by blast+
  show "a \<in> pmm_managed t" "aligned_page a" using fra.pool_frames [OF assms(1) a(1)] a(3) by auto
  show "direct t" by (rule direct_cong [OF assms(2)]) (simp_all add: alloc_keeps [OF assms(3)])
qed

section \<open>Loops over a table\<close>

lemma fill_table:
  fixes s :: "'a vmm_scheme"
  assumes "direct s" "f \<in> pmm_managed s" "paging s \<Longrightarrow> f \<notin> tables (phys_mem s) (cur s)" "n \<le> 1024"
    and body: "\<And>j m. j < n \<Longrightarrow> direct (s\<lparr>phys_mem := m\<rparr>) \<Longrightarrow>
      (\<And>g k. aligned_page g \<Longrightarrow> g \<noteq> f \<Longrightarrow> k < 1024 \<Longrightarrow> mword m g k = mword (phys_mem s) g k) \<Longrightarrow>
      body j (s\<lparr>phys_mem := m\<rparr>) = vstore32 (entry_at f j) (w j) (s\<lparr>phys_mem := m\<rparr>)"
  shows "\<exists>m. for_err 0 n body s = Inr (s\<lparr>phys_mem := m\<rparr>) \<and> direct (s\<lparr>phys_mem := m\<rparr>) \<and>
    (\<forall>g k. aligned_page g \<longrightarrow> k < 1024 \<longrightarrow>
      mword m g k = (if g = f \<and> k < n then w k else mword (phys_mem s) g k))"
proof -
  have f: "aligned_page f" by (rule managed_aligned [OF assms(2)])
  let ?W = "\<lambda>n m. \<forall>g k. aligned_page g \<longrightarrow> k < 1024 \<longrightarrow>
      mword m g k = (if g = f \<and> k < n then w k else mword (phys_mem s) g k)"
  let ?P = "\<lambda>n t. \<exists>m. t = s\<lparr>phys_mem := m\<rparr> \<and> direct t \<and> ?W n m"
  have dir: "direct (s\<lparr>phys_mem := m\<rparr>)" if "?W k m" for k m
  proof (rule direct_update [OF assms(1)])
    assume "paging s"
    then have nf: "f \<notin> tables (phys_mem s) (cur s)" by (rule assms(3))
    have "mword m g j = mword (phys_mem s) g j" if "g \<in> tables (phys_mem s) (cur s)" "j < 1024" for g j
      using \<open>?W k m\<close> that nf tables_aligned [of "cur s" g "phys_mem s"] by auto
    then show "walk m (cur s) = walk (phys_mem s) (cur s)" by (auto intro!: ext walk_cong)
  qed
  have "\<exists>t. for_err 0 n body s = Inr t \<and> ?P n t"
  proof (rule for_err_invariant)
    show "?P 0 s" using assms(1) by (intro exI [of _ "phys_mem s"]) simp
    show "0 \<le> n" by simp
  next
    fix k t
    assume k: "k < n" and "?P k t"
    then obtain m where m: "t = s\<lparr>phys_mem := m\<rparr>" "direct t" "?W k m" by blast
    have k': "k < 1024" using k assms(4) by (rule less_le_trans)
    have "body k t = vstore32 (entry_at f k) (w k) t"
      unfolding m(1) by (rule body [OF k]) (use m in auto)
    also have "\<dots> = Inr (s\<lparr>phys_mem := store32 m (entry_at f k) (w k)\<rparr>)"
      using direct_store [OF m(2) _ k', of f] assms(2) by (simp add: m(1))
    finally have b: "body k t = Inr (s\<lparr>phys_mem := store32 m (entry_at f k) (w k)\<rparr>)" .
    have "?W (k + 1) (store32 m (entry_at f k) (w k))"
      using m(3) k' f by (auto simp: mword_store less_inc_iff [OF k])
    with dir b show "\<exists>t'. body k t = Inr t' \<and> ?P (k + 1) t'" by blast
  qed
  then show ?thesis by blast
qed

lemma zero_table_effect:
  fixes s :: "'a vmm_scheme"
  assumes "direct s" "f \<in> pmm_managed s" "paging s \<Longrightarrow> f \<notin> tables (phys_mem s) (cur s)"
  shows "\<exists>m. zero_table f s = Inr (s\<lparr>phys_mem := m\<rparr>) \<and> direct (s\<lparr>phys_mem := m\<rparr>) \<and>
    (\<forall>g k. aligned_page g \<longrightarrow> k < 1024 \<longrightarrow> mword m g k = (if g = f then 0 else mword (phys_mem s) g k))"
  using fill_table [of s f 1024 "\<lambda>j. vstore32 (entry_at f j) 0" "\<lambda>_. 0"] assms
  by (auto simp: zero_table_def)

lemma copy_table_effect:
  fixes s :: "'a vmm_scheme"
  assumes "direct s" "f \<in> pmm_managed s" "paging s \<Longrightarrow> f \<notin> tables (phys_mem s) (cur s)"
    and "g \<in> pmm_managed s" "g \<noteq> f"
  shows "\<exists>m. copy_table f g s = Inr (s\<lparr>phys_mem := m\<rparr>) \<and> direct (s\<lparr>phys_mem := m\<rparr>) \<and>
    (\<forall>h k. aligned_page h \<longrightarrow> k < 1024 \<longrightarrow>
       mword m h k = (if h = f then mword (phys_mem s) g k else mword (phys_mem s) h k))"
proof -
  let ?body = "\<lambda>j s. kbind (vload32 s (entry_at g j)) (\<lambda>w. vstore32 (entry_at f j) w s)"
  have "\<exists>m. for_err 0 1024 ?body s = Inr (s\<lparr>phys_mem := m\<rparr>) \<and> direct (s\<lparr>phys_mem := m\<rparr>) \<and>
    (\<forall>h k. aligned_page h \<longrightarrow> k < 1024 \<longrightarrow>
      mword m h k = (if h = f \<and> k < 1024 then mword (phys_mem s) g k else mword (phys_mem s) h k))"
  proof (rule fill_table [OF assms(1-3)])
    fix j :: u32 and m
    assume "j < 1024" "direct (s\<lparr>phys_mem := m\<rparr>)"
      and "\<And>h k. aligned_page h \<Longrightarrow> h \<noteq> f \<Longrightarrow> k < 1024 \<Longrightarrow> mword m h k = mword (phys_mem s) h k"
    then show "?body j (s\<lparr>phys_mem := m\<rparr>) =
        vstore32 (entry_at f j) (mword (phys_mem s) g j) (s\<lparr>phys_mem := m\<rparr>)"
      using direct_load [of "s\<lparr>phys_mem := m\<rparr>" g j] assms(4,5) managed_aligned [OF assms(4)] by simp
  qed simp_all
  then show ?thesis by (auto simp: copy_table_def)
qed

section \<open>Well-formed address spaces\<close>

definition present :: "memory \<Rightarrow> u32 \<Rightarrow> u32 \<Rightarrow> bool" where
  "present m c i \<longleftrightarrow> mword m c i AND 1 \<noteq> 0"

definition table_of :: "memory \<Rightarrow> u32 \<Rightarrow> u32 \<Rightarrow> u32" where
  "table_of m c i = mword m c i AND 0xFFFFF000"

definition space_ok :: "'a vmm_scheme \<Rightarrow> u32 \<Rightarrow> bool" where
  "space_ok s c \<longleftrightarrow> tables (phys_mem s) c \<subseteq> pmm_managed s - pmm_pool s \<and>
     (\<forall>i < 1024. present (phys_mem s) c i \<longrightarrow> table_of (phys_mem s) c i \<noteq> c) \<and>
     (\<forall>i < 1024. \<forall>j < 1024. present (phys_mem s) c i \<longrightarrow> present (phys_mem s) c j \<longrightarrow>
        table_of (phys_mem s) c i = table_of (phys_mem s) c j \<longrightarrow> i = j)"

definition other :: "'a vmm_scheme \<Rightarrow> u32 \<Rightarrow> u32 \<Rightarrow> bool" where
  "other s d c \<longleftrightarrow> aligned_page c \<and> d \<notin> tables (phys_mem s) c \<and> tables (phys_mem s) c \<inter> pmm_pool s = {}"

lemma in_tables: "f \<in> tables m c \<longleftrightarrow> f = c \<or> (\<exists>i < 1024. present m c i \<and> f = table_of m c i)"
  by (auto simp: tables_def present_def table_of_def)

lemma table_in: "i < 1024 \<Longrightarrow> present m c i \<Longrightarrow> table_of m c i \<in> tables m c"
  by (auto simp: in_tables)

lemma walk_present:
  "walk m c v =
    (if present m c (pd_index v) \<and> present m (table_of m c (pd_index v)) (pt_index v)
     then Some (table_of m (table_of m c (pd_index v)) (pt_index v) + (v AND 0xFFF)) else None)"
  by (simp add: walk_words present_def table_of_def Let_def)

lemma space_okD:
  assumes "space_ok s c"
  shows "c \<in> pmm_managed s" "c \<notin> pmm_pool s" "aligned_page c"
    "i < 1024 \<Longrightarrow> present (phys_mem s) c i \<Longrightarrow> table_of (phys_mem s) c i \<in> pmm_managed s - pmm_pool s"
    "i < 1024 \<Longrightarrow> present (phys_mem s) c i \<Longrightarrow> table_of (phys_mem s) c i \<noteq> c"
    "i < 1024 \<Longrightarrow> j < 1024 \<Longrightarrow> present (phys_mem s) c i \<Longrightarrow> present (phys_mem s) c j \<Longrightarrow>
      table_of (phys_mem s) c i = table_of (phys_mem s) c j \<Longrightarrow> i = j"
proof -
  have t: "tables (phys_mem s) c \<subseteq> pmm_managed s - pmm_pool s" using assms by (simp add: space_ok_def)
  moreover have "c \<in> tables (phys_mem s) c" by (simp add: in_tables)
  ultimately show c: "c \<in> pmm_managed s" "c \<notin> pmm_pool s" by blast+
  then show "aligned_page c" by (simp add: managed_aligned)
  show "table_of (phys_mem s) c i \<in> pmm_managed s - pmm_pool s"
    if "i < 1024" "present (phys_mem s) c i"
    using t table_in [OF that] by blast
  show "i < 1024 \<Longrightarrow> present (phys_mem s) c i \<Longrightarrow> table_of (phys_mem s) c i \<noteq> c"
    "i < 1024 \<Longrightarrow> j < 1024 \<Longrightarrow> present (phys_mem s) c i \<Longrightarrow> present (phys_mem s) c j \<Longrightarrow>
      table_of (phys_mem s) c i = table_of (phys_mem s) c j \<Longrightarrow> i = j"
    using assms by (simp_all add: space_ok_def)
qed

text \<open>A directory entry replaced by one with the same table keeps every translation.\<close>

lemma same_entry_walk:
  assumes c: "aligned_page c" "i < 1024"
    and own: "\<And>j. j < 1024 \<Longrightarrow> present m c j \<Longrightarrow> table_of m c j \<noteq> c"
    and e: "e AND 1 = mword m c i AND 1" "e AND 0xFFFFF000 = mword m c i AND 0xFFFFF000"
  shows "walk (store32 m (entry_at c i) e) c = walk m c" "tables (store32 m (entry_at c i) e) c = tables m c"
    "present (store32 m (entry_at c i) e) c j = present m c j \<or> \<not> j < 1024"
    "table_of (store32 m (entry_at c i) e) c j = table_of m c j \<or> \<not> j < 1024"
proof -
  let ?m = "store32 m (entry_at c i) e"
  have p: "present ?m c j = present m c j" "table_of ?m c j = table_of m c j" if "j < 1024" for j
    using c that e by (auto simp: present_def table_of_def mword_store)
  then show "present ?m c j = present m c j \<or> \<not> j < 1024" "table_of ?m c j = table_of m c j \<or> \<not> j < 1024"
    by blast+
  have q: "present ?m f j = present m f j" "table_of ?m f j = table_of m f j"
    if "aligned_page f" "f \<noteq> c" "j < 1024" for f j
    using c that by (simp_all add: present_def table_of_def mword_store)
  have al: "aligned_page (table_of m c j)" for j by (simp add: table_of_def)
  show "walk ?m c = walk m c"
    using own [of "pd_index v" for v] by (auto simp: fun_eq_iff walk_present p q [OF al])
  show "tables ?m c = tables m c" by (auto simp: set_eq_iff in_tables p)
qed

section \<open>Steps that keep every translation\<close>

text \<open>\<open>prepared s t d\<close>: from \<open>s\<close> to \<open>t\<close> the directory \<open>d\<close> was worked on without changing a
  translation of any space, nor a word outside the tables of \<open>d\<close> and the free frames.\<close>

definition prepared :: "'a vmm_scheme \<Rightarrow> 'a vmm_scheme \<Rightarrow> u32 \<Rightarrow> bool" where
  "prepared s t d \<longleftrightarrow> pmm_inv t \<and> direct t \<and> space_ok t d \<and>
     pmm_pool t \<subseteq> pmm_pool s \<and> pmm_managed t = pmm_managed s \<and>
     current_page_directory t = current_page_directory s \<and>
     kernel_page_directory t = kernel_page_directory s \<and> cr3 t = cr3 s \<and> paging t = paging s \<and>
     walk (phys_mem t) d = walk (phys_mem s) d \<and>
     tables (phys_mem t) d \<subseteq> tables (phys_mem s) d \<union> pmm_pool s \<and>
     (\<forall>g j. aligned_page g \<longrightarrow> j < 1024 \<longrightarrow> g \<notin> tables (phys_mem s) d \<union> pmm_pool s \<longrightarrow>
        mword (phys_mem t) g j = mword (phys_mem s) g j) \<and>
     (\<forall>c. other s d c \<longrightarrow> walk (phys_mem t) c = walk (phys_mem s) c \<and> tables (phys_mem t) c = tables (phys_mem s) c)"

text \<open>The space in use is the one worked on, or one that does not notice.\<close>

definition reachable_from :: "'a vmm_scheme \<Rightarrow> u32 \<Rightarrow> bool" where
  "reachable_from s d \<longleftrightarrow> (paging s \<longrightarrow> cur s = d \<or> other s d (cur s))"

lemma prepared_refl: "pmm_inv s \<Longrightarrow> direct s \<Longrightarrow> space_ok s d \<Longrightarrow> prepared s s d"
  by (auto simp: prepared_def)

lemma prepared_other: "prepared s t d \<Longrightarrow> other s d c \<Longrightarrow> other t d c"
  by (auto simp: prepared_def other_def)

lemma prepared_reachable: "prepared s t d \<Longrightarrow> reachable_from s d \<Longrightarrow> reachable_from t d"
  using prepared_other [of s t d "cur s"] by (auto simp: reachable_from_def prepared_def)

lemma prepared_trans:
  assumes st: "prepared s t d" and tu: "prepared t u d"
  shows "prepared s u d"
proof -
  have sub: "tables (phys_mem t) d \<union> pmm_pool t \<subseteq> tables (phys_mem s) d \<union> pmm_pool s"
    using st by (auto simp: prepared_def)
  have w: "mword (phys_mem u) g j = mword (phys_mem s) g j"
    if "aligned_page g" "j < 1024" "g \<notin> tables (phys_mem s) d \<union> pmm_pool s" for g j
  proof -
    have "g \<notin> tables (phys_mem t) d \<union> pmm_pool t" using sub that(3) by blast
    then show ?thesis using st tu that unfolding prepared_def by metis
  qed
  have o: "walk (phys_mem u) c = walk (phys_mem s) c \<and> tables (phys_mem u) c = tables (phys_mem s) c"
    if "other s d c" for c
    using prepared_other [OF st that] st tu that by (simp add: prepared_def)
  have "pmm_pool u \<subseteq> pmm_pool s" "tables (phys_mem u) d \<subseteq> tables (phys_mem s) d \<union> pmm_pool s"
    using st tu sub by (auto simp: prepared_def)
  with w o st tu show ?thesis unfolding prepared_def by simp
qed

lemma pool_not_current:
  assumes "reachable_from s d" "space_ok s d" "f \<in> pmm_pool s" "paging s"
  shows "f \<notin> tables (phys_mem s) (cur s)"
  using assms by (auto simp: reachable_from_def space_ok_def other_def)

text \<open>After an allocation the same spaces are well-formed.\<close>

lemma alloc_prepared:
  fixes s :: "'a vmm_scheme"
  assumes "pmm_inv s" "direct s" "space_ok s d" "pmm_alloc_page s = (a, t)" "a \<noteq> 0"
  shows "prepared s t d"
  using alloc_frame [OF assms(1,2,4,5)] alloc_keeps [OF assms(4)] assms(3)
  by (auto simp: prepared_def space_ok_def)

text \<open>Replacing an entry by one that keeps the table, or the table by a copy in a free frame.\<close>

lemma store_same_prepared:
  fixes s :: "'a vmm_scheme"
  assumes ok: "pmm_inv s" "direct s" "space_ok s d" "reachable_from s d" "i < 1024"
    and e: "e AND 1 = mword (phys_mem s) d i AND 1"
      "e AND 0xFFFFF000 = mword (phys_mem s) d i AND 0xFFFFF000"
  shows "let t = s\<lparr>phys_mem := store32 (phys_mem s) (entry_at d i) e\<rparr> in
    vstore32 (entry_at d i) e s = Inr t \<and> prepared s t d \<and>
    (\<forall>j < 1024. present (phys_mem t) d j = present (phys_mem s) d j \<and>
       table_of (phys_mem t) d j = table_of (phys_mem s) d j)"
proof -
  let ?m = "store32 (phys_mem s) (entry_at d i) e" and ?t = "s\<lparr>phys_mem := store32 (phys_mem s) (entry_at d i) e\<rparr>"
  note D = space_okD [OF ok(3)]
  note w = same_entry_walk [OF D(3) ok(5) D(5) e]
  have pt: "present ?m d j = present (phys_mem s) d j" "table_of ?m d j = table_of (phys_mem s) d j"
    if "j < 1024" for j using w(3,4) [of j] that by simp_all
  have o: "walk ?m c = walk (phys_mem s) c \<and> tables ?m c = tables (phys_mem s) c" if "other s d c" for c
    using that walk_store_outside [of c d "phys_mem s" i e] D(3) ok(5) by (auto simp: other_def)
  have "direct ?t"
    using direct_update [OF ok(2), of ?m] o [of "cur s"] w(1) ok(4) by (auto simp: reachable_from_def)
  moreover have "space_ok ?t d"
    using ok(3) by (simp add: space_ok_def w(2) pt)
  moreover have "mword ?m g j = mword (phys_mem s) g j"
    if "aligned_page g" "j < 1024" "g \<notin> tables (phys_mem s) d" for g j
    using that D(3) ok(5) by (auto simp: mword_store in_tables)
  ultimately have "prepared s ?t d" using ok o w by (auto simp: prepared_def)
  then show ?thesis using direct_store [OF ok(2) D(1) ok(5), of e] pt by (simp add: Let_def)
qed

lemma present_user [simp]: "(e OR VMM_USER) AND 1 = e AND 1"
    "(e OR VMM_USER) AND 0xFFFFF000 = e AND 0xFFFFF000" for e :: u32
proof -
  have "(4::u32) AND 1 = 0" "(4::u32) AND 0xFFFFF000 = 0" by simp_all
  then show "(e OR VMM_USER) AND 1 = e AND 1" "(e OR VMM_USER) AND 0xFFFFF000 = e AND 0xFFFFF000"
    by (simp_all only: VMM_USER_def bit.conj_disj_distrib2 or.right_neutral)
qed

lemma set_user_prepared:
  fixes s :: "'a vmm_scheme"
  assumes "pmm_inv s" "direct s" "space_ok s d" "reachable_from s d" "i < 1024"
  shows "\<exists>t. set_user d i flags s = Inr t \<and> prepared s t d \<and> pmm_pool t = pmm_pool s \<and>
    (\<forall>j < 1024. present (phys_mem t) d j = present (phys_mem s) d j \<and>
       table_of (phys_mem t) d j = table_of (phys_mem s) d j)"
proof (cases "flags AND VMM_USER = 0")
  case True
  then show ?thesis using prepared_refl [OF assms(1-3)] by (auto simp: set_user_def)
next
  case False
  have l: "vload32 s (entry_at d i) = Inr (mword (phys_mem s) d i)"
    by (rule direct_load [OF assms(2) space_okD(1) [OF assms(3)] assms(5)])
  show ?thesis
    using store_same_prepared [OF assms, of "mword (phys_mem s) d i OR VMM_USER"] False l
    by (auto simp: set_user_def Let_def)
qed

lemma new_table_prepared:
  fixes s u :: "'a vmm_scheme"
  assumes ok: "pmm_inv s" "direct s" "space_ok s d" "reachable_from s d" "i < 1024"
    and al: "pmm_alloc_page s = (a, u)" "a \<noteq> 0"
    and m2: "direct (u\<lparr>phys_mem := m2\<rparr>)"
      "\<And>g k. aligned_page g \<Longrightarrow> k < 1024 \<Longrightarrow> mword m2 g k = (if g = a then w k else mword (phys_mem s) g k)"
    and w: "\<And>k. k < 1024 \<Longrightarrow> present (phys_mem s) d i \<Longrightarrow> w k = mword (phys_mem s) (table_of (phys_mem s) d i) k"
      "\<And>k. k < 1024 \<Longrightarrow> \<not> present (phys_mem s) d i \<Longrightarrow> w k AND 1 = 0"
    and e: "e AND 1 \<noteq> 0" "e AND 0xFFFFF000 = a"
  shows "let t = u\<lparr>phys_mem := store32 m2 (entry_at d i) e\<rparr> in
    vstore32 (entry_at d i) e (u\<lparr>phys_mem := m2\<rparr>) = Inr t \<and> prepared s t d \<and>
    present (phys_mem t) d i \<and> table_of (phys_mem t) d i = a \<and> card (pmm_pool s) \<le> card (pmm_pool t) + 1"
proof -
  let ?m = "phys_mem s" and ?m3 = "store32 m2 (entry_at d i) e"
  let ?t = "u\<lparr>phys_mem := ?m3\<rparr>"
  note D = space_okD [OF ok(3)]
  note A = alloc_frame [OF ok(1,2) al]
  note K = alloc_keeps [OF al(1)]
  have ad: "a \<noteq> d" using A(1) D(2) by auto
  have w3: "mword ?m3 g k = (if g = d \<and> k = i then e else if g = a then w k else mword ?m g k)"
    if "aligned_page g" "k < 1024" for g k
    using that D(3) ok(5) by (auto simp: mword_store m2(2))
  have pd: "present ?m3 d j = (j = i \<or> present ?m d j)"
    "table_of ?m3 d j = (if j = i then a else table_of ?m d j)" if "j < 1024" for j
    using that ad e by (auto simp: present_def table_of_def w3 D(3))
  have tb: "mword ?m3 (table_of ?m d j) k = mword ?m (table_of ?m d j) k"
    if "j < 1024" "present ?m d j" "k < 1024" for j k
    using D(4) [OF that(1,2)] D(5) [OF that(1,2)] A(1) that(3)
    by (auto simp: w3 table_of_def)
  have wa: "mword ?m3 a k = w k" if "k < 1024" for k using that ad A(6) by (simp add: w3)
  have W: "walk ?m3 d v = walk ?m d v" for v
  proof (cases "pd_index v = i")
    case True
    then show ?thesis
      using w(1) [of "pt_index v"] w(2) [of "pt_index v"] wa [of "pt_index v"]
      by (cases "present ?m d i") (simp_all add: walk_present pd [OF ok(5)] present_def [of _ a] table_of_def [of _ a]
          present_def [of _ "table_of ?m d i"] table_of_def [of _ "table_of ?m d i"])
  next
    case False
    then show ?thesis
      using tb [of "pd_index v" "pt_index v"]
      by (cases "present ?m d (pd_index v)") (simp_all add: walk_present pd
          present_def [of _ "table_of ?m d (pd_index v)"] table_of_def [of _ "table_of ?m d (pd_index v)"])
  qed
  have T: "tables ?m3 d \<subseteq> insert a (tables ?m d)" by (auto simp: in_tables pd split: if_splits) blast
  have O: "walk ?m3 c = walk ?m c \<and> tables ?m3 c = tables ?m c" if "other s d c" for c
  proof -
    have "mword ?m3 f j = mword ?m f j" if "f \<in> tables ?m c" "j < 1024" for f j
      using that \<open>other s d c\<close> A(1) tables_aligned [of c f ?m] by (auto simp: other_def w3)
    then show ?thesis by (auto intro!: ext walk_cong)
  qed
  have S: "space_ok ?t d"
  proof -
    have "a \<notin> tables ?m d" using A(1) ok(3) by (auto simp: space_ok_def)
    then have na: "table_of ?m d j \<noteq> a" if "j < 1024" "present ?m d j" for j using table_in [OF that] by metis
    have "tables ?m d \<subseteq> pmm_managed s - pmm_pool s" using ok(3) by (simp add: space_ok_def)
    then have "tables ?m3 d \<subseteq> pmm_managed u - pmm_pool u" using T A by blast
    moreover have "table_of ?m3 d j \<noteq> d" if "j < 1024" "present ?m3 d j" for j
      using that ad D(5) by (auto simp: pd)
    moreover have "j = k" if "j < 1024" "k < 1024" "present ?m3 d j" "present ?m3 d k"
      "table_of ?m3 d j = table_of ?m3 d k" for j k
      using that na D(6) by (auto simp: pd split: if_splits)
    ultimately show ?thesis by (simp add: space_ok_def)
  qed
  have "direct ?t"
  proof -
    have "walk ?m3 (cur s) = walk ?m (cur s)" if "paging s"
      using that ok(4) O [of "cur s"] W by (auto simp: reachable_from_def)
    then show ?thesis using direct_update [OF A(7), of ?m3] K by simp
  qed
  moreover have "vstore32 (entry_at d i) e (u\<lparr>phys_mem := m2\<rparr>) = Inr ?t"
    using direct_store [OF m2(1) _ ok(5), of d e] D(1) A(3) by simp
  moreover have "pmm_pool u \<subseteq> pmm_pool s" "tables ?m3 d \<subseteq> tables ?m d \<union> pmm_pool s" using A(1,2) T by auto
  moreover have "mword ?m3 g j = mword ?m g j"
    if "aligned_page g" "j < 1024" "g \<notin> tables ?m d \<union> pmm_pool s" for g j
    using that A(1) by (auto simp: w3 in_tables)
  moreover have "card (pmm_pool s) \<le> card (pmm_pool u) + 1" using A(1,2) finite_u32 [of "pmm_pool s"] by simp
  ultimately show ?thesis
    using A K S W O pd [OF ok(5)] by (simp add: prepared_def Let_def fun_eq_iff)
qed

section \<open>Mapping a page\<close>

lemma frame_entry_bits:
  assumes "aligned_page a" "take_bit 12 f = f"
  shows "(a OR f) AND 0xFFFFF000 = a" "(a OR f) AND 1 = f AND 1" "(a OR f) AND 0xFFF = f"
proof -
  have "a OR f = a + f" by (rule base_plus_or [OF assms, symmetric])
  then show "(a OR f) AND 0xFFFFF000 = a" "(a OR f) AND 0xFFF = f"
    using base_plus_high [OF assms] base_plus_low [OF assms] by (simp_all only: page_mask offset_mask)
  have "a AND 1 = 0" using take_bit_take_bit [of 1 12 a] assms(1)
    by (simp add: take_bit_eq_mask mask_eq_exp_minus_1)
  then show "(a OR f) AND 1 = f AND 1" by (simp add: bit.conj_disj_distrib2)
qed

lemma low_bits_small: "take_bit 12 (e AND 0xFFF) = e AND 0xFFF" for e :: u32
  by (simp add: offset_mask)

lemma low_bits_present: "(e AND 0xFFF) AND 1 = e AND 1" for e :: u32
proof -
  have "(0xFFF :: u32) AND 1 = 1" by simp
  then show ?thesis by (simp only: and.assoc)
qed

lemma unshare_prepared:
  fixes s :: "'a vmm_scheme"
  assumes ok: "pmm_inv s" "direct s" "space_ok s d" "reachable_from s d" "i < 1024"
    and k: "kernel_page_directory s \<in> pmm_managed s"
  shows "\<exists>go t. unshare d i flags s = Inr (go, t) \<and> prepared s t d \<and> (pmm_pool s \<noteq> {} \<longrightarrow> go) \<and>
    card (pmm_pool s) \<le> card (pmm_pool t) + 1 \<and>
    present (phys_mem t) d i = present (phys_mem s) d i \<and>
    (\<not> present (phys_mem s) d i \<longrightarrow> t = s) \<and>
    (go \<and> present (phys_mem s) d i \<longrightarrow> d = kernel_page_directory s \<or> table_of (phys_mem t) d i \<in> pmm_pool s \<or>
       mword (phys_mem s) d i \<noteq> mword (phys_mem s) (kernel_page_directory s) i \<and>
       table_of (phys_mem t) d i = table_of (phys_mem s) d i)"
proof -
  let ?m = "phys_mem s" and ?k = "kernel_page_directory s"
  note D = space_okD [OF ok(3)]
  have le: "vload32 s (entry_at d i) = Inr (mword ?m d i)" by (rule direct_load [OF ok(2) D(1) ok(5)])
  have lk: "vload32 s (entry_at ?k i) = Inr (mword ?m ?k i)" by (rule direct_load [OF ok(2) k ok(5)])
  note R = prepared_refl [OF ok(1-3)]
  show ?thesis
  proof (cases "d \<noteq> ?k \<and> present ?m d i \<and> mword ?m d i = mword ?m ?k i")
    case False
    then have "unshare d i flags s = Inr (True, s)"
      by (auto simp: unshare_def le lk present_def VMM_PRESENT_def)
    then show ?thesis using R False by auto
  next
    case True
    then have pr: "present ?m d i" by simp
    obtain a u where au: "pmm_alloc_page s = (a, u)" by fastforce
    show ?thesis
    proof (cases "a = 0")
      case 0: True
      then have "pmm_pool s = {}" using fra.alloc_zero_iff [OF ok(1)] au by simp
      moreover have "u = s" using fra.alloc_empty [OF ok(1) calculation] au by simp
      moreover have "unshare d i flags s = Inr (False, u)"
        using True 0 au by (auto simp: unshare_def le lk present_def VMM_PRESENT_def)
      ultimately show ?thesis using R True by auto
    next
      case a: False
      note A = alloc_frame [OF ok(1,2) au a] and K = alloc_keeps [OF au]
      have "d \<in> pmm_managed u" using D(1) A(3) by simp
      note l1 = direct_load [OF A(7) this ok(5)]
      have g: "table_of ?m d i \<in> pmm_managed u" "table_of ?m d i \<noteq> a"
        using D(4) [OF ok(5) pr] A by auto
      have na: "a \<notin> tables (phys_mem u) (cur u)" if "paging u"
        using pool_not_current [OF ok(4,3) A(1)] that K by simp
      from copy_table_effect [OF A(7,5) na g] obtain m2 where
        m2: "copy_table a (table_of ?m d i) u = Inr (u\<lparr>phys_mem := m2\<rparr>)" "direct (u\<lparr>phys_mem := m2\<rparr>)"
          "\<And>h j. aligned_page h \<Longrightarrow> j < 1024 \<Longrightarrow>
             mword m2 h j = (if h = a then mword ?m (table_of ?m d i) j else mword ?m h j)"
        unfolding K(1) by blast
      have ad: "a \<noteq> d" using A(1) D(2) by auto
      have l2: "vload32 (u\<lparr>phys_mem := m2\<rparr>) (entry_at d i) = Inr (mword ?m d i)"
        using direct_load [OF m2(2) _ ok(5), of d] D(1,3) A(3) ad ok(5) by (simp add: m2(3))
      let ?e = "a OR (mword ?m d i AND 0xFFF)"
      have e: "?e AND 0xFFFFF000 = a" "?e AND 1 \<noteq> 0"
      proof -
        show "?e AND 0xFFFFF000 = a" "?e AND 1 \<noteq> 0"
          using frame_entry_bits [OF A(6) low_bits_small] pr by (simp_all add: present_def low_bits_present)
      qed
      let ?t = "u\<lparr>phys_mem := store32 m2 (entry_at d i) ?e\<rparr>"
      have t: "vstore32 (entry_at d i) ?e (u\<lparr>phys_mem := m2\<rparr>) = Inr ?t" "prepared s ?t d"
        "present (phys_mem ?t) d i" "table_of (phys_mem ?t) d i = a" "card (pmm_pool s) \<le> card (pmm_pool ?t) + 1"
        using new_table_prepared [OF ok au a m2(2) m2(3) _ _ e(2,1)] pr by (simp_all add: Let_def)
      have P: "pmm_inv ?t" "direct ?t" "space_ok ?t d" using t(2) by (simp_all add: prepared_def)
      from set_user_prepared [OF P prepared_reachable [OF t(2) ok(4)] ok(5), of flags] obtain x where
        x: "set_user d i flags ?t = Inr x" "prepared ?t x d"
          "present (phys_mem x) d i = present (phys_mem ?t) d i"
          "table_of (phys_mem x) d i = table_of (phys_mem ?t) d i" "pmm_pool x = pmm_pool ?t" using ok(5) by blast
      have "unshare d i flags s = Inr (True, x)"
        using True a au l1 m2(1) l2 t(1) x(1)
        by (auto simp: unshare_def le lk present_def VMM_PRESENT_def table_of_def K(1))
      then show ?thesis
        using prepared_trans [OF t(2) x(2)] x(3-5) t(3-5) A(1) pr by auto
    qed
  qed
qed

lemma ensure_prepared:
  fixes s :: "'a vmm_scheme"
  assumes ok: "pmm_inv s" "direct s" "space_ok s d" "reachable_from s d" "i < 1024"
  shows "\<exists>go t. ensure_table d i flags s = Inr (go, t) \<and> prepared s t d \<and>
    card (pmm_pool s) \<le> card (pmm_pool t) + 1 \<and>
    (present (phys_mem s) d i \<longrightarrow> go \<and> t = s) \<and> (pmm_pool s \<noteq> {} \<longrightarrow> go) \<and>
    (go \<longrightarrow> present (phys_mem t) d i) \<and>
    (go \<and> \<not> present (phys_mem s) d i \<longrightarrow> table_of (phys_mem t) d i \<in> pmm_pool s)"
proof -
  let ?m = "phys_mem s"
  note D = space_okD [OF ok(3)]
  have le: "vload32 s (entry_at d i) = Inr (mword ?m d i)" by (rule direct_load [OF ok(2) D(1) ok(5)])
  note R = prepared_refl [OF ok(1-3)]
  obtain a u where au: "pmm_alloc_page s = (a, u)" by fastforce
  consider "present ?m d i" | "\<not> present ?m d i" "a = 0" | "\<not> present ?m d i" "a \<noteq> 0" by blast
  then show ?thesis
  proof cases
    case 1
    then have "ensure_table d i flags s = Inr (True, s)"
      by (simp add: ensure_table_def le present_def VMM_PRESENT_def)
    then show ?thesis using R 1 by auto
  next
    case 2
    then have p: "pmm_pool s = {}" using fra.alloc_zero_iff [OF ok(1)] au by simp
    moreover have "u = s" using fra.alloc_empty [OF ok(1) p] au by simp
    ultimately have "ensure_table d i flags s = Inr (False, s)"
      using 2 au by (simp add: ensure_table_def le present_def VMM_PRESENT_def)
    then show ?thesis using R 2 p by auto
  next
    case 3
    note A = alloc_frame [OF ok(1,2) au 3(2)] and K = alloc_keeps [OF au]
    have na: "a \<notin> tables (phys_mem u) (cur u)" if "paging u"
      using pool_not_current [OF ok(4,3) A(1)] that K by simp
    from zero_table_effect [OF A(7,5) na] obtain m2 where
      m2: "zero_table a u = Inr (u\<lparr>phys_mem := m2\<rparr>)" "direct (u\<lparr>phys_mem := m2\<rparr>)"
        "\<And>h j. aligned_page h \<Longrightarrow> j < 1024 \<Longrightarrow> mword m2 h j = (if h = a then 0 else mword ?m h j)"
      unfolding K(1) by blast
    let ?f = "VMM_PRESENT OR VMM_WRITABLE OR (flags AND VMM_USER)"
    have f: "take_bit 12 ?f = ?f" "?f AND 1 = 1"
    proof -
      have "take_bit 12 (flags AND 4) = take_bit 12 flags AND 4" by simp
      also have "\<dots> = flags AND 4" by (simp add: take_bit_eq_mask mask_eq_exp_minus_1 and.assoc)
      finally show "take_bit 12 ?f = ?f" by (simp add: VMM_PRESENT_def VMM_WRITABLE_def VMM_USER_def)
      have "(flags AND 4) AND 1 = 0" by (simp add: and.assoc)
      then show "?f AND 1 = 1"
        by (simp add: VMM_PRESENT_def VMM_WRITABLE_def VMM_USER_def bit.conj_disj_distrib2)
    qed
    note e = frame_entry_bits [OF A(6) f(1)]
    let ?t = "u\<lparr>phys_mem := store32 m2 (entry_at d i) (a OR ?f)\<rparr>"
    have t: "vstore32 (entry_at d i) (a OR ?f) (u\<lparr>phys_mem := m2\<rparr>) = Inr ?t" "prepared s ?t d"
      "present (phys_mem ?t) d i" "table_of (phys_mem ?t) d i = a" "card (pmm_pool s) \<le> card (pmm_pool ?t) + 1"
      using new_table_prepared [OF ok au 3(2) m2(2) m2(3) _ _ _ e(1)] 3 f(2) e(2) by (simp_all add: Let_def)
    then have "ensure_table d i flags s = Inr (True, ?t)"
      using 3 au m2(1) by (simp add: ensure_table_def le present_def VMM_PRESENT_def)
    then show ?thesis using t 3 A(1) by auto
  qed
qed

text \<open>Storing a page entry into the table of a present directory entry.\<close>

definition same_page :: "u32 \<Rightarrow> u32 \<Rightarrow> bool" where
  "same_page v w \<longleftrightarrow> v AND 0xFFFFF000 = w AND 0xFFFFF000"

lemma page_high: "v AND 0xFFFFF000 = push_bit 12 (drop_bit 12 v)" for v :: u32
  unfolding page_mask by (rule bit_word_eqI) (auto simp: bit_simps)

lemma drop_push: "drop_bit 12 (push_bit 12 (drop_bit 12 x)) = drop_bit 12 x" for x :: u32
  by (rule bit_word_eqI) (auto simp: bit_simps dest: bit_imp_le_length)

lemma same_page_index: "same_page v w \<longleftrightarrow> pd_index v = pd_index w \<and> pt_index v = pt_index w"
proof -
  have "drop_bit 12 (push_bit 12 (drop_bit 12 x)) = drop_bit 12 x" for x :: u32
    by (rule bit_word_eqI) (auto simp: bit_simps dest: bit_imp_le_length)
  then have "same_page v w \<longleftrightarrow> drop_bit 12 v = drop_bit 12 w"
    by (auto simp: same_page_def page_high dest: arg_cong [of _ _ "drop_bit 12"])
  also have "\<dots> \<longleftrightarrow> drop_bit 10 (drop_bit 12 v) = drop_bit 10 (drop_bit 12 w) \<and>
      take_bit 10 (drop_bit 12 v) = take_bit 10 (drop_bit 12 w)"
    using bits_ident [of 10 "drop_bit 12 v"] bits_ident [of 10 "drop_bit 12 w"] by metis
  finally show ?thesis by (simp add: pd_index_def pt_index_def index_mask)
qed

lemma store_pte:
  fixes s :: "'a vmm_scheme"
  assumes ok: "space_ok s d" and p: "present (phys_mem s) d (pd_index v)"
  shows "walk (store32 (phys_mem s) (entry_at (table_of (phys_mem s) d (pd_index v)) (pt_index v)) e) d w =
    (if same_page v w then if e AND 1 = 0 then None else Some ((e AND 0xFFFFF000) + (w AND 0xFFF))
     else walk (phys_mem s) d w)"
proof -
  let ?m = "phys_mem s" and ?T = "table_of (phys_mem s) d"
  note D = space_okD [OF ok]
  let ?m' = "store32 ?m (entry_at (?T (pd_index v)) (pt_index v)) e"
  have al: "aligned_page (?T j)" for j by (simp add: table_of_def)
  have w': "mword ?m' g k = (if g = ?T (pd_index v) \<and> k = pt_index v then e else mword ?m g k)"
    if "aligned_page g" "k < 1024" for g k
    using that by (auto simp: mword_store [OF al])
  have d: "mword ?m' d k = mword ?m d k" if "k < 1024" for k
    using w' [OF D(3) that] D(5) [OF index_bounds(1) p] by auto
  have t: "mword ?m' (?T (pd_index w)) (pt_index w) =
      (if same_page v w then e else mword ?m (?T (pd_index w)) (pt_index w))"
    if "present ?m d (pd_index w)"
    using w' [OF al index_bounds(2)] D(6) [OF index_bounds(1) index_bounds(1) that p]
    by (auto simp: same_page_index)
  show ?thesis
  proof (cases "present ?m d (pd_index w)")
    case True
    then show ?thesis
      using t [OF True] d [OF index_bounds(1), of w]
      by (simp add: walk_words Let_def present_def table_of_def)
  next
    case False
    then have "\<not> same_page v w" using p by (auto simp: same_page_index)
    with False show ?thesis
      using d [OF index_bounds(1), of w] by (simp add: walk_words Let_def present_def)
  qed
qed

text \<open>
  The state of the memory manager between system calls: a sound allocator, direct access to the
  managed frames, a well-formed kernel space, and a well-formed space \<open>d\<close> that keeps apart from
  it: an entry of \<open>d\<close> is the kernel's own, or its table is none of the kernel's.
\<close>

definition vm_ok :: "'a vmm_scheme \<Rightarrow> u32 \<Rightarrow> bool" where
  "vm_ok s d \<longleftrightarrow> pmm_inv s \<and> direct s \<and> space_ok s d \<and> space_ok s (kernel_page_directory s) \<and>
     reachable_from s d \<and>
     (d \<noteq> kernel_page_directory s \<longrightarrow> d \<notin> tables (phys_mem s) (kernel_page_directory s) \<and>
       (\<forall>i < 1024. present (phys_mem s) d i \<longrightarrow>
          mword (phys_mem s) d i = mword (phys_mem s) (kernel_page_directory s) i \<or>
          table_of (phys_mem s) d i \<notin> tables (phys_mem s) (kernel_page_directory s)))"

text \<open>The part of it that mapping relies on, and the part that keeps the spaces apart.\<close>

definition vm_core :: "'a vmm_scheme \<Rightarrow> u32 \<Rightarrow> bool" where
  "vm_core s d \<longleftrightarrow> pmm_inv s \<and> direct s \<and> space_ok s d \<and> reachable_from s d \<and> kernel_page_directory s \<in> pmm_managed s"

definition apart :: "'a vmm_scheme \<Rightarrow> u32 \<Rightarrow> bool" where
  "apart s d \<longleftrightarrow> (\<forall>i < 1024. present (phys_mem s) d i \<longrightarrow>
     mword (phys_mem s) d i = mword (phys_mem s) (kernel_page_directory s) i \<or>
     table_of (phys_mem s) d i \<notin> tables (phys_mem s) (kernel_page_directory s))"

lemma vm_ok_core: "vm_ok s d \<Longrightarrow> vm_core s d" "vm_ok s d \<Longrightarrow> d \<noteq> kernel_page_directory s \<Longrightarrow> apart s d"
  using space_okD(1) [of s "kernel_page_directory s"] by (simp_all add: vm_ok_def vm_core_def apart_def)

text \<open>\<open>stranger s d c\<close>: \<open>c\<close> is another space; the tables it has in common with \<open>d\<close> are the kernel's.\<close>

definition stranger :: "'a vmm_scheme \<Rightarrow> u32 \<Rightarrow> u32 \<Rightarrow> bool" where
  "stranger s d c \<longleftrightarrow> other s d c \<and> d \<noteq> kernel_page_directory s \<and>
     tables (phys_mem s) c \<inter> tables (phys_mem s) d \<subseteq> tables (phys_mem s) (kernel_page_directory s)"

lemma kernel_stranger: "vm_ok s d \<Longrightarrow> d \<noteq> kernel_page_directory s \<Longrightarrow> stranger s d (kernel_page_directory s)"
  using space_okD(3) [of s "kernel_page_directory s"]
  by (auto simp: vm_ok_def stranger_def other_def space_ok_def)

text \<open>Up to the last store: the directory entry is present and its table is private.\<close>

lemma map_ready:
  fixes s :: "'a vmm_scheme"
  assumes ok: "vm_core s d" and pool: "pmm_pool s \<noteq> {} \<or> d = kernel_page_directory s \<and> present (phys_mem s) d i"
    and i: "i < 1024"
  shows "\<exists>t u x. unshare d i flags s = Inr (True, t) \<and> ensure_table d i flags t = Inr (True, u) \<and>
    set_user d i flags u = Inr x \<and> prepared s x d \<and> present (phys_mem x) d i \<and>
    card (pmm_pool s) \<le> card (pmm_pool x) + 1 \<and>
    (apart s d \<longrightarrow> (\<forall>c. stranger s d c \<longrightarrow> table_of (phys_mem x) d i \<notin> tables (phys_mem x) c))"
proof -
  let ?k = "kernel_page_directory s" and ?m = "phys_mem s"
  have O: "pmm_inv s" "direct s" "space_ok s d" "reachable_from s d" using ok by (simp_all add: vm_core_def)
  have K: "?k \<in> pmm_managed s" using ok by (simp add: vm_core_def)
  from unshare_prepared [OF O i K, of flags] obtain g0 t where
    t0: "unshare d i flags s = Inr (g0, t)" "prepared s t d" "pmm_pool s \<noteq> {} \<longrightarrow> g0"
      "present (phys_mem t) d i = present ?m d i" "\<not> present ?m d i \<longrightarrow> t = s"
      "g0 \<and> present ?m d i \<longrightarrow> d = ?k \<or> table_of (phys_mem t) d i \<in> pmm_pool s \<or>
         mword ?m d i \<noteq> mword ?m ?k i \<and> table_of (phys_mem t) d i = table_of ?m d i"
      "card (pmm_pool s) \<le> card (pmm_pool t) + 1" by blast
  then have g0: "g0" using pool by (auto simp: unshare_def)
  note t = t0(1,2,4,5) t0(6) [simplified g0]
  have T: "pmm_inv t" "direct t" "space_ok t d" using t(2) by (simp_all add: prepared_def)
  from ensure_prepared [OF T prepared_reachable [OF t(2) O(4)] i, of flags] obtain go u where
    u: "ensure_table d i flags t = Inr (go, u)" "prepared t u d" "present (phys_mem t) d i \<longrightarrow> go \<and> u = t"
      "pmm_pool t \<noteq> {} \<longrightarrow> go" "go \<longrightarrow> present (phys_mem u) d i"
      "go \<and> \<not> present (phys_mem t) d i \<longrightarrow> table_of (phys_mem u) d i \<in> pmm_pool t"
      "card (pmm_pool t) \<le> card (pmm_pool u) + 1" by blast
  have go: "go" using u(3,4) t(3,4) pool by (cases "present ?m d i") auto
  note P = prepared_trans [OF t(2) u(2)]
  have U: "pmm_inv u" "direct u" "space_ok u d" using P by (simp_all add: prepared_def)
  from set_user_prepared [OF U prepared_reachable [OF P O(4)] i, of flags] obtain x where
    x: "set_user d i flags u = Inr x" "prepared u x d"
      "present (phys_mem x) d i = present (phys_mem u) d i"
      "table_of (phys_mem x) d i = table_of (phys_mem u) d i" "pmm_pool x = pmm_pool u" using i by blast
  note Q = prepared_trans [OF P x(2)]
  have "table_of (phys_mem x) d i \<notin> tables (phys_mem x) c" if ap: "apart s d" and c: "stranger s d c" for c
  proof -
    have tc: "tables (phys_mem x) c = tables ?m c" "tables ?m c \<inter> pmm_pool s = {}" "d \<noteq> ?k"
      using c Q by (auto simp: stranger_def prepared_def other_def)
    show ?thesis
    proof (cases "table_of (phys_mem x) d i \<in> pmm_pool s")
      case True
      then show ?thesis using tc by auto
    next
      case False
      have "pmm_pool t \<subseteq> pmm_pool s" using t(2) by (simp add: prepared_def)
      then have pr: "present ?m d i" using False u(6) go x(4) t(3) by auto
      then have "u = t" using u(3) t(3) by simp
      then have "mword ?m d i \<noteq> mword ?m ?k i" "table_of (phys_mem x) d i = table_of ?m d i"
        using t(5) pr False x(4) tc(3) by auto
      moreover from this have "table_of ?m d i \<notin> tables ?m ?k"
        using ap pr i by (auto simp: apart_def)
      ultimately show ?thesis
        using c table_in [OF i pr] tc(1) by (auto simp: stranger_def)
    qed
  qed
  moreover have "unshare d i flags s = Inr (True, t)" "ensure_table d i flags t = Inr (True, u)"
    using t(1) u(1) g0 go by simp_all
  moreover have "present (phys_mem x) d i" using u(5) go x(3) by simp
  moreover have "card (pmm_pool s) \<le> card (pmm_pool x) + 1"
    using t0(4,5,7) u(3,7) x(5) by (cases "present ?m d i") auto
  ultimately show ?thesis using x(1) Q by blast
qed

lemma pte_bits:
  assumes "take_bit 12 flags = flags"
  shows "((p AND 0xFFFFF000) OR flags OR VMM_PRESENT) AND 1 \<noteq> 0"
    "((p AND 0xFFFFF000) OR flags OR VMM_PRESENT) AND 0xFFFFF000 = p AND 0xFFFFF000"
proof -
  have f: "take_bit 12 (flags OR 1) = flags OR 1" using assms by simp
  note b = frame_entry_bits [OF masked_aligned f, of p]
  have "(flags OR 1) AND 1 = 1" by (simp add: bit.conj_disj_distrib2 bit.disj_conj_distrib2)
  then show "((p AND 0xFFFFF000) OR flags OR VMM_PRESENT) AND 1 \<noteq> 0"
    "((p AND 0xFFFFF000) OR flags OR VMM_PRESENT) AND 0xFFFFF000 = p AND 0xFFFFF000"
    using b by (simp_all add: VMM_PRESENT_def or.assoc)
qed

text \<open>What a mapping keeps besides the translations.\<close>

definition map_keeps :: "'a vmm_scheme \<Rightarrow> 'a vmm_scheme \<Rightarrow> u32 \<Rightarrow> bool" where
  "map_keeps s t d \<longleftrightarrow> pmm_inv t \<and> pmm_pool t \<subseteq> pmm_pool s \<and> card (pmm_pool s) \<le> card (pmm_pool t) + 1 \<and>
     space_ok t d \<and> tables (phys_mem t) d \<subseteq> tables (phys_mem s) d \<union> pmm_pool s \<and>
     (\<forall>g j. aligned_page g \<longrightarrow> j < 1024 \<longrightarrow> g \<notin> tables (phys_mem s) d \<union> pmm_pool s \<longrightarrow>
        mword (phys_mem t) g j = mword (phys_mem s) g j)"

lemma map_keeps_store:
  fixes s x :: "'a vmm_scheme"
  assumes x: "prepared s x d" and i: "i < 1024" "j < 1024" and p: "present (phys_mem x) d i"
    and c: "card (pmm_pool s) \<le> card (pmm_pool x) + 1"
  shows "map_keeps s (x\<lparr>phys_mem := store32 (phys_mem x) (entry_at (table_of (phys_mem x) d i) j) e\<rparr>) d"
proof -
  let ?T = "table_of (phys_mem x) d i" let ?m = "store32 (phys_mem x) (entry_at ?T j) e"
  have X: "space_ok x d" "pmm_inv x" using x by (simp_all add: prepared_def)
  note D = space_okD [OF X(1)]
  have T: "aligned_page ?T" "?T \<noteq> d" "?T \<in> tables (phys_mem x) d"
    using D(5) [OF i(1) p] table_in [OF i(1) p] by (simp_all add: table_of_def)
  have w: "mword ?m g k = (if g = ?T \<and> k = j then e else mword (phys_mem x) g k)" if "aligned_page g" "k < 1024" for g k
    using that T(1) i(2) by (auto simp: mword_store)
  have pd: "present ?m d k = present (phys_mem x) d k" "table_of ?m d k = table_of (phys_mem x) d k" if "k < 1024" for k
    using w [OF D(3) that] T(2) by (simp_all add: present_def [of _ d] table_of_def [of _ d k])
  then have tb: "tables ?m d = tables (phys_mem x) d" by (intro set_eqI) (simp add: in_tables cong: conj_cong)
  have sub: "tables (phys_mem x) d \<subseteq> tables (phys_mem s) d \<union> pmm_pool s" using x by (simp add: prepared_def)
  have "mword ?m g k = mword (phys_mem s) g k"
    if "aligned_page g" "k < 1024" "g \<notin> tables (phys_mem s) d \<union> pmm_pool s" for g k
  proof -
    have "g \<noteq> ?T" using T(3) sub that(3) by auto
    then show ?thesis using that x by (simp add: w prepared_def)
  qed
  moreover have "space_ok (x\<lparr>phys_mem := ?m\<rparr>) d" using X(1) by (simp add: space_ok_def tb pd)
  ultimately show ?thesis using x c sub by (simp add: map_keeps_def tb prepared_def)
qed

lemma mapped_direct:
  fixes s t :: "'a vmm_scheme"
  assumes "direct s" "paging s" "cur s = d" "total_pages s \<le> v div PAGE_SIZE" "mem_only s t"
    and "\<And>w. walk (phys_mem t) d w = (if same_page v w then q w else walk (phys_mem s) d w)"
  shows "direct t"
proof -
  have "translate t a = Inr a" if "a div PAGE_SIZE < total_pages s" for a
  proof -
    have "\<not> same_page v a"
    proof
      assume "same_page v a"
      then have "v div PAGE_SIZE = a div PAGE_SIZE"
        by (metis same_page_def page_high page_div PAGE_SIZE_def drop_push)
      with that assms(4) show False by simp
    qed
    then show ?thesis
      using assms(1-3,6) that mem_only_fields [OF assms(5)] by (simp add: direct_def translate_def)
  qed
  then show ?thesis using mem_only_fields(1) [OF assms(5)] by (simp add: direct_def)
qed

lemma map_page_effect:
  fixes s :: "'a vmm_scheme"
  assumes ok: "vm_core s d" and fl: "take_bit 12 flags = flags"
    and pool: "pmm_pool s \<noteq> {} \<or> d = kernel_page_directory s \<and> present (phys_mem s) d (pd_index v)"
  shows "\<exists>t. vmm_map_page_in d v p flags s = Inr t \<and>
    (\<forall>w. walk (phys_mem t) d w =
       (if same_page v w then Some ((p AND 0xFFFFF000) + (w AND 0xFFF)) else walk (phys_mem s) d w)) \<and>
    (apart s d \<longrightarrow> (\<forall>c. stranger s d c \<longrightarrow> walk (phys_mem t) c = walk (phys_mem s) c)) \<and>
    map_keeps s t d \<and> (paging s \<longrightarrow> cur s = d \<longrightarrow> total_pages s \<le> v div PAGE_SIZE \<longrightarrow> direct t)"
proof -
  let ?i = "pd_index v" and ?e = "(p AND 0xFFFFF000) OR flags OR VMM_PRESENT"
  from map_ready [OF ok pool index_bounds(1) [of v], of flags] obtain t u x where
    x: "unshare d ?i flags s = Inr (True, t)" "ensure_table d ?i flags t = Inr (True, u)"
      "set_user d ?i flags u = Inr x" "prepared s x d" "present (phys_mem x) d ?i"
      "card (pmm_pool s) \<le> card (pmm_pool x) + 1"
      "apart s d \<longrightarrow> (\<forall>c. stranger s d c \<longrightarrow> table_of (phys_mem x) d ?i \<notin> tables (phys_mem x) c)" by blast
  have X: "direct x" "space_ok x d" "walk (phys_mem x) d = walk (phys_mem s) d"
    using x(4) by (simp_all add: prepared_def)
  let ?T = "table_of (phys_mem x) d ?i"
  let ?t = "x\<lparr>phys_mem := store32 (phys_mem x) (entry_at ?T (pt_index v)) ?e\<rparr>"
  have "vload32 x (entry_at d ?i) = Inr (mword (phys_mem x) d ?i)"
    by (rule direct_load [OF X(1) space_okD(1) [OF X(2)] index_bounds(1)])
  moreover have "vstore32 (entry_at ?T (pt_index v)) ?e x = Inr ?t"
    using space_okD(4) [OF X(2) index_bounds(1) x(5)] by (intro direct_store [OF X(1)]) auto
  ultimately have mp: "vmm_map_page_in d v p flags s = Inr ?t"
    using x(1-3) by (simp add: vmm_map_page_in_def pd_index_def pt_index_def Let_def table_of_def)
  have wk: "walk (phys_mem ?t) d w =
       (if same_page v w then Some ((p AND 0xFFFFF000) + (w AND 0xFFF)) else walk (phys_mem s) d w)" for w
    using store_pte [OF X(2) x(5), of ?e w] pte_bits [OF fl, of p] X(3) by simp
  have "walk (phys_mem ?t) c = walk (phys_mem s) c" if ap: "apart s d" and c: "stranger s d c" for c
  proof -
    have "aligned_page c" "walk (phys_mem x) c = walk (phys_mem s) c"
      using c x(4) by (auto simp: stranger_def prepared_def other_def)
    then show ?thesis
      using walk_store_outside(1) [of c ?T "phys_mem x" "pt_index v" ?e] x(7) ap c by (simp add: table_of_def)
  qed
  moreover have "map_keeps s ?t d"
    using map_keeps_store [OF x(4) index_bounds x(5), of v ?e] x(6) by (simp add: map_keeps_def)
  moreover have "direct ?t" if "paging s" "cur s = d" "total_pages s \<le> v div PAGE_SIZE"
    using ok by (intro mapped_direct [OF _ that keptD [OF kept_map_page_in mp] wk]) (simp add: vm_core_def)
  ultimately show ?thesis using mp wk by blast
qed

text \<open>A new page in the current space, above the memory of the machine.\<close>

lemma alloc_page_effect:
  fixes s :: "'a vmm_scheme"
  assumes ok: "vm_core s d" and cu: "paging s" "cur s = d" "current_page_directory s = d" and pool: "2 \<le> card (pmm_pool s)"
    and fl: "take_bit 12 flags = flags" and v: "total_pages s \<le> v div PAGE_SIZE"
  shows "\<exists>p t. vmm_alloc_page v flags s = Inr (p, t) \<and> p \<noteq> 0 \<and> p \<in> pmm_pool s \<and> p \<in> pmm_managed s \<and> vm_core t d \<and> mem_only s t \<and>
    pmm_pool t \<subseteq> pmm_pool s - {p} \<and> card (pmm_pool s) \<le> card (pmm_pool t) + 2 \<and>
    (\<forall>w. walk (phys_mem t) d w = (if same_page v w then Some (p + (w AND 0xFFF)) else walk (phys_mem s) d w)) \<and>
    tables (phys_mem t) d \<subseteq> tables (phys_mem s) d \<union> (pmm_pool s - {p}) \<and>
    (\<forall>g j. aligned_page g \<longrightarrow> j < 1024 \<longrightarrow> g \<notin> tables (phys_mem s) d \<union> (pmm_pool s - {p}) \<longrightarrow>
       mword (phys_mem t) g j = mword (phys_mem s) g j)"
proof -
  have O: "pmm_inv s" "direct s" "space_ok s d" "kernel_page_directory s \<in> pmm_managed s" using ok by (simp_all add: vm_core_def)
  obtain p s1 where al: "pmm_alloc_page s = (p, s1)" by fastforce
  have "pmm_pool s \<noteq> {}" using pool by auto
  then have p0: "p \<noteq> 0" using fra.alloc_zero_iff [OF O(1)] al by simp
  note A = alloc_frame [OF O(1,2) al p0] and K = alloc_keeps [OF al] and M = mem_only_alloc [OF al]
  have c1: "vm_core s1 d" using alloc_prepared [OF O(1-3) al p0] ok cu(2) K
    by (auto simp: vm_core_def prepared_def reachable_from_def)
  have n1: "card (pmm_pool s) = card (pmm_pool s1) + 1"
    using card_Suc_Diff1 [OF finite_u32 A(1)] A(2) by simp
  then have "pmm_pool s1 \<noteq> {}" using pool by auto
  from map_page_effect [OF c1 fl disjI1 [OF this], of v p] obtain t where
    t: "vmm_map_page_in d v p flags s1 = Inr t"
      "\<forall>w. walk (phys_mem t) d w = (if same_page v w then Some ((p AND 0xFFFFF000) + (w AND 0xFFF)) else walk (phys_mem s1) d w)"
      "map_keeps s1 t d" "paging s1 \<longrightarrow> cur s1 = d \<longrightarrow> total_pages s1 \<le> v div PAGE_SIZE \<longrightarrow> direct t" by blast
  have M1: "mem_only s t" using mem_only_trans [OF M keptD [OF kept_map_page_in t(1)]] .
  note F = mem_only_fields [OF M1]
  have pa: "p AND 0xFFFFF000 = p"
    unfolding page_mask using base_plus_high [OF A(6), of 0] by simp
  have mk: "pmm_inv t" "pmm_pool t \<subseteq> pmm_pool s1" "card (pmm_pool s1) \<le> card (pmm_pool t) + 1" "space_ok t d"
    "tables (phys_mem t) d \<subseteq> tables (phys_mem s) d \<union> pmm_pool s1"
    "\<forall>g j. aligned_page g \<longrightarrow> j < 1024 \<longrightarrow> g \<notin> tables (phys_mem s) d \<union> pmm_pool s1 \<longrightarrow>
       mword (phys_mem t) g j = mword (phys_mem s) g j"
    using t(3) K(1) by (simp_all add: map_keeps_def)
  have "direct t" using t(4) K cu v by simp
  then have "vm_core t d" using mk(1,4) F(2,5,7) cu(2) O(4) by (simp add: vm_core_def reachable_from_def)
  moreover have "walk (phys_mem t) d w = (if same_page v w then Some (p + (w AND 0xFFF)) else walk (phys_mem s) d w)" for w
    using t(2) pa K(1) by simp
  moreover have "vmm_alloc_page v flags s = Inr (p, t)"
    using al p0 t(1) K(5) cu(3) by (simp add: vmm_alloc_page_def vmm_map_page_def)
  ultimately show ?thesis using p0 M1 n1 mk(2,3,5,6) A(1,2,3,5) by (intro exI [of _ p] exI [of _ t]) simp
qed

text \<open>The same without regard to the number of frames left: the page may be mapped or not, but what lies
  outside it is kept.\<close>

definition page_kept :: "'a vmm_scheme \<Rightarrow> 'a vmm_scheme \<Rightarrow> u32 \<Rightarrow> u32 \<Rightarrow> bool" where
  "page_kept s t d v \<longleftrightarrow> vm_core t d \<and> mem_only s t \<and> pmm_pool t \<subseteq> pmm_pool s \<and>
     tables (phys_mem t) d \<subseteq> tables (phys_mem s) d \<union> pmm_pool s \<and>
     (\<forall>w. \<not> same_page v w \<longrightarrow> walk (phys_mem t) d w = walk (phys_mem s) d w) \<and>
     (\<forall>g j. aligned_page g \<longrightarrow> j < 1024 \<longrightarrow> g \<notin> tables (phys_mem s) d \<union> pmm_pool s \<longrightarrow>
        mword (phys_mem t) g j = mword (phys_mem s) g j)"

lemma map_page_last:
  fixes s :: "'a vmm_scheme"
  assumes ok: "vm_core s d" and k: "d = kernel_page_directory s" and cu: "paging s" "cur s = d"
    and fl: "take_bit 12 flags = flags" and v: "total_pages s \<le> v div PAGE_SIZE"
  shows "\<exists>t. vmm_map_page_in d v p flags s = Inr t \<and> page_kept s t d v"
proof (cases "pmm_pool s \<noteq> {} \<or> present (phys_mem s) d (pd_index v)")
  case True
  with map_page_effect [OF ok fl, of v p] k obtain t where
    t: "vmm_map_page_in d v p flags s = Inr t" "map_keeps s t d" "direct t"
      "\<forall>w. walk (phys_mem t) d w =
        (if same_page v w then Some ((p AND 0xFFFFF000) + (w AND 0xFFF)) else walk (phys_mem s) d w)"
    using cu v by blast
  have M: "mem_only s t" by (rule keptD [OF kept_map_page_in t(1)])
  have "vm_core t d" using t(2,3) ok mem_only_fields [OF M] cu by (simp add: map_keeps_def vm_core_def reachable_from_def)
  then show ?thesis using t M by (auto simp: page_kept_def map_keeps_def)
next
  case False
  have O: "pmm_inv s" "direct s" "space_ok s d" "reachable_from s d" using ok by (simp_all add: vm_core_def)
  from ensure_prepared [OF O index_bounds(1), of v flags] obtain go x where
    x: "ensure_table d (pd_index v) flags s = Inr (go, x)" "prepared s x d"
      "go \<and> \<not> present (phys_mem s) d (pd_index v) \<longrightarrow> table_of (phys_mem x) d (pd_index v) \<in> pmm_pool s" by blast
  then have "\<not> go" using False by auto
  then have m: "vmm_map_page_in d v p flags s = Inr x"
    using x(1) k by (simp add: vmm_map_page_in_def unshare_def pd_index_def Let_def)
  have M: "mem_only s x" by (rule keptD [OF kept_map_page_in m])
  have "vm_core x d"
    using x(2) prepared_reachable [OF x(2) O(4)] ok by (simp add: prepared_def vm_core_def)
  then show ?thesis using m M x(2) by (auto simp: page_kept_def prepared_def)
qed

lemma alloc_page_kept:
  fixes s :: "'a vmm_scheme"
  assumes ok: "vm_core s d" and k: "d = kernel_page_directory s"
    and cu: "paging s" "cur s = d" "current_page_directory s = d"
    and fl: "take_bit 12 flags = flags" and v: "total_pages s \<le> v div PAGE_SIZE"
  shows "\<exists>p t. vmm_alloc_page v flags s = Inr (p, t) \<and> page_kept s t d v"
proof -
  have O: "pmm_inv s" "direct s" "space_ok s d" using ok by (simp_all add: vm_core_def)
  obtain p u where al: "pmm_alloc_page s = (p, u)" by fastforce
  show ?thesis
  proof (cases "p = 0")
    case True
    then have "pmm_pool s = {}" using fra.alloc_zero_iff [OF O(1)] al by simp
    then have "free_count s = 0" using card_pool [OF O(1)] by (simp add: unat_eq_0)
    then have "vmm_alloc_page v flags s = Inr (0, s)" by (simp add: vmm_alloc_page_def pmm_alloc_page_def)
    then show ?thesis using ok by (auto simp: page_kept_def mem_only_refl)
  next
    case False
    note A = alloc_frame [OF O(1,2) al False] and K = alloc_keeps [OF al] and M = mem_only_alloc [OF al]
    have c: "vm_core u d" using alloc_prepared [OF O(1-3) al False] ok cu(2) K
      by (auto simp: vm_core_def prepared_def reachable_from_def)
    have "d = kernel_page_directory u" "paging u" "cur u = d" "total_pages u \<le> v div PAGE_SIZE" using k cu v K by simp_all
    from map_page_last [OF c this(1-3) fl this(4), of p] obtain t where
      t: "vmm_map_page_in d v p flags u = Inr t" "page_kept u t d v" by blast
    have "vmm_alloc_page v flags s = Inr (p, t)"
      using al False t(1) K(5) cu(3) by (simp add: vmm_alloc_page_def vmm_map_page_def)
    moreover have "page_kept s t d v"
      using t(2) mem_only_trans [OF M] A(2) K(1) by (auto simp: page_kept_def)
    ultimately show ?thesis by blast
  qed
qed

text \<open>C1: as long as a frame is left for a missing table, mapping a page into the current space
  returns, makes exactly that page translate to the given frame, keeps every other translation of
  the space, and changes no translation of the kernel's space nor of any other space that shares
  with it at most tables of the kernel.\<close>

theorem map_page_isolated:
  assumes "vm_ok s d" "current_page_directory s = d" "pmm_pool s \<noteq> {}" "take_bit 12 flags = flags"
  shows "\<exists>t. vmm_map_page v p flags s = Inr t \<and>
    (\<forall>w. walk (phys_mem t) d w =
       (if same_page v w then Some ((p AND 0xFFFFF000) + (w AND 0xFFF)) else walk (phys_mem s) d w)) \<and>
    (\<forall>c. stranger s d c \<longrightarrow> walk (phys_mem t) c = walk (phys_mem s) c) \<and>
    (d \<noteq> kernel_page_directory s \<longrightarrow>
       walk (phys_mem t) (kernel_page_directory s) = walk (phys_mem s) (kernel_page_directory s))"
  using map_page_effect [OF vm_ok_core(1) [OF assms(1)] assms(4) disjI1 [OF assms(3)], of v p] kernel_stranger [OF assms(1)] vm_ok_core(2) [OF assms(1)]
    assms(2) by (auto simp: vmm_map_page_def stranger_def)

text \<open>What \<open>vmm_get_phys\<close> returns is what the processor's walk finds, 0 when it finds nothing.\<close>

lemma get_phys_effect:
  assumes "direct s" "space_ok s d" "current_page_directory s = d"
  shows "vmm_get_phys v s = Inr (case walk (phys_mem s) d v of None \<Rightarrow> 0 | Some p \<Rightarrow> p)"
proof -
  have l: "vload32 s (entry_at d (pd_index v)) = Inr (mword (phys_mem s) d (pd_index v))"
    by (rule direct_load [OF assms(1) space_okD(1) [OF assms(2)] index_bounds(1)])
  show ?thesis
  proof (cases "present (phys_mem s) d (pd_index v)")
    case True
    then have "table_of (phys_mem s) d (pd_index v) \<in> pmm_managed s"
      using space_okD(4) [OF assms(2) index_bounds(1)] by blast
    note l2 = direct_load [OF assms(1) this index_bounds(2), of v]
    show ?thesis
      using l l2 True assms(3)
      by (simp add: vmm_get_phys_def walk_words Let_def pd_index_def [symmetric] pt_index_def [symmetric]
          VMM_PRESENT_def present_def table_of_def)
  next
    case False
    then show ?thesis
      using l assms(3) by (simp add: vmm_get_phys_def walk_words Let_def pd_index_def [symmetric]
          VMM_PRESENT_def present_def)
  qed
qed

lemma unmap_effect:
  fixes s :: "'a vmm_scheme"
  assumes "direct s" "space_ok s d" "current_page_directory s = d"
  shows "\<exists>t. vmm_unmap_page v s = Inr t \<and>
    (\<forall>w. walk (phys_mem t) d w = (if same_page v w then None else walk (phys_mem s) d w)) \<and>
    pmm_pool t = pmm_pool s \<and> pmm_managed t = pmm_managed s \<and> pmm_inv t = pmm_inv s"
proof -
  have l: "vload32 s (entry_at d (pd_index v)) = Inr (mword (phys_mem s) d (pd_index v))"
    by (rule direct_load [OF assms(1) space_okD(1) [OF assms(2)] index_bounds(1)])
  show ?thesis
  proof (cases "present (phys_mem s) d (pd_index v)")
    case True
    let ?T = "table_of (phys_mem s) d (pd_index v)"
    have st: "vstore32 (entry_at ?T (pt_index v)) 0 s =
        Inr (s\<lparr>phys_mem := store32 (phys_mem s) (entry_at ?T (pt_index v)) 0\<rparr>)"
      using space_okD(4) [OF assms(2) index_bounds(1) True] by (intro direct_store [OF assms(1)]) auto
    have "vmm_unmap_page v s = Inr (s\<lparr>phys_mem := store32 (phys_mem s) (entry_at ?T (pt_index v)) 0\<rparr>)"
      using l st True assms(3)
      by (simp add: vmm_unmap_page_def Let_def pd_index_def [symmetric] pt_index_def [symmetric]
          VMM_PRESENT_def present_def table_of_def)
    then show ?thesis using store_pte [OF assms(2) True, of 0] by simp
  next
    case False
    then have "vmm_unmap_page v s = Inr s"
      using l assms(3) by (simp add: vmm_unmap_page_def Let_def pd_index_def [symmetric]
          VMM_PRESENT_def present_def)
    moreover have "walk (phys_mem s) d w = None" if "same_page v w" for w
      using that False by (simp add: walk_present same_page_index)
    ultimately show ?thesis by auto
  qed
qed

text \<open>C23: \<open>vmm_get_phys\<close> agrees with the processor's walk of the current space (0 for a page
  that is not mapped), and \<open>vmm_unmap_page\<close> removes exactly the translations of its page.\<close>

theorem unmap_and_lookup:
  assumes "direct s" "space_ok s d" "current_page_directory s = d"
  shows "vmm_get_phys v s = Inr (case walk (phys_mem s) d v of None \<Rightarrow> 0 | Some p \<Rightarrow> p) \<and>
    (\<exists>t. vmm_unmap_page v s = Inr t \<and>
      (\<forall>w. walk (phys_mem t) d w = (if same_page v w then None else walk (phys_mem s) d w)))"
  using get_phys_effect [OF assms, of v] unmap_effect [OF assms, of v] by blast

section \<open>A failed mapping\<close>

text \<open>C39: with a single frame left, \<open>vmm_alloc_page\<close> for a page whose table is missing takes that
  frame, finds none for the table, and returns the frame as if it were mapped: the page is not.\<close>

theorem alloc_page_unmapped:
  fixes s :: "'a vmm_scheme"
  assumes "vm_ok s d" "current_page_directory s = d" "pmm_pool s = {a}"
    and "\<not> present (phys_mem s) d (pd_index v)"
  shows "\<exists>t. vmm_alloc_page v flags s = Inr (a, t) \<and> a \<noteq> 0 \<and> walk (phys_mem t) d v = None"
proof -
  have O: "pmm_inv s" "direct s" "space_ok s d" "reachable_from s d" "space_ok s (kernel_page_directory s)"
    using assms(1) by (simp_all add: vm_ok_def)
  obtain b u where au: "pmm_alloc_page s = (b, u)" by fastforce
  have b: "b = a" "pmm_pool u = {}" "b \<noteq> 0"
    using fra.alloc_takes [OF O(1) _ au] fra.pool_frames [OF O(1), of b] assms(3) by auto
  note K = alloc_keeps [OF au] and A = alloc_frame [OF O(1,2) au b(3)]
  note P = alloc_prepared [OF O(1-3) au b(3)]
  have U: "space_ok u d" "reachable_from u d"
    using P prepared_reachable [OF P O(4)] by (simp_all add: prepared_def)
  have k: "kernel_page_directory u \<in> pmm_managed u" using space_okD(1) [OF O(5)] K A(3) by simp
  from unshare_prepared [OF A(4,7) U index_bounds(1) k, of v flags] obtain go t where
    t: "unshare d (pd_index v) flags u = Inr (go, t)"
      "\<not> present (phys_mem u) d (pd_index v) \<longrightarrow> t = u" by blast
  then have "t = u" using assms(4) K(1) by simp
  from ensure_prepared [OF A(4,7) U index_bounds(1), of v flags] obtain go' x where
    x: "ensure_table d (pd_index v) flags u = Inr (go', x)" "prepared u x d"
      "go' \<and> \<not> present (phys_mem u) d (pd_index v) \<longrightarrow> table_of (phys_mem x) d (pd_index v) \<in> pmm_pool u" by blast
  then have "\<not> go'" using b(2) assms(4) K(1) by auto
  then have "vmm_map_page v a flags u = Inr (if go then x else u)"
    using t(1) x(1) \<open>t = u\<close> assms(2) K
    by (simp add: vmm_map_page_def vmm_map_page_in_def pd_index_def Let_def)
  moreover have "walk (phys_mem x) d v = None" "walk (phys_mem u) d v = None"
    using x(2) assms(4) K(1) by (simp_all add: prepared_def walk_present)
  ultimately show ?thesis using au b by (auto simp: vmm_alloc_page_def)
qed

section \<open>Creating an address space\<close>

lemma create_effect:
  fixes s :: "'a vmm_scheme"
  assumes inv: "pmm_inv s" and dir: "direct s" and k: "space_ok s (kernel_page_directory s)"
    and curr: "paging s \<Longrightarrow> tables (phys_mem s) (cur s) \<inter> pmm_pool s = {}" and pool: "pmm_pool s \<noteq> {}"
  shows "\<exists>pd t. vmm_create_address_space s = Inr (pd, t) \<and> pd \<noteq> 0 \<and> pd \<in> pmm_pool s \<and>
    pmm_pool t = pmm_pool s - {pd} \<and> pmm_managed t = pmm_managed s \<and> pmm_inv t \<and> direct t \<and>
    kernel_page_directory t = kernel_page_directory s \<and> cr3 t = cr3 s \<and> paging t = paging s \<and>
    (\<forall>g j. aligned_page g \<longrightarrow> j < 1024 \<longrightarrow> mword (phys_mem t) g j =
      (if g = pd then if present (phys_mem s) (kernel_page_directory s) j
         then mword (phys_mem s) (kernel_page_directory s) j else 0
       else mword (phys_mem s) g j))"
proof -
  let ?k = "kernel_page_directory s" and ?m = "phys_mem s"
  obtain pd u where au: "pmm_alloc_page s = (pd, u)" by fastforce
  then have nz: "pd \<noteq> 0" using fra.alloc_zero_iff [OF inv] pool by simp
  note A = alloc_frame [OF inv dir au nz] and K = alloc_keeps [OF au]
  have na: "pd \<notin> tables (phys_mem u) (cur u)" if "paging u" using curr A(1) that K by auto
  have km: "?k \<in> pmm_managed u" "?k \<noteq> pd" using space_okD(1,2) [OF k] A(1,3) by auto
  let ?body = "\<lambda>i s. kbind (vload32 s (entry_at (kernel_page_directory s) i)) (\<lambda>w.
      vstore32 (entry_at pd i) (if w AND VMM_PRESENT \<noteq> 0 then w else 0) s)"
  have "\<exists>m. for_err 0 1024 ?body u = Inr (u\<lparr>phys_mem := m\<rparr>) \<and> direct (u\<lparr>phys_mem := m\<rparr>) \<and>
    (\<forall>g j. aligned_page g \<longrightarrow> j < 1024 \<longrightarrow> mword m g j =
      (if g = pd \<and> j < 1024 then if present ?m ?k j then mword ?m ?k j else 0 else mword (phys_mem u) g j))"
  proof (rule fill_table [OF A(7,5) na])
    fix j :: u32 and m
    assume "j < 1024" "direct (u\<lparr>phys_mem := m\<rparr>)"
      and "\<And>g k. aligned_page g \<Longrightarrow> g \<noteq> pd \<Longrightarrow> k < 1024 \<Longrightarrow> mword m g k = mword (phys_mem u) g k"
    then show "?body j (u\<lparr>phys_mem := m\<rparr>) = vstore32 (entry_at pd j)
        (if present ?m ?k j then mword ?m ?k j else 0) (u\<lparr>phys_mem := m\<rparr>)"
      using direct_load [of "u\<lparr>phys_mem := m\<rparr>" ?k j] km managed_aligned [OF km(1)] K
      by (simp add: present_def VMM_PRESENT_def)
  qed simp_all
  then obtain m where m: "for_err 0 1024 ?body u = Inr (u\<lparr>phys_mem := m\<rparr>)" "direct (u\<lparr>phys_mem := m\<rparr>)"
    "\<forall>g j. aligned_page g \<longrightarrow> j < 1024 \<longrightarrow> mword m g j =
      (if g = pd then if present ?m ?k j then mword ?m ?k j else 0 else mword ?m g j)"
    unfolding K(1) by auto
  have "vmm_create_address_space s = Inr (pd, u\<lparr>phys_mem := m\<rparr>)"
    using au nz m(1) by (simp add: vmm_create_address_space_def)
  then show ?thesis using A K m(2,3) nz by auto
qed

lemma create_space:
  fixes s :: "'a vmm_scheme"
  assumes inv: "pmm_inv s" and dir: "direct s" and k: "space_ok s (kernel_page_directory s)"
    and curr: "paging s \<Longrightarrow> tables (phys_mem s) (cur s) \<inter> pmm_pool s = {}" and pool: "pmm_pool s \<noteq> {}"
  shows "\<exists>pd t. vmm_create_address_space s = Inr (pd, t) \<and> pd \<in> pmm_pool s \<and> vm_ok t pd \<and>
    walk (phys_mem t) pd = walk (phys_mem s) (kernel_page_directory s) \<and>
    (\<forall>c. aligned_page c \<longrightarrow> tables (phys_mem s) c \<inter> pmm_pool s = {} \<longrightarrow>
       walk (phys_mem t) c = walk (phys_mem s) c \<and> tables (phys_mem t) c = tables (phys_mem s) c)"
proof -
  let ?k = "kernel_page_directory s" and ?m = "phys_mem s"
  from create_effect [OF assms] obtain pd t where
    t: "vmm_create_address_space s = Inr (pd, t)" "pd \<noteq> 0" "pd \<in> pmm_pool s"
      "pmm_pool t = pmm_pool s - {pd}" "pmm_managed t = pmm_managed s" "pmm_inv t" "direct t"
      "kernel_page_directory t = ?k" "cr3 t = cr3 s" "paging t = paging s"
      "\<And>g j. aligned_page g \<Longrightarrow> j < 1024 \<Longrightarrow> mword (phys_mem t) g j =
        (if g = pd then if present ?m ?k j then mword ?m ?k j else 0 else mword ?m g j)" by blast
  let ?n = "phys_mem t"
  note KD = space_okD [OF k]
  have al: "aligned_page pd" using fra.pool_frames [OF inv t(3)] by simp
  have pm: "pd \<in> pmm_managed s" using fra.pool_frames [OF inv t(3)] by simp
  have p: "present ?n pd j = present ?m ?k j" "present ?m ?k j \<Longrightarrow> table_of ?n pd j = table_of ?m ?k j"
    "present ?m ?k j \<Longrightarrow> mword ?n pd j = mword ?m ?k j" if "j < 1024" for j
    using t(11) [OF al that] by (auto simp: present_def table_of_def)
  have kt: "tables ?m ?k \<inter> pmm_pool s = {}" using k by (auto simp: space_ok_def)
  have old: "walk ?n c = walk ?m c \<and> tables ?n c = tables ?m c"
    if "aligned_page c" "tables ?m c \<inter> pmm_pool s = {}" for c
  proof -
    have "mword ?n f j = mword ?m f j" if "f \<in> tables ?m c" "j < 1024" for f j
      using t(3,11) that tables_aligned [of c f ?m] \<open>aligned_page c\<close> \<open>tables ?m c \<inter> pmm_pool s = {}\<close> by auto
    then show ?thesis by (auto intro!: ext walk_cong)
  qed
  note ko = old [OF KD(3) kt]
  have tw: "mword ?n (table_of ?m ?k j) i = mword ?m (table_of ?m ?k j) i"
    if "j < 1024" "present ?m ?k j" "i < 1024" for i j
    using KD(4) [OF that(1,2)] t(3,11) that(3) by (auto simp: table_of_def)
  have W: "walk ?n pd = walk ?m ?k"
    using tw [OF index_bounds(1) _ index_bounds(2)]
    by (auto simp: fun_eq_iff walk_present p present_def [of _ "table_of ?m ?k (pd_index v)" for v]
        table_of_def [of _ "table_of ?m ?k (pd_index v)" for v])
  have T: "tables ?n pd \<subseteq> insert pd (tables ?m ?k)" by (auto simp: in_tables p) (metis p(2))
  have npd: "pd \<notin> tables ?m ?k" using kt t(3) by auto
  have kj: "present ?n ?k j = present ?m ?k j" "table_of ?n ?k j = table_of ?m ?k j" "mword ?n ?k j = mword ?m ?k j"
    if "j < 1024" for j
    using t(3,11) KD(2,3) that by (auto simp: present_def table_of_def)
  have "space_ok t ?k" using k t(4,5) by (auto simp: space_ok_def ko kj)
  moreover have "space_ok t pd"
  proof -
    have "tables ?n pd \<subseteq> pmm_managed t - pmm_pool t"
      using T k t(4,5) pm by (auto simp: space_ok_def)
    moreover have "table_of ?n pd j \<noteq> pd" if "j < 1024" "present ?n pd j" for j
      using that npd table_in [of j ?m ?k] by (auto simp: p)
    ultimately show ?thesis using KD(6) by (simp add: space_ok_def p)
  qed
  moreover have "reachable_from t pd"
    using curr old [of "cur s"] t(3,4,9,10) by (auto simp: reachable_from_def other_def)
  moreover have "pd \<notin> tables ?n ?k" using npd ko by simp
  ultimately have "vm_ok t pd" using t(6-8) by (simp add: vm_ok_def p kj)
  then show ?thesis using t(1,3) W old by blast
qed

text \<open>C3: as long as a frame is free, \<open>vmm_create_address_space\<close> returns a new directory that
  translates exactly as the kernel's does, is well-formed and apart from it, and leaves the
  translations of the current space alone.\<close>

theorem create_copies_kernel:
  fixes s :: "'a vmm_scheme"
  assumes "vm_ok s d" "cur s = d" "pmm_pool s \<noteq> {}"
  shows "\<exists>pd t. vmm_create_address_space s = Inr (pd, t) \<and> pd \<in> pmm_pool s \<and> vm_ok t pd \<and>
    walk (phys_mem t) pd = walk (phys_mem s) (kernel_page_directory s) \<and>
    walk (phys_mem t) d = walk (phys_mem s) d"
proof -
  have O: "pmm_inv s" "direct s" "space_ok s d" "space_ok s (kernel_page_directory s)"
    using assms(1) by (simp_all add: vm_ok_def)
  have d: "aligned_page d" "tables (phys_mem s) d \<inter> pmm_pool s = {}"
    using O(3) space_okD(3) by (auto simp: space_ok_def)
  from create_space [OF O(1,2,4) _ assms(3)] d(2) assms(2) obtain pd t where
    t: "vmm_create_address_space s = Inr (pd, t)" "pd \<in> pmm_pool s" "vm_ok t pd"
      "walk (phys_mem t) pd = walk (phys_mem s) (kernel_page_directory s)"
      "\<forall>c. aligned_page c \<longrightarrow> tables (phys_mem s) c \<inter> pmm_pool s = {} \<longrightarrow>
         walk (phys_mem t) c = walk (phys_mem s) c \<and> tables (phys_mem t) c = tables (phys_mem s) c"
    by blast
  with d show ?thesis by blast
qed

section \<open>Destroying an address space\<close>

lemma pool_free:
  assumes "aligned_page a"
  shows "pmm_pool (pmm_free_page a s) = pmm_pool s \<union> ({a} \<inter> pmm_managed s)"
proof -
  let ?i = "a div PAGE_SIZE"
  have f: "free_frames (pmm_free_page a s) = (if ?i < total_pages s then insert ?i (free_frames s) else free_frames s)"
    by (auto simp: pmm_free_page_def pmm_release_def free_frames_def)
  have "b div PAGE_SIZE = ?i \<longleftrightarrow> b = a" if "aligned_page b" for b
    using aligned_index [OF assms] aligned_index [OF that] by metis
  then show ?thesis using assms by (auto simp: pmm_pool_def pmm_managed_def f)
qed

text \<open>Only the pool has changed.\<close>

definition only_pool :: "'a vmm_scheme \<Rightarrow> 'a vmm_scheme \<Rightarrow> bool" where
  "only_pool s t \<longleftrightarrow> phys_mem t = phys_mem s \<and> total_pages t = total_pages s \<and> cr3 t = cr3 s \<and>
     paging t = paging s \<and> current_page_directory t = current_page_directory s \<and>
     kernel_page_directory t = kernel_page_directory s"

lemma only_pool_direct: "only_pool s t \<Longrightarrow> direct s \<Longrightarrow> direct t"
  by (auto simp: only_pool_def intro: direct_cong)

lemma only_pool_managed: "only_pool s t \<Longrightarrow> pmm_managed t = pmm_managed s"
  by (simp add: only_pool_def pmm_managed_def)

definition mapped_frames :: "memory \<Rightarrow> u32 \<Rightarrow> u32 \<Rightarrow> u32 set" where
  "mapped_frames m pt n = {table_of m pt j | j. j < n \<and> present m pt j}"

lemma mapped_frames_cong:
  "(\<And>j. j < n \<Longrightarrow> mword m' pt j = mword m pt j) \<Longrightarrow> mapped_frames m' pt n = mapped_frames m pt n"
  unfolding mapped_frames_def present_def table_of_def by (intro Collect_cong) metis

lemma mapped_frames_step:
  assumes "k < 1024"
  shows "mapped_frames m pt (k + 1) = mapped_frames m pt k \<union> (if present m pt k then {table_of m pt k} else {})"
  by (auto simp: mapped_frames_def less_inc_iff [OF assms] le_less)

lemma free_table_effect:
  fixes s :: "'a vmm_scheme"
  assumes "direct s" "pt \<in> pmm_managed s"
  shows "\<exists>t. free_table_pages pt s = Inr t \<and> only_pool s t \<and>
    pmm_pool t = pmm_pool s \<union> (mapped_frames (phys_mem s) pt 1024 \<inter> pmm_managed s)"
  unfolding free_table_pages_def
proof (rule for_err_invariant [where P = "\<lambda>k t. only_pool s t \<and>
    pmm_pool t = pmm_pool s \<union> (mapped_frames (phys_mem s) pt k \<inter> pmm_managed s)"])
  show "only_pool s s \<and> pmm_pool s = pmm_pool s \<union> (mapped_frames (phys_mem s) pt 0 \<inter> pmm_managed s)"
    by (auto simp: only_pool_def mapped_frames_def)
next
  fix k :: u32 and t :: "'a vmm_scheme"
  assume k: "k < 1024" and t: "only_pool s t \<and>
    pmm_pool t = pmm_pool s \<union> (mapped_frames (phys_mem s) pt k \<inter> pmm_managed s)"
  have l: "vload32 t (entry_at pt k) = Inr (mword (phys_mem s) pt k)"
    using direct_load [of t pt k] only_pool_direct [of s t] only_pool_managed [of s t] t assms k
    by (simp add: only_pool_def)
  let ?f = "mword (phys_mem s) pt k AND 0xFFFFF000"
  show "\<exists>t'. kbind (vload32 t (entry_at pt k)) (\<lambda>e. Inr (if e AND VMM_PRESENT \<noteq> 0
      then pmm_free_page (e AND 0xFFFFF000) t else t)) = Inr t' \<and> only_pool s t' \<and>
    pmm_pool t' = pmm_pool s \<union> (mapped_frames (phys_mem s) pt (k + 1) \<inter> pmm_managed s)"
    using t pool_free [OF masked_aligned, of "mword (phys_mem s) pt k" t] only_pool_managed [of s t]
    by (auto simp: l mapped_frames_step [OF k] present_def table_of_def VMM_PRESENT_def only_pool_def)
qed simp

text \<open>The frames that go back to the pool with a space: the tables it does not share with the
  kernel and every frame they map.\<close>

definition private_frames :: "'a vmm_scheme \<Rightarrow> u32 \<Rightarrow> u32 \<Rightarrow> u32 set" where
  "private_frames s d n = {f. \<exists>i < n. present (phys_mem s) d i \<and>
     mword (phys_mem s) d i \<noteq> mword (phys_mem s) (kernel_page_directory s) i \<and>
     (f = table_of (phys_mem s) d i \<or> f \<in> mapped_frames (phys_mem s) (table_of (phys_mem s) d i) 1024)}"

lemma private_frames_step:
  assumes "k < 1024"
  shows "private_frames s d (k + 1) = private_frames s d k \<union>
    (if present (phys_mem s) d k \<and> mword (phys_mem s) d k \<noteq> mword (phys_mem s) (kernel_page_directory s) k
     then insert (table_of (phys_mem s) d k) (mapped_frames (phys_mem s) (table_of (phys_mem s) d k) 1024) else {})"
  by (auto simp: private_frames_def less_inc_iff [OF assms] le_less)

lemma destroy_round:
  fixes s t :: "'a vmm_scheme"
  assumes ok: "direct s" "space_ok s d" "kernel_page_directory s \<in> pmm_managed s" and k: "k < 1024"
    and t: "only_pool s t" "pmm_pool t = pmm_pool s \<union> (private_frames s d k \<inter> pmm_managed s)"
  shows "\<exists>u. kbind (vload32 t (entry_at d k)) (\<lambda>e.
      if e AND VMM_PRESENT = 0 then Inr t
      else kbind (shared_entry k e t) (\<lambda>sh. if sh then Inr t
        else kbind (free_table_pages (e AND 0xFFFFF000) t) (\<lambda>s. Inr (pmm_free_page (e AND 0xFFFFF000) s)))) = Inr u \<and>
    only_pool s u \<and> pmm_pool u = pmm_pool s \<union> (private_frames s d (k + 1) \<inter> pmm_managed s)"
proof -
  let ?m = "phys_mem s" and ?K = "kernel_page_directory s"
  have dt: "direct t" and mt: "pmm_managed t = pmm_managed s" and ft: "phys_mem t = ?m" "kernel_page_directory t = ?K"
    using only_pool_direct [OF t(1) ok(1)] only_pool_managed [OF t(1)] t(1) by (simp_all add: only_pool_def)
  have l: "vload32 t (entry_at d k) = Inr (mword ?m d k)" "vload32 t (entry_at ?K k) = Inr (mword ?m ?K k)"
    using direct_load [OF dt _ k] space_okD(1) [OF ok(2)] ok(3) by (simp_all add: mt ft)
  consider "\<not> present ?m d k" | "present ?m d k" "mword ?m d k = mword ?m ?K k"
    | "present ?m d k" "mword ?m d k \<noteq> mword ?m ?K k" by blast
  then show ?thesis
  proof cases
    case 1
    then show ?thesis using t by (simp add: l present_def VMM_PRESENT_def private_frames_step [OF k])
  next
    case 2
    then show ?thesis
      using t by (simp add: l ft present_def VMM_PRESENT_def private_frames_step [OF k] shared_entry_def)
  next
    case 3
    let ?T = "table_of ?m d k"
    have T: "?T \<in> pmm_managed t" using space_okD(4) [OF ok(2) k 3(1)] mt by simp
    from free_table_effect [OF dt T] obtain u where
      u: "free_table_pages ?T t = Inr u" "only_pool t u"
        "pmm_pool u = pmm_pool t \<union> (mapped_frames ?m ?T 1024 \<inter> pmm_managed t)" unfolding ft by blast
    have "only_pool s (pmm_free_page ?T u)" using t(1) u(2) by (simp add: only_pool_def)
    moreover have "pmm_pool (pmm_free_page ?T u) =
        pmm_pool s \<union> (private_frames s d (k + 1) \<inter> pmm_managed s)"
      using pool_free [of ?T u] only_pool_managed [OF u(2)] u(3) t(2) mt 3
      by (auto simp: table_of_def private_frames_step [OF k])
    ultimately show ?thesis
      using 3 u(1) by (simp add: l ft present_def VMM_PRESENT_def shared_entry_def table_of_def)
  qed
qed

lemma destroy_effect:
  fixes s :: "'a vmm_scheme"
  assumes ok: "direct s" "space_ok s d" "kernel_page_directory s \<in> pmm_managed s"
    and d: "d \<noteq> 0" "d \<noteq> kernel_page_directory s"
  shows "\<exists>t. vmm_destroy_address_space d s = Inr t \<and> phys_mem t = phys_mem s \<and>
    pmm_pool t = insert d (pmm_pool s \<union> (private_frames s d 1024 \<inter> pmm_managed s))"
proof -
  let ?body = "\<lambda>i s. kbind (vload32 s (entry_at d i)) (\<lambda>e.
      if e AND VMM_PRESENT = 0 then Inr s
      else kbind (shared_entry i e s) (\<lambda>sh. if sh then Inr s
        else kbind (free_table_pages (e AND 0xFFFFF000) s) (\<lambda>s. Inr (pmm_free_page (e AND 0xFFFFF000) s))))"
  have "\<exists>t. for_err 0 1024 ?body s = Inr t \<and> (only_pool s t \<and>
      pmm_pool t = pmm_pool s \<union> (private_frames s d 1024 \<inter> pmm_managed s))"
  proof (rule for_err_invariant [where P = "\<lambda>k t. only_pool s t \<and>
      pmm_pool t = pmm_pool s \<union> (private_frames s d k \<inter> pmm_managed s)"])
    show "only_pool s s \<and> pmm_pool s = pmm_pool s \<union> (private_frames s d 0 \<inter> pmm_managed s)"
      by (auto simp: only_pool_def private_frames_def)
  next
    fix k :: u32 and t :: "'a vmm_scheme"
    assume "k < 1024" "only_pool s t \<and> pmm_pool t = pmm_pool s \<union> (private_frames s d k \<inter> pmm_managed s)"
    then show "\<exists>t'. ?body k t = Inr t' \<and> only_pool s t' \<and>
        pmm_pool t' = pmm_pool s \<union> (private_frames s d (k + 1) \<inter> pmm_managed s)"
      using destroy_round [OF ok] by blast
  qed simp
  then obtain t where t: "for_err 0 1024 ?body s = Inr t" "only_pool s t"
    "pmm_pool t = pmm_pool s \<union> (private_frames s d 1024 \<inter> pmm_managed s)" by blast
  have "vmm_destroy_address_space d s = Inr (pmm_free_page d t)"
    using d t(1) by (simp add: vmm_destroy_address_space_def)
  moreover have "pmm_pool (pmm_free_page d t) = insert d (pmm_pool t)"
    using pool_free [of d t] space_okD(1,3) [OF ok(2)] only_pool_managed [OF t(2)] by auto
  ultimately show ?thesis using t(2,3) by (auto simp: only_pool_def)
qed

text \<open>C4: \<open>vmm_destroy_address_space\<close> returns and gives back to the pool exactly the directory,
  the tables the space does not share with the kernel, and every managed frame those tables map.
  A table that was copied from the kernel's still maps the kernel's frames, so these are given
  back with it.\<close>

theorem destroy_frees:
  fixes s :: "'a vmm_scheme"
  assumes ok: "direct s" "space_ok s d" "kernel_page_directory s \<in> pmm_managed s"
    and d: "d \<noteq> 0" "d \<noteq> kernel_page_directory s"
  shows "\<exists>t. vmm_destroy_address_space d s = Inr t \<and> phys_mem t = phys_mem s \<and>
    pmm_pool t = insert d (pmm_pool s \<union> (private_frames s d 1024 \<inter> pmm_managed s))"
  by (rule destroy_effect [OF assms])

end
