(* ===== verification/Vmm_Boot.thy ===== *)
theory Vmm_Boot
  imports Address_Spaces
begin

text \<open>
  Turning paging on: \<open>vmm_init\<close> of src/src/kernel/vmm.c builds the kernel's address space, in
  which every frame the allocator manages is mapped at its own address, so that the code that
  runs next finds all its memory where it was. The state it leaves meets the assumptions of the
  properties of address spaces, and serves as their example.
\<close>

section \<open>One table of the kernel's space\<close>

lemma direct_off: "\<not> paging s \<Longrightarrow> direct s"
  by (simp add: direct_def translate_def)

definition identity_entry :: "u32 \<Rightarrow> u32" where
  "identity_entry n = (n * PAGE_SIZE) OR VMM_PRESENT OR VMM_WRITABLE OR VMM_USER"

lemma identity_entry_bits:
  "identity_entry n AND 1 \<noteq> 0" "identity_entry n AND 0xFFFFF000 = n * PAGE_SIZE"
  "aligned_page a \<Longrightarrow> (a OR VMM_PRESENT OR VMM_WRITABLE OR VMM_USER) AND 0xFFFFF000 = a"
  "aligned_page a \<Longrightarrow> (a OR VMM_PRESENT OR VMM_WRITABLE OR VMM_USER) AND 1 \<noteq> 0"
proof -
  have f: "VMM_PRESENT OR VMM_WRITABLE OR VMM_USER = 7" by (simp add: VMM_PRESENT_def VMM_WRITABLE_def VMM_USER_def)
  have b: "(a OR 7) AND 0xFFFFF000 = a" "(a OR 7) AND 1 = 1" if "aligned_page a" for a :: u32
    using frame_entry_bits [OF that, of 7] by simp_all
  have al: "aligned_page (n * PAGE_SIZE)" by (simp add: PAGE_SIZE_def page_times)
  show "identity_entry n AND 1 \<noteq> 0" "identity_entry n AND 0xFFFFF000 = n * PAGE_SIZE"
    using b [OF al] by (simp_all add: identity_entry_def f)
  show "aligned_page a \<Longrightarrow> (a OR VMM_PRESENT OR VMM_WRITABLE OR VMM_USER) AND 0xFFFFF000 = a"
    "aligned_page a \<Longrightarrow> (a OR VMM_PRESENT OR VMM_WRITABLE OR VMM_USER) AND 1 \<noteq> 0"
    using b [of a] by (simp_all add: f)
qed

text \<open>The state after \<open>k\<close> rounds, started in \<open>s\<close> with directory \<open>pd\<close> and paging off.\<close>

definition built :: "'a vmm_scheme \<Rightarrow> u32 \<Rightarrow> u32 \<Rightarrow> u32 \<Rightarrow> 'a vmm_scheme \<Rightarrow> bool" where
  "built s tp pd k t \<longleftrightarrow>
     pmm_inv t \<and> \<not> paging t \<and> kernel_page_directory t = pd \<and> current_page_directory t = pd \<and>
     pmm_managed t = pmm_managed s \<and> total_pages t = total_pages s \<and> pmm_pool t \<subseteq> pmm_pool s \<and>
     card (pmm_pool t) + unat k = card (pmm_pool s) \<and>
     (\<forall>j < 1024. \<not> j < k \<longrightarrow> mword (phys_mem t) pd j = 0) \<and>
     (\<forall>j < k. present (phys_mem t) pd j \<and> table_of (phys_mem t) pd j \<in> pmm_pool s - pmm_pool t \<and>
       (\<forall>x < 1024. j * 1024 + x < tp \<longrightarrow>
          mword (phys_mem t) (table_of (phys_mem t) pd j) x = identity_entry (j * 1024 + x))) \<and>
     (\<forall>i < k. \<forall>j < k. table_of (phys_mem t) pd i = table_of (phys_mem t) pd j \<longrightarrow> i = j)"

lemma round_arith:
  fixes k :: u32
  assumes "k < (tp + 1023) div 1024" "tp \<le> PMM_MAX_PAGES"
  shows "k < 1024" "k * 1024 < tp" "k * 1024 div 1024 = k"
    "x < 1024 \<Longrightarrow> x < tp - k * 1024 \<longleftrightarrow> k * 1024 + x < tp"
proof -
  have t: "unat tp \<le> 2 ^ 20" using assms(2) by (simp add: PMM_MAX_PAGES_def word_le_nat_alt)
  then have u: "unat ((tp + 1023) div 1024) = (unat tp + 1023) div 1024"
    by (simp add: unat_div unat_word_ariths)
  then have k: "unat k < (unat tp + 1023) div 1024" using assms(1) by (simp add: word_less_nat_alt)
  then have "(unat k + 1) * 1024 \<le> unat tp + 1023"
    by (simp add: Suc_le_eq [symmetric] less_eq_div_iff_mult_less_eq)
  then have k': "unat k < 1024" "unat k * 1024 < unat tp" using t by simp_all
  then show "k < 1024" by (simp add: word_less_nat_alt)
  have m: "unat (k * 1024) = unat k * 1024" using k' by (simp add: unat_word_ariths)
  then show "k * 1024 < tp" using k' by (simp add: word_less_nat_alt)
  show "k * 1024 div 1024 = k" using m by (simp add: word_unat_eq_iff unat_div)
  assume x: "x < 1024"
  have s: "unat (tp - k * 1024) = unat tp - unat k * 1024"
    using m k' by (simp add: unat_sub word_le_nat_alt)
  have "unat (k * 1024 + x) = unat k * 1024 + unat x"
    using m k' x by (simp add: unat_word_ariths word_less_nat_alt)
  then show "x < tp - k * 1024 \<longleftrightarrow> k * 1024 + x < tp" using s k' by (simp add: word_less_nat_alt) linarith
qed

lemma built_round:
  fixes s t :: "'a vmm_scheme"
  assumes s: "pmm_inv s" "pd \<in> pmm_managed s" "pd \<notin> pmm_pool s" "tp \<le> PMM_MAX_PAGES"
    and b: "built s tp pd k t" and k: "k < (tp + 1023) div 1024" and c: "unat k < card (pmm_pool s)"
  shows "\<exists>u. init_table tp (k * 1024) t = Inr u \<and> built s tp pd (k + 1) u"
proof -
  note R = round_arith [OF k s(4)]
  have B: "pmm_inv t" "\<not> paging t" "kernel_page_directory t = pd" "pmm_managed t = pmm_managed s"
    "pmm_pool t \<subseteq> pmm_pool s" "card (pmm_pool t) + unat k = card (pmm_pool s)"
    using b by (simp_all add: built_def)
  obtain a v where av: "pmm_alloc_page t = (a, v)" by fastforce
  have "pmm_pool t \<noteq> {}" using B(6) c by auto
  then have nz: "a \<noteq> 0" using fra.alloc_zero_iff [OF B(1)] av by simp
  note A = alloc_frame [OF B(1) direct_off [OF B(2)] av nz] and K = alloc_keeps [OF av]
  let ?n = "min 1024 (tp - k * 1024)"
  from fill_table [OF A(7,5), of ?n "\<lambda>j. vstore32 (entry_at a j) (identity_entry (k * 1024 + j))"
      "\<lambda>j. identity_entry (k * 1024 + j)"] B(2) K obtain m where
    m: "for_err 0 ?n (\<lambda>j. vstore32 (entry_at a j) (identity_entry (k * 1024 + j))) v = Inr (v\<lparr>phys_mem := m\<rparr>)"
      "\<And>g x. aligned_page g \<Longrightarrow> x < 1024 \<Longrightarrow>
        mword m g x = (if g = a \<and> x < ?n then identity_entry (k * 1024 + x) else mword (phys_mem t) g x)"
    by auto
  let ?e = "a OR VMM_PRESENT OR VMM_WRITABLE OR VMM_USER"
  let ?m = "store32 m (entry_at pd k) ?e" and ?u = "v\<lparr>phys_mem := store32 m (entry_at pd k) ?e\<rparr>"
  have pd: "aligned_page pd" "a \<noteq> pd" using managed_aligned [OF s(2)] A(1) B(5) s(3) by auto
  have st: "vstore32 (entry_at pd k) ?e (v\<lparr>phys_mem := m\<rparr>) = Inr ?u"
    using direct_store [of "v\<lparr>phys_mem := m\<rparr>" pd k ?e] R(1) direct_off [of "v\<lparr>phys_mem := m\<rparr>"] B(2,4) K A(3) s(2)
    by simp
  have "init_table tp (k * 1024) t = Inr ?u"
    using av nz m(1) st K B(3) R(3) by (simp add: init_table_def identity_entry_def Let_def)
  moreover have "built s tp pd (k + 1) ?u"
  proof -
    have w: "mword ?m g x = (if g = pd \<and> x = k then ?e else if g = a \<and> x < ?n then identity_entry (k * 1024 + x)
        else mword (phys_mem t) g x)" if "aligned_page g" "x < 1024" for g x
      using that R(1) pd(1) by (auto simp: mword_store m(2))
    have le: "j < 1024" if "j < k" for j using that R(1) by simp
    have old: "mword ?m pd j = mword (phys_mem t) pd j" if "j < 1024" "j \<noteq> k" for j
      using that pd by (simp add: w)
    have oldt: "present ?m pd j = present (phys_mem t) pd j" "table_of ?m pd j = table_of (phys_mem t) pd j"
      if "j < k" for j
      using old [of j] le [OF that] that by (auto simp: present_def table_of_def)
    have new: "present ?m pd k" "table_of ?m pd k = a"
      using R(1) pd(1) identity_entry_bits(3,4) [OF A(6)] by (simp_all add: present_def table_of_def w)
    have bt: "present (phys_mem t) pd j" "table_of (phys_mem t) pd j \<in> pmm_pool s - pmm_pool t"
      "\<forall>x < 1024. j * 1024 + x < tp \<longrightarrow>
          mword (phys_mem t) (table_of (phys_mem t) pd j) x = identity_entry (j * 1024 + x)" if "j < k" for j
      using b that by (auto simp: built_def)
    have na: "table_of (phys_mem t) pd j \<noteq> a" "table_of (phys_mem t) pd j \<noteq> pd" if "j < k" for j
      using bt(2) [OF that] A(1) s(3) by auto
    have k1: "j < k + 1 \<longleftrightarrow> j < k \<or> j = k" for j by (auto simp: less_inc_iff [OF R(1)] le_less)
    have idk: "mword ?m a x = identity_entry (k * 1024 + x)" if "x < 1024" "k * 1024 + x < tp" for x
      using that pd A(6) R(4) by (simp add: w)
    have ido: "mword ?m (table_of (phys_mem t) pd j) x = identity_entry (j * 1024 + x)"
      if "j < k" "x < 1024" "j * 1024 + x < tp" for j x
      using that na [OF that(1)] bt(3) [OF that(1)] by (simp add: w table_of_def)
    have "card (pmm_pool v) + unat (k + 1) = card (pmm_pool s)"
    proof -
      have "card (pmm_pool t) > 0" using \<open>pmm_pool t \<noteq> {}\<close> by (simp add: card_gt_0_iff)
      then show ?thesis using A(1,2) B(6) unat_inc [OF R(1)] by simp
    qed
    moreover have "mword ?m pd j = 0" if "j < 1024" "\<not> j < k + 1" for j
      using that old [of j] b by (auto simp: built_def k1)
    moreover have "present ?m pd j \<and> table_of ?m pd j \<in> pmm_pool s - pmm_pool v \<and>
        (\<forall>x < 1024. j * 1024 + x < tp \<longrightarrow> mword ?m (table_of ?m pd j) x = identity_entry (j * 1024 + x))"
      if "j < k + 1" for j
      using that new A(1,2) B(5) idk ido bt oldt by (auto simp: k1)
    moreover have "i = j" if "i < k + 1" "j < k + 1" "table_of ?m pd i = table_of ?m pd j" for i j
    proof -
      have "i = j" if "i < k" "j < k" "table_of (phys_mem t) pd i = table_of (phys_mem t) pd j" for i j
        using that b by (simp add: built_def)
      then show ?thesis using that new(2) na(1) oldt(2) by (metis k1)
    qed
    ultimately show ?thesis
      using A K B(2-5) b by (auto simp: built_def)
  qed
  ultimately show ?thesis by blast
qed

section \<open>The kernel's space\<close>

text \<open>Changes outside the allocator's variables.\<close>

lemma pmm_same:
  assumes "pmm_bitmap t = pmm_bitmap s" "total_pages t = total_pages s" "free_count t = free_count s"
  shows "pmm_pool t = pmm_pool s" "pmm_managed t = pmm_managed s" "pmm_inv t = pmm_inv s"
  using assms
  by (simp_all add: pmm_pool_def pmm_managed_def pmm_inv_def count_ok_def free_frames_def pmm_test_def)

lemma enable_fields:
  fixes s :: "'a vmm_scheme" and h c
  defines "t \<equiv> vmm_enable (exception_install_handler 14 h (s\<lparr>kernel_pd_count := c\<rparr>))"
  shows "phys_mem t = phys_mem s" "total_pages t = total_pages s" "paging t" "cr3 t = current_page_directory s"
    "kernel_page_directory t = kernel_page_directory s" "current_page_directory t = current_page_directory s"
    "pmm_pool t = pmm_pool s" "pmm_managed t = pmm_managed s" "pmm_inv t = pmm_inv s"
  unfolding t_def
  by (simp_all add: vmm_enable_def exception_install_handler_def)
    (rule pmm_same; simp)+

lemma page_number:
  "pd_index v * 1024 + pt_index v = v div PAGE_SIZE" "(v div PAGE_SIZE) * PAGE_SIZE + (v AND 0xFFF) = v"
proof -
  have "pd_index v * 1024 = push_bit 10 (drop_bit 10 (drop_bit 12 v))"
    by (simp add: pd_index_def push_bit_eq_mult)
  then show "pd_index v * 1024 + pt_index v = v div PAGE_SIZE"
    using bits_ident [of 10 "drop_bit 12 v"] by (simp add: pt_index_def index_mask PAGE_SIZE_def page_div)
  show "(v div PAGE_SIZE) * PAGE_SIZE + (v AND 0xFFF) = v"
    using bits_ident [of 12 v] by (simp add: PAGE_SIZE_def page_div page_times offset_mask)
qed

lemma built_walk:
  fixes t :: "'a vmm_scheme"
  assumes b: "built s tp pd k t" and k: "k = (tp + 1023) div 1024" and tp: "tp \<le> PMM_MAX_PAGES"
    and v: "v div PAGE_SIZE < tp"
  shows "walk (phys_mem t) pd v = Some v"
proof -
  have i: "pd_index v < k"
  proof -
    have t: "unat tp \<le> 2 ^ 20" using tp by (simp add: PMM_MAX_PAGES_def word_le_nat_alt)
    have "unat k = (unat tp + 1023) div 1024" using t by (simp add: k unat_div unat_word_ariths)
    moreover have "unat (pd_index v) = unat (v div PAGE_SIZE) div 1024"
      by (simp add: pd_index_def PAGE_SIZE_def drop_bit_eq_div unat_div flip: div_mult2_eq)
    moreover have "unat (v div PAGE_SIZE) < unat tp" using v by (simp add: word_less_nat_alt)
    ultimately show ?thesis by (simp add: word_less_nat_alt)
  qed
  let ?T = "table_of (phys_mem t) pd (pd_index v)"
  have p: "present (phys_mem t) pd (pd_index v)"
    "mword (phys_mem t) ?T (pt_index v) = identity_entry (v div PAGE_SIZE)"
    using b i v page_number(1) [of v] by (auto simp: built_def)
  then show "walk (phys_mem t) pd v = Some v"
    using identity_entry_bits(1,2) [of "v div PAGE_SIZE"] page_number(2) [of v]
    by (simp add: walk_present present_def [of _ ?T] table_of_def [of _ ?T])
qed

lemma vmm_init_effect:
  fixes s :: "'a vmm_scheme"
  assumes inv: "pmm_inv s" "\<not> paging s"
    and room: "unat ((total_pages s + 1023) div 1024) < card (pmm_pool s)"
  shows "\<exists>pd t. vmm_init s = Inr t \<and> pd \<in> pmm_pool s \<and> kernel_page_directory t = pd \<and>
    current_page_directory t = pd \<and> cr3 t = pd \<and> paging t \<and> vm_ok t pd \<and>
    pmm_pool t \<subseteq> pmm_pool s \<and> pmm_managed t = pmm_managed s \<and> total_pages t = total_pages s \<and>
    card (pmm_pool t) + unat ((total_pages s + 1023) div 1024) + 1 = card (pmm_pool s) \<and>
    (\<forall>v. v div PAGE_SIZE < total_pages s \<longrightarrow> walk (phys_mem t) pd v = Some v) \<and>
    (\<forall>j < 1024. \<not> j < (total_pages s + 1023) div 1024 \<longrightarrow> \<not> present (phys_mem t) pd j)"
proof -
  let ?tp = "total_pages s" and ?n = "(total_pages s + 1023) div 1024"
  have tp: "?tp \<le> PMM_MAX_PAGES" using inv(1) by (simp add: pmm_inv_def)
  obtain pd v where av: "pmm_alloc_page s = (pd, v)" by fastforce
  have ne: "pmm_pool s \<noteq> {}" using room by auto
  then have nz: "pd \<noteq> 0" using fra.alloc_zero_iff [OF inv(1)] av by simp
  note A = alloc_frame [OF inv(1) direct_off [OF inv(2)] av nz] and K = alloc_keeps [OF av]
  let ?v = "v\<lparr>kernel_page_directory := pd, current_page_directory := pd\<rparr>"
  have sv: "pmm_pool ?v = pmm_pool v" "pmm_managed ?v = pmm_managed v" "pmm_inv ?v = pmm_inv v"
    by (rule pmm_same; simp)+
  have dv: "direct ?v" using inv(2) K by (intro direct_off) simp
  from zero_table_effect [OF dv, of pd] A(5) inv(2) K obtain m where
    m: "zero_table pd ?v = Inr (?v\<lparr>phys_mem := m\<rparr>)"
      "\<And>g j. aligned_page g \<Longrightarrow> j < 1024 \<Longrightarrow> mword m g j = (if g = pd then 0 else mword (phys_mem s) g j)"
    by (auto simp: sv)
  let ?w = "?v\<lparr>phys_mem := m\<rparr>"
  have pool: "pmm_pool ?w = pmm_pool s - {pd}" "pmm_managed ?w = pmm_managed s" "pmm_inv ?w"
    using A sv by simp_all
  have card: "card (pmm_pool ?w) + 1 = card (pmm_pool s)"
    unfolding pool(1) using card_Suc_Diff1 [OF finite_u32 A(1)] by simp
  have b0: "built ?w ?tp pd 0 ?w"
    using pool K inv(2) A(6) m(2) by (simp add: built_def)
  have "\<exists>t. for_err 0 ?n (\<lambda>k. init_table ?tp (k * 1024)) ?w = Inr t \<and> built ?w ?tp pd ?n t"
  proof (rule for_err_invariant [where P = "built ?w ?tp pd", OF b0])
    fix k and t :: "'a vmm_scheme"
    assume k: "k < ?n" and b: "built ?w ?tp pd k t"
    have "unat k < card (pmm_pool ?w)" using k card room by (simp add: word_less_nat_alt)
    with built_round [OF pool(3) _ _ tp b k] A(5) pool A(3)
    show "\<exists>s'. init_table ?tp (k * 1024) t = Inr s' \<and> built ?w ?tp pd (k + 1) s'" by auto
  qed simp
  then obtain t where t: "for_err 0 ?n (\<lambda>k. init_table ?tp (k * 1024)) ?w = Inr t" "built ?w ?tp pd ?n t" by blast
  let ?t = "vmm_enable (exception_install_handler 14 Page_fault_handler (t\<lparr>kernel_pd_count := ?n\<rparr>))"
  note E = enable_fields [where s = t and h = Page_fault_handler and c = ?n]
  have r: "vmm_init s = Inr ?t"
    using av nz m(1) t(1) by (simp add: vmm_init_def pmm_get_total_page_count_def)
  have B: "pmm_inv t" "kernel_page_directory t = pd" "current_page_directory t = pd"
    "pmm_managed t = pmm_managed s" "total_pages t = ?tp" "pmm_pool t \<subseteq> pmm_pool s - {pd}"
    "card (pmm_pool t) + unat ?n = card (pmm_pool ?w)"
    using t(2) pool K by (auto simp: built_def)
  note W = built_walk [OF t(2) refl tp]
  have al: "pd AND 0xFFFFF000 = pd"
    using A(6) aligned_index [OF A(6)] by (simp add: page_high PAGE_SIZE_def page_div page_times)
  have "direct ?t" by (simp add: direct_def translate_def E B(3) al W B(5))
  moreover have "space_ok ?t pd"
  proof -
    have pr: "j < ?n" if "j < 1024" "present (phys_mem t) pd j" for j
      using that t(2) by (auto simp: built_def present_def)
    have "tables (phys_mem t) pd \<subseteq> pmm_managed t - pmm_pool t"
      using pr t(2) A(1,5) A(3) B(4,6) pool(1) fra.pool_frames [OF inv(1)] by (auto simp: in_tables built_def)
    moreover have "table_of (phys_mem t) pd j \<noteq> pd" if "j < 1024" "present (phys_mem t) pd j" for j
      using pr [OF that] t(2) pool(1) by (auto simp: built_def)
    ultimately show ?thesis
      using pr t(2) unfolding space_ok_def E by (auto simp: built_def)
  qed
  ultimately have "vm_ok ?t pd" using B(1,2) al by (simp add: vm_ok_def E B(3) reachable_from_def)
  moreover have "\<not> present (phys_mem t) pd j" if "j < 1024" "\<not> j < ?n" for j
    using t(2) that by (simp add: built_def present_def)
  ultimately show ?thesis
    using r A(1) B card W by (intro exI [of _ pd] exI [of _ ?t]) (auto simp: E)
qed

lemma beyond_tables:
  assumes "n \<le> PMM_MAX_PAGES" "1024 dvd unat n" "n \<le> v div PAGE_SIZE"
  shows "\<not> pd_index v < (n + 1023) div 1024"
proof -
  have m: "unat n \<le> 1048576" using assms(1) by (simp add: PMM_MAX_PAGES_def word_le_nat_alt)
  then have "unat (n + 1023) = unat n + 1023" by (simp add: unat_word_ariths)
  then have "unat ((n + 1023) div 1024) = (unat n + 1023) div 1024" by (simp add: unat_div)
  also have "\<dots> = unat n div 1024" using assms(2) by (auto elim!: dvdE)
  finally have t: "unat ((n + 1023) div 1024) = unat n div 1024" .
  have "unat (pd_index v) = unat v div 4194304" by (simp add: pd_index_def drop_bit_eq_div unat_div)
  also have "\<dots> = unat v div 4096 div 1024" by (simp add: div_mult2_eq [symmetric])
  also have "unat n div 1024 \<le> \<dots>"
    using assms(3) by (intro div_le_mono) (simp add: word_le_nat_alt unat_div PAGE_SIZE_def)
  finally show ?thesis using t by (simp add: word_less_nat_alt)
qed

text \<open>C18: with room for a directory and a table per 4 MiB, \<open>vmm_init\<close> returns without a panic
  with paging on, every managed frame translated to itself and an address space that is well-formed.
  Nothing is present beyond the last of these tables; when they are all full, which is when memory is a
  multiple of 4 MiB, nothing is present beyond the managed frames. The rest of a last table that is not
  full is not claimed to be absent: the code does not write it.\<close>

theorem vmm_init_identity:
  fixes s :: "'a vmm_scheme"
  assumes "pmm_inv s" "\<not> paging s" "unat ((total_pages s + 1023) div 1024) < card (pmm_pool s)"
  shows "\<exists>t. vmm_init s = Inr t \<and> paging t \<and> vm_ok t (kernel_page_directory t) \<and>
    (\<forall>v. v div PAGE_SIZE < total_pages s \<longrightarrow> translate t v = Inr v) \<and>
    (\<forall>v. \<not> pd_index v < (total_pages s + 1023) div 1024 \<longrightarrow> translate t v = Inl (PageFault v)) \<and>
    (1024 dvd unat (total_pages s) \<longrightarrow> (\<forall>v. total_pages s \<le> v div PAGE_SIZE \<longrightarrow> translate t v = Inl (PageFault v)))"
proof -
  have "total_pages s \<le> PMM_MAX_PAGES" using assms(1) by (simp add: pmm_inv_def)
  note B = beyond_tables [OF this]
  from vmm_init_effect [OF assms] obtain pd t where
    t: "vmm_init s = Inr t" "kernel_page_directory t = pd" "cr3 t = pd" "paging t" "vm_ok t pd"
      "\<forall>v. v div PAGE_SIZE < total_pages s \<longrightarrow> walk (phys_mem t) pd v = Some v"
      "\<forall>j < 1024. \<not> j < (total_pages s + 1023) div 1024 \<longrightarrow> \<not> present (phys_mem t) pd j" by blast
  have "aligned_page pd" using t(5) space_okD(3) by (auto simp: vm_ok_def)
  then have "pd AND 0xFFFFF000 = pd"
    using aligned_index [of pd] by (simp add: page_high PAGE_SIZE_def page_div page_times)
  then show ?thesis
    using t B by (intro exI [of _ t]) (auto simp: translate_def walk_present)
qed

section \<open>Examples\<close>

text \<open>A machine with \<open>n\<close> frames, of which the first is taken, before \<open>vmm_init\<close>.\<close>

definition demo_vm :: "u32 \<Rightarrow> vmm" where
  "demo_vm n = idt.extend (demo_idt\<lparr>pmm_bitmap := (\<lambda>_. 1), free_count := n - 1, total_pages := n\<rparr>)
     (vmm.fields 0 0 0 0 False)"

lemma demo_vm_fields: "pmm_bitmap (demo_vm n) = (\<lambda>_. 1)" "free_count (demo_vm n) = n - 1"
    "total_pages (demo_vm n) = n" "\<not> paging (demo_vm n)"
  by (simp_all add: demo_vm_def idt.defs vmm.defs demo_idt_def pmm.defs demo_pmm_def demo_ps2_def ps2.defs)

lemma demo_vm_inv:
  assumes "0 < n" "n \<le> 32"
  shows "pmm_inv (demo_vm n)" "card (pmm_pool (demo_vm n)) = unat n - 1"
proof -
  have t: "pmm_test i (demo_vm n) \<longleftrightarrow> i = 0" if "i < n" for i
  proof -
    have "i < 32" using that assms(2) by (rule less_le_trans)
    then have "i mod 32 = i" by (simp add: word_mod_def uint_mod word_less_def)
    then show ?thesis by (simp add: pmm_test_bit demo_vm_fields bit_1_iff unat_eq_0)
  qed
  have f: "free_frames (demo_vm n) = {i. i < n} - {0}"
    using t by (auto simp: free_frames_def demo_vm_fields)
  have "card ({i. i < n} - {0}) = unat n - 1" using assms(1) by (simp add: card_below)
  moreover have "unat (n - 1) = unat n - 1" using assms(1) by (intro unat_minus_one) auto
  moreover have "n \<le> PMM_MAX_PAGES" using assms(2) by (rule order.trans) (simp add: PMM_MAX_PAGES_def)
  ultimately show i: "pmm_inv (demo_vm n)" by (simp add: pmm_inv_def count_ok_def f demo_vm_fields)
  show "card (pmm_pool (demo_vm n)) = unat n - 1"
    using card_pool [OF i] \<open>unat (n - 1) = unat n - 1\<close> by (simp add: demo_vm_fields)
qed

lemma demo_8: "pmm_inv (demo_vm 8)" "\<not> paging (demo_vm 8)"
    "unat ((total_pages (demo_vm 8) + 1023) div 1024) < card (pmm_pool (demo_vm 8))"
  using demo_vm_inv [of 8] by (simp_all add: demo_vm_fields)

theorem vmm_init_identity_witness:
  "\<exists>t. vmm_init (demo_vm 8) = Inr t \<and> translate t 0x5123 = Inr 0x5123 \<and>
    translate t 0xE0000000 = Inl (PageFault 0xE0000000)"
  using vmm_init_identity [OF demo_8]
  by (auto simp: demo_vm_fields PAGE_SIZE_def pd_index_def drop_bit_eq_div)

lemma demo_booted:
  "\<exists>t d. vmm_init (demo_vm 8) = Inr t \<and> vm_ok t d \<and> current_page_directory t = d \<and> cur t = d \<and>
    kernel_page_directory t = d \<and> pmm_pool t \<noteq> {} \<and> walk (phys_mem t) d 0x3004 = Some 0x3004"
proof -
  from vmm_init_effect [OF demo_8] obtain d t where
    t: "vmm_init (demo_vm 8) = Inr t" "kernel_page_directory t = d" "current_page_directory t = d" "cr3 t = d"
      "vm_ok t d" "\<forall>v. v div PAGE_SIZE < total_pages (demo_vm 8) \<longrightarrow> walk (phys_mem t) d v = Some v"
      "card (pmm_pool t) + unat ((total_pages (demo_vm 8) + 1023) div 1024) + 1 = card (pmm_pool (demo_vm 8))" by blast
  have "aligned_page d" using t(5) space_okD(3) by (auto simp: vm_ok_def)
  then have "d AND 0xFFFFF000 = d"
    using aligned_index [of d] by (simp add: page_high PAGE_SIZE_def page_div page_times)
  moreover have "card (pmm_pool t) = 5" using t(7) demo_vm_inv [of 8] by (simp add: demo_vm_fields)
  then have "pmm_pool t \<noteq> {}" by auto
  ultimately show ?thesis
    using t by (intro exI [of _ t] exI [of _ d]) (simp add: demo_vm_fields PAGE_SIZE_def)
qed

theorem map_page_isolated_witness:
  "\<exists>s t. vmm_init (demo_vm 8) = Inr s \<and> vmm_map_page 0xE0000000 0x5000 VMM_WRITABLE s = Inr t \<and>
    walk (phys_mem t) (current_page_directory s) 0xE0000123 = Some 0x5123 \<and>
    walk (phys_mem t) (current_page_directory s) 0x3004 = Some 0x3004"
proof -
  from demo_booted obtain s d where
    s: "vmm_init (demo_vm 8) = Inr s" "vm_ok s d" "current_page_directory s = d" "pmm_pool s \<noteq> {}"
      "walk (phys_mem s) d 0x3004 = Some 0x3004" by blast
  have "take_bit 12 VMM_WRITABLE = VMM_WRITABLE" by (simp add: VMM_WRITABLE_def)
  from map_page_isolated [OF s(2-4) this, of "0xE0000000" "0x5000"] obtain t where
    t: "vmm_map_page 0xE0000000 0x5000 VMM_WRITABLE s = Inr t"
      "\<forall>w. walk (phys_mem t) d w = (if same_page 0xE0000000 w then Some ((0x5000 AND 0xFFFFF000) + (w AND 0xFFF))
         else walk (phys_mem s) d w)" by blast
  show ?thesis
    using s t by (intro exI [of _ s] exI [of _ t]) (simp add: same_page_def)
qed

theorem unmap_and_lookup_witness:
  "\<exists>s t. vmm_init (demo_vm 8) = Inr s \<and> vmm_get_phys 0x3004 s = Inr 0x3004 \<and>
    vmm_unmap_page 0x3000 s = Inr t \<and> walk (phys_mem t) (current_page_directory s) 0x3004 = None"
proof -
  from demo_booted obtain s d where
    s: "vmm_init (demo_vm 8) = Inr s" "vm_ok s d" "current_page_directory s = d"
      "walk (phys_mem s) d 0x3004 = Some 0x3004" by blast
  have h: "direct s" "space_ok s d" using s(2) by (simp_all add: vm_ok_def)
  from unmap_and_lookup [OF h s(3), of "0x3000"] obtain t where
    t: "vmm_unmap_page 0x3000 s = Inr t"
      "\<forall>w. walk (phys_mem t) d w = (if same_page 0x3000 w then None else walk (phys_mem s) d w)" by blast
  show ?thesis
    using s t unmap_and_lookup [OF h s(3), of "0x3004"]
    by (intro exI [of _ s] exI [of _ t]) (simp add: same_page_def)
qed

theorem create_copies_kernel_witness:
  "\<exists>s pd t. vmm_init (demo_vm 8) = Inr s \<and> vmm_create_address_space s = Inr (pd, t) \<and>
    walk (phys_mem t) pd 0x3004 = Some 0x3004"
proof -
  from demo_booted obtain s d where
    s: "vmm_init (demo_vm 8) = Inr s" "vm_ok s d" "cur s = d" "kernel_page_directory s = d" "pmm_pool s \<noteq> {}"
      "walk (phys_mem s) d 0x3004 = Some 0x3004" by blast
  from create_copies_kernel [OF s(2,3,5)] show ?thesis using s by fastforce
qed

theorem destroy_frees_witness:
  "\<exists>s pd t u. vmm_init (demo_vm 8) = Inr s \<and> vmm_create_address_space s = Inr (pd, t) \<and>
    vmm_destroy_address_space pd t = Inr u \<and> pd \<in> pmm_pool u"
proof -
  from demo_booted obtain s d where
    s: "vmm_init (demo_vm 8) = Inr s" "vm_ok s d" "cur s = d" "kernel_page_directory s = d" "pmm_pool s \<noteq> {}" by blast
  have O: "pmm_inv s" "direct s" "space_ok s d" using s(2) by (simp_all add: vm_ok_def)
  have k: "space_ok s (kernel_page_directory s)" "tables (phys_mem s) (cur s) \<inter> pmm_pool s = {}"
    using O(3) s(3,4) by (auto simp: space_ok_def)
  from create_effect [OF O(1,2) k s(5)] obtain pd t where
    t: "vmm_create_address_space s = Inr (pd, t)" "pd \<noteq> 0" "pd \<in> pmm_pool s"
      "kernel_page_directory t = kernel_page_directory s" by blast
  from create_space [OF O(1,2) k s(5)] t(1) have ok: "vm_ok t pd" by auto
  then have h: "direct t" "space_ok t pd" "kernel_page_directory t \<in> pmm_managed t"
    using space_okD(1) by (auto simp: vm_ok_def)
  have "pd \<noteq> kernel_page_directory t" using t(3,4) s(4) space_okD(2) [OF O(3)] by auto
  from destroy_frees [OF h t(2) this] show ?thesis using s(1) t(1) by blast
qed

theorem alloc_page_unmapped_witness:
  "\<exists>s a t. vmm_init (demo_vm 4) = Inr s \<and> vmm_alloc_page 0xE0000000 VMM_WRITABLE s = Inr (a, t) \<and> a \<noteq> 0 \<and>
    walk (phys_mem t) (current_page_directory s) 0xE0000000 = None"
proof -
  have h: "pmm_inv (demo_vm 4)" "\<not> paging (demo_vm 4)"
    "unat ((total_pages (demo_vm 4) + 1023) div 1024) < card (pmm_pool (demo_vm 4))"
    using demo_vm_inv [of 4] by (simp_all add: demo_vm_fields)
  from vmm_init_effect [OF h] obtain d s where
    s: "vmm_init (demo_vm 4) = Inr s" "current_page_directory s = d" "vm_ok s d"
      "card (pmm_pool s) + unat ((total_pages (demo_vm 4) + 1023) div 1024) + 1 = card (pmm_pool (demo_vm 4))"
      "\<forall>j < 1024. \<not> j < (total_pages (demo_vm 4) + 1023) div 1024 \<longrightarrow> \<not> present (phys_mem s) d j" by blast
  have "card (pmm_pool s) = 1" using s(4) demo_vm_inv [of 4] by (simp add: demo_vm_fields)
  then obtain a where a: "pmm_pool s = {a}" by (auto simp: card_1_singleton_iff)
  have "\<not> present (phys_mem s) d (pd_index 0xE0000000)"
    using s(5) by (simp add: demo_vm_fields pd_index_def drop_bit_eq_div)
  from alloc_page_unmapped [OF s(3,2) a this] s(1,2) show ?thesis by blast
qed

end
