(* ===== verification/Heap.thy ===== *)
theory Heap
  imports Vmm_Boot
begin

text \<open>
  The kernel heap, src/src/kernel/heap.c: a first-fit allocator over a linked free list whose
  headers (size and next pointer) lie in the heap's own pages, so every step of it is a load or a
  store in virtual memory. A pointer to the list head or to a next field (\<^verbatim>\<open>struct heap_block **\<close>)
  is a \<open>slot\<close>. The loops along the list do not change the state, so if they have not ended
  after more rounds than there are addresses they never end; that is their bound, and \<open>Halted\<close>
  is its outcome.

  Heap_Words shows what the loops along the list find, Heap_Props what malloc and free do to the
  row of blocks, Heap_Grow how the heap gets its pages, and Heap_Alloc what clients may rely on.
\<close>

section \<open>State and constants\<close>

record heap = vmm +
  heap_free :: u32
  heap_top :: u32

definition HEAP_START :: u32 where "HEAP_START = 0xD0000000"
definition HEAP_INIT_PAGES :: u32 where "HEAP_INIT_PAGES = 16"
definition HEAP_ALIGN :: u32 where "HEAP_ALIGN = 8"
definition HEAP_MIN_BLOCK :: u32 where "HEAP_MIN_BLOCK = 16"
definition sizeof_heap_block :: u32 where "sizeof_heap_block = 8"

definition list_bound :: nat where "list_bound = 2 ^ 32 + 2"

datatype slot = Head | Next u32

text \<open>\<^verbatim>\<open>block->size\<close>, \<^verbatim>\<open>block->next\<close>, \<^verbatim>\<open>*pp\<close> and \<^verbatim>\<open>*pp = v\<close>.\<close>

definition get_size :: "'a heap_scheme \<Rightarrow> u32 \<Rightarrow> u32 kres" where
  "get_size s b = vload32 s b"

definition set_size :: "u32 \<Rightarrow> u32 \<Rightarrow> 'a heap_scheme \<Rightarrow> 'a heap_scheme kres" where
  "set_size b v s = vstore32 b v s"

definition get_next :: "'a heap_scheme \<Rightarrow> u32 \<Rightarrow> u32 kres" where
  "get_next s b = vload32 s (b + 4)"

definition set_next :: "u32 \<Rightarrow> u32 \<Rightarrow> 'a heap_scheme \<Rightarrow> 'a heap_scheme kres" where
  "set_next b v s = vstore32 (b + 4) v s"

definition read_slot :: "slot \<Rightarrow> 'a heap_scheme \<Rightarrow> u32 kres" where
  "read_slot pp s = (case pp of Head \<Rightarrow> Inr (heap_free s) | Next b \<Rightarrow> get_next s b)"

definition write_slot :: "slot \<Rightarrow> u32 \<Rightarrow> 'a heap_scheme \<Rightarrow> 'a heap_scheme kres" where
  "write_slot pp v s = (case pp of Head \<Rightarrow> Inr (s\<lparr>heap_free := v\<rparr>) | Next b \<Rightarrow> set_next b v s)"

section \<open>heap_init\<close>

text \<open>A loop of \<open>vmm_alloc_page\<close> that leaves at the first failure; the flag is that exit.\<close>

definition heap_page :: "u32 \<Rightarrow> bool \<times> 'a heap_scheme \<Rightarrow> (bool \<times> 'a heap_scheme) kres" where
  "heap_page addr fs =
    (case fs of (failed, s) \<Rightarrow>
      if failed then Inr (True, s)
      else kbind (vmm_alloc_page addr VMM_WRITABLE s) (\<lambda>(p, s). Inr (p = 0, s)))"

definition heap_init :: "'a heap_scheme \<Rightarrow> 'a heap_scheme kres" where
  "heap_init s =
    (let s = s\<lparr>heap_free := 0, heap_top := HEAP_START\<rparr>
     in kbind (for_err 0 HEAP_INIT_PAGES (\<lambda>i fs.
          kbind (heap_page (heap_top (snd fs)) fs) (\<lambda>(failed, s).
            Inr (failed, if failed then s else s\<lparr>heap_top := heap_top s + PAGE_SIZE\<rparr>))) (False, s))
        (\<lambda>(failed, s).
          if failed then Inr s
          else let block = HEAP_START
               in kbind (set_size block ((HEAP_INIT_PAGES * PAGE_SIZE) OR 1) s) (\<lambda>s.
                  kbind (set_next block 0 s) (\<lambda>s.
                  Inr (s\<lparr>heap_free := block\<rparr>)))))"

section \<open>malloc\<close>

definition block_needed :: "u32 \<Rightarrow> u32" where
  "block_needed n =
    (let needed = (sizeof_heap_block + n + HEAP_ALIGN - 1) AND NOT (HEAP_ALIGN - 1)
     in if needed < HEAP_MIN_BLOCK then HEAP_MIN_BLOCK else needed)"

fun find_fit :: "nat \<Rightarrow> u32 \<Rightarrow> slot \<Rightarrow> 'a heap_scheme \<Rightarrow> (slot \<times> u32 \<times> u32) option kres" where
  "find_fit 0 needed pp s = Inl Halted"
| "find_fit (Suc n) needed pp s =
    kbind (read_slot pp s) (\<lambda>block.
      if block = 0 then Inr None
      else kbind (get_size s block) (\<lambda>sz.
        let block_size = sz AND NOT 1
        in if block_size \<ge> needed then Inr (Some (pp, block, block_size))
           else find_fit n needed (Next block) s))"

text \<open>Cutting \<open>needed\<close> bytes off the block that \<open>pp\<close> points to, or taking it whole.\<close>

definition take_block :: "slot \<Rightarrow> u32 \<Rightarrow> u32 \<Rightarrow> u32 \<Rightarrow> 'a heap_scheme \<Rightarrow> (u32 \<times> 'a heap_scheme) kres" where
  "take_block pp block block_size needed s =
    (let remaining = block_size - needed
     in kbind (if remaining \<ge> HEAP_MIN_BLOCK
          then kbind (set_size block (needed AND NOT 1) s) (\<lambda>s.
               let split = block + needed
               in kbind (set_size split (remaining OR 1) s) (\<lambda>s.
                  kbind (get_next s block) (\<lambda>nx.
                  kbind (set_next split nx s) (\<lambda>s.
                  write_slot pp split s))))
          else kbind (get_next s block) (\<lambda>nx. write_slot pp nx s)) (\<lambda>s.
        Inr (block + sizeof_heap_block, s)))"

fun find_slot :: "nat \<Rightarrow> u32 \<Rightarrow> slot \<Rightarrow> 'a heap_scheme \<Rightarrow> slot kres" where
  "find_slot 0 addr pp s = Inl Halted"
| "find_slot (Suc n) addr pp s =
    kbind (read_slot pp s) (\<lambda>block.
      if block \<noteq> 0 \<and> block < addr then find_slot n addr (Next block) s else Inr pp)"

definition heap_grow :: "u32 \<Rightarrow> 'a heap_scheme \<Rightarrow> (u32 \<times> 'a heap_scheme) kres" where
  "heap_grow needed s =
    (let grow = (needed + PAGE_SIZE - 1) AND NOT (PAGE_SIZE - 1);
         addr = heap_top s
     in kbind (for_err 0 (grow div PAGE_SIZE) (\<lambda>i. heap_page (addr + i * PAGE_SIZE)) (False, s)) (\<lambda>(failed, s).
        if failed then Inr (0, s)
        else let s = s\<lparr>heap_top := addr + grow\<rparr>
             in kbind (set_size addr (grow OR 1) s) (\<lambda>s.
                kbind (find_slot list_bound addr Head s) (\<lambda>pp.
                kbind (read_slot pp s) (\<lambda>nx.
                kbind (set_next addr nx s) (\<lambda>s.
                kbind (write_slot pp addr s) (\<lambda>s.
                take_block pp addr grow needed s)))))))"

definition malloc :: "u32 \<Rightarrow> 'a heap_scheme \<Rightarrow> (u32 \<times> 'a heap_scheme) kres" where
  "malloc n s =
    (if n = 0 then Inr (0, s)
     else let needed = block_needed n
          in kbind (find_fit list_bound needed Head s) (\<lambda>r.
             case r of
               Some (pp, block, block_size) \<Rightarrow> take_block pp block block_size needed s
             | None \<Rightarrow> heap_grow needed s))"

section \<open>free\<close>

fun find_pos :: "nat \<Rightarrow> u32 \<Rightarrow> u32 \<Rightarrow> u32 \<Rightarrow> 'a heap_scheme \<Rightarrow> (u32 \<times> u32) kres" where
  "find_pos 0 block prev curr_b s = Inl Halted"
| "find_pos (Suc n) block prev curr_b s =
    (if curr_b \<noteq> 0 \<and> curr_b < block
     then kbind (get_next s curr_b) (\<lambda>nx. find_pos n block curr_b nx s)
     else Inr (prev, curr_b))"

definition free :: "u32 \<Rightarrow> 'a heap_scheme \<Rightarrow> 'a heap_scheme kres" where
  "free ptr s =
    (if ptr = 0 then Inr s
     else let block = ptr - sizeof_heap_block
          in kbind (get_size s block) (\<lambda>sz.
             let block_size = sz AND NOT 1
             in kbind (set_size block (block_size OR 1) s) (\<lambda>s.
                kbind (find_pos list_bound block 0 (heap_free s) s) (\<lambda>(prev, curr_b).
                kbind (if curr_b \<noteq> 0 \<and> block + block_size = curr_b
                       then kbind (get_size s curr_b) (\<lambda>cs.
                            kbind (set_size block ((block_size + (cs AND NOT 1)) OR 1) s) (\<lambda>s.
                            kbind (get_next s curr_b) (\<lambda>nx. set_next block nx s)))
                       else set_next block curr_b s) (\<lambda>s.
                kbind (if prev \<noteq> 0 then set_next prev block s else Inr (s\<lparr>heap_free := block\<rparr>)) (\<lambda>s.
                if prev \<noteq> 0
                then kbind (get_size s prev) (\<lambda>ps.
                     if prev + (ps AND NOT 1) = block
                     then kbind (get_size s block) (\<lambda>bs.
                          kbind (set_size prev (((ps AND NOT 1) + (bs AND NOT 1)) OR 1) s) (\<lambda>s.
                          kbind (get_next s block) (\<lambda>nx. set_next prev nx s)))
                     else Inr s)
                else Inr s))))))"

end
