(* ===== verification/Heap_Words.thy ===== *)
theory Heap_Words
  imports Heap
begin

text \<open>
  The words of the kernel heap. \<open>word_store\<close> is what the free list of heap.c needs of memory:
  loads and stores of words that succeed on a set of cells and behave like a function that is
  updated. The virtual memory of the heap provides it (\<open>hw\<close>): every page between
  \<open>HEAP_START\<close> and \<open>heap_top\<close> is mapped, two pages to two frames, and no frame of the
  heap holds a page table of the current address space.

  \<open>seg\<close> is a segment of the linked free list. The loops of heap.c along that list
  (\<open>find_fit\<close>, \<open>find_slot\<close>, \<open>find_pos\<close>) end, at the element that a search in the list of
  its addresses finds.
\<close>

section \<open>Stores of words\<close>

locale word_store =
  fixes ld :: "'s \<Rightarrow> u32 \<Rightarrow> u32 kres" and sto :: "u32 \<Rightarrow> u32 \<Rightarrow> 's \<Rightarrow> 's kres"
    and ok :: "'s \<Rightarrow> bool" and cells :: "'s \<Rightarrow> u32 set"
    and rd :: "'s \<Rightarrow> u32 \<Rightarrow> u32" and put :: "u32 \<Rightarrow> u32 \<Rightarrow> 's \<Rightarrow> 's"
  assumes load: "ok s \<Longrightarrow> a \<in> cells s \<Longrightarrow> ld s a = Inr (rd s a)"
    and store: "ok s \<Longrightarrow> a \<in> cells s \<Longrightarrow> sto a v s = Inr (put a v s)"
    and put_ok: "ok s \<Longrightarrow> a \<in> cells s \<Longrightarrow> ok (put a v s)"
    and put_cells: "ok s \<Longrightarrow> a \<in> cells s \<Longrightarrow> cells (put a v s) = cells s"
    and put_rd: "ok s \<Longrightarrow> a \<in> cells s \<Longrightarrow> rd (put a v s) = (rd s)(a := v)"
begin

lemma load_after_store:
  assumes "ok s" "a \<in> cells s" "b \<in> cells s"
  shows "kbind (sto a v s) (\<lambda>t. ld t b) = Inr (if b = a then v else rd s b)"
  using assms by (simp add: store load put_ok put_cells put_rd)

lemmas word_rules = load store put_ok put_cells put_rd

end

section \<open>The heap pages\<close>

definition heap_frame :: "'a heap_scheme \<Rightarrow> u32 \<Rightarrow> u32" where
  "heap_frame s v = the (walk (phys_mem s) (cur s) v)"

definition in_heap :: "'a heap_scheme \<Rightarrow> u32 \<Rightarrow> bool" where
  "in_heap s v \<longleftrightarrow> HEAP_START \<le> v \<and> v < heap_top s"

definition heap_mapped :: "'a heap_scheme \<Rightarrow> bool" where
  "heap_mapped s \<longleftrightarrow> paging s \<and> aligned_page (heap_top s) \<and>
     (\<forall>v. in_heap s v \<longrightarrow> walk (phys_mem s) (cur s) v \<noteq> None) \<and>
     (\<forall>v. in_heap s v \<longrightarrow> heap_frame s v AND 0xFFFFF000 \<notin> tables (phys_mem s) (cur s)) \<and>
     (\<forall>v w. in_heap s v \<longrightarrow> in_heap s w \<longrightarrow> heap_frame s v = heap_frame s w \<longrightarrow> v = w)"

definition heap_cells :: "'a heap_scheme \<Rightarrow> u32 set" where
  "heap_cells s = {a. aligned4 a \<and> in_heap s a}"

definition heap_word :: "'a heap_scheme \<Rightarrow> u32 \<Rightarrow> u32" where
  "heap_word s a = (if a \<in> heap_cells s then load32 (phys_mem s) (heap_frame s a) else 0)"

definition heap_put :: "u32 \<Rightarrow> u32 \<Rightarrow> 'a heap_scheme \<Rightarrow> 'a heap_scheme" where
  "heap_put a v s = s\<lparr>phys_mem := store32 (phys_mem s) (heap_frame s a) v\<rparr>"

text \<open>The bytes of an aligned word lie on one page.\<close>

lemma word_on_page:
  fixes a i :: u32
  assumes "aligned4 a" "i < 4"
  shows "take_bit 12 (a + i) = take_bit 12 a + i" "(a + i) AND 0xFFFFF000 = a AND 0xFFFFF000"
    "pd_index (a + i) = pd_index a" "pt_index (a + i) = pt_index a"
proof -
  have i: "take_bit 2 i = i" using assms(2) by (simp add: take_bit_self_iff word_less_nat_alt)
  have o: "a + i = a OR i" by (rule base_plus_or [OF assms(1) i])
  have small: "\<not> bit i k" if "2 \<le> k" for k using i that by (metis bit_take_bit_iff leD)
  have d: "drop_bit n i = 0" if "2 \<le> n" for n
    using small that by (intro bit_word_eqI) (simp add: bit_simps)
  have t: "take_bit 12 i = i" using i take_bit_take_bit [of 12 2 i] by simp
  have "take_bit 2 (take_bit 12 a) = 0" using assms(1) by simp
  from base_plus_or [OF this i] show "take_bit 12 (a + i) = take_bit 12 a + i"
    using t by (simp add: o)
  show "(a + i) AND 0xFFFFF000 = a AND 0xFFFFF000"
    unfolding page_high o using d [of 12] by (simp add: drop_bit_or)
  show "pd_index (a + i) = pd_index a" "pt_index (a + i) = pt_index a"
    using d [of 22] d [of 12] by (simp_all add: pd_index_def pt_index_def o drop_bit_or)
qed

lemma walk_word:
  assumes "aligned4 a" "i < 4"
  shows "walk m c (a + i) = map_option (\<lambda>p. p + i) (walk m c a)"
  using word_on_page [OF assms] by (simp add: walk_words Let_def offset_mask ac_simps)

lemma walk_splits:
  assumes "walk m c a = Some p"
  shows "p = (p AND 0xFFFFF000) + take_bit 12 a" "take_bit 12 p = take_bit 12 a"
proof -
  from assms obtain t where p: "p = (t AND 0xFFFFF000) + take_bit 12 a"
    by (auto simp: walk_words Let_def offset_mask split: if_splits)
  have "p AND 0xFFFFF000 = t AND 0xFFFFF000"
    unfolding p page_mask by (rule base_plus_high [OF take_bit_high]) simp
  with p show "p = (p AND 0xFFFFF000) + take_bit 12 a" by simp
  show "take_bit 12 p = take_bit 12 a"
    unfolding p page_mask by (rule base_plus_low [OF take_bit_high]) simp
qed

text \<open>An aligned address as a word of its page frame.\<close>

lemma aligned_entry:
  fixes p :: u32
  assumes "aligned4 p"
  obtains j where "j < 1024" "p = entry_at (p AND 0xFFFFF000) j"
proof
  let ?o = "take_bit 12 p"
  have "unat ?o < 4096" using take_bit_self_iff [of 12 ?o] by simp
  moreover have "4 dvd unat ?o"
  proof -
    have "take_bit 2 ?o = 0" using assms by simp
    from iffD1 [OF take_bit_zero_iff this] show ?thesis by simp
  qed
  ultimately show "drop_bit 2 ?o < 1024" and e: "p = entry_at (p AND 0xFFFFF000) (drop_bit 2 ?o)"
  proof -
    assume a: "unat ?o < 4096" "4 dvd unat ?o"
    have u: "unat (drop_bit 2 ?o) = unat ?o div 4" by (simp add: drop_bit_eq_div unat_div)
    show "drop_bit 2 ?o < 1024" using a u by (simp add: word_less_nat_alt)
    from a u have "4 * drop_bit 2 ?o = ?o"
      by (simp add: word_unat_eq_iff unat_word_ariths)
    then show "p = entry_at (p AND 0xFFFFF000) (drop_bit 2 ?o)"
      using split_base_low [of p 12] by (simp add: entry_at_def page_mask)
  qed
qed

lemma heap_store_word:
  assumes "heap_mapped s" "a \<in> heap_cells s"
  shows "vload32 s a = Inr (heap_word s a)" "vstore32 a v s = Inr (heap_put a v s)"
proof -
  have a: "aligned4 a" and "walk (phys_mem s) (cur s) a = Some (heap_frame s a)" and pg: "paging s"
    using assms by (auto simp: heap_cells_def heap_mapped_def heap_frame_def)
  then have "translate s (a + i) = Inr (heap_frame s a + i)" if "i < 4" for i
    using walk_word [OF a that] by (simp add: translate_def)
  note t = this [of 0, simplified] this [of 1, simplified] this [of 2, simplified] this [of 3, simplified]
  show "vload32 s a = Inr (heap_word s a)" "vstore32 a v s = Inr (heap_put a v s)"
    using assms(2) t
    by (simp_all add: vload32_def vload8_def vstore32_def heap_word_def heap_put_def load32_def store32_def)
qed

lemma heap_cell_frame:
  assumes "heap_mapped s" "a \<in> heap_cells s"
  shows "aligned4 (heap_frame s a)"
    "\<exists>j < 1024. heap_frame s a = entry_at (heap_frame s a AND 0xFFFFF000) j"
proof -
  have w: "walk (phys_mem s) (cur s) a = Some (heap_frame s a)"
    using assms by (auto simp: heap_cells_def heap_mapped_def heap_frame_def)
  have "take_bit 2 (heap_frame s a) = take_bit 2 (take_bit 12 (heap_frame s a))" by simp
  also have "\<dots> = 0" using walk_splits(2) [OF w] assms(2) by (simp add: heap_cells_def)
  finally show "aligned4 (heap_frame s a)" .
  from aligned_entry [OF this] show "\<exists>j < 1024. heap_frame s a = entry_at (heap_frame s a AND 0xFFFFF000) j"
    by metis
qed

lemma heap_put_walk:
  assumes "heap_mapped s" "a \<in> heap_cells s"
  shows "walk (phys_mem (heap_put a v s)) (cur s) = walk (phys_mem s) (cur s)"
    "tables (phys_mem (heap_put a v s)) (cur s) = tables (phys_mem s) (cur s)"
proof -
  obtain j where j: "j < 1024" "heap_frame s a = entry_at (heap_frame s a AND 0xFFFFF000) j"
    using heap_cell_frame(2) [OF assms] by auto
  have "heap_frame s a AND 0xFFFFF000 \<notin> tables (phys_mem s) (cur s)"
    using assms by (auto simp: heap_cells_def heap_mapped_def)
  from walk_store_outside [OF masked_aligned masked_aligned this j(1), of v, folded j(2)]
  show "walk (phys_mem (heap_put a v s)) (cur s) = walk (phys_mem s) (cur s)"
    "tables (phys_mem (heap_put a v s)) (cur s) = tables (phys_mem s) (cur s)"
    by (simp_all add: heap_put_def)
qed

lemma heap_put_fields [simp]:
  "heap_free (heap_put a v s) = heap_free s" "heap_top (heap_put a v s) = heap_top s"
  "cr3 (heap_put a v s) = cr3 s" "paging (heap_put a v s) = paging s"
  "in_heap (heap_put a v s) = in_heap s" "heap_cells (heap_put a v s) = heap_cells s"
  by (simp_all add: heap_put_def in_heap_def heap_cells_def fun_eq_iff)

interpretation hw: word_store vload32 vstore32 heap_mapped heap_cells heap_word heap_put
proof unfold_locales
  fix s :: "'a heap_scheme" and a v
  assume s: "heap_mapped s" and a: "a \<in> heap_cells s"
  show "vload32 s a = Inr (heap_word s a)" "vstore32 a v s = Inr (heap_put a v s)"
    by (rule heap_store_word [OF s a])+
  have f: "heap_frame (heap_put a v s) = heap_frame s"
    by (simp add: heap_frame_def fun_eq_iff heap_put_walk [OF s a])
  show "heap_mapped (heap_put a v s)"
    using s by (simp add: heap_mapped_def f heap_put_walk [OF s a])
  show "heap_cells (heap_put a v s) = heap_cells s" by simp
  show "heap_word (heap_put a v s) = (heap_word s)(a := v)"
  proof
    fix b
    have "load32 (phys_mem (heap_put a v s)) (heap_frame s b) =
        (if b = a then v else load32 (phys_mem s) (heap_frame s b))" if b: "b \<in> heap_cells s"
    proof -
      have "heap_frame s a = heap_frame s b \<longrightarrow> a = b"
        using s a b by (auto simp: heap_mapped_def heap_cells_def)
      with heap_cell_frame(1) [OF s a] heap_cell_frame(1) [OF s b] show ?thesis
        by (auto simp: heap_put_def load32_store32_other)
    qed
    then show "heap_word (heap_put a v s) b = ((heap_word s)(a := v)) b"
      using a by (auto simp: heap_word_def f)
  qed
qed

section \<open>List segments\<close>

fun seg :: "(u32 \<Rightarrow> u32) \<Rightarrow> u32 \<Rightarrow> u32 list \<Rightarrow> u32 \<Rightarrow> bool" where
  "seg m h [] z \<longleftrightarrow> h = z"
| "seg m h (a # as) z \<longleftrightarrow> h = a \<and> a \<noteq> 0 \<and> seg m (m (a + 4)) as z"

lemma seg_append: "seg m h (as @ bs) z \<longleftrightarrow> (\<exists>y. seg m h as y \<and> seg m y bs z)"
  by (induction as arbitrary: h) auto

lemma seg_upd: "b \<notin> (\<lambda>a. a + 4) ` set as \<Longrightarrow> seg (m(b := v)) h as z = seg m h as z"
  by (induction as arbitrary: h) auto

lemma seg_nonzero: "seg m h as z \<Longrightarrow> 0 \<notin> set as"
  by (induction as arbitrary: h) auto

lemma seg_next: "seg m h (as @ a # bs) 0 \<Longrightarrow> seg m h as a \<and> seg m (m (a + 4)) bs 0"
  by (auto simp: seg_append)

lemma seg_head: "seg m h as 0 \<Longrightarrow> h = (case as of [] \<Rightarrow> 0 | a # _ \<Rightarrow> a)"
  by (cases as) auto

text \<open>The slot that follows a segment, and its redirection to \<open>v\<close>.\<close>

definition slot_after :: "slot \<Rightarrow> u32 list \<Rightarrow> slot" where
  "slot_after pp as = (if as = [] then pp else Next (last as))"

definition link :: "u32 list \<Rightarrow> u32 \<Rightarrow> 'a heap_scheme \<Rightarrow> 'a heap_scheme" where
  "link as v s = (if as = [] then s\<lparr>heap_free := v\<rparr> else heap_put (last as + 4) v s)"

lemma heap_free_fields [simp]:
  "heap_mapped (s\<lparr>heap_free := v\<rparr>) = heap_mapped s" "heap_word (s\<lparr>heap_free := v\<rparr>) = heap_word s"
  "heap_cells (s\<lparr>heap_free := v\<rparr>) = heap_cells s"
proof -
  have f: "in_heap (s\<lparr>heap_free := v\<rparr>) = in_heap s" "heap_frame (s\<lparr>heap_free := v\<rparr>) = heap_frame s"
    by (simp_all add: in_heap_def heap_frame_def fun_eq_iff)
  show "heap_mapped (s\<lparr>heap_free := v\<rparr>) = heap_mapped s" by (simp add: heap_mapped_def f)
  show c: "heap_cells (s\<lparr>heap_free := v\<rparr>) = heap_cells s" by (simp add: heap_cells_def f)
  show "heap_word (s\<lparr>heap_free := v\<rparr>) = heap_word s" by (simp add: heap_word_def f c fun_eq_iff)
qed

text \<open>A block whose header lies in the heap, and the accesses to it.\<close>

definition header :: "'a heap_scheme \<Rightarrow> u32 \<Rightarrow> bool" where
  "header s a \<longleftrightarrow> a \<in> heap_cells s \<and> a + 4 \<in> heap_cells s"

lemma header_access:
  assumes "heap_mapped s" "header s a"
  shows "get_size s a = Inr (heap_word s a)" "get_next s a = Inr (heap_word s (a + 4))"
    "set_size a v s = Inr (heap_put a v s)" "set_next a v s = Inr (heap_put (a + 4) v s)"
  using assms hw.load [of s] hw.store [of s]
  by (simp_all add: get_size_def get_next_def set_size_def set_next_def header_def)

lemma header_put [simp]: "header (heap_put a v s) b = header s b" "header (s\<lparr>heap_free := v\<rparr>) b = header s b"
  by (simp_all add: header_def)

lemma put_header:
  assumes "heap_mapped s" "header s a"
  shows "heap_mapped (heap_put a v s)" "heap_mapped (heap_put (a + 4) v s)"
    "heap_word (heap_put a v s) = (heap_word s)(a := v)"
    "heap_word (heap_put (a + 4) v s) = (heap_word s)(a + 4 := v)"
  using assms by (simp_all add: hw.word_rules header_def)

lemmas header_rules = header_access put_header

lemma write_link:
  assumes "heap_mapped s" "\<forall>a\<in>set as. header s a"
  shows "write_slot (slot_after Head as) v s = Inr (link as v s)"
  using assms by (simp add: write_slot_def slot_after_def link_def header_access)

lemma link_effect:
  assumes "heap_mapped s" "\<forall>a\<in>set as. header s a"
  shows "heap_mapped (link as v s)" "heap_top (link as v s) = heap_top s"
    "heap_cells (link as v s) = heap_cells s" "header (link as v s) b = header s b"
    "heap_word (link as v s) = (if as = [] then heap_word s else (heap_word s)(last as + 4 := v))"
    "as \<noteq> [] \<Longrightarrow> heap_free (link as v s) = heap_free s"
  using assms by (simp_all add: link_def put_header)

lemma seg_link:
  assumes "heap_mapped s" "\<forall>a\<in>set as. header s a" "distinct as" "seg (heap_word s) (heap_free s) as x"
  shows "seg (heap_word (link as v s)) (heap_free (link as v s)) as v"
proof (cases as rule: rev_cases)
  case (snoc bs b)
  with assms(3,4) have "seg (heap_word s) (heap_free s) bs b" "b \<noteq> 0" "b + 4 \<notin> (\<lambda>a. a + 4) ` set bs"
    by (auto simp: seg_append)
  then show ?thesis using assms(1,2) snoc
    by (simp add: link_effect seg_append seg_upd)
qed (simp add: link_def)

text \<open>\<open>heap_only s t\<close>: only words in the frames of the heap and \<open>heap_free\<close> have changed.\<close>

definition heap_frames :: "'a heap_scheme \<Rightarrow> u32 set" where
  "heap_frames s = {heap_frame s v AND 0xFFFFF000 | v. in_heap s v}"

definition heap_only :: "'a heap_scheme \<Rightarrow> 'a heap_scheme \<Rightarrow> bool" where
  "heap_only s t \<longleftrightarrow> t\<lparr>phys_mem := phys_mem s, heap_free := heap_free s\<rparr> = s \<and> heap_frames t = heap_frames s \<and>
     (\<forall>g j. aligned_page g \<longrightarrow> j < 1024 \<longrightarrow> g \<notin> heap_frames s \<longrightarrow>
        mword (phys_mem t) g j = mword (phys_mem s) g j)"

lemma heap_only_put:
  assumes "heap_mapped s" "a \<in> heap_cells s"
  shows "heap_only s (heap_put a v s)"
proof -
  have f: "heap_frame (heap_put a v s) = heap_frame s"
    by (simp add: heap_frame_def fun_eq_iff heap_put_walk [OF assms])
  obtain j where j: "j < 1024" "heap_frame s a = entry_at (heap_frame s a AND 0xFFFFF000) j"
    using heap_cell_frame(2) [OF assms] by auto
  have "heap_frame s a AND 0xFFFFF000 \<in> heap_frames s"
    using assms(2) by (auto simp: heap_frames_def heap_cells_def)
  then have "mword (phys_mem (heap_put a v s)) g k = mword (phys_mem s) g k"
    if "aligned_page g" "k < 1024" "g \<notin> heap_frames s" for g k
    using mword_store [OF masked_aligned that(1) j(1) that(2), of "phys_mem s" "heap_frame s a" v, folded j(2)] that(3)
    by (auto simp: heap_put_def)
  then show ?thesis by (simp add: heap_only_def heap_frames_def f) (simp add: heap_put_def)
qed

lemma heap_only_trans:
  assumes "heap_only s t" "heap_only t u"
  shows "heap_only s u"
proof -
  have "u\<lparr>phys_mem := phys_mem s, heap_free := heap_free s\<rparr> =
      u\<lparr>phys_mem := phys_mem t, heap_free := heap_free t\<rparr>\<lparr>phys_mem := phys_mem s, heap_free := heap_free s\<rparr>"
    by simp
  also have "\<dots> = s" using assms by (simp only: heap_only_def)
  finally show ?thesis using assms by (simp add: heap_only_def)
qed

lemma heap_only_link:
  assumes "heap_mapped s" "\<forall>a\<in>set as. header s a"
  shows "heap_only s (link as v s)"
proof (cases "as = []")
  case True
  have "heap_frame (s\<lparr>heap_free := v\<rparr>) = heap_frame s" "in_heap (s\<lparr>heap_free := v\<rparr>) = in_heap s"
    by (simp_all add: heap_frame_def in_heap_def fun_eq_iff)
  with True show ?thesis by (simp add: link_def heap_only_def heap_frames_def)
next
  case False
  then show ?thesis using assms heap_only_put [OF assms(1)] by (simp add: link_def header_def)
qed

lemma heap_only_refl: "heap_only s s"
  by (simp add: heap_only_def)

lemma heap_only_then_put:
  "heap_only s u \<Longrightarrow> heap_mapped u \<Longrightarrow> a \<in> heap_cells u \<Longrightarrow> heap_only s (heap_put a v u)"
  using heap_only_trans heap_only_put by blast

lemma heap_only_then_link:
  "heap_only s u \<Longrightarrow> heap_mapped u \<Longrightarrow> \<forall>a\<in>set as. header u a \<Longrightarrow> heap_only s (link as v u)"
  using heap_only_trans heap_only_link by blast

lemmas heap_only_rules = heap_only_refl heap_only_then_put heap_only_then_link

section \<open>The loops\<close>

fun first_fit :: "(u32 \<Rightarrow> u32) \<Rightarrow> u32 \<Rightarrow> slot \<Rightarrow> u32 list \<Rightarrow> (slot \<times> u32 \<times> u32) option" where
  "first_fit sz needed pp [] = None"
| "first_fit sz needed pp (a # as) =
    (if needed \<le> sz a then Some (pp, a, sz a) else first_fit sz needed (Next a) as)"

lemma find_fit_seg:
  assumes "heap_mapped s" "\<forall>a\<in>set as. header s a" "read_slot pp s = Inr h"
    and "seg (heap_word s) h as 0" "length as < n"
  shows "find_fit n needed pp s = Inr (first_fit (\<lambda>a. heap_word s a AND NOT 1) needed pp as)"
  using assms
proof (induction as arbitrary: n pp h)
  case Nil
  then show ?case by (cases n) auto
next
  case (Cons a as)
  obtain k where n: "n = Suc k" using Cons.prems(5) by (cases n) auto
  have "find_fit k needed (Next a) s = Inr (first_fit (\<lambda>a. heap_word s a AND NOT 1) needed (Next a) as)"
    using Cons.prems n by (intro Cons.IH) (auto simp: read_slot_def header_access)
  then show ?case using Cons.prems n by (simp add: header_access Let_def)
qed

lemma first_fit_none: "first_fit sz needed pp as = None \<longleftrightarrow> (\<forall>a\<in>set as. sz a < needed)"
  by (induction as arbitrary: pp) (auto simp: not_le)

lemma first_fit_split:
  assumes "\<forall>a\<in>set as. sz a < needed" "needed \<le> sz a"
  shows "first_fit sz needed pp (as @ a # bs) = Some (slot_after pp as, a, sz a)"
  using assms by (induction as arbitrary: pp) (auto simp: slot_after_def not_le)

lemma find_slot_seg:
  assumes "heap_mapped s" "\<forall>a\<in>set as. header s a" "read_slot pp s = Inr h"
    and "seg (heap_word s) h (as @ bs) 0" "length as < n"
    and "\<forall>a\<in>set as. a < addr" "\<forall>b\<in>set bs. addr \<le> b"
  shows "find_slot n addr pp s = Inr (slot_after pp as)"
  using assms
proof (induction as arbitrary: n pp h)
  case Nil
  then obtain k where "n = Suc k" by (cases n) auto
  with Nil show ?case by (cases bs) (auto simp: slot_after_def not_less)
next
  case (Cons a as)
  obtain k where n: "n = Suc k" using Cons.prems(5) by (cases n) auto
  have "find_slot k addr (Next a) s = Inr (slot_after (Next a) as)"
    using Cons.prems n by (intro Cons.IH) (auto simp: read_slot_def header_access)
  then show ?case using Cons.prems n by (simp add: slot_after_def)
qed

lemma find_pos_seg:
  assumes "heap_mapped s" "\<forall>a\<in>set as. header s a"
    and "seg (heap_word s) h (as @ bs) 0" "length as < n"
    and "\<forall>a\<in>set as. a < block" "\<forall>b\<in>set bs. block \<le> b"
  shows "find_pos n block prev h s =
    Inr (if as = [] then prev else last as, case bs of [] \<Rightarrow> 0 | b # _ \<Rightarrow> b)"
  using assms
proof (induction as arbitrary: n prev h)
  case Nil
  then obtain k where "n = Suc k" by (cases n) auto
  with Nil show ?case by (cases bs) (auto simp: not_less)
next
  case (Cons a as)
  obtain k where n: "n = Suc k" using Cons.prems(4) by (cases n) auto
  have "find_pos k block a (heap_word s (a + 4)) s =
      Inr (if as = [] then a else last as, case bs of [] \<Rightarrow> 0 | b # _ \<Rightarrow> b)"
    using Cons.prems n by (intro Cons.IH) auto
  then show ?case using Cons.prems n by (simp add: header_access)
qed

end
