(* ===== verification/Heap_Props.thy ===== *)
theory Heap_Props
  imports Heap_Words
begin

text \<open>
  The heap as a row of tiles. The memory between \<open>HEAP_START\<close> and \<open>heap_top\<close> is cut into
  blocks that follow each other without gaps, each free or in use; \<open>heap_rep s ts\<close> says that the
  headers and the free list in memory are those of the tiles \<open>ts\<close>. On tiles, malloc cuts the
  first free tile that is large enough (\<open>cut_first\<close>) and free joins a tile with its free neighbours
  (\<open>join\<close>). The lemmas show that heap.c implements these two functions and writes to no word of
  a block in use other than its header.
\<close>

section \<open>Tiles\<close>

type_synonym tile = "nat \<times> bool"

definition span :: "tile list \<Rightarrow> nat" where
  "span ts = sum_list (map fst ts)"

fun layout :: "nat \<Rightarrow> tile list \<Rightarrow> (nat \<times> nat \<times> bool) list" where
  "layout a [] = []"
| "layout a ((n, f) # ts) = (a, n, f) # layout (a + n) ts"

definition free_at :: "nat \<Rightarrow> tile list \<Rightarrow> u32 list" where
  "free_at a ts = map (\<lambda>(b, n, f). of_nat b) (filter (\<lambda>(b, n, f). f) (layout a ts))"

definition tile_ok :: "tile \<Rightarrow> bool" where
  "tile_ok t \<longleftrightarrow> 16 \<le> fst t \<and> 8 dvd fst t"

lemma span_simps [simp]: "span [] = 0" "span (t # ts) = fst t + span ts" "span (us @ vs) = span us + span vs"
  by (simp_all add: span_def)

lemma layout_append: "layout a (us @ vs) = layout a us @ layout (a + span us) vs"
  by (induction a us rule: layout.induct) (auto simp: ac_simps)

lemma free_at_simps [simp]:
  "free_at a [] = []" "free_at a ((n, True) # ts) = of_nat a # free_at (a + n) ts"
  "free_at a ((n, False) # ts) = free_at (a + n) ts"
  "free_at a (us @ vs) = free_at a us @ free_at (a + span us) vs"
  by (simp_all add: free_at_def layout_append)

lemma layout_bounds:
  assumes "(b, n, f) \<in> set (layout a ts)"
  shows "a \<le> b" "b + n \<le> a + span ts" "(n, f) \<in> set ts"
proof -
  have "a \<le> b \<and> b + n \<le> a + span ts \<and> (n, f) \<in> set ts"
    using assms by (induction a ts rule: layout.induct) (auto simp: le_diff_conv)
  then show "a \<le> b" "b + n \<le> a + span ts" "(n, f) \<in> set ts" by auto
qed

lemma layout_aligned:
  assumes "(b, n, f) \<in> set (layout a ts)" "8 dvd a" "list_all tile_ok ts"
  shows "8 dvd b" "tile_ok (n, f)"
  using assms
  by (induction a ts rule: layout.induct) (auto simp: tile_ok_def)

lemma free_at_layout: "x \<in> set (free_at a ts) \<Longrightarrow> \<exists>b n. x = of_nat b \<and> (b, n, True) \<in> set (layout a ts)"
  by (auto simp: free_at_def) blast

lemma tiles_count: "list_all tile_ok ts \<Longrightarrow> 16 * length ts \<le> span ts"
  by (induction ts) (auto simp: tile_ok_def)

lemma span_dvd: "list_all tile_ok ts \<Longrightarrow> 8 dvd span ts"
  by (induction ts) (auto simp: tile_ok_def)

lemma length_free_at: "length (free_at a ts) \<le> length ts"
  by (induction a ts rule: layout.induct) (auto simp: free_at_def)

section \<open>Headers in memory\<close>

definition heap_base :: nat where
  "heap_base = unat HEAP_START"

definition sizes_ok :: "(u32 \<Rightarrow> u32) \<Rightarrow> nat \<Rightarrow> tile list \<Rightarrow> bool" where
  "sizes_ok m a ts \<longleftrightarrow> (\<forall>(b, n, f)\<in>set (layout a ts). m (of_nat b) AND NOT 1 = of_nat n)"

text \<open>\<open>tiled s ts\<close> leaves out that free tiles are not neighbours, which free restores last.\<close>

definition tiled :: "'a heap_scheme \<Rightarrow> tile list \<Rightarrow> bool" where
  "tiled s ts \<longleftrightarrow> heap_mapped s \<and> list_all tile_ok ts \<and> heap_base + span ts < 2 ^ 32 \<and>
     heap_top s = of_nat (heap_base + span ts) \<and>
     seg (heap_word s) (heap_free s) (free_at heap_base ts) 0 \<and> sizes_ok (heap_word s) heap_base ts"

definition no_free_neighbours :: "tile list \<Rightarrow> bool" where
  "no_free_neighbours ts \<longleftrightarrow> successively (\<lambda>t u. \<not> (snd t \<and> snd u)) ts"

definition heap_rep :: "'a heap_scheme \<Rightarrow> tile list \<Rightarrow> bool" where
  "heap_rep s ts \<longleftrightarrow> tiled s ts \<and> no_free_neighbours ts"

lemma sizes_ok_append: "sizes_ok m a (us @ vs) \<longleftrightarrow> sizes_ok m a us \<and> sizes_ok m (a + span us) vs"
  by (simp add: sizes_ok_def layout_append ball_Un)

lemma sizes_ok_Cons: "sizes_ok m a ((n, f) # vs) \<longleftrightarrow> m (of_nat a) AND NOT 1 = of_nat n \<and> sizes_ok m (a + n) vs"
  by (auto simp: sizes_ok_def)

lemma sizes_ok_cong:
  assumes "\<And>b n f. (b, n, f) \<in> set (layout a ts) \<Longrightarrow> m' (of_nat b) = m (of_nat b)"
  shows "sizes_ok m' a ts = sizes_ok m a ts"
  unfolding sizes_ok_def using assms by (intro ball_cong) auto

lemma heap_base_values: "heap_base = 3489660928" "8 dvd heap_base" "HEAP_START = of_nat heap_base"
  by (simp_all add: heap_base_def HEAP_START_def)

text \<open>A header at a multiple of 8 with 8 bytes below the end of the heap is in its cells.\<close>

lemma header_in_heap:
  assumes "heap_top s = of_nat e" "e < 2 ^ 32" "heap_base \<le> b" "b + 8 \<le> e" "8 dvd b"
  shows "header s (of_nat b)"
proof -
  have u: "unat (of_nat b :: u32) = b" "unat (of_nat b + 4 :: u32) = b + 4" "unat (heap_top s) = e"
    using assms by (simp_all add: unat_of_nat take_bit_nat_eq_self unat_word_ariths)
  have "4 dvd b" using assms(5) by (rule dvd_trans [rotated]) simp
  then have "aligned4 (of_nat b)" "aligned4 (of_nat b + 4)"
    using u by (simp_all add: take_bit_zero_iff)
  then show ?thesis using assms u
    by (simp add: header_def heap_cells_def in_heap_def word_le_nat_alt word_less_nat_alt heap_base_def)
qed

abbreviation aligned8 :: "u32 \<Rightarrow> bool" where
  "aligned8 a \<equiv> take_bit 3 a = 0"

lemma unat_of_nat_u32: "n < 2 ^ 32 \<Longrightarrow> unat (of_nat n :: u32) = n"
  by (simp add: unat_of_nat take_bit_nat_eq_self)

lemma of_nat_u32_inject: "m < 2 ^ 32 \<Longrightarrow> n < 2 ^ 32 \<Longrightarrow> (of_nat m :: u32) = of_nat n \<longleftrightarrow> m = n"
  by (metis unat_of_nat_u32)

lemma aligned8_of_nat: "8 dvd n \<Longrightarrow> n < 2 ^ 32 \<Longrightarrow> aligned8 (of_nat n)"
  using unat_of_nat_u32 [of n] by (simp add: take_bit_zero_iff)

lemma aligned8_plus4:
  fixes a b :: u32
  assumes "aligned8 a" "aligned8 b"
  shows "a \<noteq> b + 4"
proof -
  have "take_bit 3 (4 :: u32) = 4" by simp
  from base_plus_low [OF assms(2) this] assms(1) show ?thesis by auto
qed

text \<open>Sizes are at multiples of 8 and next pointers 4 bytes above them, so that an update of one
  kind leaves the other alone.\<close>

lemma sizes_frame:
  assumes "8 dvd a" "list_all tile_ok ts" "a + span ts < 2 ^ 32"
    and "\<And>c. m' c \<noteq> m c \<Longrightarrow> aligned8 c \<Longrightarrow> unat c < a \<or> a + span ts \<le> unat c"
  shows "sizes_ok m' a ts = sizes_ok m a ts"
proof (rule sizes_ok_cong)
  fix b n f assume b: "(b, n, f) \<in> set (layout a ts)"
  have "aligned8 (of_nat b)" "unat (of_nat b :: u32) = b"
    using layout_bounds(2) [OF b] layout_aligned(1) [OF b assms(1,2)] assms(3)
    by (simp_all add: aligned8_of_nat unat_of_nat_u32)
  with assms(4) [of "of_nat b"] layout_bounds [OF b] layout_aligned(2) [OF b assms(1,2)]
  show "m' (of_nat b) = m (of_nat b)" by (auto simp: tile_ok_def)
qed

lemma seg_upd_size:
  assumes "\<forall>a\<in>set as. aligned8 a" "aligned8 b"
  shows "seg (m(b := v)) h as z = seg m h as z"
  using assms aligned8_plus4 [OF assms(2)] by (intro seg_upd) auto

lemma seg_upd_next: "x \<notin> set as \<Longrightarrow> seg (m(x + 4 := v)) h as z = seg m h as z"
  by (intro seg_upd) auto

text \<open>The addresses of the free tiles.\<close>

lemma free_at_range:
  assumes "8 dvd a" "list_all tile_ok ts" "a + span ts < 2 ^ 32" "x \<in> set (free_at a ts)"
  shows "a \<le> unat x" "unat x + 16 \<le> a + span ts" "aligned8 x" "of_nat (unat x) = x" "8 dvd unat x"
proof -
  obtain b n where b: "x = of_nat b" "(b, n, True) \<in> set (layout a ts)" using free_at_layout [OF assms(4)] by blast
  have "tile_ok (n, True)" "8 dvd b" using layout_aligned [OF b(2) assms(1,2)] by auto
  moreover have "unat x = b" using layout_bounds(2) [OF b(2)] assms(3) b(1) by (simp add: unat_of_nat_u32)
  ultimately show "a \<le> unat x" "unat x + 16 \<le> a + span ts" "aligned8 x" "of_nat (unat x) = x" "8 dvd unat x"
    using layout_bounds [OF b(2)] assms(3) b(1) by (auto simp: tile_ok_def intro: aligned8_of_nat)
qed

lemma free_at_distinct:
  assumes "8 dvd a" "list_all tile_ok ts" "a + span ts < 2 ^ 32"
  shows "distinct (free_at a ts)"
  using assms
proof (induction a ts rule: layout.induct)
  case (2 a n f ts)
  have n: "8 dvd a + n" "16 \<le> n" "list_all tile_ok ts" "a + n + span ts < 2 ^ 32"
    using 2(2-) by (simp_all add: tile_ok_def [of "(n, f)"])
  have "of_nat a \<notin> set (free_at (a + n) ts)"
  proof
    assume "of_nat a \<in> set (free_at (a + n) ts)"
    from free_at_range(1) [OF n(1,3,4) this] show False using n 2(4) by (simp add: unat_of_nat_u32)
  qed
  with 2 n show ?case by (cases f) auto
qed simp

section \<open>Sizes\<close>

lemma even_flag:
  fixes x :: u32
  assumes "aligned8 x"
  shows "x AND NOT 1 = x" "(x OR 1) AND NOT 1 = x"
proof -
  have m: "(1 :: u32) = mask 1" by (simp add: mask_eq_exp_minus_1)
  have t: "take_bit 1 x = 0" using assms take_bit_take_bit [of 1 3 x] by simp
  show "x AND NOT 1 = x" unfolding m using split_base_low [of x 1] t by (simp only: add.right_neutral)
  have o: "take_bit 1 (mask 1 :: u32) = mask 1" by simp
  show "(x OR 1) AND NOT 1 = x"
    unfolding m base_plus_or [OF t o, symmetric] by (rule base_plus_high [OF t o])
qed

lemma round_up_8:
  fixes x :: u32
  shows "aligned8 (x AND NOT 7)" "unat (x AND NOT 7) = unat x - unat x mod 8"
proof -
  have m: "(7 :: u32) = mask 3" by (simp add: mask_eq_exp_minus_1)
  show "aligned8 (x AND NOT 7)" unfolding m by (rule take_bit_high)
  have "x = (x AND NOT 7) + take_bit 3 x" unfolding m by (rule split_base_low)
  then have "x AND NOT 7 = x - take_bit 3 x" by (metis add_diff_cancel_right')
  moreover have "unat (take_bit 3 x) = unat x mod 8" by (simp add: take_bit_eq_mod unat_mod)
  ultimately show "unat (x AND NOT 7) = unat x - unat x mod 8"
    by (simp add: unat_sub word_le_nat_alt)
qed

lemma block_needed_ok: "tile_ok (unat (block_needed n), f)" "aligned8 (block_needed n)"
proof -
  let ?r = "(sizeof_heap_block + n + HEAP_ALIGN - 1) AND NOT (HEAP_ALIGN - 1)"
  have a: "aligned8 ?r" by (simp only: HEAP_ALIGN_def) (simp add: round_up_8 del: bit.compl_eq_compl_iff)
  then show b: "aligned8 (block_needed n)"
    by (simp add: block_needed_def Let_def HEAP_MIN_BLOCK_def)
  then have "8 dvd unat (block_needed n)" using iffD1 [OF take_bit_zero_iff b] by simp
  moreover have "16 \<le> unat (block_needed n)"
    by (simp add: block_needed_def Let_def HEAP_MIN_BLOCK_def word_less_nat_alt not_less)
  ultimately show "tile_ok (unat (block_needed n), f)" by (simp add: tile_ok_def)
qed

text \<open>Unless the sum wraps, the block holds the header and the bytes asked for.\<close>

lemma block_needed_size:
  assumes "n \<le> 0xFFFFFFF0"
  shows "unat n + 8 \<le> unat (block_needed n)" "unat (block_needed n) \<le> unat n + 16"
proof -
  have n: "unat n \<le> 4294967280" using assms by (simp add: word_le_nat_alt)
  then have "unat (15 + n) = unat n + 15" by (simp add: unat_word_ariths)
  then have "unat ((15 + n) AND NOT 7) = unat n + 15 - (unat n + 15) mod 8"
    by (simp only: round_up_8)
  moreover have "block_needed n = (let r = (15 + n) AND NOT 7 in if r < 16 then 16 else r)"
    by (simp add: block_needed_def sizeof_heap_block_def HEAP_ALIGN_def HEAP_MIN_BLOCK_def Let_def ac_simps)
  moreover have "(unat n + 15) mod 8 < 8" by simp
  ultimately show "unat n + 8 \<le> unat (block_needed n)" "unat (block_needed n) \<le> unat n + 16"
    by (auto simp: Let_def word_less_nat_alt)
qed

section \<open>malloc when a free block is large enough\<close>

text \<open>The parts of a tiled heap around one of its tiles.\<close>

lemma tiled_splitD:
  assumes "tiled s (us @ (k, f) # vs)"
  defines "B \<equiv> heap_base + span us"
  shows "heap_mapped s" "list_all tile_ok us" "list_all tile_ok vs" "16 \<le> k" "8 dvd k" "8 dvd B"
    "heap_base + span us < 2 ^ 32" "B + k + span vs < 2 ^ 32" "8 dvd B + k"
    "\<forall>a\<in>set (free_at heap_base us). header s a" "\<forall>a\<in>set (free_at (B + k) vs). header s a"
    "header s (of_nat B)"
    "sizes_ok (heap_word s) heap_base us" "heap_word s (of_nat B) AND NOT 1 = of_nat k"
    "sizes_ok (heap_word s) (B + k) vs"
    "\<forall>a\<in>set (free_at heap_base us). a < of_nat B" "\<forall>a\<in>set (free_at (B + k) vs). of_nat (B + k) \<le> a"
    "distinct (free_at heap_base us)" "distinct (free_at (B + k) vs)"
    "set (free_at heap_base us) \<inter> set (free_at (B + k) vs) = {}"
    "\<forall>a\<in>set (free_at heap_base us) \<union> set (free_at (B + k) vs). aligned8 a"
    "heap_top s = of_nat (B + k + span vs)"
proof -
  note t = assms(1)[unfolded tiled_def]
  show hm: "heap_mapped s" and us: "list_all tile_ok us" and vs: "list_all tile_ok vs"
    and k: "16 \<le> k" "8 dvd k" and b: "8 dvd B" and lim: "B + k + span vs < 2 ^ 32"
    and top: "heap_top s = of_nat (B + k + span vs)"
    using t heap_base_values(2) by (auto simp: B_def tile_ok_def [of "(k, f)"] ac_simps span_dvd)
  show "heap_base + span us < 2 ^ 32" using lim by (simp add: B_def)
  show bk: "8 dvd B + k" using b k by simp
  show "sizes_ok (heap_word s) heap_base us" "heap_word s (of_nat B) AND NOT 1 = of_nat k"
    "sizes_ok (heap_word s) (B + k) vs"
    using t by (auto simp: sizes_ok_append sizes_ok_Cons B_def)
  have usl: "heap_base + span us < 2 ^ 32" using lim by (simp add: B_def)
  note ru = free_at_range [OF heap_base_values(2) us usl] and rv = free_at_range [OF bk vs lim]
  have hd: "header s x" if "heap_base \<le> unat x" "unat x + 16 \<le> B + k + span vs" "8 dvd unat x" for x
    using header_in_heap [OF top lim, of "unat x"] that by simp
  show "\<forall>a\<in>set (free_at heap_base us). header s a"
    by (intro ballI hd) (use ru in \<open>fastforce simp: B_def\<close>)+
  show "\<forall>a\<in>set (free_at (B + k) vs). header s a"
    by (intro ballI hd) (use rv in \<open>fastforce simp: B_def\<close>)+
  show "header s (of_nat B)" using header_in_heap [OF top lim, of B] k b by (auto simp: B_def)
  show "distinct (free_at heap_base us)" "distinct (free_at (B + k) vs)"
    by (rule free_at_distinct [OF heap_base_values(2) us usl], rule free_at_distinct [OF bk vs lim])
  show lo: "\<forall>a\<in>set (free_at heap_base us). a < of_nat B"
  proof
    fix a assume "a \<in> set (free_at heap_base us)"
    from ru(2) [OF this] lim unat_of_nat_u32 [of B] show "a < of_nat B"
      by (simp add: word_less_nat_alt B_def [symmetric])
  qed
  show hi: "\<forall>a\<in>set (free_at (B + k) vs). of_nat (B + k) \<le> a"
  proof
    fix a assume "a \<in> set (free_at (B + k) vs)"
    from rv(1) [OF this] lim unat_of_nat_u32 [of "B + k"] show "of_nat (B + k) \<le> a"
      by (simp add: word_le_nat_alt del: of_nat_add)
  qed
  show "set (free_at heap_base us) \<inter> set (free_at (B + k) vs) = {}"
    using ru(2) rv(1) by (fastforce simp: B_def)
  show "\<forall>a\<in>set (free_at heap_base us) \<union> set (free_at (B + k) vs). aligned8 a"
    using ru(3) rv(3) by auto
qed

definition cut_tile :: "nat \<Rightarrow> nat \<Rightarrow> tile list" where
  "cut_tile m k = (if 16 \<le> k - m then [(m, False), (k - m, True)] else [(k, False)])"

lemma take_block_whole:
  assumes "heap_mapped s" "\<forall>a\<in>set F. header s a" "header s b" "\<not> HEAP_MIN_BLOCK \<le> bs - needed"
  shows "take_block (slot_after Head F) b bs needed s = Inr (b + 8, link F (heap_word s (b + 4)) s)"
  using assms by (simp add: take_block_def Let_def header_access write_link sizeof_heap_block_def)

lemma take_block_split:
  assumes "heap_mapped s" "\<forall>a\<in>set F. header s a" "header s b" "header s (b + needed)"
    and "HEAP_MIN_BLOCK \<le> bs - needed" "aligned8 b" "aligned8 (b + needed)" "b + needed \<noteq> b"
  shows "take_block (slot_after Head F) b bs needed s = Inr (b + 8,
    link F (b + needed) (heap_put (b + needed + 4) (heap_word s (b + 4))
      (heap_put (b + needed) ((bs - needed) OR 1) (heap_put b (needed AND NOT 1) s))))"
  using assms aligned8_plus4 [of b b] aligned8_plus4 [of "b + needed" b]
  by (simp add: take_block_def Let_def header_rules write_link sizeof_heap_block_def HEAP_MIN_BLOCK_def)

text \<open>Redirecting the slot before a position of the tiling.\<close>

lemma tiled_link:
  fixes s :: "'a heap_scheme"
  defines "F \<equiv> \<lambda>us. free_at heap_base us"
  assumes hm: "heap_mapped s" and ok: "list_all tile_ok (us @ ws)" and lim: "heap_base + span (us @ ws) < 2 ^ 32"
    and hd: "heap_top s = of_nat (heap_base + span (us @ ws))"
    and sg: "seg (heap_word s) (heap_free s) (F us) y" "seg (heap_word s) x (free_at (heap_base + span us) ws) 0"
    and sz: "sizes_ok (heap_word s) heap_base (us @ ws)"
  shows "tiled (link (F us) x s) (us @ ws)"
proof -
  have us: "list_all tile_ok us" "heap_base + span us < 2 ^ 32" and ws: "list_all tile_ok ws"
    "8 dvd heap_base + span us" "heap_base + span us + span ws < 2 ^ 32"
    using ok lim heap_base_values(2) by (auto simp: span_dvd)
  note ru = free_at_range [OF heap_base_values(2) us] and rw = free_at_range [OF ws(2,1,3)]
  have h: "\<forall>a\<in>set (F us). header s a"
  proof
    fix a assume "a \<in> set (F us)"
    with ru [of a] lim show "header s a"
      using header_in_heap [OF hd lim, of "unat a"] by (simp add: F_def)
  qed
  note L = link_effect [OF hm h, of x]
  have l: "seg (heap_word (link (F us) x s)) x (free_at (heap_base + span us) ws) 0"
  proof (cases "F us = []")
    case False
    then have "last (F us) \<in> set (F us)" by simp
    from ru(2) [OF this [unfolded F_def]] have "last (F us) \<notin> set (free_at (heap_base + span us) ws)"
      using rw(1) [of "last (F us)"] by (auto simp: F_def)
    then show ?thesis using sg(2) False by (simp add: L seg_upd_next)
  qed (use sg(2) L in simp)
  have "sizes_ok (heap_word (link (F us) x s)) heap_base (us @ ws)"
  proof (cases "F us = []")
    case False
    then have "aligned8 (last (F us))" using ru(3) [of "last (F us)"] by (simp add: F_def)
    then have "\<not> aligned8 (last (F us) + 4)" using aligned8_plus4 by blast
    then have "sizes_ok ((heap_word s)(last (F us) + 4 := x)) heap_base (us @ ws) =
        sizes_ok (heap_word s) heap_base (us @ ws)"
      by (intro sizes_frame [OF heap_base_values(2) ok lim]) (auto split: if_splits)
    then show ?thesis using sz False by (simp only: L if_False)
  qed (use sz L in simp)
  moreover have "seg (heap_word (link (F us) x s)) (heap_free (link (F us) x s)) (F us) x"
    using seg_link [OF hm h _ sg(1)] free_at_distinct [OF heap_base_values(2) us] by (simp add: F_def)
  ultimately show ?thesis
    using l ok lim hd L(1,2) unfolding tiled_def F_def by (auto simp: seg_append)
qed

lemma link_words:
  assumes "heap_mapped s" "\<forall>a\<in>set F. header s a" "heap_word (link F x s) c \<noteq> heap_word s c"
  shows "c \<in> (\<lambda>a. a + 4) ` set F"
  using assms(3) link_effect(5) [OF assms(1,2), of x] by (auto split: if_splits)

text \<open>The words after a block of \<open>k\<close> bytes at \<open>B\<close> has been cut at \<open>N\<close>.\<close>

lemma split_words:
  fixes m :: "u32 \<Rightarrow> u32" and B N k :: nat
  defines "b \<equiv> of_nat B :: u32" and "c \<equiv> of_nat (B + N) :: u32"
  defines "m' \<equiv> m(b := of_nat N AND NOT 1, c := of_nat (k - N) OR 1, c + 4 := m (b + 4))"
  assumes us: "list_all tile_ok us" "B = heap_base + span us"
    and vs: "list_all tile_ok vs" "B + k + span vs < 2 ^ 32"
    and k: "8 dvd k" and N: "16 \<le> N" "8 dvd N" "N + 16 \<le> k"
  shows "seg m h (free_at heap_base us) b \<Longrightarrow> seg m' h (free_at heap_base us) b"
    and "seg m (m (b + 4)) (free_at (B + k) vs) 0 \<Longrightarrow> seg m' c (c # free_at (B + k) vs) 0"
    and "sizes_ok m heap_base us \<Longrightarrow> sizes_ok m (B + k) vs \<Longrightarrow>
      sizes_ok m' heap_base (us @ (N, False) # (k - N, True) # vs)"
proof -
  have B: "8 dvd B" "8 dvd B + k" using us heap_base_values(2) k by (simp_all add: span_dvd)
  have lu: "heap_base + span us < 2 ^ 32" using us vs by simp
  have b8: "aligned8 b" and c8: "aligned8 c" using B N vs(2) by (auto simp: b_def c_def intro!: aligned8_of_nat simp del: of_nat_add)
  have c0: "c \<noteq> 0" using of_nat_u32_inject [of "B + N" 0] vs(2) N by (auto simp: c_def simp del: of_nat_add)
  have cb: "c \<noteq> b" using of_nat_u32_inject [of "B + N" B] vs(2) N by (simp add: b_def c_def del: of_nat_add)
  have uc: "unat c = B + N" using unat_of_nat_u32 [of "B + N"] vs(2) N by (simp add: c_def del: of_nat_add)
  note ru = free_at_range [OF heap_base_values(2) us(1) lu] and rv = free_at_range [OF B(2) vs(1,2)]
  have cu: "c \<notin> set (free_at heap_base us)" using ru(2) [of c] uc us(2) by auto
  have cv: "c \<notin> set (free_at (B + k) vs)" using rv(1) [of c] uc N by auto
  show "seg m h (free_at heap_base us) b \<Longrightarrow> seg m' h (free_at heap_base us) b"
    using ru(3) b8 c8 cu by (simp add: m'_def seg_upd_next seg_upd_size)
  show "seg m (m (b + 4)) (free_at (B + k) vs) 0 \<Longrightarrow> seg m' c (c # free_at (B + k) vs) 0"
    using rv(3) b8 c8 cv c0 by (simp add: m'_def seg_upd_next seg_upd_size)
  have even: "(of_nat N :: u32) AND NOT 1 = of_nat N" "(of_nat (k - N) OR 1 :: u32) AND NOT 1 = of_nat (k - N)"
    using N k vs(2) by (intro even_flag aligned8_of_nat; simp)+
  have mb: "m' b AND NOT 1 = of_nat N" "m' c AND NOT 1 = of_nat (k - N)"
    using cb even aligned8_plus4 [OF b8 c8] aligned8_plus4 [OF c8 c8] by (simp_all add: m'_def del: of_nat_diff)
  assume sz: "sizes_ok m heap_base us" "sizes_ok m (B + k) vs"
  have ub: "unat b = B" using unat_of_nat_u32 [of B] vs(2) by (simp add: b_def)
  have ch: "c' = b \<or> c' = c" if "m' c' \<noteq> m c'" "aligned8 c'" for c'
    using that aligned8_plus4 [OF that(2) c8] by (auto simp: m'_def split: if_splits)
  have "sizes_ok m' heap_base us"
    using sz(1) sizes_frame [OF heap_base_values(2) us(1) lu, of m' m] ch ub uc us(2) by fastforce
  moreover have "sizes_ok m' (B + k) vs"
    using sz(2) sizes_frame [OF B(2) vs(1,2), of m' m] ch ub uc N by fastforce
  ultimately show "sizes_ok m' heap_base (us @ (N, False) # (k - N, True) # vs)"
    using mb N us(2) by (simp add: sizes_ok_append sizes_ok_Cons b_def c_def add.assoc del: of_nat_add of_nat_diff)
qed

lemma take_tile:
  fixes s :: "'a heap_scheme"
  assumes t: "tiled s (us @ (k, True) # vs)" and n: "tile_ok (N, f)" "N \<le> k"
  defines "B \<equiv> heap_base + span us" and "F \<equiv> free_at heap_base us"
  shows "\<exists>t. take_block (slot_after Head F) (of_nat B) (of_nat k) (of_nat N) s = Inr (of_nat B + 8, t) \<and>
    tiled t (us @ cut_tile N k @ vs) \<and> heap_only s t \<and>
    (\<forall>c. heap_word t c \<noteq> heap_word s c \<longrightarrow> c \<in> (\<lambda>a. a + 4) ` set F \<or> B \<le> unat c \<and> unat c < B + k)"
proof -
  note D = tiled_splitD [OF t, folded B_def F_def]
  let ?b = "of_nat B :: u32" and ?G = "free_at (B + k) vs" and ?m = "heap_word s"
  have sg: "seg ?m (heap_free s) F ?b" "seg ?m (?m (?b + 4)) ?G 0"
    using t seg_next [of ?m "heap_free s" F ?b ?G] by (auto simp: tiled_def B_def F_def)
  have Bk: "B + k < 2 ^ 32" "B < 2 ^ 32" using D(8) by auto
  have rem: "(of_nat k :: u32) - of_nat N = of_nat (k - N)" using n(2) by (simp add: of_nat_diff)
  have min: "HEAP_MIN_BLOCK \<le> (of_nat (k - N) :: u32) \<longleftrightarrow> 16 \<le> k - N"
    using Bk by (simp add: HEAP_MIN_BLOCK_def word_le_nat_alt unat_of_nat_u32)
  have b8: "aligned8 ?b" using D(6) Bk by (intro aligned8_of_nat) auto
  show ?thesis
  proof (cases "16 \<le> k - N")
    case False
    let ?t = "link F (?m (?b + 4)) s"
    have "tiled ?t (us @ (k, False) # vs)"
      unfolding F_def using D(1-8,13-15,22) sg
      by (intro tiled_link) (auto simp: sizes_ok_append sizes_ok_Cons B_def F_def tile_ok_def [of "(k, False)"] ac_simps)
    moreover have "take_block (slot_after Head F) ?b (of_nat k) (of_nat N) s = Inr (?b + 8, ?t)"
      using D(1,10,12) min rem False by (intro take_block_whole) simp_all
    ultimately show ?thesis
      using link_words [OF D(1,10)] heap_only_link [OF D(1,10)] False
      by (intro exI [of _ ?t]) (simp add: cut_tile_def)
  next
    case True
    let ?c = "of_nat (B + N) :: u32"
    have N: "16 \<le> N" "8 dvd N" "8 dvd k - N" using n(1) D(5) by (auto simp: tile_ok_def dvd_diff_nat)
    have c8: "aligned8 ?c" using D(6) N Bk n(2) by (intro aligned8_of_nat) auto
    have cb: "?c \<noteq> ?b" using of_nat_u32_inject [of "B + N" B] Bk N n(2) by (simp del: of_nat_add)
    have hc: "header s ?c"
      using D(6) N True by (intro header_in_heap [OF D(22,8)]) (auto simp: B_def)
    have w8: "aligned8 (of_nat N)" "aligned8 (of_nat (k - N))"
      using N Bk n(2) by (intro aligned8_of_nat; simp)+
    let ?s3 = "heap_put (?c + 4) (?m (?b + 4)) (heap_put ?c (of_nat (k - N) OR 1) (heap_put ?b (of_nat N AND NOT 1) s))"
    have s3: "heap_word ?s3 = ?m(?b := of_nat N AND NOT 1, ?c := of_nat (k - N) OR 1, ?c + 4 := ?m (?b + 4))"
      "heap_mapped ?s3" "heap_free ?s3 = heap_free s" "heap_top ?s3 = heap_top s"
      using D(1,12) hc by (simp_all add: header_rules)
    have NK: "N + 16 \<le> k" using True by simp
    let ?ws = "(N, False) # (k - N, True) # vs"
    have tl: "list_all tile_ok (us @ ?ws)" "heap_base + span (us @ ?ws) = B + k + span vs"
      using D(2,3) N True n(2) by (simp_all add: tile_ok_def [of "(_, _)"] B_def)
    note W = split_words [OF D(2) meta_eq_to_obj_eq [OF B_def] D(3,8,5) N(1,2) NK, of ?m, folded s3(1)]
    have "tiled (link F ?c ?s3) (us @ ?ws)"
    proof (unfold F_def, rule tiled_link)
      show "seg (heap_word ?s3) (heap_free ?s3) (free_at heap_base us) ?b"
        using W(1) sg(1) unfolding s3(3) F_def by blast
      have "heap_base + span us + N + (k - N) = B + k" using NK by (simp add: B_def)
      then show "seg (heap_word ?s3) ?c (free_at (heap_base + span us) ?ws) 0"
        using W(2) [OF sg(2)] by (simp only: free_at_simps B_def)
      show "sizes_ok (heap_word ?s3) heap_base (us @ ?ws)" by (rule W(3) [OF D(13,15)])
    qed (simp_all only: tl s3(2,4) D(8,22))
    moreover have "take_block (slot_after Head F) ?b (of_nat k) (of_nat N) s = Inr (?b + 8, link F ?c ?s3)"
      using min True
      by (intro take_block_split [OF D(1,10,12), of "of_nat N" "of_nat k",
            unfolded rem of_nat_add [symmetric], OF hc _ b8 c8 cb]) blast
    moreover have "c' \<in> (\<lambda>a. a + 4) ` set F \<or> B \<le> unat c' \<and> unat c' < B + k"
      if c': "heap_word (link F ?c ?s3) c' \<noteq> ?m c'" for c'
    proof (cases "heap_word (link F ?c ?s3) c' = heap_word ?s3 c'")
      case True
      with c' have "heap_word ?s3 c' \<noteq> ?m c'" by argo
      then have "c' = ?b \<or> c' = ?c \<or> c' = ?c + 4" unfolding s3(1) by (auto split: if_splits)
      moreover have "unat ?b = B" "unat ?c = B + N" using Bk n(2) by (intro unat_of_nat_u32; simp)+
      moreover from this have "unat (?c + 4) = B + N + 4"
        using Bk NK by (simp add: unat_word_ariths del: of_nat_add)
      ultimately show ?thesis using NK by auto
    qed (use link_words [OF s3(2), of F] D(10) in simp)
    moreover have "heap_only s (link F ?c ?s3)"
      using D(1,10,12) hc s3(2)
      by (intro heap_only_rules) (simp_all only: header_put header_rules heap_put_fields header_def [symmetric], simp_all add: header_def)
    ultimately show ?thesis using True unfolding cut_tile_def by (intro exI [of _ "link F ?c ?s3"]) simp
  qed
qed

text \<open>First fit on tiles: the offset of the tile that is cut and the new tiles.\<close>

fun cut_first :: "nat \<Rightarrow> tile list \<Rightarrow> (nat \<times> tile list) option" where
  "cut_first m [] = None"
| "cut_first m ((k, f) # ts) =
    (if f \<and> m \<le> k then Some (0, cut_tile m k @ ts)
     else map_option (\<lambda>(d, us). (k + d, (k, f) # us)) (cut_first m ts))"

lemma cut_first_None: "cut_first m ts = None \<longleftrightarrow> (\<forall>(k, f)\<in>set ts. f \<longrightarrow> k < m)"
  by (induction m ts rule: cut_first.induct) (auto simp: not_le)

lemma cut_first_Some:
  assumes "cut_first m ts = Some (d, ts')"
  shows "\<exists>us k vs. ts = us @ (k, True) # vs \<and> m \<le> k \<and> (\<forall>(j, f)\<in>set us. f \<longrightarrow> j < m) \<and>
    d = span us \<and> ts' = us @ cut_tile m k @ vs"
  using assms
proof (induction m ts arbitrary: d ts' rule: cut_first.induct)
  case (2 m k f ts)
  show ?case
  proof (cases "f \<and> m \<le> k")
    case True
    with 2(2) show ?thesis by (intro exI [of _ "[]"]) auto
  next
    case False
    with 2(2) obtain d' us' where "cut_first m ts = Some (d', us')" "d = k + d'" "ts' = (k, f) # us'"
      by auto
    with 2(1) [OF False] obtain us j vs where "ts = us @ (j, True) # vs" "m \<le> j"
      "\<forall>(j, f)\<in>set us. f \<longrightarrow> j < m" "d = k + span us" "ts' = (k, f) # us @ cut_tile m j @ vs" by blast
    with False show ?thesis by (intro exI [of _ "(k, f) # us"] exI [of _ j] exI [of _ vs]) auto
  qed
qed simp

lemma layout_disjoint:
  assumes "(b, n, f) \<in> set (layout a ts)" "(c, k, g) \<in> set (layout a ts)"
  shows "(b, n, f) = (c, k, g) \<or> b + n \<le> c \<or> c + k \<le> b"
  using assms layout_bounds
  by (induction a ts rule: layout.induct) fastforce+

text \<open>The words of the blocks in use, their headers apart.\<close>

definition in_use :: "tile list \<Rightarrow> u32 \<Rightarrow> bool" where
  "in_use ts c \<longleftrightarrow> (\<exists>(b, n, f)\<in>set (layout heap_base ts). \<not> f \<and> b + 8 \<le> unat c \<and> unat c < b + n)"

lemma in_use_not_free:
  assumes "tiled s ts" "in_use ts c" "(b, n, f) \<in> set (layout heap_base ts)"
  shows "f \<Longrightarrow> \<not> (b \<le> unat c \<and> unat c < b + n)" "\<not> (b \<le> unat c \<and> unat c < b + 8)"
proof -
  obtain b' n' where u: "(b', n', False) \<in> set (layout heap_base ts)" "b' + 8 \<le> unat c" "unat c < b' + n'"
    using assms(2) by (auto simp: in_use_def)
  have "16 \<le> n" using layout_aligned(2) [OF assms(3)] heap_base_values(2) assms(1)
    by (simp add: tiled_def tile_ok_def)
  with layout_disjoint [OF u(1) assms(3)] u
  show "f \<Longrightarrow> \<not> (b \<le> unat c \<and> unat c < b + n)" "\<not> (b \<le> unat c \<and> unat c < b + 8)" by auto
qed

lemma in_use_not_next:
  assumes "tiled s ts" "in_use ts c"
  shows "c \<notin> (\<lambda>a. a + 4) ` set (free_at heap_base ts)"
proof
  assume "c \<in> (\<lambda>a. a + 4) ` set (free_at heap_base ts)"
  then obtain a where a: "a \<in> set (free_at heap_base ts)" "c = a + 4" by blast
  obtain b n where b: "a = of_nat b" "(b, n, True) \<in> set (layout heap_base ts)"
    using free_at_layout [OF a(1)] by blast
  have ok: "list_all tile_ok ts" "heap_base + span ts < 2 ^ 32" using assms(1) by (auto simp: tiled_def)
  have "16 \<le> n" using layout_aligned(2) [OF b(2) heap_base_values(2) ok(1)] by (simp add: tile_ok_def)
  then have "unat c = b + 4"
    using layout_bounds(2) [OF b(2)] ok(2) by (simp add: a b unat_word_ariths unat_of_nat_u32)
  with in_use_not_free(2) [OF assms b(2)] show False by simp
qed

lemma no_neighbours_cut:
  assumes "no_free_neighbours (us @ (k, True) # vs)"
  shows "no_free_neighbours (us @ cut_tile m k @ vs)"
  using assms by (auto simp: no_free_neighbours_def successively_append_iff successively_Cons cut_tile_def)

lemma tiled_size_word:
  assumes "tiled s ts" "(b, n, f) \<in> set (layout heap_base ts)"
  shows "heap_word s (of_nat b) AND NOT 1 = of_nat n" "n < 2 ^ 32"
  using assms layout_bounds [OF assms(2)] by (fastforce simp: tiled_def sizes_ok_def)+

lemma free_headers:
  assumes "tiled s ts"
  shows "\<forall>a\<in>set (free_at heap_base ts). header s a" "length (free_at heap_base ts) < list_bound"
proof -
  have ok: "list_all tile_ok ts" "heap_base + span ts < 2 ^ 32" "heap_top s = of_nat (heap_base + span ts)"
    using assms by (auto simp: tiled_def)
  show "\<forall>a\<in>set (free_at heap_base ts). header s a"
  proof
    fix a assume "a \<in> set (free_at heap_base ts)"
    note r = free_at_range [OF heap_base_values(2) ok(1,2) this]
    show "header s a" using header_in_heap [OF ok(3,2), of "unat a"] r by simp
  qed
  show "length (free_at heap_base ts) < list_bound"
    using length_free_at [of heap_base ts] tiles_count [OF ok(1)] ok(2) by (simp add: list_bound_def)
qed

lemma find_fit_tiles:
  assumes "tiled s ts"
  shows "find_fit list_bound needed Head s =
    Inr (first_fit (\<lambda>a. heap_word s a AND NOT 1) needed Head (free_at heap_base ts))"
  using assms free_headers [OF assms]
  by (intro find_fit_seg [of _ _ _ "heap_free s"]) (auto simp: tiled_def read_slot_def)

lemma small_tiles:
  assumes "tiled s (us @ vs)" "\<forall>(j, f)\<in>set us. f \<longrightarrow> j < unat needed"
  shows "\<forall>a\<in>set (free_at heap_base us). heap_word s a AND NOT 1 < needed"
proof
  fix a assume "a \<in> set (free_at heap_base us)"
  then obtain b n where b: "a = of_nat b" "(b, n, True) \<in> set (layout heap_base us)"
    using free_at_layout by blast
  then have l: "(b, n, True) \<in> set (layout heap_base (us @ vs))" by (simp add: layout_append)
  have "n < unat needed" using layout_bounds(3) [OF b(2)] assms(2) by auto
  with tiled_size_word [OF assms(1) l] b(1) show "heap_word s a AND NOT 1 < needed"
    by (simp add: word_less_nat_alt unat_of_nat_u32)
qed

lemma malloc_fit:
  fixes s :: "'a heap_scheme"
  assumes h: "heap_rep s ts" and n: "n \<noteq> 0" and c: "cut_first (unat (block_needed n)) ts = Some (d, ts')"
  shows "\<exists>t. malloc n s = Inr (of_nat (heap_base + d) + 8, t) \<and> heap_rep t ts' \<and> heap_only s t \<and>
    (\<forall>c. in_use ts c \<longrightarrow> heap_word t c = heap_word s c)"
proof -
  let ?N = "unat (block_needed n)"
  obtain us k vs where ts: "ts = us @ (k, True) # vs" and k: "?N \<le> k" "\<forall>(j, f)\<in>set us. f \<longrightarrow> j < ?N"
    and d: "d = span us" and ts': "ts' = us @ cut_tile ?N k @ vs"
    using cut_first_Some [OF c] by blast
  have t: "tiled s (us @ (k, True) # vs)" and nf: "no_free_neighbours (us @ (k, True) # vs)"
    using h ts by (auto simp: heap_rep_def)
  let ?b = "of_nat (heap_base + d) :: u32" and ?F = "free_at heap_base us"
  have l: "(heap_base + d, k, True) \<in> set (layout heap_base ts)" by (simp add: ts d layout_append)
  note w = tiled_size_word [OF t, folded ts, OF l]
  have "first_fit (\<lambda>a. heap_word s a AND NOT 1) (block_needed n) Head (free_at heap_base ts) =
      Some (slot_after Head ?F, ?b, of_nat k)"
    unfolding ts free_at_simps using k(1) w small_tiles [OF t k(2)]
    by (subst first_fit_split) (auto simp: d word_le_nat_alt unat_of_nat_u32)
  then have m: "malloc n s = take_block (slot_after Head ?F) ?b (of_nat k) (of_nat ?N) s"
    using n find_fit_tiles [OF t, folded ts] by (simp add: malloc_def Let_def)
  from take_tile [OF t block_needed_ok(1) k(1)] m ts' d obtain u where
    u: "malloc n s = Inr (?b + 8, u)" "tiled u ts'" "heap_only s u"
      "\<forall>c. heap_word u c \<noteq> heap_word s c \<longrightarrow> c \<in> (\<lambda>a. a + 4) ` set ?F \<or> heap_base + d \<le> unat c \<and> unat c < heap_base + d + k"
    by auto
  have "heap_word u c = heap_word s c" if "in_use ts c" for c
    using u(4) in_use_not_next [OF t [folded ts] that] in_use_not_free(1) [OF t [folded ts] that l]
    by (fastforce simp: ts)
  with u(1-3) no_neighbours_cut [OF nf] ts' show ?thesis by (auto simp: heap_rep_def)
qed

section \<open>free\<close>

text \<open>On tiles: the tile at an offset is marked, then free neighbours are joined.\<close>

fun mark :: "nat \<Rightarrow> tile list \<Rightarrow> tile list" where
  "mark d [] = []"
| "mark d ((k, f) # ts) = (if d = 0 then (k, True) # ts else (k, f) # mark (d - k) ts)"

fun join :: "tile list \<Rightarrow> tile list" where
  "join [] = []"
| "join [t] = [t]"
| "join (t # u # ts) =
    (if snd t \<and> snd u then join ((fst t + fst u, True) # ts) else t # join (u # ts))"

lemma mark_split: "list_all tile_ok us \<Longrightarrow> mark (span us) (us @ (k, f) # vs) = us @ (k, True) # vs"
  by (induction us) (auto simp: tile_ok_def)

lemma join_append:
  assumes "no_free_neighbours us" "us = [] \<or> \<not> snd (last us) \<or> \<not> snd t"
  shows "join (us @ t # vs) = us @ join (t # vs)"
  using assms
proof (induction us)
  case (Cons u us)
  then show ?case by (cases us) (auto simp: no_free_neighbours_def)
qed simp

lemma join_two: "join (us @ (j, True) # (k, True) # vs) = join (us @ (j + k, True) # vs)"
proof (induction us arbitrary: j rule: join.induct)
  case (2 t)
  then show ?case by (cases t) (simp add: add.assoc)
next
  case (3 t u us)
  then show ?case by (cases t; cases u) simp
qed simp

definition join_right :: "nat \<Rightarrow> tile list \<Rightarrow> tile list" where
  "join_right k vs = (case vs of (n, True) # ws \<Rightarrow> (k + n, True) # ws | _ \<Rightarrow> (k, True) # vs)"

lemma join_right_Nil [simp]: "join_right k [] = [(k, True)]"
  by (simp add: join_right_def)

lemma join_id: "no_free_neighbours ts \<Longrightarrow> join ts = ts"
  by (induction ts rule: join.induct) (auto simp: no_free_neighbours_def)

lemma join_Cons:
  assumes "no_free_neighbours vs"
  shows "join ((k, True) # vs) = join_right k vs"
proof -
  have *: "join ((k, True) # ws) = (k, True) # ws" if "no_free_neighbours ws" "ws = [] \<or> \<not> snd (hd ws)" for k ws
    using that by (cases ws) (auto simp: join_id)
  show ?thesis
  proof (cases vs)
    case (Cons v ws)
    then have "no_free_neighbours ws" "snd v \<longrightarrow> ws = [] \<or> \<not> snd (hd ws)"
      using assms by (cases ws; simp add: no_free_neighbours_def)+
    then show ?thesis using Cons assms * [of ws] * [of vs] by (cases v) (auto simp: join_right_def split: bool.splits)
  qed (simp add: join_right_def)
qed

lemma join_around:
  "no_free_neighbours (us @ (k, False) # vs) \<Longrightarrow> us = [] \<or> \<not> snd (last us) \<Longrightarrow>
     join (us @ (k, True) # vs) = us @ join_right k vs"
  "no_free_neighbours (us @ (j, True) # (k, False) # vs) \<Longrightarrow>
     join (us @ (j, True) # (k, True) # vs) = us @ join_right (j + k) vs"
  by (auto simp: no_free_neighbours_def successively_append_iff successively_Cons join_append join_Cons)

lemma join_no_neighbours: "no_free_neighbours (join ts)"
proof (induction ts rule: join.induct)
  case (3 t u ts)
  have "join (v # us) \<noteq> [] \<and> (snd (hd (join (v # us))) = snd v)" for v us
    by (induction "v # us" arbitrary: v us rule: join.induct) auto
  from this [of u ts] 3 show ?case by (auto simp: no_free_neighbours_def successively_Cons)
qed (auto simp: no_free_neighbours_def)

text \<open>The neighbours of a block in the free list are its neighbours in memory exactly when the
  tiles next to it are free.\<close>

lemma next_is_neighbour:
  assumes "list_all tile_ok vs" "8 dvd a" "a + span vs < 2 ^ 32" "a \<noteq> 0"
  defines "c \<equiv> (case free_at a vs of [] \<Rightarrow> 0 | g # _ \<Rightarrow> g)"
  shows "c \<noteq> 0 \<and> of_nat a = c \<longleftrightarrow> (\<exists>n ws. vs = (n, True) # ws)"
proof (cases vs)
  case (Cons v ws)
  obtain n f where v: "v = (n, f)" by (cases v)
  show ?thesis
  proof (cases f)
    case True
    then show ?thesis using Cons v assms(3,4) of_nat_u32_inject [of a 0] by (auto simp: c_def)
  next
    case False
    have n: "16 \<le> n" "8 dvd a + n" "list_all tile_ok ws" "a + n + span ws < 2 ^ 32"
      using assms(1-3) Cons v by (simp_all add: tile_ok_def [of "(n, f)"])
    have "c \<noteq> of_nat a" if "c \<noteq> 0"
    proof
      assume "c = of_nat a"
      with that have "of_nat a \<in> set (free_at (a + n) ws)"
        using False Cons v by (auto simp: c_def split: list.splits)
      from free_at_range(1) [OF n(2,3,4) this] n show False by (simp add: unat_of_nat_u32)
    qed
    then show ?thesis using False Cons v by auto
  qed
qed (simp add: c_def)

lemma prev_is_neighbour:
  assumes t: "tiled s (us @ vs)" and F: "free_at heap_base us \<noteq> []"
  defines "p \<equiv> last (free_at heap_base us)"
  shows "p + (heap_word s p AND NOT 1) = of_nat (heap_base + span us) \<longleftrightarrow> snd (last us)"
proof -
  have ne: "us \<noteq> []" using F by auto
  then obtain us0 j f where us: "us = us0 @ [(j, f)]" by (metis rev_exhaust surj_pair)
  have lim: "heap_base + span us + span vs < 2 ^ 32" and ok: "list_all tile_ok us"
    using t by (auto simp: tiled_def ac_simps)
  show ?thesis
  proof (cases f)
    case True
    then have p: "p = of_nat (heap_base + span us0)" by (simp add: p_def us)
    have "(heap_base + span us0, j, True) \<in> set (layout heap_base (us @ vs))"
      using True by (simp add: us layout_append)
    from tiled_size_word(1) [OF t this] show ?thesis using True p by (simp add: us ac_simps)
  next
    case False
    then have "p \<in> set (free_at heap_base us0)" using F last_in_set by (fastforce simp: p_def us)
    then obtain b n where b: "p = of_nat b" "(b, n, True) \<in> set (layout heap_base us0)"
      using free_at_layout by blast
    then have l: "(b, n, True) \<in> set (layout heap_base (us @ vs))" by (simp add: us layout_append)
    have "16 \<le> j" using ok by (simp add: us tile_ok_def [of "(j, f)"])
    then have "b + n < heap_base + span us" using layout_bounds(2) [OF b(2)] by (simp add: us)
    then have "(of_nat (b + n) :: u32) \<noteq> of_nat (heap_base + span us)"
      using of_nat_u32_inject [of "b + n" "heap_base + span us"] lim by (simp del: of_nat_add)
    with tiled_size_word(1) [OF t l] b(1) False show ?thesis by (simp add: us)
  qed
qed

definition free_head :: "nat \<Rightarrow> tile list \<Rightarrow> u32" where
  "free_head a ts = (case free_at a ts of [] \<Rightarrow> 0 | g # _ \<Rightarrow> g)"

lemma seg_free_head: "seg m h (free_at a ts) 0 \<Longrightarrow> h = free_head a ts"
  unfolding free_head_def by (rule seg_head)

text \<open>The words after a free block of \<open>K\<close> bytes has been written at \<open>B\<close>.\<close>

lemma release_words:
  fixes m :: "u32 \<Rightarrow> u32" and B K :: nat
  defines "b \<equiv> of_nat B :: u32"
  defines "m' \<equiv> \<lambda>x. m(b := of_nat K OR 1, b + 4 := x)"
  assumes us: "list_all tile_ok us" "B = heap_base + span us"
    and ws: "list_all tile_ok ws" "B + K + span ws < 2 ^ 32" and K: "16 \<le> K" "8 dvd K"
  shows "seg m h (free_at heap_base us) y \<Longrightarrow> seg (m' x) h (free_at heap_base us) y"
    and "seg m x (free_at (B + K) ws) 0 \<Longrightarrow> seg (m' x) b (free_at B ((K, True) # ws)) 0"
    and "sizes_ok m heap_base us \<Longrightarrow> sizes_ok m (B + K) ws \<Longrightarrow> sizes_ok (m' x) heap_base (us @ (K, True) # ws)"
proof -
  have B: "8 dvd B" "8 dvd B + K" using us heap_base_values(2) K by (simp_all add: span_dvd)
  have lu: "heap_base + span us < 2 ^ 32" using us ws by simp
  have b8: "aligned8 b" using B ws(2) by (simp add: b_def aligned8_of_nat)
  have ub: "unat b = B" using ws(2) by (simp add: b_def unat_of_nat_u32)
  then have b0: "b \<noteq> 0" using us(2) heap_base_values(1) by auto
  note ru = free_at_range [OF heap_base_values(2) us(1) lu] and rw = free_at_range [OF B(2) ws(1,2)]
  have bu: "b \<notin> set (free_at heap_base us)" using ru(2) [of b] ub us(2) by auto
  have bw: "b \<notin> set (free_at (B + K) ws)" using rw(1) [of b] ub K by auto
  show "seg m h (free_at heap_base us) y \<Longrightarrow> seg (m' x) h (free_at heap_base us) y"
    using ru(3) b8 bu by (simp add: m'_def seg_upd_next seg_upd_size)
  show "seg m x (free_at (B + K) ws) 0 \<Longrightarrow> seg (m' x) b (free_at B ((K, True) # ws)) 0"
    using rw(3) b8 bw b0 by (simp add: m'_def seg_upd_next seg_upd_size b_def)
  have "(of_nat K OR 1 :: u32) AND NOT 1 = of_nat K"
    using K ws(2) by (intro even_flag aligned8_of_nat) simp_all
  then have mb: "m' x b AND NOT 1 = of_nat K" using aligned8_plus4 [OF b8 b8] by (simp add: m'_def)
  have ch: "c = b" if "m' x c \<noteq> m c" "aligned8 c" for c
    using that aligned8_plus4 [OF that(2) b8] by (auto simp: m'_def split: if_splits)
  assume sz: "sizes_ok m heap_base us" "sizes_ok m (B + K) ws"
  have "sizes_ok (m' x) heap_base us"
    using sz(1) sizes_frame [OF heap_base_values(2) us(1) lu, of "m' x" m] ch ub us(2) by fastforce
  moreover have "sizes_ok (m' x) (B + K) ws"
    using sz(2) sizes_frame [OF B(2) ws(1,2), of "m' x" m] ch ub K by fastforce
  ultimately show "sizes_ok (m' x) heap_base (us @ (K, True) # ws)"
    using mb us(2) by (simp add: sizes_ok_append sizes_ok_Cons b_def)
qed

text \<open>Linking a released block of \<open>K\<close> bytes into the list, and joining it with the free block
  below it.\<close>

lemma tiled_release:
  fixes s u :: "'a heap_scheme"
  assumes us: "list_all tile_ok us" "heap_base + span us = B"
    and ws: "list_all tile_ok ws" "B + K + span ws < 2 ^ 32" and K: "16 \<le> K" "8 dvd K"
    and s: "seg (heap_word s) (heap_free s) (free_at heap_base us) y"
      "seg (heap_word s) x (free_at (B + K) ws) 0"
      "sizes_ok (heap_word s) heap_base us" "sizes_ok (heap_word s) (B + K) ws"
    and u: "heap_mapped u" "heap_free u = heap_free s" "heap_top u = of_nat (B + K + span ws)"
      "heap_word u = (heap_word s)(of_nat B := of_nat K OR 1, of_nat B + 4 := x)"
  shows "tiled (link (free_at heap_base us) (of_nat B) u) (us @ (K, True) # ws)"
    "y = of_nat B \<Longrightarrow> tiled u (us @ (K, True) # ws)"
proof -
  note W = release_words [OF us(1) us(2) [symmetric] ws K, of "heap_word s"]
  have l: "heap_base + span (us @ (K, True) # ws) = B + K + span ws" using us(2) by simp
  have ok: "list_all tile_ok (us @ (K, True) # ws)" using us ws K by (simp add: tile_ok_def [of "(K, True)"])
  have L: "seg (heap_word u) (heap_free u) (free_at heap_base us) y"
    "seg (heap_word u) (of_nat B) (free_at (heap_base + span us) ((K, True) # ws)) 0"
    "sizes_ok (heap_word u) heap_base (us @ (K, True) # ws)"
    unfolding u(2,4) us(2) by (rule W(1) [OF s(1)], rule W(2) [OF s(2)], rule W(3) [OF s(3,4)])
  show "tiled (link (free_at heap_base us) (of_nat B) u) (us @ (K, True) # ws)"
    by (rule tiled_link [OF u(1) ok _ _ L]) (use u(3) ws(2) l in \<open>simp_all only:\<close>)
  show "tiled u (us @ (K, True) # ws)" if "y = of_nat B"
    using L u(1,3) ok ws(2) that by (simp only: tiled_def free_at_simps(4) seg_append l) blast
qed

text \<open>The last part of free: the released block \<open>b\<close> joins the free block before it.\<close>

definition free_left :: "u32 list \<Rightarrow> u32 \<Rightarrow> 'a heap_scheme \<Rightarrow> 'a heap_scheme kres" where
  "free_left F b s =
    (if F = [] then Inr s
     else kbind (get_size s (last F)) (\<lambda>ps.
       if last F + (ps AND NOT 1) = b
       then kbind (get_size s b) (\<lambda>bs.
            kbind (set_size (last F) (((ps AND NOT 1) + (bs AND NOT 1)) OR 1) s) (\<lambda>s.
            kbind (get_next s b) (\<lambda>nx. set_next (last F) nx s)))
       else Inr s))"

text \<open>A word of a header of a tile.\<close>

definition in_header :: "tile list \<Rightarrow> u32 \<Rightarrow> bool" where
  "in_header ts c \<longleftrightarrow> (\<exists>(b, n, f)\<in>set (layout heap_base ts). b \<le> unat c \<and> unat c < b + 8)"

lemma in_headerI:
  assumes "tiled s ts" "(b, n, f) \<in> set (layout heap_base ts)"
  shows "in_header ts (of_nat b)" "in_header ts (of_nat b + 4)"
proof -
  have ok: "list_all tile_ok ts" "heap_base + span ts < 2 ^ 32" using assms(1) by (auto simp: tiled_def)
  have "16 \<le> n" using layout_aligned(2) [OF assms(2) heap_base_values(2) ok(1)] by (simp add: tile_ok_def)
  then have "unat (of_nat b :: u32) = b" "unat (of_nat b + 4 :: u32) = b + 4"
    using layout_bounds(2) [OF assms(2)] ok(2) by (simp_all add: unat_word_ariths unat_of_nat_u32)
  then show "in_header ts (of_nat b)" "in_header ts (of_nat b + 4)"
    using assms(2) unfolding in_header_def by (force intro!: bexI [OF _ assms(2)])+
qed

lemma free_in_header:
  assumes "tiled s ts" "a \<in> set (free_at heap_base ts)"
  shows "in_header ts a" "in_header ts (a + 4)"
  using free_at_layout [OF assms(2)] in_headerI [OF assms(1)] by blast+

lemma in_use_not_header: "tiled s ts \<Longrightarrow> in_use ts c \<Longrightarrow> \<not> in_header ts c"
  using in_use_not_free(2) by (fastforce simp: in_header_def)

lemma free_left_tiles:
  fixes s :: "'a heap_scheme"
  assumes t: "tiled s (us @ (K, True) # ws)"
  defines "b \<equiv> of_nat (heap_base + span us) :: u32" and "F \<equiv> free_at heap_base us"
  shows "\<exists>t. free_left F b s = Inr t \<and>
    tiled t (if us \<noteq> [] \<and> snd (last us) then butlast us @ (fst (last us) + K, True) # ws else us @ (K, True) # ws) \<and> heap_only s t \<and>
    (\<forall>c. heap_word t c \<noteq> heap_word s c \<longrightarrow> c \<in> set F \<or> c \<in> (\<lambda>a. a + 4) ` set F)"
proof (cases "us \<noteq> [] \<and> snd (last us)")
  case False
  have "free_left F b s = Inr s"
  proof (cases "F = []")
    case F: False
    then have "us \<noteq> []" by (auto simp: F_def)
    with False prev_is_neighbour [OF t] F have "last F + (heap_word s (last F) AND NOT 1) \<noteq> b"
      by (simp add: F_def b_def)
    moreover have "header s (last F)" using tiled_splitD(10) [OF t] F by (simp add: F_def)
    ultimately show ?thesis using F tiled_splitD(1) [OF t] by (simp add: free_left_def header_access)
  qed (simp add: free_left_def)
  then show ?thesis using False t heap_only_refl by auto
next
  case True
  then obtain us0 j where us: "us = us0 @ [(j, True)]" by (metis append_butlast_last_id prod.collapse)
  let ?P = "heap_base + span us0" let ?p = "of_nat ?P :: u32" and ?F = "free_at heap_base us0"
  have F: "F = ?F @ [?p]" "last F = ?p" by (simp_all add: F_def us)
  have t0: "tiled s (us0 @ (j, True) # (K, True) # ws)" using t by (simp add: us)
  note D = tiled_splitD [OF t0] and E = tiled_splitD [OF t]
  have b: "b = of_nat (?P + j)" "?p + of_nat j = b" by (simp_all add: b_def us ac_simps)
  let ?m = "heap_word s"
  have sz: "?m ?p AND NOT 1 = of_nat j" "?m b AND NOT 1 = of_nat K" using D(14) E(14) by (simp_all add: b_def)
  have sg: "seg ?m (heap_free s) ?F ?p" "seg ?m (?m (b + 4)) (free_at (?P + (j + K)) ws) 0"
    using t0 by (auto simp: tiled_def seg_append b ac_simps)
  have h: "header s ?p" "header s b" using D(12) E(12) by (simp_all add: b_def)
  let ?u = "heap_put (?p + 4) (?m (b + 4)) (heap_put ?p (of_nat (j + K) OR 1) s)"
  have u: "heap_mapped ?u" "heap_word ?u = ?m(?p := of_nat (j + K) OR 1, ?p + 4 := ?m (b + 4))"
    "heap_free ?u = heap_free s"
    using D(1) h by (simp_all add: header_rules)
  have top: "heap_top ?u = of_nat (?P + (j + K) + span ws)" using D(22) by (simp add: ac_simps)
  have "?p \<noteq> b + 4"
    unfolding b(1) using D(4,6,8,9) by (intro aligned8_plus4 aligned8_of_nat) simp_all
  then have "free_left F b s = Inr ?u"
    using D(1) h sz b(2) by (simp add: free_left_def F header_rules)
  moreover have "tiled ?u (us0 @ (j + K, True) # ws)"
    using D(3,4,5,8) E(4,5,15) by (intro tiled_release(2) [OF D(2) refl _ _ _ _ sg D(13) _ u(1,3) top u(2)]) (auto simp: us ac_simps)
  moreover have "c \<in> set F \<or> c \<in> (\<lambda>a. a + 4) ` set F" if "heap_word ?u c \<noteq> ?m c" for c
    using that unfolding u(2) F by (auto split: if_splits)
  moreover have "heap_only s ?u"
    using D(1) h by (intro heap_only_rules) (simp_all add: header_rules, simp_all add: header_def)
  ultimately show ?thesis using us by auto
qed

text \<open>Up to there: the released block, joined with a free block after it, enters the list.\<close>

lemma free_unfold:
  fixes s :: "'a heap_scheme"
  assumes t: "tiled s (us @ (k, False) # vs)"
  defines "B \<equiv> heap_base + span us" and "F \<equiv> free_at heap_base us"
  defines "b \<equiv> of_nat B :: u32" and "c \<equiv> free_head (B + k) vs"
  defines "s1 \<equiv> heap_put b (of_nat k OR 1) s"
  assumes A: "(if c \<noteq> 0 \<and> of_nat (B + k) = c
           then kbind (get_size s1 c) (\<lambda>cs.
                kbind (set_size b ((of_nat k + (cs AND NOT 1)) OR 1) s1) (\<lambda>s.
                kbind (get_next s c) (\<lambda>nx. set_next b nx s)))
           else set_next b c s1) = Inr u"
    and u: "heap_mapped u" "\<And>a. header u a = header s a"
  shows "free (b + 8) s = free_left F b (link F b u)"
proof -
  note D = tiled_splitD [OF t, folded B_def F_def b_def]
  have s1: "heap_mapped s1" "heap_word s1 = (heap_word s)(b := of_nat k OR 1)" "heap_free s1 = heap_free s"
    "\<And>a. header s1 a = header s a"
    using D(1,12) by (simp_all add: s1_def header_rules)
  have b8: "aligned8 b" using D(6,8) by (simp add: b_def aligned8_of_nat)
  have sg: "seg (heap_word s1) (heap_free s1) (F @ free_at (B + k) vs) 0"
    using t D(21) b8 unfolding s1 by (subst seg_upd_size) (auto simp: tiled_def F_def B_def)
  have "\<forall>a\<in>set (free_at (B + k) vs). b \<le> a"
  proof
    fix a assume "a \<in> set (free_at (B + k) vs)"
    with D(17) have "of_nat (B + k) \<le> a" by blast
    moreover have "b \<le> of_nat (B + k)"
      using D(8) unat_of_nat_u32 [of "B + k"] by (simp add: b_def word_le_nat_alt unat_of_nat_u32 del: of_nat_add)
    ultimately show "b \<le> a" by simp
  qed
  moreover have "length F < list_bound" using free_headers(2) [OF t] by (simp add: F_def)
  ultimately have pos: "find_pos list_bound b 0 (heap_free s1) s1 = Inr (if F = [] then 0 else last F, c)"
    using find_pos_seg [OF s1(1) _ sg, of list_bound b 0] D(10,16) by (simp add: s1(4) c_def free_head_def)
  have f0: "F \<noteq> [] \<Longrightarrow> last F \<noteq> 0" using seg_nonzero [OF sg] by (metis last_in_set in_set_conv_decomp append_Cons append_assoc)
  define q where "q = (if F = [] then 0 else last F)"
  have lk: "kbind (if q \<noteq> 0 then set_next q b u else Inr (u\<lparr>heap_free := b\<rparr>)) (\<lambda>s.
      if q \<noteq> 0 then kbind (get_size s q) (\<lambda>ps. if q + (ps AND NOT 1) = b
         then kbind (get_size s b) (\<lambda>bs. kbind (set_size q (((ps AND NOT 1) + (bs AND NOT 1)) OR 1) s) (\<lambda>s.
              kbind (get_next s b) (\<lambda>nx. set_next q nx s))) else Inr s) else Inr s) = free_left F b (link F b u)"
    unfolding q_def using u f0 D(10) by (auto simp: free_left_def link_def header_access)
  have nz: "b + 8 \<noteq> 0" "b + 8 - sizeof_heap_block = b"
  proof -
    have "unat (b + 8) = B + 8" using D(4,8) by (simp add: b_def unat_word_ariths unat_of_nat_u32)
    then show "b + 8 \<noteq> 0" by auto
  qed (simp add: sizeof_heap_block_def)
  have e: "get_size s b = Inr (heap_word s b)" "set_size b (of_nat k OR 1) s = Inr s1"
    "b + of_nat k = of_nat (B + k)"
    using D(1,12) by (simp_all add: header_access s1_def b_def)
  show ?thesis
    by (simp only: free_def Let_def nz if_False e D(14) kbind_simps pos [folded q_def] prod.case A lk)
qed

lemma release_changes:
  fixes s u :: "'a heap_scheme"
  assumes t: "tiled s (us @ (k, False) # vs)"
  defines "b \<equiv> of_nat (heap_base + span us) :: u32" and "F \<equiv> free_at heap_base us"
  assumes u: "heap_mapped u" "\<And>a. header u a = header s a" "heap_word u = (heap_word s)(b := v, b + 4 := w)"
    and c: "heap_word (link F b u) c \<noteq> heap_word s c"
  shows "in_header (us @ (k, False) # vs) c"
proof (cases "heap_word (link F b u) c = heap_word u c")
  case True
  with u(3) c have "c = b \<or> c = b + 4" by (auto split: if_splits)
  moreover have l: "(heap_base + span us, k, False) \<in> set (layout heap_base (us @ (k, False) # vs))"
    by (simp add: layout_append)
  ultimately show ?thesis using in_headerI [OF t l] by (auto simp: b_def simp del: of_nat_add)
next
  case False
  then obtain a where "a \<in> set F" "c = a + 4"
    using link_words [OF u(1), of F b c] u(2) tiled_splitD(10) [OF t] by (auto simp: F_def)
  with free_in_header(2) [OF t, of a] show ?thesis by (simp add: F_def)
qed

lemma free_no_neighbour:
  fixes s :: "'a heap_scheme"
  assumes t: "tiled s (us @ (k, False) # vs)" and n: "\<nexists>n ws. vs = (n, True) # ws"
  shows "\<exists>u. free (of_nat (heap_base + span us) + 8) s =
      free_left (free_at heap_base us) (of_nat (heap_base + span us)) u \<and> tiled u (us @ (k, True) # vs) \<and> heap_only s u \<and>
    (\<forall>c. heap_word u c \<noteq> heap_word s c \<longrightarrow> in_header (us @ (k, False) # vs) c)"
proof -
  let ?B = "heap_base + span us" let ?b = "of_nat ?B :: u32" and ?F = "free_at heap_base us"
  let ?c = "free_head (?B + k) vs" and ?m = "heap_word s"
  note D = tiled_splitD [OF t]
  have sg: "seg ?m (heap_free s) ?F ?c" "seg ?m ?c (free_at (?B + k) vs) 0"
    using t seg_free_head by (auto simp: tiled_def seg_append)
  have nb: "\<not> (?c \<noteq> 0 \<and> of_nat (?B + k) = ?c)"
    unfolding free_head_def using next_is_neighbour [OF D(3,9,8)] heap_base_values(1) n by simp
  let ?s1 = "heap_put ?b (of_nat k OR 1) s"
  let ?u = "heap_put (?b + 4) ?c ?s1"
  have s1: "heap_mapped ?s1" "header ?s1 ?b" using D(1,12) by (simp_all add: header_rules)
  have u: "heap_mapped ?u" "heap_word ?u = ?m(?b := of_nat k OR 1, ?b + 4 := ?c)"
    "heap_free ?u = heap_free s" "heap_top ?u = of_nat (?B + k + span vs)" "\<And>a. header ?u a = header s a"
    using D(1,12,22) by (simp_all add: header_rules)
  have "free (?b + 8) s = free_left ?F ?b (link ?F ?b ?u)"
    by (rule free_unfold [OF t]) (use nb u(1,5) s1 in \<open>simp_all only: if_False header_access\<close>)
  moreover have "tiled (link ?F ?b ?u) (us @ (k, True) # vs)"
    using tiled_release(1) [OF D(2) refl D(3,8,4,5) sg D(13,15) u(1,3,4) u(2)]
    by (simp del: of_nat_add)
  moreover have "heap_only s (link ?F ?b ?u)"
    using D(1,10,12) by (intro heap_only_rules) (simp_all add: header_rules, simp_all add: header_def)
  ultimately show ?thesis
    using release_changes [OF t u(1,5) u(2)] by blast
qed

lemma free_neighbour:
  fixes s :: "'a heap_scheme"
  assumes t: "tiled s (us @ (k, False) # (n, True) # ws)"
  shows "\<exists>u. free (of_nat (heap_base + span us) + 8) s =
      free_left (free_at heap_base us) (of_nat (heap_base + span us)) u \<and> tiled u (us @ (k + n, True) # ws) \<and> heap_only s u \<and>
    (\<forall>c. heap_word u c \<noteq> heap_word s c \<longrightarrow> in_header (us @ (k, False) # (n, True) # ws) c)"
proof -
  let ?B = "heap_base + span us" let ?b = "of_nat ?B :: u32" and ?F = "free_at heap_base us"
  let ?c = "of_nat (?B + k) :: u32" and ?m = "heap_word s"
  have t': "tiled s ((us @ [(k, False)]) @ (n, True) # ws)" using t by simp
  note D = tiled_splitD [OF t] and E = tiled_splitD [OF t']
  have B: "heap_base + span (us @ [(k, False)]) = ?B + k" by simp
  have c: "free_head (?B + k) ((n, True) # ws) = ?c" by (simp add: free_head_def)
  have h: "header s ?c" and sz: "?m ?c AND NOT 1 = of_nat n" using E(12,14) unfolding B by auto
  have sg: "seg ?m (heap_free s) ?F ?c" "seg ?m (?m (?c + 4)) (free_at (?B + (k + n)) ws) 0" "?c \<noteq> 0"
    using t by (auto simp: tiled_def seg_append add.assoc)
  have b8: "aligned8 ?b" "aligned8 ?c" using D(6,8,9) by (intro aligned8_of_nat; simp)+
  have cb: "?c \<noteq> ?b" using of_nat_u32_inject [of "?B + k" ?B] D(4,8) by (simp del: of_nat_add)
  let ?s1 = "heap_put ?b (of_nat k OR 1) s"
  have s1: "heap_mapped ?s1" "heap_word ?s1 = ?m(?b := of_nat k OR 1)" "\<And>a. header ?s1 a = header s a"
    using D(1,12) by (simp_all add: header_rules)
  let ?s2 = "heap_put ?b (of_nat (k + n) OR 1) ?s1"
  have s2: "heap_mapped ?s2" "heap_word ?s2 = ?m(?b := of_nat (k + n) OR 1)" "\<And>a. header ?s2 a = header s a"
    using s1 D(12) by (simp_all add: header_rules)
  let ?u = "heap_put (?b + 4) (?m (?c + 4)) ?s2"
  have u: "heap_mapped ?u" "heap_word ?u = ?m(?b := of_nat (k + n) OR 1, ?b + 4 := ?m (?c + 4))"
    "heap_free ?u = heap_free s" "\<And>a. header ?u a = header s a"
    using s2 D(12) by (simp_all add: header_rules)
  have top: "heap_top ?u = of_nat (?B + (k + n) + span ws)" using D(22) by (simp add: ac_simps)
  have e: "get_size ?s1 ?c = Inr (?m ?c)" "get_next ?s2 ?c = Inr (?m (?c + 4))"
    "set_size ?b (of_nat (k + n) OR 1) ?s1 = Inr ?s2" "set_next ?b (?m (?c + 4)) ?s2 = Inr ?u"
    using cb aligned8_plus4 [OF b8, symmetric] D(12) h
    by (simp_all only: header_access s1(1,3) s2(1,3) s1(2) s2(2) fun_upd_apply if_False)
  have "free (?b + 8) s = free_left ?F ?b (link ?F ?b ?u)"
  proof (rule free_unfold [OF t], unfold c)
    show "(if ?c \<noteq> 0 \<and> ?c = ?c
      then kbind (get_size ?s1 ?c) (\<lambda>cs. kbind (set_size ?b ((of_nat k + (cs AND NOT 1)) OR 1) ?s1) (\<lambda>s.
           kbind (get_next s ?c) (\<lambda>nx. set_next ?b nx s)))
      else set_next ?b ?c ?s1) = Inr ?u"
      by (simp only: sg(3) simp_thms if_True e kbind_simps sz of_nat_add [symmetric] not_False_eq_True)
  qed (use u in \<open>simp_all only:\<close>)
  moreover have "tiled (link ?F ?b ?u) (us @ (k + n, True) # ws)"
    using D(3,4,5,8) E(4,5,15)
      tiled_release(1) [OF D(2) refl _ _ _ _ sg(1) sg(2) D(13) _ u(1,3) top u(2)]
    by (simp add: ac_simps del: of_nat_add)
  moreover have "heap_only s (link ?F ?b ?u)"
    using D(1,10,12) by (intro heap_only_rules) (simp_all add: header_rules, simp_all add: header_def)
  ultimately show ?thesis
    using release_changes [OF t u(1,4) u(2)] by blast
qed

lemma free_live:
  fixes s :: "'a heap_scheme"
  assumes h: "heap_rep s (us @ (k, False) # vs)"
  shows "\<exists>t. free (of_nat (heap_base + span us) + 8) s = Inr t \<and> heap_rep t (join (us @ (k, True) # vs)) \<and> heap_only s t \<and>
    (\<forall>c. in_use (us @ (k, False) # vs) c \<longrightarrow> heap_word t c = heap_word s c)"
proof -
  let ?b = "of_nat (heap_base + span us) :: u32" and ?F = "free_at heap_base us" and ?ts = "us @ (k, False) # vs"
  have t: "tiled s ?ts" and nf: "no_free_neighbours ?ts" using h by (auto simp: heap_rep_def)
  obtain u K ws where jr: "join_right k vs = (K, True) # ws" and u: "free (?b + 8) s = free_left ?F ?b u"
    "tiled u (us @ (K, True) # ws)" "heap_only s u" "\<forall>c. heap_word u c \<noteq> heap_word s c \<longrightarrow> in_header ?ts c"
  proof (cases "\<exists>n ws. vs = (n, True) # ws")
    case True
    then obtain n ws where "vs = (n, True) # ws" by blast
    then show thesis using free_neighbour t that [of "k + n" ws] by (fastforce simp: join_right_def)
  next
    case False
    then show thesis using free_no_neighbour [OF t False] that [of k vs]
      by (fastforce simp: join_right_def split: list.splits bool.splits)
  qed
  let ?ts' = "if us \<noteq> [] \<and> snd (last us) then butlast us @ (fst (last us) + K, True) # ws else us @ (K, True) # ws"
  obtain t' where t': "free_left ?F ?b u = Inr t'" "tiled t' ?ts'" "heap_only u t'"
    "\<forall>c. heap_word t' c \<noteq> heap_word u c \<longrightarrow> c \<in> set ?F \<or> c \<in> (\<lambda>a. a + 4) ` set ?F"
    using free_left_tiles [OF u(2)] by blast
  have "?ts' = join (us @ (k, True) # vs)"
  proof (cases "us \<noteq> [] \<and> snd (last us)")
    case True
    then obtain us0 j where us: "us = us0 @ [(j, True)]" by (metis append_butlast_last_id prod.collapse)
    have "join_right (j + k) vs = (j + K, True) # ws"
      using jr by (auto simp: join_right_def ac_simps split: list.splits prod.splits bool.splits)
    then show ?thesis using join_around(2) [of us0 j k vs] nf by (simp add: us)
  qed (use join_around(1) [OF nf] jr in auto)
  moreover have "heap_word t' c = heap_word s c" if "in_use ?ts c" for c
  proof -
    have "set ?F \<subseteq> set (free_at heap_base ?ts)" by simp
    then have "c \<notin> set ?F" "c \<notin> (\<lambda>a. a + 4) ` set ?F"
      using in_use_not_header [OF t that] free_in_header [OF t] by blast+
    then show ?thesis using u(4) t'(4) in_use_not_header [OF t that] by metis
  qed
  ultimately show ?thesis
    using u(1) t'(1,2) join_no_neighbours heap_only_trans [OF u(3) t'(3)] by (auto simp: heap_rep_def)
qed

end
