(* ===== verification/Heap_Grow.thy ===== *)
theory Heap_Grow
  imports Heap_Props
begin

text \<open>
  The growth of the heap. \<open>heap_upto s e\<close>: the addresses from \<open>HEAP_START\<close> up to \<open>e\<close> are
  mapped to frames of their own, taken out of the pool and used by no page table.
  \<open>grow_page\<close> is the step that maps one more page; \<open>heap_init\<close> and the growing part of malloc are loops of it.
  \<open>heap_ready\<close> is the state in which the kernel calls malloc and free: the kernel's address space is in
  use and physical memory ends below the heap.
\<close>

section \<open>One more page\<close>

definition heap_upto :: "'a vmm_scheme \<Rightarrow> nat \<Rightarrow> bool" where
  "heap_upto s e \<longleftrightarrow>
     (\<forall>v. heap_base \<le> unat v \<and> unat v < e \<longrightarrow>
        (\<exists>p. walk (phys_mem s) (cur s) v = Some p \<and>
           p AND 0xFFFFF000 \<in> pmm_managed s - pmm_pool s - tables (phys_mem s) (cur s))) \<and>
     (\<forall>v w. heap_base \<le> unat v \<and> unat v < e \<longrightarrow> heap_base \<le> unat w \<and> unat w < e \<longrightarrow>
        walk (phys_mem s) (cur s) v = walk (phys_mem s) (cur s) w \<longrightarrow> v = w)"

text \<open>The kernel's space is in use, and memory ends below the heap.\<close>

definition kernel_space :: "'a vmm_scheme \<Rightarrow> bool" where
  "kernel_space s \<longleftrightarrow> vm_ok s (kernel_page_directory s) \<and> paging s \<and> cur s = kernel_page_directory s \<and>
     current_page_directory s = kernel_page_directory s \<and> unat (total_pages s) * 4096 \<le> heap_base"

text \<open>\<open>same_words s t e\<close>: the words of the heap below \<open>e\<close> are in the same frames and unchanged.\<close>

definition same_words :: "'a vmm_scheme \<Rightarrow> 'a vmm_scheme \<Rightarrow> nat \<Rightarrow> bool" where
  "same_words s t e \<longleftrightarrow>
     (\<forall>v. heap_base \<le> unat v \<and> unat v < e \<longrightarrow> walk (phys_mem t) (cur t) v = walk (phys_mem s) (cur s) v) \<and>
     (\<forall>v p j. heap_base \<le> unat v \<and> unat v < e \<longrightarrow> walk (phys_mem s) (cur s) v = Some p \<longrightarrow> j < 1024 \<longrightarrow>
        mword (phys_mem t) (p AND 0xFFFFF000) j = mword (phys_mem s) (p AND 0xFFFFF000) j)"

lemma same_words_trans: "same_words s t e \<Longrightarrow> same_words t u e' \<Longrightarrow> e \<le> e' \<Longrightarrow> same_words s u e"
  by (auto simp: same_words_def)

lemma unat_page_floor: "unat (x AND 0xFFFFF000) = 4096 * (unat x div 4096)" for x :: u32
proof -
  have d: "unat (drop_bit 12 x) = unat x div 4096" by (simp add: drop_bit_eq_div unat_div)
  have "unat x < 2 ^ 32" using unsigned_less [of x, where ?'a = nat] by simp
  then have "4096 * (unat x div 4096) < 2 ^ 32" by linarith
  then show ?thesis unfolding page_high by (simp add: push_bit_eq_mult unat_word_ariths d)
qed

lemma page_of_nat:
  assumes "4096 dvd e" "e + 4096 \<le> 2 ^ 32"
  shows "same_page (of_nat e) v \<longleftrightarrow> e \<le> unat v \<and> unat v < e + 4096"
    "aligned_page (of_nat e)" "unat (of_nat e :: u32) = e"
proof -
  show u: "unat (of_nat e :: u32) = e" using assms(2) by (intro unat_of_nat_u32) simp
  then show "aligned_page (of_nat e)" using assms(1) by (simp add: take_bit_zero_iff)
  have "same_page (of_nat e) v \<longleftrightarrow> 4096 * (e div 4096) = 4096 * (unat v div 4096)"
    unfolding same_page_def word_unat_eq_iff unat_page_floor u ..
  also have "\<dots> \<longleftrightarrow> e \<le> unat v \<and> unat v < e + 4096" using assms(1) by (auto elim!: dvdE)
  finally show "same_page (of_nat e) v \<longleftrightarrow> e \<le> unat v \<and> unat v < e + 4096" .
qed

lemma upto_mapped:
  fixes s t :: "'a vmm_scheme"
  assumes u: "heap_upto s e" and e: "4096 dvd e" "heap_base \<le> e" "e + 4096 \<le> 2 ^ 32"
    and d: "cur s = d" "cur t = d" "tables (phys_mem s) d \<inter> pmm_pool s = {}"
    and p: "p \<in> pmm_pool s" "p \<in> pmm_managed s"
    and t: "pmm_pool t \<subseteq> pmm_pool s - {p}" "pmm_managed t = pmm_managed s"
      "tables (phys_mem t) d \<subseteq> tables (phys_mem s) d \<union> (pmm_pool s - {p})"
    and w: "\<And>w. walk (phys_mem t) d w =
      (if same_page (of_nat e) w then Some (p + (w AND 0xFFF)) else walk (phys_mem s) d w)"
  shows "heap_upto t (e + 4096)"
proof -
  have al: "aligned_page p" using p(2) by (rule managed_aligned)
  have off: "(p + (v AND 0xFFF)) AND 0xFFFFF000 = p" for v
    unfolding page_mask offset_mask by (rule base_plus_high [OF al]) simp
  note P = page_of_nat(1) [OF e(1,3)]
  have old: "walk (phys_mem t) d v = walk (phys_mem s) d v" if "unat v < e" for v using that by (simp add: w P)
  have new: "walk (phys_mem t) d v = Some (p + (v AND 0xFFF))" if "e \<le> unat v" "unat v < e + 4096" for v
    using that by (simp add: w P)
  have fr: "\<exists>q. walk (phys_mem s) d v = Some q \<and> q AND 0xFFFFF000 \<in> pmm_managed s - pmm_pool s - tables (phys_mem s) d"
    if "heap_base \<le> unat v" "unat v < e" for v using u that d(1) by (auto simp: heap_upto_def)
  have m: "\<exists>q. walk (phys_mem t) d v = Some q \<and> q AND 0xFFFFF000 \<in> pmm_managed t - pmm_pool t - tables (phys_mem t) d"
    if "heap_base \<le> unat v" "unat v < e + 4096" for v
  proof (cases "unat v < e")
    case True
    with fr [OF that(1)] old t show ?thesis by fastforce
  next
    case False
    then show ?thesis using new [of v] that(2) p t d(3) off [of v] by auto
  qed
  have "v = w" if vw: "heap_base \<le> unat v" "unat v < e + 4096" "heap_base \<le> unat w" "unat w < e + 4096"
    "walk (phys_mem t) d v = walk (phys_mem t) d w" for v w
  proof -
    have ne: False if "heap_base \<le> unat x" "unat x < e" "e \<le> unat y" "unat y < e + 4096"
      "walk (phys_mem t) d x = walk (phys_mem t) d y" for x y
      using fr [OF that(1,2)] old [OF that(2)] new [OF that(3,4)] that(5) off [of y] p(1) by auto
    consider "unat v < e" "unat w < e" | "e \<le> unat v" "e \<le> unat w" using ne [of v w] ne [of w v] vw by fastforce
    then show ?thesis
    proof cases
      case 1
      then show ?thesis using u vw old [of v] old [of w] d(1) by (auto simp: heap_upto_def)
    next
      case 2
      then have "p + (v AND 0xFFF) = p + (w AND 0xFFF)" "same_page (of_nat e) v" "same_page (of_nat e) w"
        using vw new [of v] new [of w] by (auto simp: P)
      then show ?thesis
        using split_base_low [of v 12] split_base_low [of w 12]
        by (simp add: same_page_def page_mask offset_mask)
    qed
  qed
  with m show ?thesis unfolding heap_upto_def d(2) by blast
qed

lemma grow_page:
  fixes s :: "'a vmm_scheme"
  assumes k: "kernel_space s" and u: "heap_upto s e" and e: "4096 dvd e" "heap_base \<le> e" "e + 4096 \<le> 2 ^ 32"
    and pool: "2 \<le> card (pmm_pool s)"
  shows "\<exists>p t. vmm_alloc_page (of_nat e) VMM_WRITABLE s = Inr (p, t) \<and> p \<noteq> 0 \<and> kernel_space t \<and>
    heap_upto t (e + 4096) \<and> same_words s t e \<and> card (pmm_pool s) \<le> card (pmm_pool t) + 2 \<and> mem_only s t"
proof -
  let ?d = "kernel_page_directory s"
  have O: "vm_ok s ?d" "pmm_inv s" "direct s" "space_ok s ?d" "paging s" "cur s = ?d" "current_page_directory s = ?d"
    using k by (auto simp: kernel_space_def vm_ok_def)
  have fl: "take_bit 12 VMM_WRITABLE = VMM_WRITABLE" by (simp add: VMM_WRITABLE_def)
  have "total_pages s \<le> of_nat e div PAGE_SIZE"
  proof -
    have "unat (total_pages s) * 4096 \<le> e" using k e(2) by (simp add: kernel_space_def)
    then show ?thesis using page_of_nat(3) [OF e(1,3)] by (simp add: word_le_nat_alt unat_div PAGE_SIZE_def)
  qed
  from alloc_page_effect [OF vm_ok_core(1) [OF O(1)] O(5,6,7) pool fl this] obtain p t where
    t: "vmm_alloc_page (of_nat e) VMM_WRITABLE s = Inr (p, t)" "p \<noteq> 0" "p \<in> pmm_pool s" "p \<in> pmm_managed s"
      "pmm_pool t \<subseteq> pmm_pool s - {p}" "vm_core t ?d" "card (pmm_pool s) \<le> card (pmm_pool t) + 2"
      "tables (phys_mem t) ?d \<subseteq> tables (phys_mem s) ?d \<union> (pmm_pool s - {p})"
      "\<forall>g j. aligned_page g \<longrightarrow> j < 1024 \<longrightarrow> g \<notin> tables (phys_mem s) ?d \<union> (pmm_pool s - {p}) \<longrightarrow>
         mword (phys_mem t) g j = mword (phys_mem s) g j"
    and M1: "mem_only s t" and W: "\<And>w. walk (phys_mem t) ?d w =
      (if same_page (of_nat e) w then Some (p + (w AND 0xFFF)) else walk (phys_mem s) ?d w)" by blast
  note F = mem_only_fields [OF M1]
  have "heap_upto t (e + 4096)"
    using O(4,6) F t(3-5,8)
    by (intro upto_mapped [OF u e _ _ _ t(3) _ _ _ _ W]) (auto simp: space_ok_def)
  moreover have "same_words s t e"
  proof -
    have fr: "\<exists>q. walk (phys_mem s) ?d v = Some q \<and> q AND 0xFFFFF000 \<notin> pmm_pool s \<union> tables (phys_mem s) ?d"
      if "heap_base \<le> unat v" "unat v < e" for v
      using u that O(6) by (auto simp: heap_upto_def)
    have "walk (phys_mem t) ?d v = walk (phys_mem s) ?d v" if "unat v < e" for v
      using that page_of_nat(1) [OF e(1,3)] by (simp add: W)
    moreover have "mword (phys_mem t) (q AND 0xFFFFF000) j = mword (phys_mem s) (q AND 0xFFFFF000) j"
      if "heap_base \<le> unat v" "unat v < e" "walk (phys_mem s) ?d v = Some q" "j < 1024" for v q j
      using fr [OF that(1,2)] that(3,4) t(9) by auto
    ultimately show ?thesis unfolding same_words_def F(2) O(6) by blast
  qed
  moreover have "kernel_space t"
    using k F t(6) O(6) by (simp add: kernel_space_def vm_ok_def vm_core_def)
  ultimately show ?thesis using t(1,2,7) M1 by blast
qed

text \<open>One more page beyond \<open>e\<close>, with or without frames for it: what is below stays.\<close>

lemma page_beyond:
  fixes s :: "'a vmm_scheme"
  assumes k: "kernel_space s" and u: "heap_upto s e" and e: "4096 dvd a" "heap_base \<le> e" "e \<le> a" "a + 4096 \<le> 2 ^ 32"
  shows "\<exists>p t. vmm_alloc_page (of_nat a) VMM_WRITABLE s = Inr (p, t) \<and> kernel_space t \<and> heap_upto t e \<and>
    same_words s t e \<and> mem_only s t"
proof -
  let ?d = "kernel_page_directory s"
  have O: "vm_ok s ?d" "space_ok s ?d" "paging s" "cur s = ?d" "current_page_directory s = ?d"
    using k by (auto simp: kernel_space_def vm_ok_def)
  have fl: "take_bit 12 VMM_WRITABLE = VMM_WRITABLE" by (simp add: VMM_WRITABLE_def)
  have "total_pages s \<le> of_nat a div PAGE_SIZE"
  proof -
    have "unat (total_pages s) * 4096 \<le> a" using k e(2,3) by (simp add: kernel_space_def)
    then show ?thesis using page_of_nat(3) [OF e(1,4)] by (simp add: word_le_nat_alt unat_div PAGE_SIZE_def)
  qed
  from alloc_page_kept [OF vm_ok_core(1) [OF O(1)] refl O(3-5) fl this] obtain p t where
    t: "vmm_alloc_page (of_nat a) VMM_WRITABLE s = Inr (p, t)" and K: "page_kept s t ?d (of_nat a)" by blast
  have M: "vm_core t ?d" "mem_only s t" "pmm_pool t \<subseteq> pmm_pool s" "tables (phys_mem t) ?d \<subseteq> tables (phys_mem s) ?d \<union> pmm_pool s"
    and W: "\<And>w. \<not> same_page (of_nat a) w \<Longrightarrow> walk (phys_mem t) ?d w = walk (phys_mem s) ?d w"
    and B: "\<And>g j. aligned_page g \<Longrightarrow> j < 1024 \<Longrightarrow> g \<notin> tables (phys_mem s) ?d \<union> pmm_pool s \<Longrightarrow>
      mword (phys_mem t) g j = mword (phys_mem s) g j" using K by (auto simp: page_kept_def)
  note F = mem_only_fields [OF M(2)]
  have w: "walk (phys_mem t) ?d v = walk (phys_mem s) ?d v" if "unat v < e" for v
    using that page_of_nat(1) [OF e(1,4)] e(3) by (intro W) simp
  have fr: "\<exists>q. walk (phys_mem s) ?d v = Some q \<and> q AND 0xFFFFF000 \<in> pmm_managed s - pmm_pool s - tables (phys_mem s) ?d"
    if "heap_base \<le> unat v" "unat v < e" for v using u that O(4) by (auto simp: heap_upto_def)
  have "heap_upto t e"
    unfolding heap_upto_def F(2) O(4)
  proof (intro conjI allI impI)
    fix v :: u32 assume v: "heap_base \<le> unat v \<and> unat v < e"
    then show "\<exists>p. walk (phys_mem t) ?d v = Some p \<and> p AND 0xFFFFF000 \<in> pmm_managed t - pmm_pool t - tables (phys_mem t) ?d"
      using fr [of v] w [of v] M(3,4) F(7) by auto
    fix v' :: u32 assume "heap_base \<le> unat v' \<and> unat v' < e" "walk (phys_mem t) ?d v = walk (phys_mem t) ?d v'"
    then show "v = v'" using u v w [of v] w [of v'] O(4) by (auto simp: heap_upto_def)
  qed
  moreover have "same_words s t e"
  proof -
    have "mword (phys_mem t) (q AND 0xFFFFF000) j = mword (phys_mem s) (q AND 0xFFFFF000) j"
      if "heap_base \<le> unat v" "unat v < e" "walk (phys_mem s) ?d v = Some q" "j < 1024" for v q j
      using fr [OF that(1,2)] that(3,4) B by auto
    then show ?thesis using w unfolding same_words_def F(2) O(4) by blast
  qed
  moreover have "kernel_space t"
    using k F M(1) O(4) by (simp add: kernel_space_def vm_ok_def vm_core_def)
  ultimately show ?thesis using t M(2) by blast
qed

lemma pages_beyond:
  fixes s :: "'a heap_scheme"
  assumes s: "kernel_space s" "heap_upto s e" and e: "4096 dvd e" "heap_base \<le> e" "e + 4096 * unat n \<le> 2 ^ 32"
  shows "\<exists>f t. for_err 0 n (\<lambda>i. heap_page (of_nat e + i * PAGE_SIZE)) (False, s) = Inr (f, t) \<and>
    kernel_space t \<and> heap_upto t e \<and> same_words s t e \<and> mem_only s t"
proof -
  let ?P = "\<lambda>(_ :: u32) (f :: bool, t). kernel_space t \<and> heap_upto t e \<and> same_words s t e \<and> mem_only s t"
  have "\<exists>ft. for_err 0 n (\<lambda>i. heap_page (of_nat e + i * PAGE_SIZE)) (False, s) = Inr ft \<and> ?P n ft"
  proof (rule for_err_invariant [where P = ?P])
    show "?P 0 (False, s)" using s by (simp add: same_words_def)
    fix k :: u32 and ft :: "bool \<times> 'a heap_scheme"
    assume k: "k < n" and p: "?P k ft"
    obtain f t where ft: "ft = (f, t)" by (cases ft)
    show "\<exists>ft'. heap_page (of_nat e + k * PAGE_SIZE) ft = Inr ft' \<and> ?P (k + 1) ft'"
    proof (cases f)
      case True
      then show ?thesis using p ft by (simp add: heap_page_def)
    next
      case False
      have "unat k + 1 \<le> unat n" using k by (simp add: word_less_nat_alt)
      then have a: "4096 dvd e + 4096 * unat k" "e \<le> e + 4096 * unat k" "e + 4096 * unat k + 4096 \<le> 2 ^ 32" using e by auto
      from p ft page_beyond [OF _ _ a(1) e(2) a(2,3), of t] obtain q u where
        u: "vmm_alloc_page (of_nat (e + 4096 * unat k)) VMM_WRITABLE t = Inr (q, u)" "kernel_space u" "heap_upto u e"
          "same_words t u e" "mem_only t u" by auto
      have "of_nat (e + 4096 * unat k) = of_nat e + k * PAGE_SIZE" by (simp add: PAGE_SIZE_def)
      then show ?thesis
        using u False ft p same_words_trans [of s t e u e] mem_only_trans [of s t u] by (simp add: heap_page_def)
    qed
  qed simp
  then show ?thesis by auto
qed

text \<open>Pages in a row.\<close>

definition grown :: "'a vmm_scheme \<Rightarrow> nat \<Rightarrow> nat \<Rightarrow> 'a vmm_scheme \<Rightarrow> bool" where
  "grown s e k t \<longleftrightarrow> kernel_space t \<and> heap_upto t (e + 4096 * k) \<and> same_words s t e \<and>
     card (pmm_pool s) \<le> card (pmm_pool t) + 2 * k \<and> mem_only s t"

lemma grown_step:
  fixes s t :: "'a vmm_scheme"
  assumes g: "grown s e k t" and e: "4096 dvd e" "heap_base \<le> e" "e + 4096 * (k + 1) \<le> 2 ^ 32"
    and pool: "2 * (k + 1) \<le> card (pmm_pool s)"
  shows "\<exists>p u. vmm_alloc_page (of_nat (e + 4096 * k)) VMM_WRITABLE t = Inr (p, u) \<and> p \<noteq> 0 \<and> grown s e (k + 1) u"
proof -
  have "2 \<le> card (pmm_pool t)" using g pool by (auto simp: grown_def)
  then obtain p u where u: "vmm_alloc_page (of_nat (e + 4096 * k)) VMM_WRITABLE t = Inr (p, u)" "p \<noteq> 0"
    "kernel_space u" "heap_upto u (e + 4096 * k + 4096)" "same_words t u (e + 4096 * k)"
    "card (pmm_pool t) \<le> card (pmm_pool u) + 2" "mem_only t u"
    using grow_page [of t "e + 4096 * k"] g e by (auto simp: grown_def)
  then have "grown s e (k + 1) u"
    using g same_words_trans [of s t e u "e + 4096 * k"] mem_only_trans [of s t u]
    by (auto simp: grown_def algebra_simps)
  then show ?thesis using u(1,2) by blast
qed

lemma grow_pages:
  fixes s :: "'a heap_scheme"
  assumes s: "kernel_space s" "heap_upto s e" and e: "4096 dvd e" "heap_base \<le> e" "e + 4096 * unat n \<le> 2 ^ 32"
    and pool: "2 * unat n \<le> card (pmm_pool s)"
  shows "\<exists>t. for_err 0 n (\<lambda>i. heap_page (of_nat e + i * PAGE_SIZE)) (False, s) = Inr (False, t) \<and> grown s e (unat n) t"
proof -
  let ?P = "\<lambda>k (f, t). \<not> f \<and> grown s e (unat k) t"
  have "\<exists>ft. for_err 0 n (\<lambda>i. heap_page (of_nat e + i * PAGE_SIZE)) (False, s) = Inr ft \<and> ?P n ft"
  proof (rule for_err_invariant [where P = ?P])
    show "?P 0 (False, s)" using s by (simp add: grown_def same_words_def)
    fix k :: u32 and ft :: "bool \<times> 'a heap_scheme"
    assume k: "k < n" and "?P k ft"
    then obtain t where ft: "ft = (False, t)" "grown s e (unat k) t" by (cases ft) auto
    have kn: "unat k + 1 \<le> unat n" using k by (simp add: word_less_nat_alt)
    have "\<exists>p u. vmm_alloc_page (of_nat (e + 4096 * unat k)) VMM_WRITABLE t = Inr (p, u) \<and> p \<noteq> 0 \<and> grown s e (unat k + 1) u"
      using kn e(3) pool by (intro grown_step [OF ft(2) e(1,2)]) auto
    then obtain p u where "vmm_alloc_page (of_nat (e + 4096 * unat k)) VMM_WRITABLE t = Inr (p, u)" "p \<noteq> 0"
      "grown s e (unat k + 1) u" by blast
    moreover have "of_nat (e + 4096 * unat k) = of_nat e + k * PAGE_SIZE" by (simp add: PAGE_SIZE_def)
    ultimately show "\<exists>ft'. heap_page (of_nat e + k * PAGE_SIZE) ft = Inr ft' \<and> ?P (k + 1) ft'"
      using ft(1) unat_inc [OF k] by (simp add: heap_page_def)
  qed simp
  then show ?thesis by auto
qed

section \<open>Ready for malloc and free\<close>

definition heap_ready :: "'a heap_scheme \<Rightarrow> tile list \<Rightarrow> bool" where
  "heap_ready s ts \<longleftrightarrow> heap_rep s ts \<and> kernel_space s \<and> heap_frames s \<subseteq> pmm_managed s - pmm_pool s"

lemma in_heap_nat: "in_heap s v \<longleftrightarrow> heap_base \<le> unat v \<and> unat v < unat (heap_top s)"
  by (simp add: in_heap_def heap_base_def word_le_nat_alt word_less_nat_alt)

lemma upto_mapped_iff:
  assumes "paging s"
  shows "heap_upto s (unat (heap_top s)) \<and> aligned_page (heap_top s) \<longleftrightarrow>
    heap_mapped s \<and> heap_frames s \<subseteq> pmm_managed s - pmm_pool s"
proof
  assume u: "heap_upto s (unat (heap_top s)) \<and> aligned_page (heap_top s)"
  have w: "\<exists>p. walk (phys_mem s) (cur s) v = Some p \<and> heap_frame s v = p \<and>
      p AND 0xFFFFF000 \<in> pmm_managed s - pmm_pool s - tables (phys_mem s) (cur s)" if "in_heap s v" for v
    using u that by (auto simp: heap_upto_def in_heap_nat heap_frame_def)
  have "v = w" if "in_heap s v" "in_heap s w" "heap_frame s v = heap_frame s w" for v w
    using u w [OF that(1)] w [OF that(2)] that by (auto simp: heap_upto_def in_heap_nat)
  with w u assms show "heap_mapped s \<and> heap_frames s \<subseteq> pmm_managed s - pmm_pool s"
    unfolding heap_mapped_def heap_frames_def by fastforce
next
  assume m: "heap_mapped s \<and> heap_frames s \<subseteq> pmm_managed s - pmm_pool s"
  have w: "\<exists>p. walk (phys_mem s) (cur s) v = Some p \<and> heap_frame s v = p \<and>
      p AND 0xFFFFF000 \<in> pmm_managed s - pmm_pool s - tables (phys_mem s) (cur s)" if v: "in_heap s v" for v
  proof -
    obtain p where p: "walk (phys_mem s) (cur s) v = Some p" using m v by (auto simp: heap_mapped_def)
    then have "heap_frame s v = p" by (simp add: heap_frame_def)
    with p m v show ?thesis unfolding heap_mapped_def heap_frames_def by blast
  qed
  have "v = w" if vw: "in_heap s v" "in_heap s w" "walk (phys_mem s) (cur s) v = walk (phys_mem s) (cur s) w" for v w
  proof -
    have "heap_frame s v = heap_frame s w" using vw(3) by (simp add: heap_frame_def)
    then show ?thesis using m vw(1,2) by (auto simp: heap_mapped_def)
  qed
  moreover have "aligned_page (heap_top s)" using m by (simp add: heap_mapped_def)
  ultimately show "heap_upto s (unat (heap_top s)) \<and> aligned_page (heap_top s)"
    using w unfolding heap_upto_def in_heap_nat [symmetric] by blast
qed

text \<open>Steps that write only to the frames of the heap keep the address spaces whose tables lie
  elsewhere.\<close>

lemma heap_only_vmm:
  fixes s t :: "'a heap_scheme"
  assumes "heap_only s t"
  shows "cr3 t = cr3 s" "paging t = paging s" "total_pages t = total_pages s"
    "current_page_directory t = current_page_directory s" "kernel_page_directory t = kernel_page_directory s"
    "pmm_pool t = pmm_pool s" "pmm_managed t = pmm_managed s" "pmm_inv t = pmm_inv s"
proof -
  have e: "t\<lparr>phys_mem := phys_mem s, heap_free := heap_free s\<rparr> = s" using assms by (simp add: heap_only_def)
  show "cr3 t = cr3 s" "paging t = paging s" and tp: "total_pages t = total_pages s"
    and "current_page_directory t = current_page_directory s" "kernel_page_directory t = kernel_page_directory s"
    by (subst e [symmetric], simp)+
  have b: "pmm_bitmap t = pmm_bitmap s" "free_count t = free_count s" by (subst e [symmetric], simp)+
  show "pmm_pool t = pmm_pool s" "pmm_managed t = pmm_managed s" "pmm_inv t = pmm_inv s"
    using pmm_same [OF b(1) tp b(2)] by blast+
qed

lemma heap_only_tables:
  fixes s t :: "'a heap_scheme"
  assumes o: "heap_only s t" and c: "aligned_page c" "tables (phys_mem s) c \<inter> heap_frames s = {}"
  shows "f \<in> tables (phys_mem s) c \<Longrightarrow> j < 1024 \<Longrightarrow> mword (phys_mem t) f j = mword (phys_mem s) f j"
    "walk (phys_mem t) c = walk (phys_mem s) c" "tables (phys_mem t) c = tables (phys_mem s) c"
    "space_ok t c = space_ok s c"
proof -
  show w: "mword (phys_mem t) f j = mword (phys_mem s) f j" if "f \<in> tables (phys_mem s) c" "j < 1024" for f j
    using o c(2) tables_aligned [OF c(1) that(1)] that by (auto simp: heap_only_def)
  note W = walk_cong [of "phys_mem s" c "phys_mem t", OF w]
  show "walk (phys_mem t) c = walk (phys_mem s) c" "tables (phys_mem t) c = tables (phys_mem s) c" using W by (auto simp: fun_eq_iff)
  have "present (phys_mem t) c i = present (phys_mem s) c i" "table_of (phys_mem t) c i = table_of (phys_mem s) c i"
    if "i < 1024" for i
    using w [of c i] that by (simp_all add: present_def table_of_def tables_def)
  then show "space_ok t c = space_ok s c" by (auto simp: space_ok_def W(2) heap_only_vmm [OF o])
qed

lemma heap_only_direct:
  fixes s t :: "'a heap_scheme"
  assumes o: "heap_only s t" and m: "heap_mapped s" and d: "direct s"
  shows "direct t" "walk (phys_mem t) (cur s) = walk (phys_mem s) (cur s)"
proof -
  have "tables (phys_mem s) (cur s) \<inter> heap_frames s = {}" using m by (auto simp: heap_mapped_def heap_frames_def)
  note T = heap_only_tables [OF o masked_aligned this]
  show "walk (phys_mem t) (cur s) = walk (phys_mem s) (cur s)" by (rule T(2))
  then show "direct t" using d heap_only_vmm [OF o] m by (simp add: direct_def translate_def heap_mapped_def)
qed

lemma heap_only_space:
  fixes s t :: "'a heap_scheme"
  assumes o: "heap_only s t" and m: "heap_mapped s" and k: "kernel_space s"
  shows "kernel_space t" "pmm_managed t = pmm_managed s" "pmm_pool t = pmm_pool s"
proof -
  let ?d = "kernel_page_directory s"
  note F = heap_only_vmm [OF o]
  show "pmm_managed t = pmm_managed s" "pmm_pool t = pmm_pool s" by (rule F)+
  have d: "cur s = ?d" "space_ok s ?d" "direct s" using k by (auto simp: kernel_space_def vm_ok_def)
  have "tables (phys_mem s) ?d \<inter> heap_frames s = {}" using m d(1) by (auto simp: heap_mapped_def heap_frames_def)
  note T = heap_only_tables [OF o space_okD(3) [OF d(2)] this]
  show "kernel_space t"
    using k F d T(3,4) heap_only_direct(1) [OF o m d(3)]
    by (simp add: kernel_space_def vm_ok_def reachable_from_def)
qed

lemma heap_only_ready:
  assumes "heap_only s t" "heap_ready s ts" "heap_rep t us"
  shows "heap_ready t us"
proof -
  have "heap_mapped s" "kernel_space s" using assms(2) by (auto simp: heap_ready_def heap_rep_def tiled_def)
  note h = heap_only_space [OF assms(1) this]
  have "heap_frames t = heap_frames s" using assms(1) by (simp add: heap_only_def)
  then show ?thesis using assms(2,3) h by (simp add: heap_ready_def)
qed

section \<open>malloc when the heap grows\<close>

lemma heap_top_fields [simp]:
  fixes s :: "'a heap_scheme"
  shows "pmm_pool (s\<lparr>heap_top := x\<rparr>) = pmm_pool s" "pmm_managed (s\<lparr>heap_top := x\<rparr>) = pmm_managed s"
    "pmm_inv (s\<lparr>heap_top := x\<rparr>) = pmm_inv s"
    "heap_upto (s\<lparr>heap_top := x\<rparr>) e = heap_upto s e" "kernel_space (s\<lparr>heap_top := x\<rparr>) = kernel_space s"
proof -
  show p: "pmm_pool (s\<lparr>heap_top := x\<rparr>) = pmm_pool s" "pmm_managed (s\<lparr>heap_top := x\<rparr>) = pmm_managed s"
    "pmm_inv (s\<lparr>heap_top := x\<rparr>) = pmm_inv s" by (rule pmm_same; simp)+
  show "heap_upto (s\<lparr>heap_top := x\<rparr>) e = heap_upto s e" by (simp add: heap_upto_def p)
  show "kernel_space (s\<lparr>heap_top := x\<rparr>) = kernel_space s"
    by (simp add: kernel_space_def vm_ok_def space_ok_def reachable_from_def other_def direct_def translate_def p)
qed

lemma aligned_page_of_nat: "4096 dvd n \<Longrightarrow> n < 2 ^ 32 \<Longrightarrow> aligned_page (of_nat n)"
  using unat_of_nat_u32 [of n] by (simp add: take_bit_zero_iff)

lemma heap_more_fields:
  fixes s t :: "'a heap_scheme"
  assumes "vmm.more t = vmm.more s"
  shows "heap_free t = heap_free s" "heap_top t = heap_top s"
  using assms by (cases s; cases t; simp)+

text \<open>The words below the old end of the heap are the same after growing.\<close>

lemma grown_words:
  fixes s t :: "'a heap_scheme"
  assumes s: "heap_mapped s" and w: "same_words s t (unat (heap_top s))" "cr3 t = cr3 s"
    and h: "heap_top s \<le> heap_top t" and c: "c < heap_top s"
  shows "heap_word t c = heap_word s c"
proof (cases "c \<in> heap_cells s")
  case True
  then have t: "c \<in> heap_cells t" using h by (auto simp: heap_cells_def in_heap_def)
  have r: "heap_base \<le> unat c \<and> unat c < unat (heap_top s)" using True by (simp add: heap_cells_def in_heap_nat)
  obtain p where p: "walk (phys_mem s) (cur s) c = Some p" using s True by (auto simp: heap_mapped_def heap_cells_def)
  then have f: "heap_frame s c = p" "heap_frame t c = p" using w r by (auto simp: same_words_def heap_frame_def)
  obtain j where j: "j < 1024" "p = entry_at (p AND 0xFFFFF000) j" using heap_cell_frame(2) [OF s True] f(1) by auto
  have "mword (phys_mem t) (p AND 0xFFFFF000) j = mword (phys_mem s) (p AND 0xFFFFF000) j"
    using w(1) r p j(1) by (auto simp: same_words_def)
  then have "load32 (phys_mem t) p = load32 (phys_mem s) p" unfolding mword_def j(2) [symmetric] .
  then show ?thesis using True t f by (simp add: heap_word_def)
next
  case False
  then have "c \<notin> heap_cells t" using c by (auto simp: heap_cells_def in_heap_def)
  with False show ?thesis by (simp add: heap_word_def)
qed

lemma seg_cong: "(\<And>a. a \<in> set as \<Longrightarrow> m' (a + 4) = m (a + 4)) \<Longrightarrow> seg m' h as z = seg m h as z"
  by (induction as arbitrary: h) auto

lemma grown_tiles:
  fixes s t :: "'a heap_scheme"
  assumes s: "tiled s ts" and w: "\<And>c. c < heap_top s \<Longrightarrow> heap_word t c = heap_word s c" and f: "heap_free t = heap_free s"
  shows "seg (heap_word t) (heap_free t) (free_at heap_base ts) 0" "sizes_ok (heap_word t) heap_base ts"
proof -
  have ok: "list_all tile_ok ts" "heap_base + span ts < 2 ^ 32" "heap_top s = of_nat (heap_base + span ts)"
    using s by (auto simp: tiled_def)
  have top: "unat (heap_top s) = heap_base + span ts" using unat_of_nat_u32 [OF ok(2)] ok(3) by (simp del: of_nat_add)
  have "heap_word t (a + 4) = heap_word s (a + 4)" if "a \<in> set (free_at heap_base ts)" for a
  proof (rule w)
    note r = free_at_range [OF heap_base_values(2) ok(1,2) that]
    then have "unat (a + 4) = unat a + 4" using ok(2) by (simp add: unat_word_ariths)
    then show "a + 4 < heap_top s" using r top by (simp add: word_less_nat_alt)
  qed
  then show "seg (heap_word t) (heap_free t) (free_at heap_base ts) 0"
    using s seg_cong [of "free_at heap_base ts" "heap_word t" "heap_word s"] f by (simp add: tiled_def)
  have "sizes_ok (heap_word t) heap_base ts = sizes_ok (heap_word s) heap_base ts"
    using w top by (intro sizes_frame [OF heap_base_values(2) ok(1,2)]) (force simp: word_less_nat_alt)
  then show "sizes_ok (heap_word t) heap_base ts" using s by (simp add: tiled_def)
qed

text \<open>A new block at the end of the list.\<close>

lemma append_tile:
  fixes s :: "'a heap_scheme"
  defines "E \<equiv> \<lambda>ts. heap_base + span ts" and "F \<equiv> free_at heap_base"
  assumes m: "heap_mapped s" and top: "heap_top s = of_nat (E ts + G)" and lim: "E ts + G < 2 ^ 32"
    and ok: "list_all tile_ok ts" "16 \<le> G" "8 dvd G"
    and sg: "seg (heap_word s) (heap_free s) (F ts) 0" and sz: "sizes_ok (heap_word s) heap_base ts"
  shows "\<exists>t. kbind (set_size (of_nat (E ts)) (of_nat G OR 1) s) (\<lambda>s.
      kbind (find_slot list_bound (of_nat (E ts)) Head s) (\<lambda>pp. kbind (read_slot pp s) (\<lambda>nx.
      kbind (set_next (of_nat (E ts)) nx s) (\<lambda>s. kbind (write_slot pp (of_nat (E ts)) s) (f pp))))) =
      f (slot_after Head (F ts)) t \<and> tiled t (ts @ [(G, True)]) \<and> heap_only s t \<and>
    (\<forall>c. heap_word t c \<noteq> heap_word s c \<longrightarrow> c \<in> (\<lambda>a. a + 4) ` set (F ts) \<or> of_nat (E ts) \<le> c)"
proof -
  let ?b = "of_nat (E ts) :: u32" let ?F = "F ts" and ?m = "heap_word s"
  have E: "8 dvd E ts" "E ts < 2 ^ 32" "heap_base \<le> E ts" using span_dvd [OF ok(1)] heap_base_values(2) lim by (auto simp: E_def)
  have hb: "header s ?b" by (rule header_in_heap [OF top lim]) (use E ok in auto)
  have r: "heap_base \<le> unat a" "unat a + 16 \<le> E ts" "aligned8 a" "8 dvd unat a" if "a \<in> set ?F" for a
    using free_at_range [OF heap_base_values(2) ok(1), of a] that E by (auto simp: E_def F_def)
  have hF: "\<forall>a\<in>set ?F. header s a" and lt: "\<forall>a\<in>set ?F. a < ?b"
  proof (safe)
    fix a assume a: "a \<in> set ?F"
    show "header s a" using header_in_heap [OF top lim, of "unat a"] r [OF a] by simp
    show "a < ?b" using r(2) [OF a] unat_of_nat_u32 [OF E(2)] by (simp add: word_less_nat_alt)
  qed
  have len: "length ?F < list_bound"
    using length_free_at [of heap_base ts] tiles_count [OF ok(1)] lim by (simp add: list_bound_def E_def F_def)
  have b8: "aligned8 ?b" by (rule aligned8_of_nat [OF E(1,2)])
  let ?t3 = "heap_put ?b (of_nat G OR 1) s" let ?t4 = "heap_put (?b + 4) 0 ?t3"
  have t3: "heap_mapped ?t3" "heap_word ?t3 = ?m(?b := of_nat G OR 1)" "heap_free ?t3 = heap_free s" "\<And>a. header ?t3 a = header s a"
    using m hb by (simp_all add: header_rules)
  have sg3: "seg (heap_word ?t3) (heap_free ?t3) ?F 0"
    using sg r(3) b8 unfolding t3 by (subst seg_upd_size) auto
  have fs: "find_slot list_bound ?b Head ?t3 = Inr (slot_after Head ?F)"
    using find_slot_seg [OF t3(1) _ _ _ len lt, of Head "heap_free ?t3" "[]"] hF sg3 by (simp add: read_slot_def t3(3,4))
  have rs: "read_slot (slot_after Head ?F) ?t3 = Inr 0"
  proof (cases ?F rule: rev_cases)
    case Nil
    then show ?thesis using sg3 by (simp add: slot_after_def read_slot_def)
  next
    case (snoc as a)
    then show ?thesis using sg3 hF t3(1,4) by (simp add: slot_after_def read_slot_def seg_append header_access)
  qed
  have t4: "heap_mapped ?t4" "heap_word ?t4 = ?m(?b := of_nat G OR 1, ?b + 4 := 0)" "heap_free ?t4 = heap_free s"
    "heap_top ?t4 = of_nat (E ts + G + span [])" "\<And>a. header ?t4 a = header s a"
    using m hb top by (simp_all add: header_rules)
  let ?t5 = "link ?F ?b ?t4"
  have st: "set_size ?b (of_nat G OR 1) s = Inr ?t3" "set_next ?b 0 ?t3 = Inr ?t4"
    "write_slot (slot_after Head ?F) ?b ?t4 = Inr ?t5"
    using m hb t3 t4(1,5) hF by (simp_all add: header_access write_link)
  have "tiled ?t5 (ts @ [(G, True)])"
    unfolding F_def E_def
    by (rule tiled_release(1) [OF ok(1) refl _ _ ok(2,3) sg [unfolded F_def] _ sz _
          t4(1,3,4) [unfolded E_def] t4(2) [unfolded E_def]]) (use lim in \<open>simp_all add: sizes_ok_def E_def\<close>)
  moreover have "heap_only s ?t5"
    using m hb hF t3 t4(1,5) by (intro heap_only_rules) (simp_all, simp_all add: header_def)
  moreover have "c \<in> (\<lambda>a. a + 4) ` set ?F \<or> ?b \<le> c" if "heap_word ?t5 c \<noteq> ?m c" for c
  proof (cases "heap_word ?t5 c = heap_word ?t4 c")
    case True
    have "?b \<le> ?b + 4" using E lim ok unat_of_nat_u32 [OF E(2)] by (simp add: word_le_nat_alt unat_word_ariths)
    with True that show ?thesis unfolding t4(2) by (auto split: if_splits)
  next
    case False
    then show ?thesis using link_words [OF t4(1), of ?F ?b c] hF t4(5) by blast
  qed
  ultimately show ?thesis using st fs rs by (intro exI [of _ ?t5]) (simp only: kbind_simps, blast)
qed

definition page_round :: "nat \<Rightarrow> nat" where
  "page_round n = (n + 4095) div 4096 * 4096"

lemma page_round_word: "(x + PAGE_SIZE - 1) AND NOT (PAGE_SIZE - 1) = (x + 4095) AND 0xFFFFF000" for x :: u32
proof -
  have "NOT (PAGE_SIZE - 1) = 0xFFFFF000" "x + PAGE_SIZE - 1 = x + 4095" by (simp_all add: PAGE_SIZE_def)
  then show ?thesis by argo
qed

lemma grow_size:
  fixes x :: u32
  assumes "unat x + 4095 < 2 ^ 32"
  shows "unat ((x + PAGE_SIZE - 1) AND NOT (PAGE_SIZE - 1)) = page_round (unat x)"
proof -
  have u: "unat (x + 4095) = unat x + 4095" using assms by (simp add: unat_word_ariths)
  have d: "unat (drop_bit 12 (x + 4095)) = (unat x + 4095) div 4096" using u by (simp add: drop_bit_eq_div unat_div)
  have "(unat x + 4095) div 4096 * 4096 < 2 ^ 32" using assms by linarith
  then have "unat ((x + 4095) AND 0xFFFFF000) = (unat x + 4095) div 4096 * 4096"
    unfolding page_high by (simp add: push_bit_eq_mult unat_word_ariths d)
  then show ?thesis by (simp only: page_round_word page_round_def)
qed

lemma page_round_facts: "n \<le> page_round n" "4096 dvd page_round n" "8 dvd page_round n"
proof -
  show "n \<le> page_round n" unfolding page_round_def by linarith
  show a: "4096 dvd page_round n" by (simp add: page_round_def)
  then show "8 dvd page_round n" by (rule dvd_trans [rotated]) simp
qed

lemma heap_grow_pages:
  fixes s :: "'a heap_scheme"
  assumes r: "heap_ready s ts" and G: "4096 dvd G" "heap_base + span ts + G < 2 ^ 32"
    and pool: "2 * (G div 4096) \<le> card (pmm_pool s)"
  defines "E \<equiv> heap_base + span ts"
  shows "\<exists>t. for_err 0 (of_nat G div PAGE_SIZE) (\<lambda>i. heap_page (heap_top s + i * PAGE_SIZE)) (False, s) = Inr (False, t) \<and>
    (let u = t\<lparr>heap_top := of_nat (E + G)\<rparr> in heap_mapped u \<and> kernel_space u \<and> heap_frames u \<subseteq> pmm_managed u - pmm_pool u \<and>
      heap_free u = heap_free s \<and> (\<forall>c. c < heap_top s \<longrightarrow> heap_word u c = heap_word s c))"
proof -
  have t: "tiled s ts" "kernel_space s" "heap_frames s \<subseteq> pmm_managed s - pmm_pool s"
    using r by (auto simp: heap_ready_def heap_rep_def)
  have T: "heap_mapped s" "heap_top s = of_nat E" using t(1) by (auto simp: tiled_def E_def)
  have top: "unat (heap_top s) = E" using T(2) G(2) by (simp add: unat_of_nat_u32 E_def del: of_nat_add)
  have pg: "paging s" "aligned_page (heap_top s)" using T(1) by (auto simp: heap_mapped_def)
  have E: "4096 dvd E" "heap_base \<le> E" using iffD1 [OF take_bit_zero_iff pg(2)] top by (simp_all add: E_def)
  have up: "heap_upto s E" using upto_mapped_iff [OF pg(1)] T(1) t(3) top by simp
  let ?n = "of_nat G div PAGE_SIZE :: u32"
  have n: "unat ?n = G div 4096" "4096 * (G div 4096) = G"
    using G unat_of_nat_u32 [of G] by (simp_all add: unat_div PAGE_SIZE_def)
  from grow_pages [OF t(2) up E, of ?n] n pool G obtain u where
    u: "for_err 0 ?n (\<lambda>i. heap_page (of_nat E + i * PAGE_SIZE)) (False, s) = Inr (False, u)" "grown s E (unat ?n) u"
    by (auto simp: E_def)
  let ?t = "u\<lparr>heap_top := of_nat (E + G)\<rparr>"
  have g: "kernel_space u" "heap_upto u (E + G)" "same_words s u E" "mem_only s u" using u(2) n by (auto simp: grown_def)
  note F = mem_only_fields [OF g(4)]
  have tt: "unat (heap_top ?t) = E + G" using unat_of_nat_u32 [of "E + G"] G(2) by (simp add: E_def del: of_nat_add)
  have "aligned_page (heap_top ?t)"
    using aligned_page_of_nat [of "E + G"] E(1) G by (simp add: E_def del: of_nat_add)
  moreover have "heap_upto ?t (unat (heap_top ?t))" unfolding tt using g(2) by simp
  moreover have "paging ?t" using F(3) pg(1) by simp
  ultimately have "heap_mapped ?t \<and> heap_frames ?t \<subseteq> pmm_managed ?t - pmm_pool ?t"
    using upto_mapped_iff [of ?t] by simp
  moreover have "heap_word ?t c = heap_word s c" if "c < heap_top s" for c
    using g(3) F(2) top tt that by (intro grown_words [OF T(1)]) (simp_all add: same_words_def word_le_nat_alt)
  ultimately show ?thesis
    using u(1) g(1) T(2) heap_more_fields(1) [OF F(6)] by (intro exI [of _ u]) (simp add: Let_def)
qed

lemma in_use_below: "in_use ts c \<Longrightarrow> unat c < heap_base + span ts"
  using layout_bounds by (fastforce simp: in_use_def)

lemma malloc_grow:
  fixes s :: "'a heap_scheme" and n :: u32
  defines "N \<equiv> unat (block_needed n)"
  assumes r: "heap_ready s ts" and n: "n \<noteq> 0" and c: "cut_first N ts = None"
    and lim: "heap_base + span ts + page_round N < 2 ^ 32"
    and pool: "2 * (page_round N div 4096) \<le> card (pmm_pool s)"
  shows "\<exists>t. malloc n s = Inr (heap_top s + 8, t) \<and> heap_ready t (ts @ cut_tile N (page_round N)) \<and>
    (\<forall>c. in_use ts c \<longrightarrow> heap_word t c = heap_word s c)"
proof -
  let ?E = "heap_base + span ts" and ?G = "page_round N" and ?F = "free_at heap_base ts"
  have t: "tiled s ts" "no_free_neighbours ts" using r by (auto simp: heap_ready_def heap_rep_def)
  have T: "list_all tile_ok ts" "heap_top s = of_nat ?E" using t(1) by (auto simp: tiled_def)
  have N: "tile_ok (N, False)" using block_needed_ok(1) by (simp add: N_def)
  have top: "unat (heap_top s) = ?E" using T(2) lim by (simp add: unat_of_nat_u32 del: of_nat_add)
  note G = page_round_facts [of N]
  have G16: "16 \<le> ?G" using N G(1) by (simp add: tile_ok_def)
  let ?g = "(block_needed n + PAGE_SIZE - 1) AND NOT (PAGE_SIZE - 1)"
  have g: "?g = of_nat ?G"
  proof -
    have "N + 4095 < 2 ^ 32" using G(1) lim heap_base_values(1) by simp
    then have "unat ?g = ?G" using grow_size [of "block_needed n"] by (simp only: N_def)
    moreover have "of_nat (unat ?g) = ?g" by simp
    ultimately show ?thesis by argo
  qed
  from heap_grow_pages [OF r G(2) lim pool] obtain u where
    loop: "for_err 0 (of_nat ?G div PAGE_SIZE) (\<lambda>i. heap_page (heap_top s + i * PAGE_SIZE)) (False, s) = Inr (False, u)"
    and u: "let u = u\<lparr>heap_top := of_nat (?E + ?G)\<rparr> in heap_mapped u \<and> kernel_space u \<and>
      heap_frames u \<subseteq> pmm_managed u - pmm_pool u \<and> heap_free u = heap_free s \<and>
      (\<forall>c. c < heap_top s \<longrightarrow> heap_word u c = heap_word s c)" by blast
  define v where "v = u\<lparr>heap_top := of_nat (?E + ?G)\<rparr>"
  have v: "heap_mapped v" "kernel_space v" "heap_frames v \<subseteq> pmm_managed v - pmm_pool v" "heap_free v = heap_free s"
    "\<And>c. c < heap_top s \<Longrightarrow> heap_word v c = heap_word s c" "heap_top v = of_nat (?E + ?G)"
    using u by (simp_all add: v_def Let_def)
  let ?f = "\<lambda>pp. take_block pp (of_nat ?E) (of_nat ?G) (block_needed n)"
  from append_tile [OF v(1,6) lim T(1) G16 G(3) grown_tiles [OF t(1) v(5,4)], of ?f] obtain w where
    w: "kbind (set_size (of_nat ?E) (of_nat ?G OR 1) v) (\<lambda>s.
      kbind (find_slot list_bound (of_nat ?E) Head s) (\<lambda>pp. kbind (read_slot pp s) (\<lambda>nx.
      kbind (set_next (of_nat ?E) nx s) (\<lambda>s. kbind (write_slot pp (of_nat ?E) s) (?f pp))))) =
      ?f (slot_after Head ?F) w" "tiled w (ts @ [(?G, True)])" "heap_only v w"
    "\<forall>c. heap_word w c \<noteq> heap_word v c \<longrightarrow> c \<in> (\<lambda>a. a + 4) ` set ?F \<or> of_nat ?E \<le> c" by blast
  from take_tile [OF w(2) N G(1)] obtain x where
    x: "take_block (slot_after Head ?F) (of_nat ?E) (of_nat ?G) (of_nat N) w = Inr (of_nat ?E + 8, x)"
      "tiled x (ts @ cut_tile N ?G)" "heap_only w x"
      "\<forall>c. heap_word x c \<noteq> heap_word w c \<longrightarrow> c \<in> (\<lambda>a. a + 4) ` set ?F \<or> ?E \<le> unat c \<and> unat c < ?E + ?G"
    by auto
  have "first_fit (\<lambda>a. heap_word s a AND NOT 1) (block_needed n) Head ?F = None"
    using small_tiles [of s ts "[]" "block_needed n"] t(1) c
    by (simp add: first_fit_none cut_first_None N_def)
  then have "malloc n s = heap_grow (block_needed n) s"
    using n find_fit_tiles [OF t(1)] by (simp add: malloc_def Let_def)
  also have "\<dots> = Inr (heap_top s + 8, x)"
    using w(1) x(1) loop
    by (simp only: heap_grow_def Let_def g kbind_simps prod.case if_False T(2) of_nat_add [symmetric]
        v_def [symmetric]) (simp add: N_def)
  finally have m: "malloc n s = Inr (heap_top s + 8, x)" .
  have ho: "heap_only v x" using heap_only_trans [OF w(3) x(3)] .
  have "no_free_neighbours (ts @ cut_tile N ?G)"
    using t(2) by (auto simp: no_free_neighbours_def successively_append_iff cut_tile_def)
  moreover have "heap_frames x = heap_frames v" using ho by (simp add: heap_only_def)
  ultimately have "heap_ready x (ts @ cut_tile N ?G)"
    using x(2) heap_only_space [OF ho v(1,2)] v(3) by (simp add: heap_ready_def heap_rep_def)
  moreover have "heap_word x c = heap_word s c" if i: "in_use ts c" for c
  proof -
    have "unat c < ?E" by (rule in_use_below [OF i])
    then have "c < heap_top s" using top by (simp add: word_less_nat_alt)
    then show ?thesis
      using in_use_not_next [OF t(1) i] w(4) x(4) v(5) T(2) \<open>unat c < ?E\<close> by (metis not_le)
  qed
  ultimately show ?thesis using m by blast
qed

text \<open>When growing fails, malloc returns 0 and the tiles are as before.\<close>

lemma take_block_result: "take_block pp b n m s = Inr (r, t) \<Longrightarrow> r = b + 8"
  by (auto simp: take_block_def Let_def kbind_eq_Inr sizeof_heap_block_def)

lemma malloc_fails:
  fixes s t :: "'a heap_scheme" and n :: u32
  defines "N \<equiv> unat (block_needed n)"
  assumes r: "heap_ready s ts" and lim: "unat (heap_top s) + page_round N < 2 ^ 32" and m: "malloc n s = Inr (0, t)"
  shows "heap_ready t ts \<and> heap_top t = heap_top s \<and> (\<forall>c. in_use ts c \<longrightarrow> heap_word t c = heap_word s c)"
proof (cases "n = 0")
  case True
  then show ?thesis using m r by (simp add: malloc_def)
next
  case False
  let ?E = "heap_base + span ts" and ?G = "page_round N"
  have h: "heap_rep s ts" "tiled s ts" "kernel_space s" "heap_frames s \<subseteq> pmm_managed s - pmm_pool s"
    using r by (auto simp: heap_ready_def heap_rep_def)
  have T: "heap_mapped s" "heap_top s = of_nat ?E" using h(2) by (auto simp: tiled_def)
  have top: "unat (heap_top s) = ?E" using h(2) by (auto simp: tiled_def unat_of_nat_u32 simp del: of_nat_add)
  have pg: "paging s" "aligned_page (heap_top s)" using T(1) by (auto simp: heap_mapped_def)
  have E: "4096 dvd ?E" "heap_base \<le> ?E" using iffD1 [OF take_bit_zero_iff pg(2)] top by simp_all
  have up: "heap_upto s ?E" using upto_mapped_iff [OF pg(1)] T(1) h(4) pg(2) top by simp
  have c: "cut_first N ts = None"
  proof (rule ccontr)
    assume "cut_first N ts \<noteq> None"
    then obtain d us where "cut_first N ts = Some (d, us)" by auto
    from malloc_fit [OF h(1) False this [unfolded N_def]] cut_first_Some [OF this] obtain as k f bs where
      "malloc n s = Inr (of_nat (heap_base + d) + 8, t)" "ts = as @ (k, f) # bs" "d = span as" using m by auto
    moreover from this have "heap_base + d + 8 < 2 ^ 32"
      using top lim h(2) page_round_facts(1) [of N] block_needed_ok(1) [of n] unfolding N_def by (auto simp: tile_ok_def)
    ultimately show False
      using m unat_of_nat_u32 [of "heap_base + d + 8"] heap_base_values(1) by (auto simp: word_unat_eq_iff)
  qed
  let ?g = "(block_needed n + PAGE_SIZE - 1) AND NOT (PAGE_SIZE - 1)"
  have "N + 4095 < 2 ^ 32" using page_round_facts(1) [of N] lim top heap_base_values(1) by simp
  then have g: "unat ?g = ?G" using grow_size [of "block_needed n"] by (simp only: N_def)
  have pn: "unat (?g div PAGE_SIZE) = ?G div 4096" using g by (simp only: unat_div PAGE_SIZE_def) simp
  have "4096 * (?G div 4096) = ?G" using page_round_facts(2) [of N] by simp
  then have lm: "?E + 4096 * unat (?g div PAGE_SIZE) \<le> 2 ^ 32" using lim top pn by linarith
  from pages_beyond [OF h(3) up E lm] obtain f u where
    u: "for_err 0 (?g div PAGE_SIZE) (\<lambda>i. heap_page (of_nat ?E + i * PAGE_SIZE)) (False, s) = Inr (f, u)"
      "kernel_space u" "heap_upto u ?E" "same_words s u ?E" "mem_only s u" by blast
  have "first_fit (\<lambda>a. heap_word s a AND NOT 1) (block_needed n) Head (free_at heap_base ts) = None"
    using small_tiles [of s ts "[]" "block_needed n"] h(2) c by (simp add: first_fit_none cut_first_None N_def)
  then have hg: "heap_grow (block_needed n) s = Inr (0, t)"
    using False find_fit_tiles [OF h(2)] m by (simp add: malloc_def Let_def)
  have ne: "of_nat ?E + 8 \<noteq> (0 :: u32)"
  proof -
    have "?E + 8 < 2 ^ 32" using lim top page_round_facts(1) [of N] block_needed_ok(1) [of n] by (simp add: N_def tile_ok_def)
    then show ?thesis using unat_of_nat_u32 [of "?E + 8"] by (auto simp: word_unat_eq_iff)
  qed
  have "f \<and> t = u"
  proof (cases f)
    case True
    then show ?thesis using hg u(1) by (simp add: heap_grow_def Let_def T(2) del: of_nat_add)
  next
    case False
    with hg u(1) obtain pp w where "take_block pp (of_nat ?E) ?g (block_needed n) w = Inr (0, t)"
      by (auto simp only: heap_grow_def Let_def T(2) kbind_eq_Inr kbind_simps prod.case if_False)
    then show ?thesis using take_block_result ne by metis
  qed
  note F = mem_only_fields [OF u(5)] and H = heap_more_fields [OF mem_only_fields(6) [OF u(5)]]
  have "paging u" "heap_top u = heap_top s" using F(3) pg(1) H by simp_all
  then have mp: "heap_mapped u \<and> heap_frames u \<subseteq> pmm_managed u - pmm_pool u"
    using upto_mapped_iff [of u] u(3) top pg(2) by simp
  have w: "heap_word u c = heap_word s c" if "c < heap_top s" for c
    using u(4) top H(2) F(2) that by (intro grown_words [OF T(1)]) simp_all
  have "tiled u ts" using grown_tiles [OF h(2) w H(1)] h(2) mp H by (simp add: tiled_def)
  then have "heap_ready u ts" using h(1) mp u(2) by (simp add: heap_ready_def heap_rep_def)
  moreover have "c < heap_top s" if "in_use ts c" for c using in_use_below [OF that] top by (simp add: word_less_nat_alt)
  ultimately show ?thesis using \<open>f \<and> t = u\<close> w H(2) by blast
qed

section \<open>heap_init\<close>

lemma heap_free_vm [simp]:
  fixes s :: "'a heap_scheme"
  shows "pmm_pool (s\<lparr>heap_free := x\<rparr>) = pmm_pool s" "pmm_managed (s\<lparr>heap_free := x\<rparr>) = pmm_managed s"
    "pmm_inv (s\<lparr>heap_free := x\<rparr>) = pmm_inv s" "kernel_space (s\<lparr>heap_free := x\<rparr>) = kernel_space s"
proof -
  show p: "pmm_pool (s\<lparr>heap_free := x\<rparr>) = pmm_pool s" "pmm_managed (s\<lparr>heap_free := x\<rparr>) = pmm_managed s"
    "pmm_inv (s\<lparr>heap_free := x\<rparr>) = pmm_inv s" by (rule pmm_same; simp)+
  show "kernel_space (s\<lparr>heap_free := x\<rparr>) = kernel_space s"
    by (simp add: kernel_space_def vm_ok_def space_ok_def reachable_from_def other_def direct_def translate_def p)
qed

lemma init_pages:
  fixes s :: "'a heap_scheme"
  assumes k: "kernel_space s" and pool: "32 \<le> card (pmm_pool s)"
  shows "\<exists>t. for_err 0 HEAP_INIT_PAGES (\<lambda>i fs. kbind (heap_page (heap_top (snd fs)) fs) (\<lambda>(failed, s).
        Inr (failed, if failed then s else s\<lparr>heap_top := heap_top s + PAGE_SIZE\<rparr>)))
        (False, s\<lparr>heap_free := 0, heap_top := HEAP_START\<rparr>) = Inr (False, t) \<and>
    heap_top t = of_nat (heap_base + 65536) \<and> kernel_space t \<and> heap_upto t (heap_base + 65536) \<and> heap_free t = 0 \<and>
    card (pmm_pool s) \<le> card (pmm_pool t) + 32 \<and> kernel_page_directory t = kernel_page_directory s"
proof -
  let ?P = "\<lambda>k (f, t). \<not> f \<and> heap_top t = of_nat (heap_base + 4096 * unat k) \<and> kernel_space t \<and>
    heap_upto t (heap_base + 4096 * unat k) \<and> heap_free t = 0 \<and> card (pmm_pool s) \<le> card (pmm_pool t) + 2 * unat k \<and>
    kernel_page_directory t = kernel_page_directory s"
  let ?s = "s\<lparr>heap_free := 0, heap_top := HEAP_START\<rparr>"
  let ?body = "\<lambda>(i :: u32) fs. kbind (heap_page (heap_top (snd fs)) fs) (\<lambda>(failed, s :: 'a heap_scheme).
        Inr (failed, if failed then s else s\<lparr>heap_top := heap_top s + PAGE_SIZE\<rparr>))"
  have "\<exists>ft. for_err 0 HEAP_INIT_PAGES ?body (False, ?s) = Inr ft \<and> ?P HEAP_INIT_PAGES ft"
  proof (rule for_err_invariant [where P = ?P])
    show "?P 0 (False, ?s)" using k heap_base_values(3) by (auto simp: heap_upto_def)
    fix k :: u32 and ft :: "bool \<times> 'a heap_scheme"
    assume k: "k < HEAP_INIT_PAGES" and "?P k ft"
    then obtain t where ft: "ft = (False, t)" "?P k (False, t)" by (cases ft) auto
    have kn: "unat k < 16" using k by (simp add: word_less_nat_alt HEAP_INIT_PAGES_def)
    have "4096 dvd heap_base + 4096 * unat k" by (simp add: heap_base_values(1))
    moreover have "heap_base + 4096 * unat k + 4096 \<le> 2 ^ 32" using kn heap_base_values(1) by simp
    moreover have "2 \<le> card (pmm_pool t)" using ft(2) kn pool by auto
    ultimately obtain p u where u: "vmm_alloc_page (heap_top t) VMM_WRITABLE t = Inr (p, u)" "p \<noteq> 0" "kernel_space u"
      "heap_upto u (heap_base + 4096 * unat k + 4096)" "card (pmm_pool t) \<le> card (pmm_pool u) + 2" "mem_only t u"
      using grow_page [of t "heap_base + 4096 * unat k"] ft(2) by auto
    note F = heap_more_fields [OF mem_only_fields(6) [OF u(6)]]
    have "?body k ft = Inr (False, u\<lparr>heap_top := heap_top u + PAGE_SIZE\<rparr>)"
      using ft(1) u(1,2) by (simp add: heap_page_def)
    moreover have "unat (k + 1) = unat k + 1" using unat_inc [OF k] by simp
    ultimately show "\<exists>ft'. ?body k ft = Inr ft' \<and> ?P (k + 1) ft'"
      using ft(2) u(3-5) F mem_only_fields(5) [OF u(6)] by (simp add: PAGE_SIZE_def algebra_simps)
  qed (simp add: HEAP_INIT_PAGES_def)
  then show ?thesis by (auto simp: HEAP_INIT_PAGES_def)
qed

lemma heap_init_effect:
  fixes s :: "'a heap_scheme"
  assumes k: "kernel_space s" and pool: "32 \<le> card (pmm_pool s)"
  shows "\<exists>t. heap_init s = Inr t \<and> heap_ready t [(65536, True)] \<and> card (pmm_pool s) \<le> card (pmm_pool t) + 32 \<and>
    kernel_page_directory t = kernel_page_directory s"
proof -
  from init_pages [OF assms] obtain t where
    l: "for_err 0 HEAP_INIT_PAGES (\<lambda>i fs. kbind (heap_page (heap_top (snd fs)) fs) (\<lambda>(failed, s).
        Inr (failed, if failed then s else s\<lparr>heap_top := heap_top s + PAGE_SIZE\<rparr>)))
        (False, s\<lparr>heap_free := 0, heap_top := HEAP_START\<rparr>) = Inr (False, t)"
    and t: "heap_top t = of_nat (heap_base + 65536)" "kernel_space t" "heap_upto t (heap_base + 65536)" "heap_free t = 0"
      "card (pmm_pool s) \<le> card (pmm_pool t) + 32" "kernel_page_directory t = kernel_page_directory s"
    by blast
  have lim: "heap_base + 65536 < 2 ^ 32" by (simp add: heap_base_values(1))
  have top: "unat (heap_top t) = heap_base + 65536" using unat_of_nat_u32 [OF lim] t(1) by (simp del: of_nat_add)
  have "aligned_page (heap_top t)" unfolding t(1) by (rule aligned_page_of_nat [OF _ lim]) (simp add: heap_base_values(1))
  then have m: "heap_mapped t" "heap_frames t \<subseteq> pmm_managed t - pmm_pool t"
    using upto_mapped_iff [of t] t(2,3) top by (auto simp: kernel_space_def)
  have h: "header t HEAP_START"
    unfolding heap_base_values(3) by (rule header_in_heap [OF t(1) lim]) (simp_all add: heap_base_values(2))
  have sz: "(HEAP_INIT_PAGES * PAGE_SIZE) OR 1 = of_nat 65536 OR 1" by (simp add: HEAP_INIT_PAGES_def PAGE_SIZE_def)
  let ?u = "heap_put (HEAP_START + 4) 0 (heap_put HEAP_START (of_nat 65536 OR 1) t)"
  have u: "heap_mapped ?u" "heap_free ?u = heap_free t" "heap_top ?u = of_nat (heap_base + 65536 + span [])"
    "heap_word ?u = (heap_word t)(of_nat heap_base := of_nat 65536 OR 1, of_nat heap_base + 4 := 0)"
    using m h t(1) by (simp_all add: header_rules heap_base_values(3) [symmetric])
  have e: "heap_init s = Inr (link [] HEAP_START ?u)"
    using m(1) h by (simp only: heap_init_def Let_def l kbind_simps prod.case if_False sz header_rules header_put link_def simp_thms if_True)
  have "tiled (link (free_at heap_base []) (of_nat heap_base) ?u) ([] @ [(65536, True)])"
    by (rule tiled_release(1) [OF _ _ _ _ _ _ _ _ _ _ u]) (use lim t(4) in \<open>simp_all add: sizes_ok_def\<close>)
  then have "tiled (link [] HEAP_START ?u) [(65536, True)]" by (simp add: heap_base_values(3))
  moreover have ho: "heap_only t (link [] HEAP_START ?u)"
    using m(1) h u(1) by (intro heap_only_rules) (simp_all add: header_rules, simp_all add: header_def)
  moreover have "heap_frames (link [] HEAP_START ?u) = heap_frames t" using ho by (simp add: heap_only_def)
  ultimately show ?thesis
    using e heap_only_space [OF ho m(1) t(2)] m(2) t(5,6) heap_only_vmm(5) [OF ho] by (simp add: heap_ready_def heap_rep_def no_free_neighbours_def)
qed

end
