(* ===== verification/Heap_Alloc.thy ===== *)
theory Heap_Alloc
  imports Heap_Grow
begin

text \<open>
  malloc and free as their clients see them. \<open>block_allocator\<close> is the contract: blocks that are
  handed out do not overlap, lie in the heap and are aligned, and a block that is given back can be
  handed out again. heap.c provides it (\<open>hb\<close>). \<open>heap_run\<close> is an arbitrary history of a kernel
  that calls malloc and free and writes into the blocks it holds.
\<close>

section \<open>The contract\<close>

locale block_allocator =
  fixes alloc :: "u32 \<Rightarrow> 's \<Rightarrow> (u32 \<times> 's) kres" and release :: "u32 \<Rightarrow> 's \<Rightarrow> 's kres"
    and blocks :: "'s \<Rightarrow> (nat \<times> nat) set \<Rightarrow> bool" and room :: "'s \<Rightarrow> u32 \<Rightarrow> bool"
  assumes alloc_block: "blocks s B \<Longrightarrow> n \<noteq> 0 \<Longrightarrow> room s n \<Longrightarrow>
      \<exists>p k t. alloc n s = Inr (p, t) \<and> p \<noteq> 0 \<and> blocks t (insert (unat p, k) B) \<and> (unat p, k) \<notin> B \<and>
        (n \<le> 0xFFFFFFF0 \<longrightarrow> unat n \<le> k)"
    and release_block: "blocks s B \<Longrightarrow> (p, k) \<in> B \<Longrightarrow> \<exists>t. release (of_nat p) s = Inr t \<and> blocks t (B - {(p, k)})"
    and blocks_apart: "blocks s B \<Longrightarrow> (p, k) \<in> B \<Longrightarrow> (q, j) \<in> B \<Longrightarrow> (p, k) = (q, j) \<or> p + k \<le> q \<or> q + j \<le> p"
    and blocks_small: "blocks s B \<Longrightarrow> (p, k) \<in> B \<Longrightarrow> 8 dvd p \<and> 0 < k \<and> p + k < 2 ^ 32"
begin

text \<open>A block just handed out overlaps no block held before.\<close>

lemma alloc_apart:
  assumes "blocks s B" "n \<noteq> 0" "room s n" "alloc n s = Inr (p, t)" "(q, j) \<in> B" "n \<le> 0xFFFFFFF0"
  shows "unat p + unat n \<le> q \<or> q + j \<le> unat p"
proof -
  obtain k where k: "blocks t (insert (unat p, k) B)" "(unat p, k) \<notin> B" "unat n \<le> k"
    using alloc_block [OF assms(1-3)] assms(4,6) by auto
  have "(unat p, k) \<noteq> (q, j)" using k(2) assms(5) by auto
  with blocks_apart [OF k(1), of "unat p" k q j] assms(5) k(3) show ?thesis by auto
qed

lemma alloc_then_release:
  assumes "blocks s B" "n \<noteq> 0" "room s n"
  shows "\<exists>p t u. alloc n s = Inr (p, t) \<and> release p t = Inr u \<and> blocks u B"
proof -
  from alloc_block [OF assms] obtain p k t where
    t: "alloc n s = Inr (p, t)" "blocks t (insert (unat p, k) B)" "(unat p, k) \<notin> B" by blast
  from release_block [OF t(2), of "unat p" k] obtain u where
    "release p t = Inr u" "blocks u (insert (unat p, k) B - {(unat p, k)})" by auto
  with t show ?thesis by auto
qed

end

section \<open>The tiles in use\<close>

definition used :: "nat \<Rightarrow> tile list \<Rightarrow> (nat \<times> nat \<times> bool) list" where
  "used a ts = filter (\<lambda>(b, n, f). \<not> f) (layout a ts)"

definition live :: "tile list \<Rightarrow> (nat \<times> nat) set" where
  "live ts = (\<lambda>(b, n, f). (b + 8, n - 8)) ` set (used heap_base ts)"

lemma used_simps [simp]:
  "used a [] = []" "used a ((n, True) # ts) = used (a + n) ts"
  "used a ((n, False) # ts) = (a, n, False) # used (a + n) ts"
  "used a (us @ vs) = used a us @ used (a + span us) vs"
  by (simp_all add: used_def layout_append)

lemma used_join: "used a (join ts) = used a ts"
proof (induction ts arbitrary: a rule: join.induct)
  case (3 t u ts)
  then show ?case by (cases t; cases u) (auto simp: used_def add.assoc)
qed simp_all

lemma layout_split:
  "(b, k, f) \<in> set (layout a ts) \<Longrightarrow> \<exists>us vs. ts = us @ (k, f) # vs \<and> b = a + span us"
proof (induction a ts rule: layout.induct)
  case (2 a n g ts)
  show ?case
  proof (cases "(b, k, f) = (a, n, g)")
    case True
    then show ?thesis by (intro exI [of _ "[]"] exI [of _ ts]) simp
  next
    case False
    with 2 obtain us vs where "ts = us @ (k, f) # vs" "b = a + n + span us" by auto
    then show ?thesis by (intro exI [of _ "(n, g) # us"] exI [of _ vs]) simp
  qed
qed simp

lemma live_iff: "(p, k) \<in> live ts \<longleftrightarrow> (\<exists>b n. (b, n, False) \<in> set (layout heap_base ts) \<and> p = b + 8 \<and> k = n - 8)"
  by (force simp: live_def used_def)

lemma ready_rep: "heap_ready s ts \<Longrightarrow> heap_rep s ts"
  by (simp add: heap_ready_def)

lemma rep_tile:
  assumes "heap_rep s ts" "(b, n, f) \<in> set (layout heap_base ts)"
  shows "16 \<le> n" "8 dvd n" "8 dvd b" "heap_base \<le> b" "b + n \<le> unat (heap_top s)" "b + n < 2 ^ 32"
proof -
  have t: "list_all tile_ok ts" "heap_base + span ts < 2 ^ 32" "heap_top s = of_nat (heap_base + span ts)"
    using assms(1) by (auto simp: heap_rep_def tiled_def)
  have "unat (heap_top s) = heap_base + span ts" using unat_of_nat_u32 [OF t(2)] t(3) by (simp del: of_nat_add)
  then show "16 \<le> n" "8 dvd n" "8 dvd b" "heap_base \<le> b" "b + n \<le> unat (heap_top s)" "b + n < 2 ^ 32"
    using layout_aligned [OF assms(2) heap_base_values(2) t(1)] layout_bounds [OF assms(2)] t(2)
    by (auto simp: tile_ok_def)
qed

lemmas ready_tile = rep_tile [OF ready_rep]

lemma rep_live_apart:
  assumes r: "heap_rep s ts" and p: "(p, k) \<in> live ts" and q: "(q, j) \<in> live ts"
  shows "(p, k) = (q, j) \<or> p + k \<le> q \<or> q + j \<le> p"
proof -
  obtain b n c m where b: "(b, n, False) \<in> set (layout heap_base ts)" "p = b + 8" "k = n - 8"
    and c: "(c, m, False) \<in> set (layout heap_base ts)" "q = c + 8" "j = m - 8"
    using p q unfolding live_iff by blast
  with layout_disjoint [OF b(1) c(1)] rep_tile(1) [OF r b(1)] rep_tile(1) [OF r c(1)] show ?thesis by auto
qed

lemma rep_live_range:
  assumes "heap_rep s ts" "(p, k) \<in> live ts"
  shows "8 dvd p \<and> 0 < k \<and> p + k < 2 ^ 32" "heap_base + 8 \<le> p" "p + k \<le> unat (heap_top s)"
proof -
  obtain b n where b: "(b, n, False) \<in> set (layout heap_base ts)" "p = b + 8" "k = n - 8"
    using assms(2) unfolding live_iff by blast
  note R = rep_tile [OF assms(1) b(1)]
  show "8 dvd p \<and> 0 < k \<and> p + k < 2 ^ 32" "heap_base + 8 \<le> p" "p + k \<le> unat (heap_top s)" using R b(2,3) by auto
qed

lemmas live_apart = rep_live_apart [OF ready_rep]
lemmas live_range = rep_live_range [OF ready_rep]

lemma live_cut:
  assumes "16 \<le> m" "m \<le> k"
  shows "live (us @ cut_tile m k @ vs) = insert (heap_base + span us + 8, (if 16 \<le> k - m then m else k) - 8)
    (live (us @ (k, True) # vs))"
  using assms by (auto simp: live_def cut_tile_def image_Un add.assoc)

lemma live_free:
  assumes "heap_rep s (us @ (k, False) # vs)"
  shows "live (join (us @ (k, True) # vs)) = live (us @ (k, False) # vs) - {(heap_base + span us + 8, k - 8)}"
proof -
  let ?ts = "us @ (k, False) # vs" and ?b = "heap_base + span us"
  have l: "(?b, k, False) \<in> set (layout heap_base ?ts)" by (simp add: layout_append)
  have "b \<noteq> ?b" if "(b, n, f) \<in> set (layout heap_base us) \<union> set (layout (?b + k) vs)" for b n f
  proof -
    have "(b, n, f) \<in> set (layout heap_base ?ts)" using that by (auto simp: layout_append)
    note r = rep_tile(1) [OF assms this] rep_tile(1) [OF assms l]
    then show ?thesis using that layout_bounds [of b n f] by fastforce
  qed
  then have "(?b + 8, k - 8) \<notin> live us" "(?b + 8, k - 8) \<notin> (\<lambda>(b, n, f). (b + 8, n - 8)) ` set (used (?b + k) vs)"
    by (fastforce simp: live_def used_def)+
  then show ?thesis by (simp add: live_def used_join image_Un)
qed

section \<open>The provider\<close>

definition heap_blocks :: "'a heap_scheme \<Rightarrow> (nat \<times> nat) set \<Rightarrow> bool" where
  "heap_blocks s B \<longleftrightarrow> (\<exists>ts. heap_ready s ts \<and> B = live ts)"

text \<open>Enough frames and addresses for malloc to grow the heap if it has to: a frame and, at worst,
  a page table for every page.\<close>

definition heap_room :: "'a heap_scheme \<Rightarrow> u32 \<Rightarrow> bool" where
  "heap_room s n \<longleftrightarrow> (let g = page_round (unat (block_needed n)) in
     unat (heap_top s) + g < 2 ^ 32 \<and> 2 * (g div 4096) \<le> card (pmm_pool s))"

lemma ready_top:
  assumes "heap_ready s ts"
  shows "unat (heap_top s) = heap_base + span ts" "heap_top s = of_nat (heap_base + span ts)"
  using assms unat_of_nat_u32 [of "heap_base + span ts"]
  by (simp_all add: heap_ready_def heap_rep_def tiled_def del: of_nat_add)

text \<open>\<open>handed_out n s ts p t\<close>: in \<open>t\<close> there is one block more than in \<open>s\<close>, at \<open>p\<close>, with
  room for \<open>n\<close> bytes unless the sum with the header wraps; blocks in use have kept their words.\<close>

definition handed_out :: "u32 \<Rightarrow> 'a heap_scheme \<Rightarrow> tile list \<Rightarrow> u32 \<Rightarrow> 'a heap_scheme \<Rightarrow> bool" where
  "handed_out n s ts p t \<longleftrightarrow> p \<noteq> 0 \<and> (\<exists>k us. heap_ready t us \<and> live us = insert (unat p, k) (live ts) \<and>
     (unat p, k) \<notin> live ts \<and> unat (block_needed n) \<le> k + 8) \<and> (\<forall>c. in_use ts c \<longrightarrow> heap_word t c = heap_word s c)"

lemma fresh_block:
  assumes "heap_rep s ts" "(b, n, True) \<in> set (layout heap_base ts) \<or> b = heap_base + span ts"
  shows "(b + 8, j) \<notin> live ts"
proof
  assume "(b + 8, j) \<in> live ts"
  then obtain m where m: "(b, m, False) \<in> set (layout heap_base ts)" by (auto simp: live_iff)
  then show False
    using assms layout_disjoint [OF m, of b n True] rep_tile(1) [OF assms(1) m] rep_tile(1) [OF assms(1), of b n True]
      layout_bounds(2) [OF m] by auto
qed

text \<open>malloc and free in any address space that maps the heap, while no page has to be added.\<close>

lemma rep_malloc:
  fixes s :: "'a heap_scheme"
  assumes h: "heap_rep s ts" and n: "n \<noteq> 0" and c: "cut_first (unat (block_needed n)) ts = Some (d, us)"
  shows "\<exists>p k t. malloc n s = Inr (p, t) \<and> p = of_nat (heap_base + d) + 8 \<and> p \<noteq> 0 \<and> heap_rep t us \<and> heap_only s t \<and>
    live us = insert (unat p, k) (live ts) \<and> (\<forall>j. (unat p, j) \<notin> live ts) \<and> unat (block_needed n) \<le> k + 8 \<and>
    (\<forall>c. in_use ts c \<longrightarrow> heap_word t c = heap_word s c)"
proof -
  let ?N = "unat (block_needed n)" and ?p = "of_nat (heap_base + d) + 8 :: u32"
  obtain t where t: "malloc n s = Inr (?p, t)" "heap_rep t us" "heap_only s t"
    "\<forall>c. in_use ts c \<longrightarrow> heap_word t c = heap_word s c" using malloc_fit [OF h n c] by blast
  obtain as k bs where s: "ts = as @ (k, True) # bs" "?N \<le> k" "d = span as" "us = as @ cut_tile ?N k @ bs"
    using cut_first_Some [OF c] by blast
  have l: "(heap_base + d, k, True) \<in> set (layout heap_base ts)" by (simp add: s layout_append)
  note R = rep_tile [OF h l]
  have p: "unat ?p = heap_base + d + 8"
    using R(1,6) unat_of_nat_u32 [of "heap_base + d"] by (simp add: unat_word_ariths del: of_nat_add)
  have N: "16 \<le> ?N" using block_needed_ok(1) by (simp add: tile_ok_def)
  let ?k = "(if 16 \<le> k - ?N then ?N else k) - 8"
  have "live us = insert (heap_base + d + 8, ?k) (live ts)" using live_cut [OF N s(2), of as bs] s by simp
  moreover have "?N \<le> ?k + 8" using s(2) N by auto
  moreover have "?p \<noteq> 0" using p by auto
  moreover have "(heap_base + d + 8, j) \<notin> live ts" for j using fresh_block [OF h disjI1 [OF l]] .
  ultimately show ?thesis
    using t by (intro exI [of _ ?p] exI [of _ ?k] exI [of _ t]) (simp add: p del: of_nat_add)
qed

lemma rep_free:
  fixes s :: "'a heap_scheme"
  assumes h: "heap_rep s ts" and p: "(p, k) \<in> live ts"
  shows "\<exists>t. free (of_nat p) s = Inr t \<and> heap_rep t (join (mark (p - 8 - heap_base) ts)) \<and> heap_only s t \<and>
    live (join (mark (p - 8 - heap_base) ts)) = live ts - {(p, k)} \<and>
    (\<forall>c. in_use ts c \<longrightarrow> heap_word t c = heap_word s c)"
proof -
  obtain b n where b: "(b, n, False) \<in> set (layout heap_base ts)" "p = b + 8" "k = n - 8" using p by (auto simp: live_iff)
  obtain us vs where s: "ts = us @ (n, False) # vs" "b = heap_base + span us" using layout_split [OF b(1)] by blast
  have h': "heap_rep s (us @ (n, False) # vs)" using h s by simp
  have us: "list_all tile_ok us" using h' by (simp add: heap_rep_def tiled_def)
  have m: "mark (p - 8 - heap_base) ts = us @ (n, True) # vs" using mark_split [OF us] by (simp add: b(2) s)
  from free_live [OF h'] obtain t where
    t: "free (of_nat (heap_base + span us) + 8) s = Inr t" "heap_rep t (join (us @ (n, True) # vs))" "heap_only s t"
      "\<forall>c. in_use (us @ (n, False) # vs) c \<longrightarrow> heap_word t c = heap_word s c" by blast
  have "of_nat p = (of_nat (heap_base + span us) + 8 :: u32)" by (simp add: b s)
  then show ?thesis using t live_free [OF h'] unfolding m by (simp add: s b)
qed

lemma malloc_block_fit:
  fixes s :: "'a heap_scheme"
  assumes r: "heap_ready s ts" and n: "n \<noteq> 0" and c: "cut_first (unat (block_needed n)) ts = Some (d, ts')"
  shows "\<exists>p t. malloc n s = Inr (p, t) \<and> handed_out n s ts p t"
proof -
  from rep_malloc [OF ready_rep [OF r] n c] obtain p k t where
    t: "malloc n s = Inr (p, t)" "p \<noteq> 0" "heap_rep t ts'" "heap_only s t" "live ts' = insert (unat p, k) (live ts)"
      "\<forall>j. (unat p, j) \<notin> live ts" "unat (block_needed n) \<le> k + 8" "\<forall>c. in_use ts c \<longrightarrow> heap_word t c = heap_word s c"
    by blast
  from t(1,2,5-8) heap_only_ready [OF t(4) r t(3)] show ?thesis unfolding handed_out_def by blast
qed

lemma malloc_block_grow:
  fixes s :: "'a heap_scheme"
  assumes r: "heap_ready s ts" and n: "n \<noteq> 0" and c: "cut_first (unat (block_needed n)) ts = None" and room: "heap_room s n"
  shows "\<exists>p t. malloc n s = Inr (p, t) \<and> handed_out n s ts p t"
proof -
  let ?N = "unat (block_needed n)" let ?G = "page_round ?N" and ?E = "heap_base + span ts"
  note T = ready_top [OF r]
  have lim: "?E + ?G < 2 ^ 32" "2 * (?G div 4096) \<le> card (pmm_pool s)" using room T(1) by (auto simp: heap_room_def Let_def)
  obtain t where t: "malloc n s = Inr (heap_top s + 8, t)" "heap_ready t (ts @ cut_tile ?N ?G)"
    "\<forall>c. in_use ts c \<longrightarrow> heap_word t c = heap_word s c" using malloc_grow [OF r n c lim] by blast
  have N: "16 \<le> ?N" "?N \<le> ?G" using block_needed_ok(1) page_round_facts(1) by (auto simp: tile_ok_def)
  have p: "unat (heap_top s + 8) = ?E + 8" using T(1) lim(1) N by (simp add: unat_word_ariths)
  then have p0: "heap_top s + 8 \<noteq> 0" by auto
  let ?k = "(if 16 \<le> ?G - ?N then ?N else ?G) - 8"
  have "live (ts @ cut_tile ?N ?G) = insert (?E + 8, ?k) (live ts)"
    using live_cut [OF N, of ts "[]"] by (simp add: live_def)
  moreover have "?N \<le> ?k + 8" using N by auto
  ultimately show ?thesis
    using t p p0 fresh_block [OF ready_rep [OF r], of ?E] by (auto simp: handed_out_def)
qed

lemma malloc_block:
  assumes "heap_ready s ts" "n \<noteq> 0" "heap_room s n"
  shows "\<exists>p t. malloc n s = Inr (p, t) \<and> handed_out n s ts p t"
  using malloc_block_fit [OF assms(1,2)] malloc_block_grow [OF assms(1,2) _ assms(3)]
  by (cases "cut_first (unat (block_needed n)) ts") auto

lemma free_block:
  fixes s :: "'a heap_scheme"
  assumes r: "heap_ready s ts" and p: "(p, k) \<in> live ts"
  shows "\<exists>t. free (of_nat p) s = Inr t \<and> heap_ready t (join (mark (p - 8 - heap_base) ts)) \<and>
    live (join (mark (p - 8 - heap_base) ts)) = live ts - {(p, k)} \<and>
    (\<forall>c. in_use ts c \<longrightarrow> heap_word t c = heap_word s c)"
  using rep_free [OF ready_rep [OF r] p] heap_only_ready [OF _ r] by blast

interpretation hb: block_allocator malloc free heap_blocks heap_room
proof unfold_locales
  fix s :: "'a heap_scheme" and B n p k q j
  assume "heap_blocks s B"
  then obtain ts where ts: "heap_ready s ts" "B = live ts" by (auto simp: heap_blocks_def)
  show "\<exists>p k t. malloc n s = Inr (p, t) \<and> p \<noteq> 0 \<and> heap_blocks t (insert (unat p, k) B) \<and> (unat p, k) \<notin> B \<and>
      (n \<le> 0xFFFFFFF0 \<longrightarrow> unat n \<le> k)" if "n \<noteq> 0" "heap_room s n"
    using malloc_block [OF ts(1) that] block_needed_size(1) [of n] unfolding handed_out_def heap_blocks_def ts(2)
    by fastforce
  show "\<exists>t. free (of_nat p) s = Inr t \<and> heap_blocks t (B - {(p, k)})" if "(p, k) \<in> B"
    using free_block [OF ts(1)] that unfolding heap_blocks_def ts(2) by metis
  show "(p, k) = (q, j) \<or> p + k \<le> q \<or> q + j \<le> p" if "(p, k) \<in> B" "(q, j) \<in> B"
    using live_apart [OF ts(1)] that unfolding ts(2) .
  show "8 dvd p \<and> 0 < k \<and> p + k < 2 ^ 32" if "(p, k) \<in> B"
    using live_range [OF ts(1)] that unfolding ts(2) by blast
qed

section \<open>Clients\<close>

text \<open>A client may write into the words of the blocks it holds.\<close>

lemma in_use_cell:
  assumes "heap_rep s ts" "in_use ts c" "aligned4 c"
  shows "c \<in> heap_cells s"
proof -
  obtain b n where b: "(b, n, False) \<in> set (layout heap_base ts)" "b + 8 \<le> unat c" "unat c < b + n"
    using assms(2) by (auto simp: in_use_def)
  from rep_tile [OF assms(1) b(1)] b show ?thesis using assms(3) by (simp add: heap_cells_def in_heap_nat)
qed

lemma rep_write_in_use:
  fixes s :: "'a heap_scheme"
  assumes r: "heap_rep s ts" and c: "in_use ts c" "aligned4 c"
  shows "vload32 s c = Inr (heap_word s c)" "vstore32 c v s = Inr (heap_put c v s)" "heap_rep (heap_put c v s) ts"
    "heap_word (heap_put c v s) = (heap_word s)(c := v)"
proof -
  have t: "tiled s ts" "heap_mapped s" "no_free_neighbours ts" using r by (auto simp: heap_rep_def tiled_def)
  have cell: "c \<in> heap_cells s" by (rule in_use_cell [OF r c])
  show "vload32 s c = Inr (heap_word s c)" by (rule hw.load [OF t(2) cell])
  show "vstore32 c v s = Inr (heap_put c v s)" by (rule hw.store [OF t(2) cell])
  show w: "heap_word (heap_put c v s) = (heap_word s)(c := v)" by (rule hw.put_rd [OF t(2) cell])
  have T: "list_all tile_ok ts" "heap_base + span ts < 2 ^ 32" using t(1) by (auto simp: tiled_def)
  have "of_nat a \<noteq> c" if "(a, m, f) \<in> set (layout heap_base ts)" for a m f
    using in_headerI(1) [OF t(1) that] in_use_not_header [OF t(1) c(1)] by auto
  then have "sizes_ok (heap_word (heap_put c v s)) heap_base ts"
    using t(1) sizes_ok_cong [of heap_base ts "(heap_word s)(c := v)" "heap_word s"] unfolding w by (auto simp: tiled_def)
  moreover have "seg (heap_word (heap_put c v s)) (heap_free s) (free_at heap_base ts) 0"
    unfolding w using seg_upd [OF in_use_not_next [OF t(1) c(1)]] t(1) by (simp add: tiled_def)
  ultimately have "tiled (heap_put c v s) ts"
    using t(1) hw.put_ok [OF t(2) cell, of v] unfolding tiled_def heap_put_fields by blast
  then show "heap_rep (heap_put c v s) ts" using t(3) by (simp add: heap_rep_def)
qed

lemma write_in_use:
  fixes s :: "'a heap_scheme"
  assumes "heap_ready s ts" "in_use ts c" "aligned4 c"
  shows "vstore32 c v s = Inr (heap_put c v s)" "heap_ready (heap_put c v s) ts"
    "heap_word (heap_put c v s) = (heap_word s)(c := v)"
proof -
  note r = ready_rep [OF assms(1)]
  note W = rep_write_in_use [OF r assms(2,3)]
  have "heap_mapped s" using r by (simp add: heap_rep_def tiled_def)
  then show "vstore32 c v s = Inr (heap_put c v s)" "heap_ready (heap_put c v s) ts"
    "heap_word (heap_put c v s) = (heap_word s)(c := v)"
    using W heap_only_ready [OF heap_only_put [OF _ in_use_cell [OF r assms(2,3)]] assms(1)] by auto
qed

inductive heap_run :: "'a heap_scheme \<Rightarrow> (nat \<times> nat) set \<Rightarrow> bool" where
  run_start: "heap_ready s [(n, True)] \<Longrightarrow> heap_run s {}"
| run_fail: "heap_run s B \<Longrightarrow> unat (heap_top s) + page_round (unat (block_needed n)) < 2 ^ 32 \<Longrightarrow>
    malloc n s = Inr (0, t) \<Longrightarrow> heap_run t B"
| run_malloc: "heap_run s B \<Longrightarrow> n \<noteq> 0 \<Longrightarrow> n \<le> 0xFFFFFFF0 \<Longrightarrow> heap_room s n \<Longrightarrow> malloc n s = Inr (p, t) \<Longrightarrow>
    heap_run t (insert (unat p, unat n) B)"
| run_free: "heap_run s B \<Longrightarrow> (p, n) \<in> B \<Longrightarrow> free (of_nat p) s = Inr t \<Longrightarrow> heap_run t (B - {(p, n)})"
| run_write: "heap_run s B \<Longrightarrow> (p, n) \<in> B \<Longrightarrow> p \<le> unat c \<Longrightarrow> unat c + 4 \<le> p + n \<Longrightarrow> aligned4 c \<Longrightarrow>
    vstore32 c v s = Inr t \<Longrightarrow> heap_run t B"

text \<open>\<open>within B L\<close>: every block of \<open>B\<close> lies in a block of \<open>L\<close> of its own, at its start.\<close>

definition within :: "(nat \<times> nat) set \<Rightarrow> (nat \<times> nat) set \<Rightarrow> bool" where
  "within B L \<longleftrightarrow> (\<forall>(p, n)\<in>B. \<exists>k \<ge> n. (p, k) \<in> L) \<and> (\<forall>(p, n)\<in>B. \<forall>(q, m)\<in>B. p = q \<longrightarrow> n = m)"

lemma withinD: "within B L \<Longrightarrow> (p, n) \<in> B \<Longrightarrow> \<exists>k \<ge> n. (p, k) \<in> L"
  unfolding within_def by blast

lemma rep_live_unique: "heap_rep s ts \<Longrightarrow> (p, k) \<in> live ts \<Longrightarrow> (p, j) \<in> live ts \<Longrightarrow> k = j"
  using rep_live_apart [of s ts p k p j] rep_live_range(1) [of s ts p k] rep_live_range(1) [of s ts p j] by auto

lemmas live_unique = rep_live_unique [OF ready_rep]

lemma within_insert:
  assumes "within B L" "n \<le> k" "\<And>j. (p, j) \<notin> L"
  shows "within (insert (p, n) B) (insert (p, k) L)"
  using assms by (fastforce simp: within_def)

lemma within_remove:
  assumes "within B L" "(p, n) \<in> B"
  shows "within (B - {(p, n)}) (L - {(p, k)})"
proof -
  have "\<exists>j \<ge> m. (q, j) \<in> L - {(p, k)}" if q: "(q, m) \<in> B - {(p, n)}" for q m
  proof -
    obtain j where "m \<le> j" "(q, j) \<in> L" using assms(1) q unfolding within_def by blast
    moreover have "q \<noteq> p" using assms q unfolding within_def by blast
    ultimately show ?thesis by auto
  qed
  then show ?thesis using assms(1) unfolding within_def by blast
qed

lemma heap_run_inv: "heap_run s B \<Longrightarrow> \<exists>ts. heap_ready s ts \<and> within B (live ts)"
proof (induction rule: heap_run.induct)
  case (run_start s n)
  then show ?case by (intro exI [of _ "[(n, True)]"]) (simp add: within_def)
next
  case (run_fail s B n t)
  then obtain ts where ts: "heap_ready s ts" "within B (live ts)" by blast
  from malloc_fails [OF ts(1) run_fail.hyps(2,3)] ts(2) show ?case by blast
next
  case (run_malloc s B n p t)
  then obtain ts where ts: "heap_ready s ts" "within B (live ts)" by blast
  from malloc_block [OF ts(1) run_malloc.hyps(2,4)] run_malloc.hyps(5) obtain k us where
    u: "heap_ready t us" "live us = insert (unat p, k) (live ts)" "(unat p, k) \<notin> live ts" "unat (block_needed n) \<le> k + 8"
    by (auto simp: handed_out_def)
  have "(unat p, j) \<notin> live ts" for j
  proof
    assume j: "(unat p, j) \<in> live ts"
    with u(2) have "(unat p, j) \<in> live us" "(unat p, k) \<in> live us" by auto
    from live_unique [OF u(1) this] j u(3) show False by simp
  qed
  moreover have "unat n \<le> k" using block_needed_size(1) [OF run_malloc.hyps(3)] u(4) by simp
  ultimately show ?case using u(1,2) within_insert [OF ts(2)] by metis
next
  case (run_free s B p n t)
  then obtain ts where ts: "heap_ready s ts" "within B (live ts)" by blast
  then obtain k where k: "(p, k) \<in> live ts" using run_free.hyps(2) by (auto simp: within_def)
  from free_block [OF ts(1) k] run_free.hyps(3) obtain us where "heap_ready t us" "live us = live ts - {(p, k)}" by auto
  then show ?case using within_remove [OF ts(2) run_free.hyps(2)] by metis
next
  case (run_write s B p n c t v)
  then obtain ts where ts: "heap_ready s ts" "within B (live ts)" by blast
  then obtain k where k: "(p, k) \<in> live ts" "n \<le> k" using run_write.hyps(2) by (auto simp: within_def)
  then obtain b m where b: "(b, m, False) \<in> set (layout heap_base ts)" "p = b + 8" "k = m - 8" by (auto simp: live_iff)
  have "in_use ts c" using b k(2) run_write.hyps(3,4) unfolding in_use_def by (intro bexI [OF _ b(1)]) auto
  from write_in_use [OF ts(1) this] run_write.hyps(5,6) show ?case using ts(2) by auto
qed

section \<open>Properties\<close>

text \<open>C7: malloc refines first fit on tiles. When a free tile is large enough, malloc cuts the first
  such tile and returns the address behind its header; the remaining words of the blocks in use are
  unchanged.\<close>

theorem malloc_first_fit:
  assumes "heap_ready s ts" "n \<noteq> 0" "cut_first (unat (block_needed n)) ts = Some (d, us)"
  shows "\<exists>t. malloc n s = Inr (HEAP_START + of_nat d + 8, t) \<and> heap_ready t us \<and>
    (\<forall>c. in_use ts c \<longrightarrow> heap_word t c = heap_word s c)"
proof -
  have "heap_rep s ts" using assms(1) by (simp add: heap_ready_def)
  from malloc_fit [OF this assms(2,3)] show ?thesis
    using heap_only_ready [OF _ assms(1)] by (auto simp: heap_base_values(3))
qed

text \<open>C21: when no free tile is large enough and there are enough frames and addresses, malloc appends
  pages at the end of the heap and cuts the block from them.\<close>

theorem malloc_grows:
  assumes "heap_ready s ts" "n \<noteq> 0" "cut_first (unat (block_needed n)) ts = None" "heap_room s n"
  shows "\<exists>t. malloc n s = Inr (heap_top s + 8, t) \<and>
    heap_ready t (ts @ cut_tile (unat (block_needed n)) (page_round (unat (block_needed n)))) \<and>
    (\<forall>c. in_use ts c \<longrightarrow> heap_word t c = heap_word s c)"
  using malloc_grow [OF assms(1-3)] assms(4) ready_top(1) [OF assms(1)] by (simp add: heap_room_def Let_def)

text \<open>C8: free of a block in use returns; it frees the tile and joins it with its free neighbours, and
  changes no word of a block in use but its header.\<close>

theorem free_joins:
  assumes "heap_ready s ts" "(p, k) \<in> live ts"
  shows "\<exists>t. free (of_nat p) s = Inr t \<and> heap_ready t (join (mark (p - 8 - heap_base) ts)) \<and>
    live (join (mark (p - 8 - heap_base) ts)) = live ts - {(p, k)} \<and>
    (\<forall>c. in_use ts c \<longrightarrow> heap_word t c = heap_word s c)"
  by (rule free_block [OF assms])

lemma free_cut:
  assumes "no_free_neighbours ts" "list_all tile_ok ts" "cut_first m ts = Some (d, us)" "16 \<le> m"
  shows "join (mark d us) = ts" "\<exists>k. (heap_base + d + 8, k) \<in> live us"
proof -
  obtain vs k ws where ts: "ts = vs @ (k, True) # ws" "m \<le> k" "d = span vs" "us = vs @ cut_tile m k @ ws"
    using cut_first_Some [OF assms(3)] by blast
  have nf: "no_free_neighbours vs" "vs = [] \<or> \<not> snd (last vs)"
    using assms(1) by (auto simp: ts no_free_neighbours_def successively_append_iff)
  have id: "join ((k, True) # ws) = (k, True) # ws"
    using assms(1) by (intro join_id) (auto simp: ts no_free_neighbours_def successively_append_iff)
  have vs: "list_all tile_ok vs" using assms(2) ts by simp
  show "join (mark d us) = ts"
    using mark_split [OF vs] join_append [OF nf(1)] nf(2) id ts(2) by (auto simp: ts cut_tile_def)
  show "\<exists>k. (heap_base + d + 8, k) \<in> live us"
    using live_cut [OF assms(4) ts(2), of vs ws] by (auto simp: ts)
qed

lemma fit_restores:
  fixes s :: "'a heap_scheme"
  assumes "heap_ready s ts" "n \<noteq> 0" "cut_first (unat (block_needed n)) ts = Some (d, us)"
  shows "\<exists>p t u. malloc n s = Inr (p, t) \<and> free p t = Inr u \<and> heap_ready u ts"
proof -
  have h: "heap_rep s ts" "no_free_neighbours ts" "list_all tile_ok ts"
    using assms(1) by (auto simp: heap_ready_def heap_rep_def tiled_def)
  from malloc_fit [OF h(1) assms(2,3)] obtain t where
    t: "malloc n s = Inr (of_nat (heap_base + d) + 8, t)" "heap_rep t us" "heap_only s t" by blast
  have N: "16 \<le> unat (block_needed n)" using block_needed_ok(1) by (simp add: tile_ok_def)
  note F = free_cut [OF h(2,3) assms(3) N]
  then obtain k where k: "(heap_base + d + 8, k) \<in> live us" by blast
  from free_block [OF heap_only_ready [OF t(3) assms(1) t(2)] k] F(1) obtain u where
    "free (of_nat (heap_base + d + 8)) t = Inr u" "heap_ready u ts" by auto
  then show ?thesis using t(1) by auto
qed

lemma grow_restores:
  fixes s :: "'a heap_scheme"
  assumes r: "heap_ready s ts" and n: "n \<noteq> 0" and c: "cut_first (unat (block_needed n)) ts = None"
    and room: "heap_room s n"
  shows "\<exists>p t u. malloc n s = Inr (p, t) \<and> free p t = Inr u \<and>
    heap_ready u (join (ts @ [(page_round (unat (block_needed n)), True)]))"
proof -
  let ?N = "unat (block_needed n)" let ?G = "page_round ?N"
  obtain t where t: "malloc n s = Inr (heap_top s + 8, t)" "heap_ready t (ts @ cut_tile ?N ?G)"
    using malloc_grow [OF r n c] room ready_top(1) [OF r] by (auto simp: heap_room_def Let_def)
  have T: "list_all tile_ok ts" using r by (simp add: heap_ready_def heap_rep_def tiled_def)
  have N: "16 \<le> ?N" "?N \<le> ?G" using block_needed_ok(1) page_round_facts(1) by (auto simp: tile_ok_def)
  obtain k where k: "(heap_base + span ts + 8, k) \<in> live (ts @ cut_tile ?N ?G)"
    using live_cut [OF N, of ts "[]"] by auto
  have "join (mark (span ts) (ts @ cut_tile ?N ?G)) = join (ts @ [(?G, True)])"
    using mark_split [OF T] join_two [of ts ?N "?G - ?N" "[]"] N(2) by (simp add: cut_tile_def)
  with free_block [OF t(2) k] obtain u where
    "free (of_nat (heap_base + span ts + 8)) t = Inr u" "heap_ready u (join (ts @ [(?G, True)]))" by auto
  moreover have "heap_top s + 8 = of_nat (heap_base + span ts + 8)" by (simp add: ready_top(2) [OF r])
  ultimately show ?thesis using t(1) by metis
qed

text \<open>C22: free undoes malloc. When a free tile is large enough for the request, a block that is handed
  out and given back leaves the same tiles. When there is none, and there are frames and addresses for
  the heap to grow, the tiles left are the old ones and the pages added, free and joined with a free
  tile before them.\<close>

theorem malloc_free_restores:
  assumes "heap_ready s ts" "n \<noteq> 0" "cut_first (unat (block_needed n)) ts \<noteq> None \<or> heap_room s n"
  shows "\<exists>p t u. malloc n s = Inr (p, t) \<and> free p t = Inr u \<and>
    heap_ready u (if cut_first (unat (block_needed n)) ts \<noteq> None then ts
      else join (ts @ [(page_round (unat (block_needed n)), True)]))"
proof (cases "cut_first (unat (block_needed n)) ts")
  case None
  with grow_restores [OF assms(1,2)] assms(3) show ?thesis by simp
next
  case (Some r)
  with fit_restores [OF assms(1,2), of "fst r" "snd r"] show ?thesis by simp
qed

text \<open>C9: take any history of a client that starts from an empty heap, asks malloc for blocks, gives
  blocks back to free and writes into the blocks it holds; each request either asks for at most
  0xFFFFFFF0 bytes while there are two frames for every page it could add and the heap ends below 4 GiB
  (\<open>run_malloc\<close>), or it is answered with 0, for want of frames, and could not have taken the heap
  to 4 GiB (\<open>run_fail\<close>). Then the blocks the client holds are aligned, lie in the heap and do not
  overlap. A larger request gets 16 bytes (C38).\<close>

theorem heap_blocks_apart:
  assumes "heap_run s B" "(p, n) \<in> B" "(q, m) \<in> B"
  shows "8 dvd p \<and> unat HEAP_START < p \<and> p + n \<le> unat (heap_top s) \<and> ((p, n) = (q, m) \<or> p + n \<le> q \<or> q + m \<le> p)"
proof -
  obtain ts where ts: "heap_ready s ts" "within B (live ts)" using heap_run_inv [OF assms(1)] by blast
  obtain k j where k: "n \<le> k" "(p, k) \<in> live ts" and j: "m \<le> j" "(q, j) \<in> live ts"
    using withinD [OF ts(2) assms(2)] withinD [OF ts(2) assms(3)] by blast
  have "p = q \<Longrightarrow> n = m" using ts(2) assms(2,3) unfolding within_def by blast
  then show ?thesis
    using live_apart [OF ts(1) k(2) j(2)] live_range [OF ts(1) k(2)] k(1) j(1) by (auto simp: heap_base_def)
qed

text \<open>Requests whose arithmetic wraps.\<close>

lemma block_needed_wraps:
  assumes "n > 0xFFFFFFF0"
  shows "block_needed n = 16"
proof -
  have "unat n < 4294967296" using unsigned_less [of n, where ?'a = nat] by simp
  then have "unat (15 + n) = unat n + 15 - 4294967296"
    using assms by (simp add: unat_word_ariths word_less_nat_alt mod_if)
  then have "unat ((15 + n) AND NOT 7) < unat (16 :: u32)" using \<open>unat n < 4294967296\<close> unfolding round_up_8 by simp
  then have "(15 + n) AND NOT 7 < 16" by (simp only: word_less_nat_alt)
  moreover have "block_needed n = (let r = (15 + n) AND NOT 7 in if r < 16 then 16 else r)"
    by (simp add: block_needed_def sizeof_heap_block_def HEAP_ALIGN_def HEAP_MIN_BLOCK_def Let_def ac_simps)
  ultimately show ?thesis by (simp only: Let_def if_True)
qed

lemma grow_wraps:
  assumes "n > 0xFFFFEFF8" "n \<le> 0xFFFFFFF0"
  shows "(block_needed n + PAGE_SIZE - 1) AND NOT (PAGE_SIZE - 1) = 0" "4294963201 \<le> unat (block_needed n)"
proof -
  note b = block_needed_size [OF assms(2)]
  have n: "4294963193 \<le> unat n" using assms(1) by (simp add: word_less_nat_alt)
  then show w: "4294963201 \<le> unat (block_needed n)" using b(1) by simp
  have "unat (block_needed n) < 4294967296" using unsigned_less [of "block_needed n", where ?'a = nat] by simp
  moreover from this have "unat (block_needed n + 4095) = unat (block_needed n) + 4095 - 4294967296"
    using w by (simp add: unat_word_ariths mod_if)
  ultimately have u: "unat (block_needed n + 4095) < 4096" using w by linarith
  have "drop_bit 12 (block_needed n + 4095) = 0"
    using u by (simp add: word_unat_eq_iff drop_bit_eq_div unat_div)
  then have "(block_needed n + 4095) AND 0xFFFFF000 = 0" unfolding page_high by simp
  then show "(block_needed n + PAGE_SIZE - 1) AND NOT (PAGE_SIZE - 1) = 0" by (simp only: page_round_word)
qed

lemma malloc_fault:
  fixes s :: "'a heap_scheme"
  assumes r: "heap_ready s ts" and n: "n > 0xFFFFEFF8" "n \<le> 0xFFFFFFF0"
    and w: "walk (phys_mem s) (cur s) (heap_top s) = None"
  shows "malloc n s = Inl (PageFault (heap_top s))"
proof -
  have t: "tiled s ts" "paging s" using r by (auto simp: heap_ready_def heap_rep_def tiled_def heap_mapped_def)
  have "k < unat (block_needed n)" if "(k, f) \<in> set ts" for k f
  proof -
    have "k \<le> span ts" using that by (induction ts) auto
    moreover have "heap_base + span ts < 2 ^ 32" using t(1) by (simp add: tiled_def)
    ultimately show ?thesis using grow_wraps(2) [OF n] heap_base_values(1) by simp
  qed
  then have "first_fit (\<lambda>a. heap_word s a AND NOT 1) (block_needed n) Head (free_at heap_base ts) = None"
    using small_tiles [of s ts "[]" "block_needed n"] t(1) by (auto simp: first_fit_none)
  moreover have "n \<noteq> 0" using n(1) by auto
  ultimately have "malloc n s = heap_grow (block_needed n) s"
    using find_fit_tiles [OF t(1)] by (simp add: malloc_def Let_def)
  also have "\<dots> = Inl (PageFault (heap_top s))"
    using t(2) w unfolding heap_grow_def Let_def grow_wraps(1) [OF n]
    by (simp add: set_size_def vstore32_def translate_def)
  finally show ?thesis .
qed

text \<open>C38: the sum of the size and the header wraps. A request for more than 0xFFFFFFF0 bytes is
  answered with a block of 16 bytes; for a request whose rounding to pages wraps, malloc writes a
  header at the end of the heap without having mapped a page there.\<close>

theorem malloc_wraps:
  assumes "heap_ready s ts"
  shows "(n > 0xFFFFFFF0 \<longrightarrow> cut_first 16 ts = Some (d, us) \<longrightarrow>
      (\<exists>t. malloc n s = Inr (HEAP_START + of_nat d + 8, t) \<and> heap_ready t us)) \<and>
    (n > 0xFFFFEFF8 \<longrightarrow> n \<le> 0xFFFFFFF0 \<longrightarrow> walk (phys_mem s) (cur s) (heap_top s) = None \<longrightarrow>
      malloc n s = Inl (PageFault (heap_top s)))"
proof (intro conjI impI)
  assume n: "n > 0xFFFFFFF0" and c: "cut_first 16 ts = Some (d, us)"
  have "n \<noteq> 0" using n by auto
  with malloc_block_fit show "\<exists>t. malloc n s = Inr (HEAP_START + of_nat d + 8, t) \<and> heap_ready t us"
    using malloc_fit [of s ts n d us] heap_only_ready [OF _ assms] c assms block_needed_wraps [OF n]
    by (auto simp: heap_ready_def heap_base_values(3))
qed (rule malloc_fault [OF assms])

lemma booted_space:
  fixes s :: "'a heap_scheme"
  assumes "pmm_inv s" "\<not> paging s" "unat ((total_pages s + 1023) div 1024) < card (pmm_pool s)"
    and "unat (total_pages s) * 4096 \<le> unat HEAP_START"
  shows "\<exists>t. vmm_init s = Inr t \<and> kernel_space t \<and> kernel_page_directory t \<noteq> 0 \<and>
    card (pmm_pool s) = card (pmm_pool t) + unat ((total_pages s + 1023) div 1024) + 1"
proof -
  from vmm_init_effect [OF assms(1-3)] obtain pd t where
    t: "vmm_init s = Inr t" "kernel_page_directory t = pd" "current_page_directory t = pd" "cr3 t = pd" "paging t"
      "vm_ok t pd" "total_pages t = total_pages s" and p: "pd \<in> pmm_pool s" and c:
      "card (pmm_pool t) + unat ((total_pages s + 1023) div 1024) + 1 = card (pmm_pool s)" by blast
  have "aligned_page pd" using t(6) space_okD(3) by (auto simp: vm_ok_def)
  then have "pd AND 0xFFFFF000 = pd" unfolding page_mask using base_plus_high [of 12 pd 0] by simp
  then show ?thesis using t c assms(4) fra.pool_frames [OF assms(1) p] by (intro exI [of _ t]) (simp add: kernel_space_def heap_base_def)
qed

text \<open>C19: with 33 frames left after the page tables and memory that ends below the heap, vmm_init and
  then heap_init return, and the heap is one free block of 64 KiB.\<close>

theorem heap_boot:
  fixes s :: "'a heap_scheme"
  assumes "pmm_inv s" "\<not> paging s" "unat (total_pages s) * 4096 \<le> unat HEAP_START"
    and "unat ((total_pages s + 1023) div 1024) + 33 \<le> card (pmm_pool s)"
  shows "\<exists>t u. vmm_init s = Inr t \<and> heap_init t = Inr u \<and> heap_ready u [(65536, True)]"
proof -
  obtain t where t: "vmm_init s = Inr t" "kernel_space t"
    "card (pmm_pool s) = card (pmm_pool t) + unat ((total_pages s + 1023) div 1024) + 1"
    using booted_space [OF assms(1,2) _ assms(3)] assms(4) by auto
  have "32 \<le> card (pmm_pool t)" using t(3) assms(4) by simp
  from heap_init_effect [OF t(2) this] t(1) show ?thesis by blast
qed

section \<open>Examples\<close>

text \<open>A machine with 256 frames: vmm_init and heap_init run one after the other.\<close>

definition demo_heap :: heap where
  "demo_heap = vmm.extend ((demo_vm 256)\<lparr>pmm_bitmap := (\<lambda>i. if i = 0 then 1 else 0)\<rparr>) (heap.fields 0 0)"

lemma demo_heap_fields: "pmm_bitmap demo_heap = (\<lambda>i. if i = 0 then 1 else 0)" "free_count demo_heap = 255"
    "total_pages demo_heap = 256" "\<not> paging demo_heap"
  by (simp_all add: demo_heap_def vmm.defs heap.defs demo_vm_def idt.defs demo_idt_def pmm.defs demo_pmm_def demo_ps2_def ps2.defs)

lemma demo_heap_pool: "pmm_inv demo_heap" "card (pmm_pool demo_heap) = 255"
proof -
  have t: "pmm_test i demo_heap \<longleftrightarrow> i = 0" for i
  proof -
    have "i = 0" if "i div 32 = 0" "i mod 32 = 0" using that word_mod_div_inject [of i 32 0] by simp
    moreover have "i mod 32 = 0 \<longleftrightarrow> unat (i mod 32) = 0" by (simp add: unat_eq_0)
    ultimately show ?thesis by (auto simp: pmm_test_bit demo_heap_fields bit_1_iff)
  qed
  have f: "free_frames demo_heap = {i. i < 256} - {0}" using t by (auto simp: free_frames_def demo_heap_fields)
  have "card ({i :: u32. i < 256} - {0}) = 255" by (simp add: card_below)
  then show i: "pmm_inv demo_heap"
    by (simp add: pmm_inv_def count_ok_def f demo_heap_fields t PMM_MAX_PAGES_def)
  show "card (pmm_pool demo_heap) = 255" using card_pool [OF i] by (simp add: demo_heap_fields)
qed

theorem heap_boot_witness:
  "\<exists>t u. vmm_init demo_heap = Inr t \<and> heap_init t = Inr u \<and> heap_ready u [(65536, True)]"
  by (rule heap_boot) (simp_all add: demo_heap_pool demo_heap_fields HEAP_START_def)

lemma demo_ready:
  "\<exists>t u. vmm_init demo_heap = Inr t \<and> heap_init t = Inr u \<and> heap_ready u [(65536, True)] \<and> 100 \<le> card (pmm_pool u)"
proof -
  obtain t where t: "vmm_init demo_heap = Inr t" "kernel_space t" "card (pmm_pool t) = 253"
    using booted_space [of demo_heap] by (auto simp: demo_heap_pool demo_heap_fields HEAP_START_def)
  from heap_init_effect [OF t(2)] t(3) obtain u where
    "heap_init t = Inr u" "heap_ready u [(65536, True)]" "253 \<le> card (pmm_pool u) + 32" by auto
  with t(1) show ?thesis by auto
qed

lemma demo_sizes: "unat (block_needed 100) = 112" "unat (block_needed 70000) = 70008"
  by (simp_all add: block_needed_def sizeof_heap_block_def HEAP_ALIGN_def HEAP_MIN_BLOCK_def Let_def)

theorem malloc_first_fit_witness:
  "\<exists>s t u. vmm_init demo_heap = Inr s \<and> heap_init s = Inr t \<and> malloc 100 t = Inr (0xD0000008, u) \<and>
    heap_ready u [(112, False), (65424, True)]"
proof -
  obtain s t where s: "vmm_init demo_heap = Inr s" "heap_init s = Inr t" "heap_ready t [(65536, True)]"
    using demo_ready by blast
  have "cut_first (unat (block_needed 100)) [(65536, True)] = Some (0, [(112, False), (65424, True)])"
    by (simp add: demo_sizes cut_tile_def)
  from malloc_first_fit [OF s(3) _ this] s(1,2) show ?thesis by (auto simp: HEAP_START_def)
qed

theorem malloc_grows_witness:
  "\<exists>s t u. vmm_init demo_heap = Inr s \<and> heap_init s = Inr t \<and> malloc 70000 t = Inr (0xD0010008, u) \<and>
    heap_ready u [(65536, True), (70008, False), (3720, True)]"
proof -
  obtain s t where s: "vmm_init demo_heap = Inr s" "heap_init s = Inr t" "heap_ready t [(65536, True)]" "100 \<le> card (pmm_pool t)"
    using demo_ready by blast
  have top: "unat (heap_top t) = 3489726464" "heap_top t = 0xD0010000"
    using ready_top [OF s(3)] by (simp_all add: heap_base_values(1))
  have "heap_room t 70000" using s(4) top(1) by (simp add: heap_room_def demo_sizes page_round_def)
  from malloc_grows [OF s(3) _ _ this] s(1,2) top(2) show ?thesis by (auto simp: demo_sizes cut_tile_def page_round_def)
qed

lemma demo_allocated:
  "\<exists>t u. vmm_init demo_heap = Inr t \<and> heap_init t = Inr u \<and>
    (\<exists>v. malloc 100 u = Inr (0xD0000008, v) \<and> heap_ready v [(112, False), (65424, True)] \<and> heap_run v {(3489660936, 100)})"
proof -
  obtain s t where s: "vmm_init demo_heap = Inr s" "heap_init s = Inr t" "heap_ready t [(65536, True)]" "100 \<le> card (pmm_pool t)"
    using demo_ready by blast
  have c: "cut_first (unat (block_needed 100)) [(65536, True)] = Some (0, [(112, False), (65424, True)])"
    by (simp add: demo_sizes cut_tile_def)
  have h: "heap_rep t [(65536, True)]" using s(3) by (simp add: heap_ready_def)
  obtain v where v: "malloc 100 t = Inr (0xD0000008, v)" "heap_rep v [(112, False), (65424, True)]" "heap_only t v"
    using malloc_fit [OF h _ c] by (auto simp: heap_base_values(1))
  have top: "unat (heap_top t) = 3489726464" using ready_top [OF s(3)] by (simp add: heap_base_values(1))
  have "heap_room t 100" using s(4) top by (simp add: heap_room_def demo_sizes page_round_def)
  from run_malloc [OF run_start [OF s(3)] _ _ this v(1)] have "heap_run v {(3489660936, 100)}" by simp
  then show ?thesis using s v heap_only_ready [OF v(3) s(3) v(2)] by blast
qed

theorem free_joins_witness:
  "\<exists>s t u v. vmm_init demo_heap = Inr s \<and> heap_init s = Inr t \<and> malloc 100 t = Inr (0xD0000008, u) \<and>
    free 0xD0000008 u = Inr v \<and> heap_ready v [(65536, True)]"
proof -
  obtain s t u where s: "vmm_init demo_heap = Inr s" "heap_init s = Inr t" "malloc 100 t = Inr (0xD0000008, u)"
    "heap_ready u [(112, False), (65424, True)]" using demo_allocated by blast
  have "(3489660936, 104) \<in> live [(112, False), (65424, True)]" by (simp add: live_def heap_base_values(1))
  from free_joins [OF s(4) this] s(1-3) show ?thesis by (auto simp: heap_base_values(1))
qed

theorem malloc_free_restores_witness:
  "\<exists>s t. vmm_init demo_heap = Inr s \<and> heap_init s = Inr t \<and>
    (\<exists>p u v. malloc 100 t = Inr (p, u) \<and> free p u = Inr v \<and> heap_ready v [(65536, True)]) \<and>
    (\<exists>p u v. malloc 70000 t = Inr (p, u) \<and> free p u = Inr v \<and> heap_ready v [(139264, True)])"
proof -
  obtain s t where s: "vmm_init demo_heap = Inr s" "heap_init s = Inr t" "heap_ready t [(65536, True)]" "100 \<le> card (pmm_pool t)"
    using demo_ready by blast
  have "unat (heap_top t) = 3489726464" using ready_top [OF s(3)] by (simp add: heap_base_values(1))
  then have room: "heap_room t 70000" using s(4) by (simp add: heap_room_def demo_sizes page_round_def)
  have "\<exists>p u v. malloc 100 t = Inr (p, u) \<and> free p u = Inr v \<and> heap_ready v [(65536, True)]"
    using malloc_free_restores [OF s(3), of 100] by (simp add: demo_sizes)
  moreover have "\<exists>p u v. malloc 70000 t = Inr (p, u) \<and> free p u = Inr v \<and> heap_ready v [(139264, True)]"
    using malloc_free_restores [OF s(3), of 70000] room by (simp add: demo_sizes page_round_def)
  ultimately show ?thesis using s(1,2) by blast
qed

theorem heap_blocks_apart_witness:
  "\<exists>s B p n. heap_run (s :: heap) B \<and> (p, n) \<in> B \<and> 8 dvd p \<and> p + n \<le> unat (heap_top s)"
proof -
  obtain v :: heap where v: "heap_run v {(3489660936, 100)}" using demo_allocated by blast
  from heap_blocks_apart [OF v, of 3489660936 100 3489660936 100] v show ?thesis by blast
qed

theorem malloc_wraps_witness:
  "\<exists>s t u. vmm_init demo_heap = Inr s \<and> heap_init s = Inr t \<and> malloc 0xFFFFFFF8 t = Inr (0xD0000008, u)"
proof -
  obtain s t where s: "vmm_init demo_heap = Inr s" "heap_init s = Inr t" "heap_ready t [(65536, True)]" using demo_ready by blast
  have "cut_first 16 [(65536, True)] = Some (0, [(16, False), (65520, True)])" by (simp add: cut_tile_def)
  with malloc_wraps [OF s(3), of "0xFFFFFFF8" 0] s(1,2) show ?thesis by (fastforce simp: HEAP_START_def)
qed

end
