(* ===== verification/Elf.thy ===== *)
theory Elf
  imports Heap_Alloc Printf
begin

text \<open>
  The loader of ELF images, src/src/kernel/elf.c with elf.h. The image is read and the program is
  written through the current address space, byte by byte where the C code does so; a header field
  is a load at its offset in the packed struct. \<open>elf_load\<close> gives \<open>None\<close> where the C function
  returns -1 and \<open>Some (entry, stack_top)\<close> where it returns 0; its callers look at the two
  results only then.
\<close>

section \<open>elf.h\<close>

definition ELF_MAGIC :: u32 where "ELF_MAGIC = 0x464C457F"
definition PT_NULL :: u32 where "PT_NULL = 0"
definition PT_LOAD :: u32 where "PT_LOAD = 1"

definition vload16 :: "'a vmm_scheme \<Rightarrow> u32 \<Rightarrow> u16 kres" where
  "vload16 s a = kbind (vload8 s a) (\<lambda>b0. kbind (vload8 s (a + 1)) (\<lambda>b1.
     Inr (ucast b0 OR push_bit 8 (ucast b1))))"

text \<open>Elf32\_Ehdr: the identification is 16 bytes, then two halfwords, and so on.\<close>

definition e_magic :: "'a vmm_scheme \<Rightarrow> u32 \<Rightarrow> u32 kres" where "e_magic s ehdr = vload32 s ehdr"
definition e_entry :: "'a vmm_scheme \<Rightarrow> u32 \<Rightarrow> u32 kres" where "e_entry s ehdr = vload32 s (ehdr + 24)"
definition e_phoff :: "'a vmm_scheme \<Rightarrow> u32 \<Rightarrow> u32 kres" where "e_phoff s ehdr = vload32 s (ehdr + 28)"
definition e_phnum :: "'a vmm_scheme \<Rightarrow> u32 \<Rightarrow> u16 kres" where "e_phnum s ehdr = vload16 s (ehdr + 44)"

text \<open>Elf32\_Phdr: eight words.\<close>

definition p_type :: "'a vmm_scheme \<Rightarrow> u32 \<Rightarrow> u32 kres" where "p_type s phdr = vload32 s phdr"
definition p_offset :: "'a vmm_scheme \<Rightarrow> u32 \<Rightarrow> u32 kres" where "p_offset s phdr = vload32 s (phdr + 4)"
definition p_vaddr :: "'a vmm_scheme \<Rightarrow> u32 \<Rightarrow> u32 kres" where "p_vaddr s phdr = vload32 s (phdr + 8)"
definition p_filesz :: "'a vmm_scheme \<Rightarrow> u32 \<Rightarrow> u32 kres" where "p_filesz s phdr = vload32 s (phdr + 16)"
definition p_memsz :: "'a vmm_scheme \<Rightarrow> u32 \<Rightarrow> u32 kres" where "p_memsz s phdr = vload32 s (phdr + 20)"

definition sizeof_Phdr :: u32 where "sizeof_Phdr = 32"

section \<open>elf.c\<close>

definition zero_page :: "u32 \<Rightarrow> 'a vmm_scheme \<Rightarrow> 'a vmm_scheme kres" where
  "zero_page page = for_err 0 (0x1000 div 4) (\<lambda>j. vstore32 (page + 4 * j) 0)"

text \<open>The pages of a segment. The loop runs over the pages between \<open>start\<close> and \<open>stop\<close>, which
  are both rounded to pages, so it has one round per page and its variable does not wrap. The flag
  is the early return.\<close>

definition elf_page :: "u32 \<Rightarrow> bool \<times> 'a vmm_scheme \<Rightarrow> (bool \<times> 'a vmm_scheme) kres" where
  "elf_page page fs =
    (case fs of (failed, s) \<Rightarrow>
      if failed then Inr (True, s)
      else kbind (vmm_alloc_page page (VMM_USER OR VMM_WRITABLE) s) (\<lambda>(p, s).
        if p = 0 then kbind (printf (''[elf] failed to map page 0x%x'' @ [CHR 0x0A]) [PInt page] s) (\<lambda>s. Inr (True, s))
        else kbind (zero_page page s) (\<lambda>s. Inr (False, s))))"

definition elf_pages :: "u32 \<Rightarrow> u32 \<Rightarrow> 'a vmm_scheme \<Rightarrow> (bool \<times> 'a vmm_scheme) kres" where
  "elf_pages start stop s =
    (if start < stop
     then for_err 0 ((stop - start) div 0x1000) (\<lambda>k. elf_page (start + 0x1000 * k)) (False, s)
     else Inr (False, s))"

definition elf_copy :: "u32 \<Rightarrow> u32 \<Rightarrow> u32 \<Rightarrow> 'a vmm_scheme \<Rightarrow> 'a vmm_scheme kres" where
  "elf_copy dst src filesz = for_err 0 filesz (\<lambda>j s. kbind (vload8 s (src + j)) (\<lambda>b. vstore8 (dst + j) b s))"

definition elf_clear :: "u32 \<Rightarrow> u32 \<Rightarrow> u32 \<Rightarrow> 'a vmm_scheme \<Rightarrow> 'a vmm_scheme kres" where
  "elf_clear dst filesz memsz = for_err filesz memsz (\<lambda>j. vstore8 (dst + j) 0)"

text \<open>The body of the loop over the program headers, for the header at \<open>ph\<close>.\<close>

definition elf_segment :: "u32 \<Rightarrow> u32 \<Rightarrow> 'a vmm_scheme \<Rightarrow> (bool \<times> 'a vmm_scheme) kres" where
  "elf_segment elf ph s =
    kbind (p_type s ph) (\<lambda>t.
      if t \<noteq> PT_LOAD then Inr (False, s)
      else kbind (p_vaddr s ph) (\<lambda>vaddr. kbind (p_memsz s ph) (\<lambda>memsz.
           kbind (p_filesz s ph) (\<lambda>filesz. kbind (p_offset s ph) (\<lambda>offset.
           let start = vaddr AND NOT 0xFFF;
               stop = (vaddr + memsz + 0xFFF) AND NOT 0xFFF
           in kbind (elf_pages start stop s) (\<lambda>(failed, s).
                if failed then Inr (True, s)
                else kbind (elf_copy vaddr (elf + offset) filesz s) (\<lambda>s.
                     kbind (elf_clear vaddr filesz memsz s) (\<lambda>s. Inr (False, s)))))))))"

text \<open>The loop over the headers reads \<^verbatim>\<open>e_phnum\<close> anew in each round; as a halfword it is less than
  65536, the bound of the rounds.\<close>

definition phdr_bound :: nat where "phdr_bound = 65536"

fun elf_segments :: "nat \<Rightarrow> u32 \<Rightarrow> u32 \<Rightarrow> u32 \<Rightarrow> 'a vmm_scheme \<Rightarrow> (bool \<times> 'a vmm_scheme) kres" where
  "elf_segments 0 elf phdr i s = Inl Halted"
| "elf_segments (Suc n) elf phdr i s =
    kbind (e_phnum s elf) (\<lambda>phnum.
      if i < ucast phnum
      then kbind (elf_segment elf (phdr + sizeof_Phdr * i) s) (\<lambda>(failed, s).
           if failed then Inr (True, s) else elf_segments n elf phdr (i + 1) s)
      else Inr (False, s))"

definition elf_load :: "u32 \<Rightarrow> 'a vmm_scheme \<Rightarrow> ((u32 \<times> u32) option \<times> 'a vmm_scheme) kres" where
  "elf_load elf s =
    kbind (e_magic s elf) (\<lambda>magic.
      if magic \<noteq> ELF_MAGIC then kbind (printf (''[elf] bad magic'' @ [CHR 0x0A]) [] s) (\<lambda>s. Inr (None, s))
      else kbind (e_entry s elf) (\<lambda>entry. kbind (e_phoff s elf) (\<lambda>phoff.
        kbind (elf_segments phdr_bound elf (elf + phoff) 0 s) (\<lambda>(failed, s).
          if failed then Inr (None, s)
          else kbind (vmm_alloc_page 0xB0000000 (VMM_USER OR VMM_WRITABLE) s) (\<lambda>(stack, s).
            if stack = 0 then Inr (None, s)
            else kbind (zero_page stack s) (\<lambda>s. Inr (Some (entry, 0xB0001000), s)))))))"

end
