(* ===== verification/Sched.thy ===== *)
theory Sched
  imports Elf
begin

text \<open>
  The scheduler, src/src/kernel/sched.c. A task is a struct in a block of the kernel heap and a saved
  register frame (\<^verbatim>\<open>struct regs\<close>) lies on a stack, so a field of either is a word of virtual memory at
  the offset the compiler gives it: \<open>tget\<close>, \<open>tset\<close>, \<open>rget\<close> and \<open>rset\<close> are the accesses, and the
  links of the tasks are addresses. \<open>tick\<close> is a field of the base state, because the console
  reads it.

  A context switch does not return to its caller. A function that may switch gives a \<open>flow\<close>:
  it returned, or the processor resumes from the register frame at an address, or it waits in the
  loop of \<open>yield\<close> for the next interrupt. Interrupts that arrive while \<open>yield\<close> is halted are
  an argument of it, a list of interrupt requests with the address of the frame each one pushes; what
  an interrupt may do between two statements of that loop is not modelled. The loops along the
  ring of tasks do not change what they follow; as with the free list of the heap, more rounds than
  there are addresses mean that they never end.
\<close>

section \<open>Tasks, register frames and the state\<close>

datatype task_field = T_stack | T_stack_top | T_next | T_parent | T_pid | T_exit_code | T_state
  | T_wakeup_tick | T_page_dir

fun task_off :: "task_field \<Rightarrow> u32" where
  "task_off T_stack = 0" | "task_off T_stack_top = 4" | "task_off T_next = 8" | "task_off T_parent = 12"
| "task_off T_pid = 16" | "task_off T_exit_code = 20" | "task_off T_state = 24"
| "task_off T_wakeup_tick = 28" | "task_off T_page_dir = 32"

definition sizeof_task :: u32 where "sizeof_task = 36"

datatype reg_field = R_gs | R_fs | R_es | R_ds | R_edi | R_esi | R_ebp | R_esp | R_ebx | R_edx | R_ecx
  | R_eax | R_int_no | R_err_code | R_eip | R_cs | R_eflags | R_user_esp | R_user_ss

fun reg_off :: "reg_field \<Rightarrow> u32" where
  "reg_off R_gs = 0" | "reg_off R_fs = 4" | "reg_off R_es = 8" | "reg_off R_ds = 12"
| "reg_off R_edi = 16" | "reg_off R_esi = 20" | "reg_off R_ebp = 24" | "reg_off R_esp = 28"
| "reg_off R_ebx = 32" | "reg_off R_edx = 36" | "reg_off R_ecx = 40" | "reg_off R_eax = 44"
| "reg_off R_int_no = 48" | "reg_off R_err_code = 52" | "reg_off R_eip = 56" | "reg_off R_cs = 60"
| "reg_off R_eflags = 64" | "reg_off R_user_esp = 68" | "reg_off R_user_ss = 72"

definition sizeof_regs :: u32 where "sizeof_regs = 76"

definition STACK_SIZE :: u32 where "STACK_SIZE = 4096"
definition TASK_RUNNING :: u32 where "TASK_RUNNING = 0"
definition TASK_ZOMBIE :: u32 where "TASK_ZOMBIE = 1"
definition TASK_SLEEPING :: u32 where "TASK_SLEEPING = 2"

record sched = heap +
  task_list :: u32
  current_task :: u32
  next_pid :: u32

definition tget :: "'a vmm_scheme \<Rightarrow> u32 \<Rightarrow> task_field \<Rightarrow> u32 kres" where
  "tget s t f = vload32 s (t + task_off f)"

definition tset :: "u32 \<Rightarrow> task_field \<Rightarrow> u32 \<Rightarrow> 'a vmm_scheme \<Rightarrow> 'a vmm_scheme kres" where
  "tset t f v s = vstore32 (t + task_off f) v s"

definition rget :: "'a vmm_scheme \<Rightarrow> u32 \<Rightarrow> reg_field \<Rightarrow> u32 kres" where
  "rget s r f = vload32 s (r + reg_off f)"

definition rset :: "u32 \<Rightarrow> reg_field \<Rightarrow> u32 \<Rightarrow> 'a vmm_scheme \<Rightarrow> 'a vmm_scheme kres" where
  "rset r f v s = vstore32 (r + reg_off f) v s"

text \<open>Assignments to several fields in a row.\<close>

fun tsets :: "u32 \<Rightarrow> (task_field \<times> u32) list \<Rightarrow> 'a vmm_scheme \<Rightarrow> 'a vmm_scheme kres" where
  "tsets t [] s = Inr s"
| "tsets t ((f, v) # fvs) s = kbind (tset t f v s) (tsets t fvs)"

fun rsets :: "u32 \<Rightarrow> (reg_field \<times> u32) list \<Rightarrow> 'a vmm_scheme \<Rightarrow> 'a vmm_scheme kres" where
  "rsets r [] s = Inr s"
| "rsets r ((f, v) # fvs) s = kbind (rset r f v s) (rsets r fvs)"

datatype flow = Returns | Resumes u32 | Waits

section \<open>Choosing a task\<close>

definition get_tick :: "'a kio_scheme \<Rightarrow> u32" where
  "get_tick s = tick s"

fun pick_loop :: "nat \<Rightarrow> u32 \<Rightarrow> u32 \<Rightarrow> 'a sched_scheme \<Rightarrow> u32 kres" where
  "pick_loop 0 start t s = Inl Halted"
| "pick_loop (Suc n) start t s =
    kbind (tget s t T_next) (\<lambda>t. kbind (tget s t T_state) (\<lambda>st.
      if st = TASK_RUNNING then Inr t
      else if t \<noteq> start then pick_loop n start t s else Inr 0))"

definition pick_next_task :: "'a sched_scheme \<Rightarrow> u32 kres" where
  "pick_next_task s =
    (if task_list s = 0 then Inr 0
     else let start = (if current_task s \<noteq> 0 then current_task s else task_list s)
          in pick_loop list_bound start start s)"

text \<open>The switch to \<open>next\<close>, which \<open>sched_tick\<close> and \<open>yield\<close> have in common. The last load goes
  through the address space of the new task.\<close>

definition switch_to :: "u32 \<Rightarrow> 'a sched_scheme \<Rightarrow> (flow \<times> 'a sched_scheme) kres" where
  "switch_to next s =
    (let s = s\<lparr>current_task := next\<rparr>
     in kbind (tget s next T_stack_top) (\<lambda>top.
        let s = tss_set_esp0 top s
        in kbind (tget s next T_page_dir) (\<lambda>pd.
           let s = (if pd \<noteq> 0 then vmm_switch_address_space pd s else s)
           in kbind (tget s next T_stack) (\<lambda>r. Inr (Resumes r, s)))))"

section \<open>Creating tasks\<close>

definition sched_init :: "'a sched_scheme \<Rightarrow> 'a sched_scheme" where
  "sched_init s = s\<lparr>task_list := 0, current_task := 0, tick := 0, next_pid := 1\<rparr>"

text \<open>The end of all three functions that create a task.\<close>

definition insert_task :: "u32 \<Rightarrow> 'a sched_scheme \<Rightarrow> 'a sched_scheme kres" where
  "insert_task t s =
    (if task_list s = 0
     then let s = s\<lparr>task_list := t\<rparr> in tset t T_next t s
     else kbind (tget s (task_list s) T_next) (\<lambda>nx.
          kbind (tset t T_next nx s) (\<lambda>s.
          tset (task_list s) T_next t s)))"

definition setup_task :: "u32 \<Rightarrow> u32 \<Rightarrow> u32 \<Rightarrow> u32 \<Rightarrow> u32 \<Rightarrow> 'a sched_scheme \<Rightarrow> (u32 \<times> 'a sched_scheme) kres" where
  "setup_task t r stack parent pd s =
    kbind (tsets t [(T_stack, r), (T_stack_top, stack + STACK_SIZE)] s) (\<lambda>s.
      let pid = next_pid s; s = s\<lparr>next_pid := next_pid s + 1\<rparr>
      in kbind (tsets t [(T_pid, pid), (T_parent, parent), (T_state, TASK_RUNNING), (T_exit_code, 0),
           (T_wakeup_tick, 0), (T_page_dir, pd)] s) (\<lambda>s.
         kbind (insert_task t s) (\<lambda>s. Inr (0, s))))"

definition USER_DATA :: u32 where "USER_DATA = ucast GDT_USER_DATA_SEG OR 3"
definition USER_CODE :: u32 where "USER_CODE = ucast GDT_USER_CODE_SEG OR 3"

definition init_regs :: "u32 \<Rightarrow> u32 \<Rightarrow> u32 \<Rightarrow> 'a vmm_scheme \<Rightarrow> 'a vmm_scheme kres" where
  "init_regs r entry user_esp s =
    kbind (for_err 0 (sizeof_regs div 4) (\<lambda>i. vstore32 (r + 4 * i) 0) s)
      (rsets r [(R_gs, USER_DATA), (R_fs, USER_DATA), (R_es, USER_DATA), (R_ds, USER_DATA),
         (R_eip, entry), (R_cs, USER_CODE), (R_eflags, 0x202), (R_user_esp, user_esp), (R_user_ss, USER_DATA)])"

definition free_both :: "u32 \<Rightarrow> u32 \<Rightarrow> 'a sched_scheme \<Rightarrow> (u32 \<times> 'a sched_scheme) kres" where
  "free_both stack t s = kbind (free stack s) (\<lambda>s. kbind (free t s) (\<lambda>s. Inr (-1, s)))"

definition task_create :: "u32 \<Rightarrow> 'a sched_scheme \<Rightarrow> (u32 \<times> 'a sched_scheme) kres" where
  "task_create entry s =
    kbind (malloc sizeof_task s) (\<lambda>(t, s).
    if t = 0 then Inr (-1, s)
    else kbind (malloc STACK_SIZE s) (\<lambda>(stack, s).
    if stack = 0 then kbind (free t s) (\<lambda>s. Inr (-1, s))
    else kbind (vmm_create_address_space s) (\<lambda>(pd, s).
    if pd = 0 then free_both stack t s
    else kbind (vmm_alloc_page 0xB0000000 (VMM_USER OR VMM_WRITABLE) (vmm_switch_address_space pd s)) (\<lambda>(user_stack, s).
    if user_stack = 0
    then kbind (vmm_destroy_address_space pd
           (vmm_switch_address_space (vmm_get_kernel_page_directory s) s)) (free_both stack t)
    else kbind (zero_page 0xB0000000 s) (\<lambda>s.
         let s = vmm_switch_address_space (vmm_get_kernel_page_directory s) s;
             r = stack + STACK_SIZE - sizeof_regs
         in kbind (init_regs r entry 0xB0001000 s) (setup_task t r stack 0 pd))))))"

definition task_create_elf :: "u32 \<Rightarrow> u32 \<Rightarrow> u32 \<Rightarrow> 'a sched_scheme \<Rightarrow> (u32 \<times> 'a sched_scheme) kres" where
  "task_create_elf entry user_esp pd s =
    kbind (malloc sizeof_task s) (\<lambda>(t, s).
    if t = 0 then Inr (-1, s)
    else kbind (malloc STACK_SIZE s) (\<lambda>(stack, s).
    if stack = 0 then kbind (free t s) (\<lambda>s. Inr (-1, s))
    else let r = stack + STACK_SIZE - sizeof_regs
         in kbind (init_regs r entry user_esp s) (setup_task t r stack 0 pd)))"

text \<open>\<^verbatim>\<open>*cr = *r\<close>\<close>

definition copy_regs :: "u32 \<Rightarrow> u32 \<Rightarrow> 'a vmm_scheme \<Rightarrow> 'a vmm_scheme kres" where
  "copy_regs cr r = for_err 0 (sizeof_regs div 4) (\<lambda>i s.
     kbind (vload32 s (r + 4 * i)) (\<lambda>w. vstore32 (cr + 4 * i) w s))"

definition task_create_fork :: "u32 \<Rightarrow> 'a sched_scheme \<Rightarrow> (u32 \<times> 'a sched_scheme) kres" where
  "task_create_fork r s =
    kbind (malloc sizeof_task s) (\<lambda>(t, s).
    if t = 0 then Inr (-1, s)
    else kbind (malloc STACK_SIZE s) (\<lambda>(stack, s).
    if stack = 0 then kbind (free t s) (\<lambda>s. Inr (-1, s))
    else kbind (if current_task s \<noteq> 0 then tget s (current_task s) T_page_dir else Inr 0) (\<lambda>own.
    kbind (if own \<noteq> 0 then vmm_clone_address_space own s else Inr (0, s)) (\<lambda>(pd, s).
    if own \<noteq> 0 \<and> pd = 0 then free_both stack t s
    else let cr = stack + STACK_SIZE - sizeof_regs
         in kbind (copy_regs cr r s) (\<lambda>s.
            kbind (rset cr R_eax 0 s) (\<lambda>s.
            setup_task t cr stack (current_task s) pd s))))))"

section \<open>The timer\<close>

fun wake_loop :: "nat \<Rightarrow> u32 \<Rightarrow> 'a sched_scheme \<Rightarrow> 'a sched_scheme kres" where
  "wake_loop 0 t s = Inl Halted"
| "wake_loop (Suc n) t s =
    kbind (tget s t T_state) (\<lambda>st.
    kbind (if st = TASK_SLEEPING
           then kbind (tget s t T_wakeup_tick) (\<lambda>w.
                if w \<le> tick s then tset t T_state TASK_RUNNING s else Inr s)
           else Inr s) (\<lambda>s.
    kbind (tget s t T_next) (\<lambda>t.
    if t \<noteq> task_list s then wake_loop n t s else Inr s)))"

definition sched_tick :: "u32 \<Rightarrow> 'a sched_scheme \<Rightarrow> (flow \<times> 'a sched_scheme) kres" where
  "sched_tick r s =
    (let s = s\<lparr>tick := tick s + 1\<rparr>
     in if task_list s = 0 then Inr (Returns, s)
        else kbind (wake_loop list_bound (task_list s) s) (\<lambda>s.
             kbind (if current_task s \<noteq> 0
                    then kbind (tget s (current_task s) T_state) (\<lambda>st.
                         if st = TASK_RUNNING then tset (current_task s) T_stack r s else Inr s)
                    else Inr s) (\<lambda>s.
             kbind (pick_next_task s) (\<lambda>next.
             if next \<noteq> 0 then switch_to next (outb 0x20 0x20 s) else Inr (Returns, s)))))"

section \<open>Interrupt requests\<close>

text \<open>The handlers that the tables of idt.c can hold, called with the frame at \<open>r\<close>.\<close>

definition run_handler :: "handler \<Rightarrow> u32 \<Rightarrow> 'a sched_scheme \<Rightarrow> (flow \<times> 'a sched_scheme) kres" where
  "run_handler h r s =
    (case h of
       Timer_handler \<Rightarrow> Inr (Returns, s)
     | Keyboard_handler \<Rightarrow> Inr (Returns, keyboard_handler s)
     | Sched_tick \<Rightarrow> sched_tick r s
     | Page_fault_handler \<Rightarrow> Inl (Panic ''page fault at 0x%x'')
     | Default_exception_handler \<Rightarrow> Inl (Panic ''exception %u''))"

text \<open>The branch of \<open>isr_handler\<close> for the interrupt requests, \<open>irq\<close> from 0 to 15.\<close>

definition irq_dispatch :: "int \<Rightarrow> u32 \<Rightarrow> 'a sched_scheme \<Rightarrow> (flow \<times> 'a sched_scheme) kres" where
  "irq_dispatch irq r s =
    kbind (case irq_handlers s irq of None \<Rightarrow> Inr (Returns, s) | Some h \<Rightarrow> run_handler h r s) (\<lambda>(fl, s).
      if fl = Returns
      then let s = (if irq \<ge> 8 then outb 0xA0 0x20 s else s) in Inr (Returns, outb 0x20 0x20 s)
      else Inr (fl, s))"

section \<open>Giving up the processor\<close>

definition yield_key :: "int \<Rightarrow> 'a sched_scheme \<Rightarrow> 'a sched_scheme kres" where
  "yield_key c s =
    (if c \<ge> 0 then
       if c = 8 then printf [CHR 0x08, CHR '' '', CHR 0x08] [] s
       else if c = KEY_F12 \<and> ps2_is_ctrl s \<and> ps2_is_shift s \<and> ps2_is_alt s then Inl (Panic ''user requested'')
       else if c = KEY_F12 \<and> ps2_is_ctrl s \<and> ps2_is_shift s \<and> fb_is_enabled s then
         Inr (if fbcon_get_visible s then fbcon_set_visible False s
              else fbcon_redraw (fb_clear (fb_rgb 0 0 0) (fbcon_set_visible True s)))
       else if c \<ge> KEY_F1 \<and> c \<le> KEY_F12 then printf ''[F%d]'' [PInt (of_int (c - KEY_F1 + 1))] s
       else if c = KEY_UP then Inr (fbcon_cursor_up s)
       else if c = KEY_DOWN then Inr (fbcon_cursor_down s)
       else if c = KEY_LEFT then Inr (fbcon_cursor_left s)
       else if c = KEY_RIGHT then Inr (fbcon_cursor_right s)
       else if c < 256 then printf ''%c'' [PInt (of_int c)] s
       else Inr s
     else Inr s)"

text \<open>The loop of \<open>yield\<close>: each \<open>hlt\<close> ends with the next interrupt request of the list.\<close>

fun yield_loop :: "(int \<times> u32) list \<Rightarrow> 'a sched_scheme \<Rightarrow> (flow \<times> 'a sched_scheme) kres" where
  "yield_loop irqs s =
    kbind (pick_next_task s) (\<lambda>next.
      if next \<noteq> 0 then switch_to next s
      else let (c, s) = ps2_poll s
           in kbind (yield_key c s) (\<lambda>s.
              let s = fbcon_tick s
              in case irqs of
                   [] \<Rightarrow> Inr (Waits, s)
                 | (irq, r) # irqs \<Rightarrow>
                     kbind (irq_dispatch irq r s) (\<lambda>(fl, s).
                       if fl = Returns then yield_loop irqs s else Inr (fl, s))))"

definition yield :: "u32 \<Rightarrow> (int \<times> u32) list \<Rightarrow> 'a sched_scheme \<Rightarrow> (flow \<times> 'a sched_scheme) kres" where
  "yield r irqs s =
    kbind (if current_task s \<noteq> 0 then tset (current_task s) T_stack r s else Inr s) (yield_loop irqs)"

definition sched_exit_with :: "u32 \<Rightarrow> u32 \<Rightarrow> (int \<times> u32) list \<Rightarrow> 'a sched_scheme \<Rightarrow> (flow \<times> 'a sched_scheme) kres" where
  "sched_exit_with r code irqs s =
    (if task_list s = 0 \<or> current_task s = 0 then Inl (Panic ''sched: exit with no task'')
     else kbind (tsets (current_task s) [(T_exit_code, code), (T_state, TASK_ZOMBIE)] s) (yield r irqs))"

definition sched_sleep :: "u32 \<Rightarrow> u32 \<Rightarrow> (int \<times> u32) list \<Rightarrow> 'a sched_scheme \<Rightarrow> (flow \<times> 'a sched_scheme) kres" where
  "sched_sleep r ticks irqs s =
    (if task_list s = 0 \<or> current_task s = 0 then Inr (Returns, s)
     else kbind (tsets (current_task s) [(T_wakeup_tick, tick s + ticks), (T_state, TASK_SLEEPING)] s) (yield r irqs))"

section \<open>Waiting for a child\<close>

fun find_prev :: "nat \<Rightarrow> u32 \<Rightarrow> u32 \<Rightarrow> 'a sched_scheme \<Rightarrow> u32 kres" where
  "find_prev 0 t prev s = Inl Halted"
| "find_prev (Suc n) t prev s =
    kbind (tget s prev T_next) (\<lambda>nx. if nx \<noteq> t then find_prev n t nx s else Inr prev)"

text \<open>Taking the task at \<open>t\<close> off the ring and giving back what it owns.\<close>

definition unlink_task :: "u32 \<Rightarrow> 'a sched_scheme \<Rightarrow> 'a sched_scheme kres" where
  "unlink_task t s =
    kbind (find_prev list_bound t (task_list s) s) (\<lambda>prev.
    kbind (tget s t T_next) (\<lambda>nx.
    kbind (tset prev T_next nx s) (\<lambda>s.
    kbind (if task_list s = t then kbind (tget s t T_next) (\<lambda>nx. Inr (s\<lparr>task_list := nx\<rparr>)) else Inr s) (\<lambda>s.
    Inr (if task_list s = t then s\<lparr>task_list := 0\<rparr> else s)))))"

definition reap_task :: "u32 \<Rightarrow> 'a sched_scheme \<Rightarrow> (u32 \<times> 'a sched_scheme) kres" where
  "reap_task t s =
    kbind (tget s t T_exit_code) (\<lambda>code.
    kbind (unlink_task t s) (\<lambda>s.
    kbind (tget s t T_page_dir) (\<lambda>pd.
    kbind (if pd \<noteq> 0 then vmm_destroy_address_space pd s else Inr s) (\<lambda>s.
    kbind (tget s t T_stack_top) (\<lambda>top.
    kbind (if top \<noteq> 0 then free (top - STACK_SIZE) s else Inr s) (\<lambda>s.
    kbind (free t s) (\<lambda>s. Inr (code, s))))))))"

fun wait_loop :: "nat \<Rightarrow> u32 \<Rightarrow> u32 \<Rightarrow> 'a sched_scheme \<Rightarrow> (u32 \<times> 'a sched_scheme) kres" where
  "wait_loop 0 start t s = Inl Halted"
| "wait_loop (Suc n) start t s =
    kbind (tget s t T_parent) (\<lambda>p.
    kbind (if p = current_task s then tget s t T_state else Inr TASK_RUNNING) (\<lambda>st.
    if p = current_task s \<and> st = TASK_ZOMBIE then reap_task t s
    else kbind (tget s t T_next) (\<lambda>t.
         if t \<noteq> start then wait_loop n start t s else Inr (-1, s))))"

definition sched_wait :: "'a sched_scheme \<Rightarrow> (u32 \<times> 'a sched_scheme) kres" where
  "sched_wait s =
    (if task_list s = 0 \<or> current_task s = 0 then Inr (-1, s)
     else wait_loop list_bound (task_list s) (task_list s) s)"

definition sched_getpid :: "'a sched_scheme \<Rightarrow> u32 kres" where
  "sched_getpid s = (if current_task s \<noteq> 0 then tget s (current_task s) T_pid else Inr (-1))"

section \<open>Replacing the program of a task\<close>

definition sched_exec :: "u32 \<Rightarrow> u32 \<Rightarrow> 'a sched_scheme \<Rightarrow> (u32 \<times> 'a sched_scheme) kres" where
  "sched_exec r elf s =
    (if current_task s = 0 then Inr (-1, s)
     else kbind (e_magic s elf) (\<lambda>magic.
       if magic \<noteq> ELF_MAGIC then Inr (-1, s)
       else kbind (vmm_create_address_space s) (\<lambda>(new_pd, s).
         if new_pd = 0 then Inr (-1, s)
         else kbind (tget s (current_task s) T_page_dir) (\<lambda>old_pd.
           kbind (elf_load elf (vmm_switch_address_space new_pd s)) (\<lambda>(loaded, s).
           case loaded of
             None \<Rightarrow> kbind (vmm_destroy_address_space new_pd
                       (vmm_switch_address_space (vmm_get_kernel_page_directory s) s)) (\<lambda>s. Inr (-1, s))
           | Some (entry, stack_top) \<Rightarrow>
               kbind (if old_pd \<noteq> 0 then vmm_destroy_address_space old_pd s else Inr s) (\<lambda>s.
               kbind (tset (current_task s) T_page_dir new_pd s) (\<lambda>s.
               kbind (rsets r [(R_eip, entry), (R_user_esp, stack_top), (R_eax, 0)] s) (\<lambda>s. Inr (0, s)))))))))"

end
