(* ===== verification/Panic.thy ===== *)
theory Panic
  imports Sched
begin

text \<open>
  The panic screen, src/src/kernel/panic.c. \<open>panic\<close> and \<open>panic_regs\<close> give the state in which
  the kernel stays halted. Message and register dump are built in buffers of fixed size: a buffer is
  the string written to it so far, the write position is its length, and the properties bound it.
  The registers that \<open>panic\<close> reads from the processor are an argument.
\<close>

section \<open>hex_str and the screen\<close>

definition hex_str :: "u32 \<Rightarrow> string" where
  "hex_str v = ''0x'' @ rev ((if v = 0 then ''0'' else '''') @ hex_buf v)"

text \<open>A label and a value in hexadecimal, \<open>w\<close> pixels to its right.\<close>

definition draw_reg :: "int \<Rightarrow> int \<Rightarrow> int \<Rightarrow> string \<Rightarrow> u32 \<Rightarrow> u32 \<Rightarrow> u32 \<Rightarrow> 'a fb_scheme \<Rightarrow> 'a fb_scheme" where
  "draw_reg x y w label v white red s =
    fb_drawstring (x + w) y (hex_str v) white red (fb_drawstring x y label white red s)"

definition draw_regs :: "int \<Rightarrow> regs \<Rightarrow> u32 \<Rightarrow> u32 \<Rightarrow> 'a fb_scheme \<Rightarrow> 'a fb_scheme" where
  "draw_regs y r white red s =
    (let s = draw_reg 8 y 40 ''eax:'' (r_eax r) white red s;
         s = draw_reg 108 y 40 ''ebx:'' (r_ebx r) white red s;
         s = draw_reg 208 y 40 ''ecx:'' (r_ecx r) white red s;
         s = draw_reg 308 y 40 ''edx:'' (r_edx r) white red s;
         y = y + 16;
         s = draw_reg 8 y 40 ''esi:'' (r_esi r) white red s;
         s = draw_reg 108 y 40 ''edi:'' (r_edi r) white red s;
         s = draw_reg 208 y 40 ''ebp:'' (r_ebp r) white red s;
         s = draw_reg 308 y 40 ''esp:'' (r_esp r) white red s;
         y = y + 16;
         s = draw_reg 8 y 40 ''eip:'' (r_eip r) white red s;
         s = draw_reg 108 y 40 ''cs:'' (r_cs r) white red s;
         s = draw_reg 208 y 60 ''eflags:'' (r_eflags r) white red s
     in draw_reg 368 y 40 ''err:'' (r_err_code r) white red s)"

fun draw_frames :: "int \<Rightarrow> u32 list \<Rightarrow> u32 \<Rightarrow> u32 \<Rightarrow> u32 \<Rightarrow> 'a fb_scheme \<Rightarrow> 'a fb_scheme" where
  "draw_frames y [] h white red s = s"
| "draw_frames y (f # fs) h white red s =
    (if y < sint h - 20 then draw_frames (y + 16) fs h white red (fb_drawstring 8 y (hex_str f) white red s) else s)"

text \<open>Both callers pass a frame, so \<open>r\<close> is never null: the text moves down by 4, three rows of 16
  and 8 for the registers.\<close>

definition draw_evil_af_scary_screen :: "string \<Rightarrow> regs \<Rightarrow> u32 list \<Rightarrow> 'a fb_scheme \<Rightarrow> 'a fb_scheme" where
  "draw_evil_af_scary_screen msg r frames s =
    (if \<not> fb_is_enabled s then s
     else let h = fb_get_height s;
              white = fb_rgb 255 255 255;
              red = fb_rgb 180 0 0;
              s = fb_clear red s;
              y = 8;
              s = fb_drawstring 8 y ''[neodymium]'' white red s; y = y + 20;
              s = fb_drawstring 8 y ''KERNEL PANIC'' white red s; y = y + 20;
              s = fb_drawstring 8 y msg white red s; y = y + 20;
              y = y + 4;
              s = draw_regs y r white red s;
              y = y + 16 + 16 + 16 + 8
          in draw_frames y frames h white red s)"

section \<open>fmt_msg\<close>

text \<open>\<^verbatim>\<open>while (... && mi < 250) msg[mi++] = ...\<close>: as much of \<open>xs\<close> as fits.\<close>

definition put_upto :: "string \<Rightarrow> string \<Rightarrow> string" where
  "put_upto xs msg = msg @ take (250 - length msg) xs"

fun fmt_msg_loop :: "string \<Rightarrow> parg list \<Rightarrow> string \<Rightarrow> string \<times> fmt_end" where
  "fmt_msg_loop [] args msg = (msg, Finished)"
| "fmt_msg_loop [c] args msg = (if length msg < 250 then (msg @ [c], Finished) else (msg, Finished))"
| "fmt_msg_loop (c # d # p) args msg =
    (if \<not> length msg < 250 then (msg, Finished)
     else if c = CHR ''%'' then
       if d = CHR ''s'' then
         (case args of PStr str # args \<Rightarrow> fmt_msg_loop p args (put_upto str msg) | _ \<Rightarrow> (msg, NoArgument))
       else if d = CHR ''d'' then
         (case args of PInt n # args \<Rightarrow>
            let neg = sint n < 0; m = (if neg then - n else n); msg = (if neg then msg @ ''-'' else msg)
            in fmt_msg_loop p args
                 (put_upto (rev ((if m = 0 then ''0'' else '''') @ (if sint m > 0 then dec_buf m else []))) msg)
          | _ \<Rightarrow> (msg, NoArgument))
       else if d = CHR ''u'' then
         (case args of PInt n # args \<Rightarrow>
            fmt_msg_loop p args (put_upto (rev ((if n = 0 then ''0'' else '''') @ dec_buf n)) msg)
          | _ \<Rightarrow> (msg, NoArgument))
       else if d = CHR ''x'' then
         (case args of PInt n # args \<Rightarrow>
            fmt_msg_loop p args (put_upto (rev ((if n = 0 then ''0'' else '''') @ hex_buf n)) (msg @ ''0x''))
          | _ \<Rightarrow> (msg, NoArgument))
       else if d = CHR ''c'' then
         (case args of PInt n # args \<Rightarrow> fmt_msg_loop p args (msg @ [char_of (unat n)]) | _ \<Rightarrow> (msg, NoArgument))
       else fmt_msg_loop p args (if length msg < 249 then msg @ [c, d] else msg)
     else fmt_msg_loop (d # p) args (msg @ [c]))"

definition fmt_msg :: "string \<Rightarrow> parg list \<Rightarrow> string \<times> fmt_end" where
  "fmt_msg fmt args = fmt_msg_loop fmt args []"

section \<open>walk_frames\<close>

definition FRAMES_MAX :: nat where "FRAMES_MAX = 16"

fun walk_loop :: "nat \<Rightarrow> u32 \<Rightarrow> 'a vmm_scheme \<Rightarrow> u32 list kres" where
  "walk_loop 0 fp s = Inr []"
| "walk_loop (Suc n) fp s =
    (if fp = 0 then Inr []
     else kbind (vload32 s (fp + 4)) (\<lambda>ret.
          kbind (vload32 s fp) (\<lambda>up.
          kbind (walk_loop n up s) (\<lambda>fs. Inr (ret # fs)))))"

definition walk_frames :: "u32 \<Rightarrow> 'a vmm_scheme \<Rightarrow> u32 list kres" where
  "walk_frames ebp s = walk_loop FRAMES_MAX ebp s"

section \<open>panic and panic_regs\<close>

text \<open>The part after the message and the registers are known, the same in both functions.\<close>

definition panic_report :: "string \<Rightarrow> regs \<Rightarrow> u32 list \<Rightarrow> 'a fbcon_scheme \<Rightarrow> 'a fbcon_scheme kres" where
  "panic_report msg r frames s =
    fold_err (\<lambda>(fmt, args). printf (fmt @ [CHR 0x0A]) args)
      ([([CHR 0x0A] @ ''[neodymium]'' @ [CHR 0x0A] @ ''KERNEL PANIC'' @ [CHR 0x0A] @ ''%s'', [PStr msg]),
        (''eax=0x%x ebx=0x%x ecx=0x%x edx=0x%x'', [PInt (r_eax r), PInt (r_ebx r), PInt (r_ecx r), PInt (r_edx r)]),
        (''esi=0x%x edi=0x%x ebp=0x%x esp=0x%x'', [PInt (r_esi r), PInt (r_edi r), PInt (r_ebp r), PInt (r_esp r)]),
        (''eip=0x%x cs=0x%x eflags=0x%x err=%u'', [PInt (r_eip r), PInt (r_cs r), PInt (r_eflags r), PInt (r_err_code r)]),
        (''backtrace:'', [])] @
       map (\<lambda>f. (''  [0x%x]'', [PInt f])) frames)
      (draw_evil_af_scary_screen msg r frames s)"

definition panic :: "string \<Rightarrow> parg list \<Rightarrow> regs \<Rightarrow> u32 \<Rightarrow> 'a vmm_scheme \<Rightarrow> 'a vmm_scheme kres" where
  "panic fmt args cpu return_address s =
    (let (msg, e) = fmt_msg fmt args;
         r = cpu\<lparr>r_eip := return_address, r_cs := 0x8, r_eflags := 0, r_err_code := 0\<rparr>
     in if e \<noteq> Finished then Inl Undefined
        else kbind (walk_frames (r_ebp r) s) (\<lambda>frames. panic_report msg r frames s))"

text \<open>The frame at \<open>r\<close> as a record.\<close>

definition load_regs :: "'a vmm_scheme \<Rightarrow> u32 \<Rightarrow> regs kres" where
  "load_regs s r =
    kbind (rget s r R_gs) (\<lambda>gs. kbind (rget s r R_fs) (\<lambda>fs. kbind (rget s r R_es) (\<lambda>es.
    kbind (rget s r R_ds) (\<lambda>ds. kbind (rget s r R_edi) (\<lambda>edi. kbind (rget s r R_esi) (\<lambda>esi.
    kbind (rget s r R_ebp) (\<lambda>ebp. kbind (rget s r R_esp) (\<lambda>esp. kbind (rget s r R_ebx) (\<lambda>ebx.
    kbind (rget s r R_edx) (\<lambda>edx. kbind (rget s r R_ecx) (\<lambda>ecx. kbind (rget s r R_eax) (\<lambda>eax.
    kbind (rget s r R_int_no) (\<lambda>int_no. kbind (rget s r R_err_code) (\<lambda>err_code. kbind (rget s r R_eip) (\<lambda>eip.
    kbind (rget s r R_cs) (\<lambda>cs. kbind (rget s r R_eflags) (\<lambda>eflags. kbind (rget s r R_user_esp) (\<lambda>user_esp.
    kbind (rget s r R_user_ss) (\<lambda>user_ss.
    Inr \<lparr>r_gs = gs, r_fs = fs, r_es = es, r_ds = ds, r_edi = edi, r_esi = esi, r_ebp = ebp, r_esp = esp,
      r_ebx = ebx, r_edx = edx, r_ecx = ecx, r_eax = eax, r_int_no = int_no, r_err_code = err_code, r_eip = eip,
      r_cs = cs, r_eflags = eflags, r_user_esp = user_esp, r_user_ss = user_ss\<rparr>)))))))))))))))))))"

definition panic_regs :: "string \<Rightarrow> u32 \<Rightarrow> parg list \<Rightarrow> 'a vmm_scheme \<Rightarrow> 'a vmm_scheme kres" where
  "panic_regs fmt rp args s =
    (let (msg, e) = fmt_msg fmt args
     in if e \<noteq> Finished then Inl Undefined
        else kbind (load_regs s rp) (\<lambda>r.
             kbind (walk_frames (r_ebp r) s) (\<lambda>frames. panic_report msg r frames s)))"

end
