(* ===== verification/Syscall.thy ===== *)
theory Syscall
  imports Panic
begin

text \<open>
  System calls, src/src/kernel/syscall.c with the user side in syscall.h, and the interrupt
  dispatcher \<open>isr_handler\<close> of src/src/kernel/idt.c. A handler gets the address of the saved
  registers and reads and writes its arguments and results there. The list of interrupt requests is
  for the handlers that wait (see \<open>Sched.yield\<close>).
\<close>

section \<open>syscall.h\<close>

definition SYS_EXIT :: u32 where "SYS_EXIT = 0"
definition SYS_WRITE :: u32 where "SYS_WRITE = 1"
definition SYS_WRITESTR :: u32 where "SYS_WRITESTR = 2"
definition SYS_GETTICK :: u32 where "SYS_GETTICK = 3"
definition SYS_READ :: u32 where "SYS_READ = 4"
definition SYS_FORK :: u32 where "SYS_FORK = 5"
definition SYS_GETPID :: u32 where "SYS_GETPID = 6"
definition SYS_WAIT :: u32 where "SYS_WAIT = 7"
definition SYS_SLEEP :: u32 where "SYS_SLEEP = 8"
definition SYS_EXEC :: u32 where "SYS_EXEC = 9"

lemmas sys_numbers = SYS_EXIT_def SYS_WRITE_def SYS_WRITESTR_def SYS_GETTICK_def SYS_READ_def SYS_FORK_def
  SYS_GETPID_def SYS_WAIT_def SYS_SLEEP_def SYS_EXEC_def

text \<open>The stubs of user programs: the values in eax and ebx when they raise interrupt 0x80, \<open>None\<close>
  where ebx is left as it is. A char is signed.\<close>

definition sys_exit :: "u32 \<Rightarrow> u32 \<times> u32 option" where "sys_exit code = (SYS_EXIT, Some code)"
definition sys_write :: "char \<Rightarrow> u32 \<times> u32 option" where "sys_write c = (SYS_WRITE, Some (word_of_int (schar c)))"
definition sys_writestr :: "u32 \<Rightarrow> u32 \<times> u32 option" where "sys_writestr p = (SYS_WRITESTR, Some p)"
definition sys_gettick :: "u32 \<times> u32 option" where "sys_gettick = (SYS_GETTICK, None)"
definition sys_read :: "u32 \<times> u32 option" where "sys_read = (SYS_READ, None)"
definition sys_fork :: "u32 \<times> u32 option" where "sys_fork = (SYS_FORK, None)"
definition sys_getpid :: "u32 \<times> u32 option" where "sys_getpid = (SYS_GETPID, None)"
definition sys_wait :: "u32 \<times> u32 option" where "sys_wait = (SYS_WAIT, None)"
definition sys_sleep :: "u32 \<Rightarrow> u32 \<times> u32 option" where "sys_sleep ticks = (SYS_SLEEP, Some ticks)"
definition sys_exec :: "u32 \<Rightarrow> u32 \<times> u32 option" where "sys_exec elf = (SYS_EXEC, Some elf)"

section \<open>syscall.c\<close>

definition handle_exit :: "u32 \<Rightarrow> (int \<times> u32) list \<Rightarrow> 'a sched_scheme \<Rightarrow> (flow \<times> 'a sched_scheme) kres" where
  "handle_exit r irqs s =
    kbind (rget s r R_ebx) (\<lambda>ebx.
    kbind (printf (''[sys] exit %d'' @ [CHR 0x0A]) [PInt ebx] s) (sched_exit_with r ebx irqs))"

definition handle_write :: "u32 \<Rightarrow> 'a sched_scheme \<Rightarrow> (flow \<times> 'a sched_scheme) kres" where
  "handle_write r s =
    kbind (rget s r R_ebx) (\<lambda>ebx.
    kbind (if ebx < 256 then printf ''%c'' [PInt ebx] s else Inr s) (\<lambda>s. Inr (Returns, s)))"

text \<open>The string that \<^verbatim>\<open>%s\<close> prints is read from memory up to its zero byte; printing does not write
  to the memory it is read from.\<close>

fun read_cstr :: "nat \<Rightarrow> u32 \<Rightarrow> 'a vmm_scheme \<Rightarrow> string kres" where
  "read_cstr 0 p s = Inl Halted"
| "read_cstr (Suc n) p s =
    kbind (vload8 s p) (\<lambda>b. if b = 0 then Inr [] else kbind (read_cstr n (p + 1) s) (\<lambda>cs. Inr (char_of (unat b) # cs)))"

definition handle_writestr :: "u32 \<Rightarrow> 'a sched_scheme \<Rightarrow> (flow \<times> 'a sched_scheme) kres" where
  "handle_writestr r s =
    kbind (rget s r R_ebx) (\<lambda>ebx.
      if ebx \<noteq> 0
      then kbind (read_cstr list_bound ebx s) (\<lambda>str.
           kbind (printf ''%s'' [PStr str] s) (\<lambda>s. Inr (Returns, s)))
      else Inr (Returns, s))"

definition handle_gettick :: "u32 \<Rightarrow> 'a sched_scheme \<Rightarrow> (flow \<times> 'a sched_scheme) kres" where
  "handle_gettick r s = kbind (rset r R_eax (get_tick s) s) (\<lambda>s. Inr (Returns, s))"

text \<open>
  The gate of interrupt 0x80 is an interrupt gate (its type in \<open>idt_init\<close> is 0xE), so the processor
  has interrupts disabled here and the \<open>hlt\<close> of an empty buffer is never left.
\<close>

definition handle_read :: "u32 \<Rightarrow> 'a sched_scheme \<Rightarrow> (flow \<times> 'a sched_scheme) kres" where
  "handle_read r s =
    (let (c, s) = ps2_poll s
     in if c < 0 then Inl Halted
        else kbind (rset r R_eax (word_of_int c) s) (\<lambda>s. Inr (Returns, s)))"

definition handle_fork :: "u32 \<Rightarrow> 'a sched_scheme \<Rightarrow> (flow \<times> 'a sched_scheme) kres" where
  "handle_fork r s =
    kbind (task_create_fork r s) (\<lambda>(ret, s).
      kbind (rset r R_eax (if ret = 0 then 1 else -1) s) (\<lambda>s. Inr (Returns, s)))"

definition handle_getpid :: "u32 \<Rightarrow> 'a sched_scheme \<Rightarrow> (flow \<times> 'a sched_scheme) kres" where
  "handle_getpid r s =
    kbind (sched_getpid s) (\<lambda>pid. kbind (rset r R_eax pid s) (\<lambda>s. Inr (Returns, s)))"

definition handle_wait :: "u32 \<Rightarrow> 'a sched_scheme \<Rightarrow> (flow \<times> 'a sched_scheme) kres" where
  "handle_wait r s =
    kbind (sched_wait s) (\<lambda>(ret, s).
    kbind (if sint ret \<ge> 0 then printf (''[sys] wait -> %d'' @ [CHR 0x0A]) [PInt ret] s else Inr s) (\<lambda>s.
    kbind (rset r R_eax ret s) (\<lambda>s. Inr (Returns, s))))"

definition handle_sleep :: "u32 \<Rightarrow> (int \<times> u32) list \<Rightarrow> 'a sched_scheme \<Rightarrow> (flow \<times> 'a sched_scheme) kres" where
  "handle_sleep r irqs s =
    kbind (rset r R_eax 0 s) (\<lambda>s. kbind (rget s r R_ebx) (\<lambda>ebx. sched_sleep r ebx irqs s))"

definition handle_exec :: "u32 \<Rightarrow> 'a sched_scheme \<Rightarrow> (flow \<times> 'a sched_scheme) kres" where
  "handle_exec r s =
    kbind (rget s r R_ebx) (\<lambda>ebx. kbind (sched_exec r ebx s) (\<lambda>(ret, s).
      if ret \<noteq> 0 then kbind (rset r R_eax (-1) s) (\<lambda>s. Inr (Returns, s)) else Inr (Returns, s)))"

definition syscall_handler :: "u32 \<Rightarrow> (int \<times> u32) list \<Rightarrow> 'a sched_scheme \<Rightarrow> (flow \<times> 'a sched_scheme) kres" where
  "syscall_handler r irqs s =
    kbind (rget s r R_eax) (\<lambda>n.
      if n = SYS_EXIT then handle_exit r irqs s
      else if n = SYS_WRITE then handle_write r s
      else if n = SYS_WRITESTR then handle_writestr r s
      else if n = SYS_GETTICK then handle_gettick r s
      else if n = SYS_READ then handle_read r s
      else if n = SYS_FORK then handle_fork r s
      else if n = SYS_GETPID then handle_getpid r s
      else if n = SYS_WAIT then handle_wait r s
      else if n = SYS_SLEEP then handle_sleep r irqs s
      else if n = SYS_EXEC then handle_exec r s
      else kbind (printf (''[sys] unknown: %u'' @ [CHR 0x0A]) [PInt n] s) (\<lambda>s. Inr (Returns, s)))"

section \<open>isr_handler\<close>

definition isr_handler :: "u32 \<Rightarrow> (int \<times> u32) list \<Rightarrow> 'a sched_scheme \<Rightarrow> (flow \<times> 'a sched_scheme) kres" where
  "isr_handler r irqs s =
    kbind (rget s r R_int_no) (\<lambda>int_no.
      if int_no = 0x80 then syscall_handler r irqs s
      else if int_no < 32 then
        (case exception_handlers s (uint int_no) of None \<Rightarrow> Inr (Returns, s) | Some h \<Rightarrow> run_handler h r s)
      else if int_no \<ge> 32 \<and> int_no \<le> 47 then irq_dispatch (uint int_no - 32) r s
      else Inr (Returns, s))"

end
