(* ===== verification/Fb_Init.thy ===== *)
theory Fb_Init
  imports Vmm
begin

text \<open>
  Setting up the display: the rest of src/src/drivers/framebuffer.c. Either the boot loader has set
  a mode and described it in the multiboot information, or the Bochs graphics adapter is programmed
  through its ports. In both cases the display memory is mapped at its physical address.
\<close>

definition VBE_INDEX_PORT :: u16 where "VBE_INDEX_PORT = 0x01CE"
definition VBE_DATA_PORT :: u16 where "VBE_DATA_PORT = 0x01CF"
definition VBE_ID :: u16 where "VBE_ID = 0"
definition VBE_XRES :: u16 where "VBE_XRES = 1"
definition VBE_YRES :: u16 where "VBE_YRES = 2"
definition VBE_BPP :: u16 where "VBE_BPP = 3"
definition VBE_ENABLE :: u16 where "VBE_ENABLE = 4"
definition VBE_DISABLED :: u16 where "VBE_DISABLED = 0x00"
definition VBE_ENABLED :: u16 where "VBE_ENABLED = 0x01"
definition VBE_LFB_ENABLED :: u16 where "VBE_LFB_ENABLED = 0x40"

definition vbe_read :: "u16 \<Rightarrow> 'a kio_scheme \<Rightarrow> u16 \<times> 'a kio_scheme" where
  "vbe_read idx s = inw VBE_DATA_PORT (outw VBE_INDEX_PORT idx s)"

definition vbe_write :: "u16 \<Rightarrow> u16 \<Rightarrow> 'a kio_scheme \<Rightarrow> 'a kio_scheme" where
  "vbe_write idx val s = outw VBE_DATA_PORT val (outw VBE_INDEX_PORT idx s)"

text \<open>The search on the PCI bus. \<open>Some\<close> is the early return with an address; the flag of the inner
  loop is its \<open>break\<close>.\<close>

definition pci_probe :: "u32 \<Rightarrow> bool \<times> u32 option \<times> 'a kio_scheme \<Rightarrow> bool \<times> u32 option \<times> 'a kio_scheme" where
  "pci_probe addr st =
    (case st of (left, found, s) \<Rightarrow>
      if left \<or> found \<noteq> None then (left, found, s)
      else let (id, s) = inl 0xCFC (outl 0xCF8 addr s)
           in if id AND 0xFFFF = 0xFFFF then (True, None, s)
              else if id AND 0xFFFF = 0x1234 \<and> drop_bit 16 id AND 0xFFFF = 0x1111
              then let (bar0, s) = inl 0xCFC (outl 0xCF8 (addr OR 0x10) s)
                   in (False, Some (bar0 AND 0xFFFFF000), s)
              else (False, None, s))"

definition pci_read_bar0 :: "'a kio_scheme \<Rightarrow> u32 \<times> 'a kio_scheme" where
  "pci_read_bar0 s =
    (case for_u32 0 256 (\<lambda>bus. for_u32 0 32 (\<lambda>dev (found, s).
       snd (for_u32 0 8 (\<lambda>func. pci_probe
              (0x80000000 OR push_bit 16 bus OR push_bit 11 dev OR push_bit 8 func)) (False, found, s)))) (None, s)
     of (found, s) \<Rightarrow> (case found of Some bar0 \<Rightarrow> (bar0, s) | None \<Rightarrow> (0xE0000000, s)))"

definition vbe_init :: "u32 \<Rightarrow> u32 \<Rightarrow> u32 \<Rightarrow> 'a fbcon_scheme \<Rightarrow> (u32 option \<times> 'a fbcon_scheme) kres" where
  "vbe_init width height bpp s =
    (let (id, s) = vbe_read VBE_ID s
     in if id < 0xB0C0 then Inr (None, s)
        else let s = vbe_write VBE_ENABLE VBE_DISABLED s;
                 s = vbe_write VBE_XRES (ucast width) s;
                 s = vbe_write VBE_YRES (ucast height) s;
                 s = vbe_write VBE_BPP (ucast bpp) s;
                 s = vbe_write VBE_ENABLE (VBE_ENABLED OR VBE_LFB_ENABLED) s;
                 (x, s) = vbe_read VBE_XRES s
             in if ucast x \<noteq> width then Inr (None, s)
                else let (y, s) = vbe_read VBE_YRES s
                     in if ucast y \<noteq> height then Inr (None, s)
                        else let (phys, s) = pci_read_bar0 s
                             in kbind (printf (''[fb] vbe init %dx%d %dbpp phys=0x%x'' @ [CHR 0x0A])
                                    [PInt width, PInt height, PInt bpp, PInt phys] s) (\<lambda>s. Inr (Some phys, s)))"

definition map_fb :: "u32 \<Rightarrow> u32 \<Rightarrow> 'a vmm_scheme \<Rightarrow> 'a vmm_scheme kres" where
  "map_fb phys sz s =
    (let pages = (sz + 0xFFF) div 0x1000
     in kbind (for_err 0 pages (\<lambda>i. vmm_map_page (phys + i * 0x1000) (phys + i * 0x1000) VMM_WRITABLE) s)
          (\<lambda>s. Inr (s\<lparr>fb_ptr := phys\<rparr>)))"

text \<open>The mode that \<open>vbe_init\<close> has set at 32 bits per pixel.\<close>

definition fb_mode :: "u32 \<Rightarrow> u32 \<Rightarrow> u32 \<Rightarrow> 'a vmm_scheme \<Rightarrow> (bool \<times> 'a vmm_scheme) kres" where
  "fb_mode width height phys s =
    (let s = s\<lparr>fb_width := width, fb_height := height, fb_bpp := 32\<rparr>;
         s = s\<lparr>fb_pitch := fb_width s * (fb_bpp s div 8)\<rparr>
     in kbind (map_fb phys (fb_pitch s * fb_height s) s) (\<lambda>s. Inr (True, s\<lparr>fb_enabled := True\<rparr>)))"

text \<open>\<open>True\<close> where the C function returns 0.\<close>

definition fb_init :: "multiboot_info \<Rightarrow> 'a vmm_scheme \<Rightarrow> (bool \<times> 'a vmm_scheme) kres" where
  "fb_init mbd s =
    (if mb_flags mbd AND push_bit 12 1 \<noteq> 0
     then let s = s\<lparr>fb_width := framebuffer_width mbd, fb_height := framebuffer_height mbd,
                    fb_pitch := framebuffer_pitch mbd, fb_bpp := ucast (framebuffer_bpp mbd)\<rparr>;
              phys = ucast (framebuffer_addr mbd AND 0xFFFFFFFF) :: u32
          in kbind (map_fb phys (fb_pitch s * fb_height s) s) (\<lambda>s.
             let s = s\<lparr>fb_enabled := True\<rparr>
             in kbind (printf (''[fb] %dx%d %dbpp pitch=%d phys=0x%x (grub)'' @ [CHR 0x0A])
                    [PInt (fb_width s), PInt (fb_height s), PInt (fb_bpp s), PInt (fb_pitch s), PInt phys] s)
                  (\<lambda>s. Inr (True, s)))
     else kbind (vbe_init 1280 720 32 s) (\<lambda>(mode, s).
          case mode of
            Some phys \<Rightarrow> fb_mode 1280 720 phys s
          | None \<Rightarrow> kbind (vbe_init 1024 768 32 s) (\<lambda>(mode, s).
              case mode of
                Some phys \<Rightarrow> fb_mode 1024 768 phys s
              | None \<Rightarrow> Inr (False, s))))"

definition fb_enable :: "'a fb_scheme \<Rightarrow> 'a fb_scheme" where
  "fb_enable s =
    (let s = vbe_write VBE_XRES (ucast (fb_width s)) s;
         s = vbe_write VBE_YRES (ucast (fb_height s)) s;
         s = vbe_write VBE_BPP (ucast (fb_bpp s)) s;
         s = vbe_write VBE_ENABLE (VBE_ENABLED OR VBE_LFB_ENABLED) s
     in s\<lparr>fb_enabled := True\<rparr>)"

end
