(* ===== verification/Boot.thy ===== *)
theory Boot
  imports Pmm
begin

text \<open>
  What happens before \<open>kernel_main\<close>: src/src/boot/boot.c reads the tags of the multiboot 2
  information into a multiboot 1 structure, and src/src/boot/efi_boot.c makes such a structure from
  an EFI memory map. Paging is off, so memory is read at its physical addresses.
\<close>

section \<open>The tags of multiboot 2\<close>

definition MULTIBOOT2_MAGIC :: u32 where "MULTIBOOT2_MAGIC = 0xE85250D6"
definition MULTIBOOT2_ARCH_X86 :: u32 where "MULTIBOOT2_ARCH_X86 = 0"

record mb2_header =
  h_magic :: u32
  h_arch :: u32
  h_len :: u32
  h_chk :: u32
  h_fb_type :: u16
  h_fb_flags :: u16
  h_fb_size :: u32
  h_fb_width :: u32
  h_fb_height :: u32
  h_fb_depth :: u32
  h_pad :: u32
  h_end_type :: u16
  h_end_flags :: u16
  h_end_size :: u32

definition mb2_hdr :: mb2_header where
  "mb2_hdr = \<lparr>h_magic = MULTIBOOT2_MAGIC, h_arch = MULTIBOOT2_ARCH_X86, h_len = 48,
     h_chk = - (MULTIBOOT2_MAGIC + MULTIBOOT2_ARCH_X86 + 48), h_fb_type = 5, h_fb_flags = 0, h_fb_size = 20,
     h_fb_width = 1280, h_fb_height = 720, h_fb_depth = 32, h_pad = 0, h_end_type = 0, h_end_flags = 0,
     h_end_size = 8\<rparr>"

record boot =
  boot_info :: multiboot_info
  module_start :: u32
  module_end :: u32
  mod_count :: u32

definition load64 :: "memory \<Rightarrow> u32 \<Rightarrow> u64" where
  "load64 m a = ucast (load32 m a) OR push_bit 32 (ucast (load32 m (a + 4)))"

definition set_flag :: "u32 \<Rightarrow> boot \<Rightarrow> boot" where
  "set_flag f b = b\<lparr>boot_info := (boot_info b)\<lparr>mb_flags := mb_flags (boot_info b) OR f\<rparr>\<rparr>"

text \<open>One round of the loop, for the tag at \<open>tag\<close>.\<close>

definition read_tag :: "memory \<Rightarrow> u32 \<Rightarrow> boot \<Rightarrow> boot" where
  "read_tag m tag b =
    (let type = load32 m tag
     in if type = 1 then
          let b = set_flag (push_bit 2 1) b in b\<lparr>boot_info := (boot_info b)\<lparr>cmdline := tag + 8\<rparr>\<rparr>
        else if type = 4 then
          let p = tag + 8; b = set_flag (push_bit 0 1) b
          in b\<lparr>boot_info := (boot_info b)\<lparr>mem_lower := load32 m p, mem_upper := load32 m (p + 4)\<rparr>\<rparr>
        else if type = 6 then
          let b = set_flag (push_bit 6 1) b
          in b\<lparr>boot_info := (boot_info b)\<lparr>mmap_addr := tag + 16, mmap_length := load32 m (tag + 4) - 16,
               mmap_entry_size := load32 m (tag + 8)\<rparr>\<rparr>
        else if type = 3 \<and> mod_count b = 0 then
          let p = tag + 8
          in b\<lparr>module_start := load32 m p, module_end := load32 m (p + 4), mod_count := mod_count b + 1\<rparr>
        else if type = 8 then
          let b = set_flag (push_bit 12 1) b
          in b\<lparr>boot_info := (boot_info b)\<lparr>framebuffer_addr := load64 m (tag + 8),
               framebuffer_pitch := load32 m (tag + 16), framebuffer_width := load32 m (tag + 20),
               framebuffer_height := load32 m (tag + 24), framebuffer_bpp := m (tag + 28),
               framebuffer_type := m (tag + 29)\<rparr>\<rparr>
        else if type = 17 \<or> type = 18 then set_flag MBOOT_FLAG_EFI b
        else b)"

text \<open>The loop over the tags; a tag of size 0 is read forever, which is \<open>None\<close>.\<close>

partial_function (option) boot_tags :: "memory \<Rightarrow> u32 \<Rightarrow> u32 \<Rightarrow> boot \<Rightarrow> boot option" where
  "boot_tags m info pos b =
    (if pos < load32 m info
     then let tag = info + pos
          in if load32 m tag = 0 then Some b
             else boot_tags m info (pos + ((load32 m (tag + 4) + 7) AND NOT 7)) (read_tag m tag b)
     else Some b)"

definition no_info :: multiboot_info where
  "no_info = \<lparr>mb_flags = 0, mem_lower = 0, mem_upper = 0, cmdline = 0, mmap_length = 0, mmap_addr = 0,
     framebuffer_addr = 0, framebuffer_pitch = 0, framebuffer_width = 0, framebuffer_height = 0,
     framebuffer_bpp = 0, framebuffer_type = 0, mmap_entry_size = 0\<rparr>"

definition start_kernel :: "memory \<Rightarrow> u32 \<Rightarrow> boot option" where
  "start_kernel m info =
    boot_tags m info 8 \<lparr>boot_info = no_info, module_start = 0, module_end = 0, mod_count = 0\<rparr>"

section \<open>EFI\<close>

definition EfiLoaderCode :: u32 where "EfiLoaderCode = 1"
definition EfiLoaderData :: u32 where "EfiLoaderData = 2"
definition EfiBootServicesCode :: u32 where "EfiBootServicesCode = 3"
definition EfiBootServicesData :: u32 where "EfiBootServicesData = 4"
definition EfiConventionalMemory :: u32 where "EfiConventionalMemory = 7"
definition EfiACPIReclaimMemory :: u32 where "EfiACPIReclaimMemory = 9"
definition EfiACPIMemoryNVS :: u32 where "EfiACPIMemoryNVS = 10"

lemmas efi_types = EfiLoaderCode_def EfiLoaderData_def EfiBootServicesCode_def EfiBootServicesData_def
  EfiConventionalMemory_def EfiACPIReclaimMemory_def EfiACPIMemoryNVS_def

definition EFI_MMAP_MAX_ENTRIES :: nat where "EFI_MMAP_MAX_ENTRIES = 256"

definition efi_type_to_mboot :: "u32 \<Rightarrow> u32" where
  "efi_type_to_mboot efi_type =
    (if efi_type = EfiConventionalMemory \<or> efi_type = EfiLoaderCode \<or> efi_type = EfiLoaderData then 1
     else if efi_type = EfiBootServicesCode \<or> efi_type = EfiBootServicesData then 1
     else if efi_type = EfiACPIReclaimMemory then 3
     else if efi_type = EfiACPIMemoryNVS then 4
     else 2)"

text \<open>struct multiboot\_mmap\_entry has three more fields than the ones that \<open>pmm_init\<close> reads.\<close>

record full_entry = mmap_entry +
  addr_high :: u32
  len_high :: u32
  e_reserved :: u32

definition sizeof_mmap_entry :: u32 where "sizeof_mmap_entry = 24"

definition efi_entry :: "memory \<Rightarrow> u32 \<Rightarrow> full_entry" where
  "efi_entry m desc =
    (let start = load64 m (desc + 8); bytes = load64 m (desc + 24) * 4096
     in \<lparr>addr_low = ucast (start AND 0xFFFFFFFF), len_low = ucast (bytes AND 0xFFFFFFFF),
         entry_type = efi_type_to_mboot (load32 m desc),
         addr_high = ucast (drop_bit 32 start), len_high = ucast (drop_bit 32 bytes), e_reserved = 0\<rparr>)"

text \<open>The loop over the descriptors fills at most \<open>n\<close> more entries.\<close>

fun efi_entries :: "nat \<Rightarrow> memory \<Rightarrow> u32 \<Rightarrow> u64 \<Rightarrow> u64 \<Rightarrow> u64 \<Rightarrow> full_entry list \<times> u64" where
  "efi_entries 0 m p off mmap_size desc_size = ([], 0)"
| "efi_entries (Suc n) m p off mmap_size desc_size =
    (if off < mmap_size
     then let desc = p + ucast off;
              own = (if load32 m desc = EfiConventionalMemory then load64 m (desc + 24) * 4096 else 0);
              (es, total) = efi_entries n m p (off + desc_size) mmap_size desc_size
          in (efi_entry m desc # es, own + total)
     else ([], 0))"

record gop_info =
  horizontal_resolution :: u32
  vertical_resolution :: u32
  pixels_per_scan_line :: u32

record gop_mode =
  gop_mode_info :: "gop_info option"
  frame_buffer_base :: u64

text \<open>
  The pointers \<open>gop\<close>, \<^verbatim>\<open>gop->mode\<close> and \<^verbatim>\<open>mode->info\<close> may be null. \<open>buf\<close> is the address of
  \<^verbatim>\<open>efi_mmap_buf\<close>; the entries written to it are the first component of the result.
\<close>

definition efi_populate_multiboot ::
  "u32 \<Rightarrow> u32 \<Rightarrow> u64 \<Rightarrow> u64 \<Rightarrow> gop_mode option option \<Rightarrow> multiboot_info \<Rightarrow> 'a pmm_scheme
     \<Rightarrow> (full_entry list \<times> multiboot_info \<times> 'a pmm_scheme) kres" where
  "efi_populate_multiboot buf mmap_ptr mmap_size desc_size gop out s =
    (let (es, total_mem) = efi_entries EFI_MMAP_MAX_ENTRIES (phys_mem s) mmap_ptr 0 mmap_size desc_size;
         cnt = of_nat (length es) :: u32;
         out = out\<lparr>mb_flags := push_bit 0 1 OR push_bit 6 1\<rparr>;
         out = out\<lparr>mem_upper := (if total_mem > 1024 * 1024 then ucast ((total_mem - 1024 * 1024) div 1024) else 0)\<rparr>;
         out = out\<lparr>mmap_addr := buf, mmap_length := cnt * sizeof_mmap_entry, mmap_entry_size := sizeof_mmap_entry\<rparr>;
         unchanged = Inr (out, s)
     in kbind (case gop of
            Some (Some mode) \<Rightarrow>
              (case gop_mode_info mode of
                 Some info \<Rightarrow>
                   let out = out\<lparr>mb_flags := mb_flags out OR push_bit 12 1,
                        framebuffer_addr := frame_buffer_base mode,
                        framebuffer_pitch := pixels_per_scan_line info * 4,
                        framebuffer_width := horizontal_resolution info,
                        framebuffer_height := vertical_resolution info,
                        framebuffer_bpp := 32, framebuffer_type := 2\<rparr>
                   in kbind (printf (''[efi] gop %ux%u fb=0x%llx'' @ [CHR 0x0A])
                        [PInt (horizontal_resolution info), PInt (vertical_resolution info),
                         PInt (ucast (frame_buffer_base mode)), PInt (ucast (drop_bit 32 (frame_buffer_base mode)))] s)
                      (\<lambda>s. Inr (out, s))
               | None \<Rightarrow> unchanged)
          | _ \<Rightarrow> unchanged) (\<lambda>(out, s).
        kbind (printf (''[efi] boot services memory map: %u entries, %u KiB conventional'' @ [CHR 0x0A])
          [PInt cnt, PInt (ucast (total_mem div 1024))] s) (\<lambda>s. Inr (es, out, s))))"

end
