(* ===== verification/Kernel.thy ===== *)
theory Kernel
  imports Syscall Fb_Init Boot
begin

text \<open>
  \<open>kernel_main\<close>, src/src/kernel/kernel.c: all components started in order, each with its
  demonstration on the console, then the first program, then the loop of the idle kernel. What the
  linker, the build and the boot loader supply is an argument, the record \<open>kenv\<close>. The loop
  halts between keys; as in \<open>Sched.yield\<close>, the interrupt requests that end each halt are a list.
  Arguments of a call that read the clock are evaluated from right to left, as the i386 compiler
  pushes them.
\<close>

record kenv =
  commit_hash :: string
  tss_addr :: u32
  isr_stubs :: "int \<Rightarrow> u32"
  image_start :: u32
  image_end :: u32
  boot_rec :: boot
  embedded_hello_start :: u32
  embedded_hello_end :: u32
  embedded_exec_target_start :: u32
  embedded_exec_target_end :: u32

abbreviation mboot :: "kenv \<Rightarrow> multiboot_info" where
  "mboot e \<equiv> boot_info (boot_rec e)"

definition nl :: string where "nl = [CHR 0x0A]"

section \<open>Starting the components\<close>

definition start_devices :: "kenv \<Rightarrow> 'a sched_scheme \<Rightarrow> 'a sched_scheme kres" where
  "start_devices e s =
    (let s = vga_init s;
         s = serial_init s;
         s = idt_init (tss_addr e) (isr_stubs e) s
     in kbind (pmm_init (image_start e) (image_end e) (mboot e) s) (\<lambda>s.
        kbind (or_halt (ps2_init s)) (\<lambda>s.
        let s = fbcon_init s;
            s = vga_setcolor (vga_entry_color VGA_WHITE VGA_BLACK) s
        in kbind (printf (''//neodymium [%s]'' @ nl @ nl) [PStr (commit_hash e)] s)
             (printf (''[boot] %s'' @ nl)
               [PStr (if mb_flags (mboot e) AND MBOOT_FLAG_EFI \<noteq> 0 then ''uefi'' else ''bios'')]))))"

definition try_pmm :: "'a sched_scheme \<Rightarrow> 'a sched_scheme kres" where
  "try_pmm s =
    kbind (printf (''[pmm] %u KiB free'' @ nl) [PInt (pmm_get_free_page_count s * 4)] s) (\<lambda>s.
    let (page, s) = pmm_alloc_page s
    in kbind (if page \<noteq> 0 then printf (''[pmm] allocated page at 0x%x'' @ nl) [PInt page] s else Inr s) (\<lambda>s.
       Inr (pmm_free_page page s)))"

definition try_vmm :: "'a sched_scheme \<Rightarrow> 'a sched_scheme kres" where
  "try_vmm s =
    kbind (vmm_init s) (\<lambda>s.
    kbind (vmm_alloc_page 0xE0000000 VMM_WRITABLE s) (\<lambda>(vpage, s).
      if vpage = 0 then Inr s
      else kbind (vstore32 0xE0000000 0xDEADBEEF s) (\<lambda>s.
           kbind (vload32 s 0xE0000000) (\<lambda>w.
           kbind (printf (''[vmm] 0xE0000000 = 0x%x'' @ nl) [PInt w] s) (\<lambda>s.
           kbind (vmm_get_phys 0xE0000000 s) (\<lambda>phys.
           kbind (printf (''[vmm] phys = 0x%x'' @ nl) [PInt phys] s) (\<lambda>s.
           kbind (vmm_unmap_page 0xE0000000 s) (\<lambda>s. Inr (pmm_free_page vpage s)))))))))"

definition try_heap :: "'a sched_scheme \<Rightarrow> 'a sched_scheme kres" where
  "try_heap s =
    kbind (heap_init s) (\<lambda>s.
    kbind (malloc 32 s) (\<lambda>(a, s).
    kbind (malloc 32 s) (\<lambda>(b, s).
    kbind (if a \<noteq> 0 \<and> b \<noteq> 0
           then kbind (printf (''[heap] a=0x%x b=0x%x diff=%d'' @ nl) [PInt a, PInt b, PInt (b - a)] s) (\<lambda>s.
                kbind (vstore32 a 0xAAAA s) (\<lambda>s.
                kbind (vstore32 b 0xBBBB s) (\<lambda>s.
                kbind (vload32 s a) (\<lambda>wa. kbind (vload32 s b) (\<lambda>wb.
                printf (''[heap] *a=0x%x *b=0x%x'' @ nl) [PInt wa, PInt wb] s)))))
           else Inr s) (\<lambda>s.
    kbind (free a s) (\<lambda>s.
    kbind (malloc 32 s) (\<lambda>(c, s).
    kbind (if c \<noteq> 0
           then kbind (printf (''[heap] c=0x%x (reused a? %s)'' @ nl) [PInt c, PStr (if c = a then ''yes'' else ''no'')] s) (\<lambda>s.
                kbind (vstore32 c 0xCCCC s) (\<lambda>s.
                kbind (vload32 s c) (\<lambda>w. printf (''[heap] *c=0x%x'' @ nl) [PInt w] s)))
           else Inr s) (\<lambda>s.
    kbind (free b s) (free c))))))))"

section \<open>The picture\<close>

definition swatches :: "u32 list" where
  "swatches = [fb_rgb 255 80 80, fb_rgb 255 180 50, fb_rgb 200 200 50, fb_rgb 80 200 80,
     fb_rgb 60 140 255, fb_rgb 180 80 255, fb_rgb 255 80 180]"

definition spinner :: string where "spinner = [CHR ''-'', CHR 0x5C, CHR ''|'', CHR ''/'', CHR ''-'']"

definition draw_picture :: "kenv \<Rightarrow> 'a fb_scheme \<Rightarrow> 'a fb_scheme" where
  "draw_picture e s =
    (let bg = fb_rgb 0 0 0;
         w = fb_get_width s;
         h = fb_get_height s;
         s = fb_clear bg s;
         s = for_u32 0 w (\<lambda>x. for_u32 0 72 (\<lambda>y s.
               if (x XOR y) AND 3 \<noteq> 0
               then fb_putpixel (sint x) (sint y)
                      (fb_rgb (ucast (10 + y div 5)) (ucast (8 + y div 6)) (ucast (18 + y div 3))) s
               else s)) s;
         s = fb_drawstring 20 8 ''neodymium framebuffer yay'' (fb_rgb 255 200 70) bg s;
         s = fb_drawstring 20 28 ''x86'' (fb_rgb 130 130 170) bg s;
         s = fb_drawstring 20 48 (commit_hash e) (fb_rgb 80 200 80) bg s;
         s = fb_drawstring (sint (w - 180)) 8 ''1280x720'' (fb_rgb 150 150 200) bg s;
         s = fb_drawstring (sint (w - 180)) 28 ''32bpp'' (fb_rgb 150 150 200) bg s;
         s = fb_fillrect 0 74 (sint w) 2 (fb_rgb 40 30 60) s;
         s = for_int 0 7 (\<lambda>i. fb_fillrect (20 + i * 175) 90 100 100 (swatches ! nat i)) s;
         s = fb_drawstring 20 210 ''pmm  vmm  heap  sched  fb'' (fb_rgb 120 120 160) bg s;
         s = for_int 0 5 (\<lambda>i. fb_drawchar (20 + i * 67) 230 (spinner ! unat ((of_int i + h) AND 3))
               (fb_rgb 80 200 80) bg) s;
         s = fb_drawstring 20 270 ''memory:'' (fb_rgb 150 150 180) bg s;
         s = fb_fillrect 90 272 600 12 (fb_rgb 20 20 30) s;
         s = for_int 0 54 (\<lambda>i. fb_fillrect (92 + i * 11) 274 9 8
               (fb_rgb 0 (word_of_int (220 - i * 4)) (word_of_int (40 + i * 2)))) s;
         s = fb_drawstring 20 310 ''i have no idea what im doing'' (fb_rgb 180 160 120) bg s;
         s = for_u32 0 w (\<lambda>x. for_u32 (h - 26) h (\<lambda>y s.
               if (x + y) AND 1 \<noteq> 0 then fb_putpixel (sint x) (sint y) (fb_rgb 12 12 20) s else s)) s
     in fb_drawstring 20 (sint (h - 20)) ''ps/2 ok  serial ok  send help'' (fb_rgb 100 100 120) bg s)"

definition start_screen :: "kenv \<Rightarrow> 'a sched_scheme \<Rightarrow> (bool \<times> 'a sched_scheme) kres" where
  "start_screen e s =
    kbind (fb_init (mboot e) s) (\<lambda>(fb_ok, s).
    kbind (if fb_ok then printf (''[fb] initialised'' @ nl) [] (draw_picture e (fbcon_resize s)) else Inr s) (\<lambda>s.
    Inr (fb_ok, s)))"

section \<open>The first program\<close>

text \<open>The image: the embedded one, or the first module of the boot loader.\<close>

definition find_module :: "kenv \<Rightarrow> 'a sched_scheme \<Rightarrow> (u32 \<times> u32 \<times> 'a sched_scheme) kres" where
  "find_module e s =
    (if embedded_hello_start e \<noteq> embedded_hello_end e
     then let mod_ptr = embedded_hello_start e; mod_len = embedded_hello_end e - embedded_hello_start e
          in kbind (printf (''[elf] embedded: start=0x%x len=%u'' @ nl) [PInt mod_ptr, PInt mod_len] s)
               (\<lambda>s. Inr (mod_ptr, mod_len, s))
     else if module_start (boot_rec e) \<noteq> 0 \<and> module_end (boot_rec e) > module_start (boot_rec e)
     then let mod_ptr = module_start (boot_rec e); mod_len = module_end (boot_rec e) - module_start (boot_rec e)
          in kbind (printf (''[elf] grub: start=0x%x len=%u'' @ nl) [PInt mod_ptr, PInt mod_len] s)
               (\<lambda>s. Inr (mod_ptr, mod_len, s))
     else Inr (0, 0, s))"

definition start_program :: "kenv \<Rightarrow> u32 \<Rightarrow> 'a sched_scheme \<Rightarrow> 'a sched_scheme kres" where
  "start_program e mod_ptr s =
    kbind (vmm_create_address_space s) (\<lambda>(pd, s).
      if pd = 0 then Inr s
      else kbind (elf_load mod_ptr (vmm_switch_address_space pd s)) (\<lambda>(ret, s).
        kbind (if ret \<noteq> None \<and> embedded_exec_target_start e \<noteq> embedded_exec_target_end e
               then kbind (vmm_alloc_page 0xE0001000 (VMM_USER OR VMM_WRITABLE) s) (\<lambda>(mod_page, s).
                    if mod_page \<noteq> 0 then vstore32 0xE0001000 (embedded_exec_target_start e) s else Inr s)
               else Inr s) (\<lambda>s.
        let s = vmm_switch_address_space (vmm_get_kernel_page_directory s) s
        in case ret of
             Some (elf_entry, elf_stack) \<Rightarrow>
               kbind (printf (''[elf] entry=0x%x stack=0x%x'' @ nl) [PInt elf_entry, PInt elf_stack] s) (\<lambda>s.
               kbind (task_create_elf elf_entry elf_stack pd s) (\<lambda>(_, s).
               printf (''[sched] ELF task running'' @ nl @ nl) [] s))
           | None \<Rightarrow> vmm_destroy_address_space pd s)))"

definition show_clock :: "'a sched_scheme \<Rightarrow> 'a sched_scheme kres" where
  "show_clock s =
    kbind (printf (''[elf] no module, falling back to demo tasks'' @ nl) [] s) (\<lambda>s.
    let (second, s) = cmos_get_second s;
         (minute, s) = cmos_get_minute s;
         (hour, s) = cmos_get_hour s;
         (day, s) = cmos_get_day s;
         (month, s) = cmos_get_month s;
         (year, s) = cmos_get_year s;
         (century, s) = cmos_get_century s
     in printf (''[cmos] %04u-%02u-%02u %02u:%02u:%02u'' @ nl)
          [PInt (century * 100 + year), PInt month, PInt day, PInt hour, PInt minute, PInt second] s)"

section \<open>kernel_main\<close>

definition kernel_key :: "bool \<Rightarrow> int \<Rightarrow> 'a sched_scheme \<Rightarrow> 'a sched_scheme kres" where
  "kernel_key fb_ok c s =
    (if c \<ge> 0 then
       if c = 8 then printf [CHR 0x08, CHR '' '', CHR 0x08] [] s
       else if c = KEY_F12 \<and> ps2_is_ctrl s \<and> ps2_is_shift s \<and> ps2_is_alt s then Inl (Panic ''user requested'')
       else if c = KEY_F12 \<and> ps2_is_ctrl s \<and> ps2_is_shift s \<and> fb_ok then
         let s = (if fbcon_get_visible s then fbcon_set_visible False s else fbcon_set_visible True s);
             s = fb_clear (fb_rgb 0 0 0) s
         in Inr (if fbcon_get_visible s then fbcon_redraw s else s)
       else if c \<ge> KEY_F1 \<and> c \<le> KEY_F12 then printf ''[F%d]'' [PInt (of_int (c - KEY_F1 + 1))] s
       else if c = KEY_UP then Inr (fbcon_cursor_up s)
       else if c = KEY_DOWN then Inr (fbcon_cursor_down s)
       else if c = KEY_LEFT then Inr (fbcon_cursor_left s)
       else if c = KEY_RIGHT then Inr (fbcon_cursor_right s)
       else if c < 256 then printf ''%c'' [PInt (of_int c)] s
       else Inr s
     else Inr s)"

fun kernel_loop :: "bool \<Rightarrow> (int \<times> u32) list \<Rightarrow> 'a sched_scheme \<Rightarrow> (flow \<times> 'a sched_scheme) kres" where
  "kernel_loop fb_ok irqs s =
    (let (c, s) = ps2_poll s
     in kbind (kernel_key fb_ok c s) (\<lambda>s.
        let s = (if fb_ok then fbcon_tick s else s)
        in case irqs of
             [] \<Rightarrow> Inr (Waits, s)
           | (irq, r) # irqs \<Rightarrow>
               kbind (irq_dispatch irq r s) (\<lambda>(fl, s).
                 if fl = Returns then kernel_loop fb_ok irqs s else Inr (fl, s))))"

definition kernel_start :: "kenv \<Rightarrow> 'a sched_scheme \<Rightarrow> (bool \<times> 'a sched_scheme) kres" where
  "kernel_start e s =
    kbind (start_devices e s) (\<lambda>s.
    kbind (try_pmm s) (\<lambda>s.
    kbind (try_vmm s) (\<lambda>s.
    kbind (try_heap s) (\<lambda>s.
    kbind (start_screen e s) (\<lambda>(fb_ok, s).
    kbind (find_module e (sched_init s)) (\<lambda>(mod_ptr, mod_len, s).
    kbind (if mod_ptr \<noteq> 0 \<and> mod_len \<noteq> 0 then start_program e mod_ptr s else show_clock s) (\<lambda>s.
    kbind (printf (''[ps/2] type something:'' @ nl @ nl @ nl) [] (irq_install_handler 0 Sched_tick s)) (\<lambda>s.
    Inr (fb_ok, s)))))))))"

definition kernel_main :: "kenv \<Rightarrow> (int \<times> u32) list \<Rightarrow> 'a sched_scheme \<Rightarrow> (flow \<times> 'a sched_scheme) kres" where
  "kernel_main e irqs s = kbind (kernel_start e s) (\<lambda>(fb_ok, s). kernel_loop fb_ok irqs s)"

end
