(* ===== verification/Task_Memory.thy ===== *)
theory Task_Memory
  imports Sched
begin

text \<open>
  Tasks as objects in the kernel heap. \<open>field_store\<close> is what the scheduler needs of memory:
  the fields of an object can be read and written, and a write changes that field of that object
  only. Blocks that malloc has handed out provide it (\<open>tm\<close>), because they do not overlap.

  The heap is mapped in every address space that is made by copying the kernel's. \<open>heap_in s pd\<close>
  says that the space \<open>pd\<close> maps it to the same frames as the current one, none of them a page
  table of \<open>pd\<close>; then a switch to \<open>pd\<close> changes nothing that the scheduler can see.
\<close>

section \<open>Objects with fields\<close>

locale field_store =
  fixes get :: "'s \<Rightarrow> 'k \<Rightarrow> 'f \<Rightarrow> 'v kres" and sto :: "'k \<Rightarrow> 'f \<Rightarrow> 'v \<Rightarrow> 's \<Rightarrow> 's kres"
    and ok :: "'s \<Rightarrow> bool" and obj :: "'k \<Rightarrow> bool"
    and val :: "'s \<Rightarrow> 'k \<Rightarrow> 'f \<Rightarrow> 'v" and put :: "'k \<Rightarrow> 'f \<Rightarrow> 'v \<Rightarrow> 's \<Rightarrow> 's"
  assumes get_val: "ok s \<Longrightarrow> obj k \<Longrightarrow> get s k f = Inr (val s k f)"
    and sto_put: "ok s \<Longrightarrow> obj k \<Longrightarrow> sto k f v s = Inr (put k f v s)"
    and put_ok: "ok s \<Longrightarrow> obj k \<Longrightarrow> ok (put k f v s)"
    and put_val: "ok s \<Longrightarrow> obj k \<Longrightarrow> obj j \<Longrightarrow> val (put k f v s) j g = (if j = k \<and> g = f then v else val s j g)"
begin

text \<open>A row of assignments to one object: the last one to each field counts.\<close>

lemma puts_ok:
  assumes "ok s" "obj k"
  shows "ok (fold (\<lambda>(f, v). put k f v) fvs s)"
  using assms by (induction fvs arbitrary: s) (auto simp: put_ok)

lemma puts_val:
  assumes "ok s" "obj k" "obj j" "distinct (map fst fvs)"
  shows "val (fold (\<lambda>(f, v). put k f v) fvs s) j g =
    (if j = k then case map_of fvs g of Some v \<Rightarrow> v | None \<Rightarrow> val s j g else val s j g)"
  using assms
proof (induction fvs arbitrary: s)
  case (Cons fv fvs)
  obtain f v where fv: "fv = (f, v)" by (cases fv)
  have "map_of fvs f = None" using Cons.prems(4) by (simp add: fv map_of_eq_None_iff)
  then show ?case using Cons by (auto simp: fv put_ok put_val split: option.splits)
qed simp

lemma get_after_put:
  assumes "ok s" "obj k" "obj j"
  shows "kbind (sto k f v s) (\<lambda>t. get t j g) = Inr (if j = k \<and> g = f then v else val s j g)"
  using assms by (simp add: sto_put get_val put_ok put_val)

lemmas field_rules = get_val sto_put put_ok put_val

end

section \<open>Fields of a task\<close>

definition tword :: "'a heap_scheme \<Rightarrow> u32 \<Rightarrow> task_field \<Rightarrow> u32" where
  "tword s t f = heap_word s (t + task_off f)"

definition tput :: "u32 \<Rightarrow> task_field \<Rightarrow> u32 \<Rightarrow> 'a heap_scheme \<Rightarrow> 'a heap_scheme" where
  "tput t f v s = heap_put (t + task_off f) v s"

definition task_block :: "tile list \<Rightarrow> u32 \<Rightarrow> bool" where
  "task_block ts t \<longleftrightarrow> (\<exists>k \<ge> 36. (unat t, k) \<in> live ts)"

lemma task_off_less: "unat (task_off f) + 4 \<le> 36" "4 dvd unat (task_off f)"
  by (cases f; simp)+

lemma task_off_inject: "task_off f = task_off g \<longleftrightarrow> f = g"
  by (cases f; cases g; simp)

text \<open>A word of a block that is in use.\<close>

lemma block_word:
  fixes p c :: u32
  assumes h: "heap_rep s ts" and p: "(unat p, k) \<in> live ts" and c: "unat c + 4 \<le> k" "4 dvd unat c"
  shows "unat (p + c) = unat p + unat c" "aligned4 (p + c)" "in_use ts (p + c)"
proof -
  note R = rep_live_range [OF h p]
  have "unat p + unat c < 2 ^ 32" using R(1) c(1) by linarith
  then show u: "unat (p + c) = unat p + unat c" by (simp add: unat_word_ariths)
  have "4 dvd unat p" using R(1) dvd_trans [of 4 8 "unat p"] by simp
  then have "4 dvd unat (p + c)" unfolding u using c(2) by (rule dvd_add)
  then show "aligned4 (p + c)" by (simp add: take_bit_zero_iff)
  obtain b n where b: "(b, n, False) \<in> set (layout heap_base ts)" "unat p = b + 8" "k = n - 8"
    using p unfolding live_iff by blast
  then have "b + 8 \<le> unat (p + c)" "unat (p + c) < b + n" using u c(1) by linarith+
  then show "in_use ts (p + c)" unfolding in_use_def by (intro bexI [OF _ b(1)]) simp
qed

lemma task_word:
  assumes "heap_rep s ts" "task_block ts t"
  shows "unat (t + task_off f) = unat t + unat (task_off f)" "aligned4 (t + task_off f)" "in_use ts (t + task_off f)"
proof -
  obtain k where k: "36 \<le> k" "(unat t, k) \<in> live ts" using assms(2) unfolding task_block_def by blast
  have c: "unat (task_off f) + 4 \<le> k" using task_off_less(1) [of f] k(1) by linarith
  show "unat (t + task_off f) = unat t + unat (task_off f)" "aligned4 (t + task_off f)" "in_use ts (t + task_off f)"
    by (rule block_word [OF assms(1) k(2) c task_off_less(2)])+
qed

lemma block_words_apart:
  fixes p q c d :: u32
  assumes h: "heap_rep s ts" and p: "(unat p, k) \<in> live ts" "unat c + 4 \<le> k" "4 dvd unat c"
    and q: "(unat q, j) \<in> live ts" "unat d + 4 \<le> j" "4 dvd unat d"
  shows "p + c = q + d \<longleftrightarrow> p = q \<and> c = d"
proof
  assume e: "p + c = q + d"
  note P = block_word(1) [OF h p] and Q = block_word(1) [OF h q]
  have u: "unat p + unat c = unat q + unat d" using arg_cong [OF e, of unat] P Q by simp
  have "unat p = unat q" using rep_live_apart [OF h p(1) q(1)] u p(2) q(2) by auto
  with u show "p = q \<and> c = d" by (simp add: word_unat_eq_iff)
qed simp

lemma task_words_apart:
  assumes "heap_rep s ts" "task_block ts t" "task_block ts u"
  shows "t + task_off f = u + task_off g \<longleftrightarrow> t = u \<and> f = g"
proof -
  obtain k j where k: "36 \<le> k" "(unat t, k) \<in> live ts" and j: "36 \<le> j" "(unat u, j) \<in> live ts"
    using assms(2,3) unfolding task_block_def by blast
  have "unat (task_off f) + 4 \<le> k" "unat (task_off g) + 4 \<le> j"
    using task_off_less(1) [of f] task_off_less(1) [of g] k(1) j(1) by linarith+
  from block_words_apart [OF assms(1) k(2) this(1) task_off_less(2) j(2) this(2) task_off_less(2)]
  show ?thesis by (simp add: task_off_inject)
qed

interpretation tm: field_store tget tset "\<lambda>s. heap_rep s ts" "task_block ts" tword tput for ts
proof unfold_locales
  fix s :: "'a heap_scheme" and t u f g v
  assume s: "heap_rep s ts" and t: "task_block ts t"
  note W = task_word(2,3) [OF s t, of f]
  note R = rep_write_in_use [OF s W(2) W(1)]
  show "tget s t f = Inr (tword s t f)" using R(1) by (simp add: tget_def tword_def)
  show "tset t f v s = Inr (tput t f v s)" using R(2) by (simp add: tset_def tput_def)
  show "heap_rep (tput t f v s) ts" using R(3) by (simp add: tput_def)
  show "tword (tput t f v s) u g = (if u = t \<and> g = f then v else tword s u g)" if "task_block ts u"
    using R(4) task_words_apart [OF s that t] by (simp add: tword_def tput_def)
qed

lemma tsets_puts:
  assumes "heap_rep s ts" "task_block ts t"
  shows "tsets t fvs s = Inr (fold (\<lambda>(f, v). tput t f v) fvs s)"
  using assms by (induction t fvs s rule: tsets.induct) (auto simp: tm.field_rules)

lemma tput_fields [simp]:
  fixes s :: "'a sched_scheme"
  shows "task_list (tput t f v s) = task_list s" "current_task (tput t f v s) = current_task s"
    "next_pid (tput t f v s) = next_pid s" "tick (tput t f v s) = tick s" "cr3 (tput t f v s) = cr3 s"
    "io_log (tput t f v s) = io_log s" "tss_esp0 (tput t f v s) = tss_esp0 s" "paging (tput t f v s) = paging s"
    "heap_top (tput t f v s) = heap_top s" "current_page_directory (tput t f v s) = current_page_directory s"
  by (simp_all add: tput_def heap_put_def)

section \<open>The heap in other address spaces\<close>

definition heap_in :: "'a heap_scheme \<Rightarrow> u32 \<Rightarrow> bool" where
  "heap_in s pd \<longleftrightarrow> aligned_page pd \<and>
     (\<forall>v. in_heap s v \<longrightarrow> walk (phys_mem s) pd v = walk (phys_mem s) (cur s) v) \<and>
     (\<forall>v. in_heap s v \<longrightarrow> heap_frame s v AND 0xFFFFF000 \<notin> tables (phys_mem s) pd)"

lemma heap_only_fields:
  fixes s t :: "'a heap_scheme"
  assumes "heap_only s t"
  shows "heap_top t = heap_top s" "cr3 t = cr3 s" "paging t = paging s" "in_heap t = in_heap s" "heap.more t = heap.more s"
    "tick t = tick s" "io_log t = io_log s" "tss_esp0 t = tss_esp0 s"
proof -
  have e: "t\<lparr>phys_mem := phys_mem s, heap_free := heap_free s\<rparr> = s" using assms by (simp add: heap_only_def)
  show h: "heap_top t = heap_top s" and "cr3 t = cr3 s" "paging t = paging s" "heap.more t = heap.more s"
    "tick t = tick s" "io_log t = io_log s" "tss_esp0 t = tss_esp0 s"
    by (subst e [symmetric], simp)+
  show "in_heap t = in_heap s" by (simp add: in_heap_def fun_eq_iff h)
qed

lemma heap_only_sched:
  fixes s t :: "'a sched_scheme"
  assumes "heap_only s t"
  shows "task_list t = task_list s" "current_task t = current_task s" "next_pid t = next_pid s"
  using heap_only_fields(5) [OF assms] by (cases s; cases t; simp)+

lemma heap_in_only:
  fixes s t :: "'a heap_scheme"
  assumes o: "heap_only s t" and m: "heap_mapped s" and d: "heap_in s pd"
  shows "heap_in t pd"
proof -
  have cd: "tables (phys_mem s) (cur s) \<inter> heap_frames s = {}" using m by (auto simp: heap_mapped_def heap_frames_def)
  have c: "walk (phys_mem t) (cur s) = walk (phys_mem s) (cur s)" by (rule heap_only_tables(2) [OF o masked_aligned cd])
  have "aligned_page pd" "tables (phys_mem s) pd \<inter> heap_frames s = {}" using d by (auto simp: heap_in_def heap_frames_def)
  note p = heap_only_tables(2,3) [OF o this]
  have "heap_frame t = heap_frame s" by (simp add: heap_frame_def fun_eq_iff heap_only_fields(2) [OF o] c)
  then show ?thesis using d by (simp add: heap_in_def heap_only_fields(2,4) [OF o] c p)
qed

lemma heap_only_tput:
  assumes "heap_rep s ts" "task_block ts t"
  shows "heap_only s (tput t f v s)"
proof -
  have "t + task_off f \<in> heap_cells s" using in_use_cell [OF assms(1)] task_word(2,3) [OF assms] by blast
  from heap_only_put [OF _ this] show ?thesis using assms(1) by (simp add: tput_def heap_rep_def tiled_def)
qed

lemma heap_in_tput:
  assumes "heap_rep s ts" "task_block ts t" "heap_in s pd"
  shows "heap_in (tput t f v s) pd"
  using heap_in_only [OF heap_only_tput [OF assms(1,2)] _ assms(3)] assms(1) by (simp add: heap_rep_def tiled_def)

lemma switch_fields [simp]:
  fixes s :: "'a sched_scheme"
  shows "phys_mem (vmm_switch_address_space pd s) = phys_mem s" "heap_top (vmm_switch_address_space pd s) = heap_top s"
    "heap_free (vmm_switch_address_space pd s) = heap_free s" "paging (vmm_switch_address_space pd s) = paging s"
    "cr3 (vmm_switch_address_space pd s) = pd" "task_list (vmm_switch_address_space pd s) = task_list s"
    "current_task (vmm_switch_address_space pd s) = current_task s" "next_pid (vmm_switch_address_space pd s) = next_pid s"
    "tick (vmm_switch_address_space pd s) = tick s" "io_log (vmm_switch_address_space pd s) = io_log s"
    "tss_esp0 (vmm_switch_address_space pd s) = tss_esp0 s"
    "current_page_directory (vmm_switch_address_space pd s) = pd"
    "in_heap (vmm_switch_address_space pd s) = in_heap s" "heap_cells (vmm_switch_address_space pd s) = heap_cells s"
  by (simp_all add: vmm_switch_address_space_def in_heap_def heap_cells_def fun_eq_iff)

lemma switch_heap:
  fixes s :: "'a sched_scheme"
  assumes h: "heap_rep s ts" and d: "heap_in s pd"
  shows "heap_rep (vmm_switch_address_space pd s) ts" "heap_word (vmm_switch_address_space pd s) = heap_word s"
    "heap_in s q \<Longrightarrow> heap_in (vmm_switch_address_space pd s) q" "tword (vmm_switch_address_space pd s) = tword s"
proof -
  let ?t = "vmm_switch_address_space pd s"
  have c: "cur ?t = pd"
  proof -
    have "aligned_page pd" using d by (simp add: heap_in_def)
    then show ?thesis using base_plus_high [of 12 pd 0] by (simp add: page_mask)
  qed
  have w: "walk (phys_mem ?t) (cur ?t) v = walk (phys_mem s) (cur s) v" if "in_heap s v" for v
    unfolding c switch_fields(1) using d that by (simp add: heap_in_def)
  have f: "heap_frame ?t v = heap_frame s v" if "in_heap s v" for v using w [OF that] by (simp only: heap_frame_def)
  have m: "heap_mapped s" using h by (simp add: heap_rep_def tiled_def)
  have "heap_mapped ?t"
    unfolding heap_mapped_def switch_fields(4,2,13) c
  proof (intro conjI allI impI)
    show "paging s" "aligned_page (heap_top s)" using m by (simp_all add: heap_mapped_def)
    fix v assume v: "in_heap s v"
    show "walk (phys_mem ?t) pd v \<noteq> None" using w [OF v] m v unfolding c by (simp add: heap_mapped_def)
    show "heap_frame ?t v AND 0xFFFFF000 \<notin> tables (phys_mem ?t) pd"
      using d v f [OF v] by (simp add: heap_in_def)
    fix u assume "in_heap s u" "heap_frame ?t v = heap_frame ?t u"
    then show "v = u" using m v f by (simp add: heap_mapped_def)
  qed
  show W: "heap_word ?t = heap_word s"
    using f by (auto simp: heap_word_def fun_eq_iff heap_cells_def)
  show "heap_rep ?t ts" using h \<open>heap_mapped ?t\<close> W by (simp add: heap_rep_def tiled_def)
  show "heap_in ?t q" if "heap_in s q" using that w f by (simp add: heap_in_def)
  show "tword ?t = tword s" by (simp add: tword_def fun_eq_iff W)
qed

text \<open>The heap is seen through memory, the page directory and the two variables of heap.c.\<close>

lemma heap_view:
  fixes s t :: "'a heap_scheme"
  assumes "phys_mem t = phys_mem s" "cr3 t = cr3 s" "paging t = paging s" "heap_top t = heap_top s" "heap_free t = heap_free s"
  shows "heap_rep t ts = heap_rep s ts" "heap_word t = heap_word s" "heap_in t pd = heap_in s pd" "tword t = tword s"
proof -
  have i: "in_heap t = in_heap s" "heap_frame t = heap_frame s"
    unfolding in_heap_def heap_frame_def assms by (simp_all add: fun_eq_iff)
  then have c: "heap_cells t = heap_cells s" "heap_mapped t = heap_mapped s"
    using assms by (simp_all add: heap_cells_def heap_mapped_def)
  then show w: "heap_word t = heap_word s" unfolding heap_word_def assms i by (simp add: fun_eq_iff)
  show "heap_rep t ts = heap_rep s ts" using assms c w by (simp add: heap_rep_def tiled_def)
  show "heap_in t pd = heap_in s pd" using assms i by (simp add: heap_in_def)
  show "tword t = tword s" unfolding tword_def w by (simp add: fun_eq_iff)
qed

lemma heap_view_fields [simp]:
  fixes s :: "'a sched_scheme"
  shows "heap_rep (s\<lparr>task_list := x\<rparr>) ts = heap_rep s ts" "heap_rep (s\<lparr>current_task := x\<rparr>) ts = heap_rep s ts"
    "heap_rep (s\<lparr>next_pid := x\<rparr>) ts = heap_rep s ts" "heap_rep (s\<lparr>tick := x\<rparr>) ts = heap_rep s ts"
    "heap_rep (s\<lparr>io_log := z\<rparr>) ts = heap_rep s ts" "heap_rep (s\<lparr>tss_esp0 := x\<rparr>) ts = heap_rep s ts"
    "heap_in (s\<lparr>task_list := x\<rparr>) pd = heap_in s pd" "heap_in (s\<lparr>current_task := x\<rparr>) pd = heap_in s pd"
    "heap_in (s\<lparr>next_pid := x\<rparr>) pd = heap_in s pd" "heap_in (s\<lparr>tick := x\<rparr>) pd = heap_in s pd"
    "heap_in (s\<lparr>io_log := z\<rparr>) pd = heap_in s pd" "heap_in (s\<lparr>tss_esp0 := x\<rparr>) pd = heap_in s pd"
    "tword (s\<lparr>task_list := x\<rparr>) = tword s" "tword (s\<lparr>current_task := x\<rparr>) = tword s"
    "tword (s\<lparr>next_pid := x\<rparr>) = tword s" "tword (s\<lparr>tick := x\<rparr>) = tword s"
    "tword (s\<lparr>io_log := z\<rparr>) = tword s" "tword (s\<lparr>tss_esp0 := x\<rparr>) = tword s"
  by (rule heap_view; simp)+

end
