(* ===== verification/Sched_Ring.thy ===== *)
theory Sched_Ring
  imports Task_Memory
begin

text \<open>
  The ring of tasks. \<open>sched_ok s ts R\<close> is the invariant of the scheduler: the tasks \<open>R\<close>, in the
  order of their links from \<^verbatim>\<open>task_list\<close> on, are distinct blocks of the heap whose next fields close a
  ring, the current task is one of them, and the address space of each maps the heap. The loops of
  sched.c along the ring end, and find what a search in \<open>R\<close> finds; the operations keep the
  invariant.
\<close>

section \<open>Rings\<close>

fun path :: "('a \<Rightarrow> 'a) \<Rightarrow> 'a \<Rightarrow> 'a list \<Rightarrow> bool" where
  "path nx a [] \<longleftrightarrow> True"
| "path nx a (u # us) \<longleftrightarrow> nx a = u \<and> path nx u us"

definition ring :: "('a \<Rightarrow> 'a) \<Rightarrow> 'a list \<Rightarrow> bool" where
  "ring nx R \<longleftrightarrow> R = [] \<or> path nx (last R) R"

text \<open>The ring as it is met when one starts behind \<open>c\<close>.\<close>

definition after :: "'a \<Rightarrow> 'a list \<Rightarrow> 'a list" where
  "after c R = tl (dropWhile (\<lambda>t. t \<noteq> c) R) @ takeWhile (\<lambda>t. t \<noteq> c) R @ [c]"

lemma path_append: "path nx a (us @ vs) \<longleftrightarrow> path nx a us \<and> path nx (last (a # us)) vs"
  by (induction us arbitrary: a) auto

lemma path_cong: "(\<And>x. x \<in> insert a (set (butlast us)) \<Longrightarrow> ny x = nx x) \<Longrightarrow> path ny a us = path nx a us"
proof (induction us arbitrary: a)
  case (Cons u us)
  then show ?case by (cases us) auto
qed simp

lemma ring_rotate: "ring nx (us @ vs) \<longleftrightarrow> ring nx (vs @ us)"
  by (cases "us = []"; cases "vs = []") (auto simp: ring_def path_append)

lemma ring_cong: "(\<And>x. x \<in> set R \<Longrightarrow> ny x = nx x) \<Longrightarrow> ring ny R = ring nx R"
  unfolding ring_def by (cases "R = []") (auto intro!: path_cong dest: in_set_butlastD)

lemma ring_single: "ring nx [t] \<longleftrightarrow> nx t = t"
  by (simp add: ring_def)

lemma after_split:
  assumes "c \<notin> set us"
  shows "after c (us @ c # vs) = vs @ us @ [c]"
proof -
  have "dropWhile (\<lambda>t. t \<noteq> c) (us @ c # vs) = c # vs" "takeWhile (\<lambda>t. t \<noteq> c) (us @ c # vs) = us"
    using assms by (induction us) auto
  then show ?thesis by (simp add: after_def)
qed

lemma ring_after:
  assumes "ring nx (us @ c # vs)"
  shows "path nx c (vs @ us @ [c])"
proof -
  have "ring nx ((vs @ us) @ [c])" using assms ring_rotate [of nx "us @ [c]" vs] by (simp add: ring_rotate [of nx "[c]" "_ @ _"])
  then show ?thesis by (simp add: ring_def)
qed

lemma after_facts:
  assumes "c \<in> set R" "distinct R"
  shows "set (after c R) = set R" "length (after c R) = length R" "distinct (after c R)"
    "\<exists>us. after c R = us @ [c] \<and> c \<notin> set us"
proof -
  obtain us vs where R: "R = us @ c # vs" "c \<notin> set us" using split_list_first [OF assms(1)] by blast
  note a = after_split [OF R(2), of vs]
  show "set (after c R) = set R" "length (after c R) = length R" "distinct (after c R)"
    using assms(2) unfolding R(1) a by auto
  show "\<exists>us. after c R = us @ [c] \<and> c \<notin> set us"
    using assms(2) unfolding R(1) a by (intro exI [of _ "vs @ us"]) auto
qed

lemma ring_path: "ring nx R \<Longrightarrow> c \<in> set R \<Longrightarrow> path nx c (after c R)"
  using split_list_first [of c R] ring_after [of nx] after_split [of c] by metis

section \<open>The invariant\<close>

definition running :: "'a heap_scheme \<Rightarrow> u32 \<Rightarrow> bool" where
  "running s t \<longleftrightarrow> tword s t T_state = TASK_RUNNING"

definition sched_ok :: "'a sched_scheme \<Rightarrow> tile list \<Rightarrow> u32 list \<Rightarrow> bool" where
  "sched_ok s ts R \<longleftrightarrow> heap_rep s ts \<and> distinct R \<and> (\<forall>t\<in>set R. task_block ts t) \<and>
     ring (\<lambda>t. tword s t T_next) R \<and> task_list s = (if R = [] then 0 else hd R) \<and>
     (current_task s \<noteq> 0 \<longrightarrow> current_task s \<in> set R) \<and>
     (\<forall>t\<in>set R. tword s t T_page_dir \<noteq> 0 \<longrightarrow> heap_in s (tword s t T_page_dir))"

lemma sched_okD:
  assumes "sched_ok s ts R"
  shows "heap_rep s ts" "distinct R" "\<And>t. t \<in> set R \<Longrightarrow> task_block ts t" "ring (\<lambda>t. tword s t T_next) R"
    "R \<noteq> [] \<Longrightarrow> task_list s = hd R" "R = [] \<Longrightarrow> task_list s = 0" "current_task s \<noteq> 0 \<Longrightarrow> current_task s \<in> set R"
    "\<And>t. t \<in> set R \<Longrightarrow> tword s t T_page_dir \<noteq> 0 \<Longrightarrow> heap_in s (tword s t T_page_dir)"
  using assms by (auto simp: sched_ok_def)

lemma task_block_nonzero:
  assumes "heap_rep s ts" "task_block ts t"
  shows "t \<noteq> 0"
proof -
  obtain k where "(unat t, k) \<in> live ts" using assms(2) by (auto simp: task_block_def)
  from rep_live_range(2) [OF assms(1) this] show ?thesis by auto
qed

lemma distinct_u32_bound: "distinct (R :: u32 list) \<Longrightarrow> length R < list_bound"
  using card_mono [of UNIV "set R"] by (simp add: distinct_card card_word list_bound_def)

text \<open>Only fields of tasks have changed.\<close>

definition tasks_only :: "tile list \<Rightarrow> 'a sched_scheme \<Rightarrow> 'a sched_scheme \<Rightarrow> bool" where
  "tasks_only ts s t \<longleftrightarrow> heap_rep t ts \<and> heap_only s t \<and> t\<lparr>phys_mem := phys_mem s\<rparr> = s \<and> (\<forall>pd. heap_in s pd \<longrightarrow> heap_in t pd)"

lemma tasks_only_refl: "heap_rep s ts \<Longrightarrow> tasks_only ts s s"
  by (simp add: tasks_only_def heap_only_refl)

lemma tasks_only_trans:
  assumes "tasks_only ts s t" "tasks_only ts t u"
  shows "tasks_only ts s u"
proof -
  have "u\<lparr>phys_mem := phys_mem s\<rparr> = u\<lparr>phys_mem := phys_mem t\<rparr>\<lparr>phys_mem := phys_mem s\<rparr>" by simp
  also have "\<dots> = s" using assms by (simp only: tasks_only_def)
  finally show ?thesis using assms heap_only_trans [of s t u] by (simp add: tasks_only_def)
qed

lemma tasks_only_tput:
  assumes "heap_rep s ts" "task_block ts x"
  shows "tasks_only ts s (tput x f v s)"
  unfolding tasks_only_def using assms tm.put_ok heap_in_tput heap_only_tput by (auto simp: tput_def heap_put_def)

lemma tasks_only_fields:
  assumes "tasks_only ts s t"
  shows "task_list t = task_list s" "current_task t = current_task s" "next_pid t = next_pid s" "tick t = tick s"
    "cr3 t = cr3 s" "io_log t = io_log s" "tss_esp0 t = tss_esp0 s" "heap_top t = heap_top s" "paging t = paging s"
    "current_page_directory t = current_page_directory s"
proof -
  have e: "t\<lparr>phys_mem := phys_mem s\<rparr> = s" using assms by (simp add: tasks_only_def)
  show "task_list t = task_list s" "current_task t = current_task s" "next_pid t = next_pid s" "tick t = tick s"
    "cr3 t = cr3 s" "io_log t = io_log s" "tss_esp0 t = tss_esp0 s" "heap_top t = heap_top s" "paging t = paging s"
    "current_page_directory t = current_page_directory s"
    by (subst e [symmetric], simp)+
qed

lemma sched_ok_update:
  assumes "sched_ok s ts R" "tasks_only ts s t"
    and "\<And>x. x \<in> set R \<Longrightarrow> tword t x T_next = tword s x T_next"
    and "\<And>x. x \<in> set R \<Longrightarrow> tword t x T_page_dir = tword s x T_page_dir"
  shows "sched_ok t ts R"
  using assms ring_cong [of R "\<lambda>x. tword t x T_next" "\<lambda>x. tword s x T_next"]
  by (auto simp: sched_ok_def tasks_only_fields [OF assms(2)] tasks_only_def)

section \<open>Choosing the next task\<close>

lemma pick_loop_path:
  assumes h: "heap_rep s ts" and b: "\<forall>x\<in>insert t (insert start (set us)). task_block ts x"
    and p: "path (\<lambda>x. tword s x T_next) t (us @ [start])" and u: "start \<notin> set us" and n: "length us < n"
  shows "pick_loop n start t s = Inr (case find (running s) (us @ [start]) of None \<Rightarrow> 0 | Some x \<Rightarrow> x)"
  using b p u n
proof (induction us arbitrary: t n)
  case Nil
  then obtain k where "n = Suc k" by (cases n) auto
  with Nil show ?case by (simp add: tm.get_val [OF h] flip: running_def)
next
  case (Cons x us)
  then obtain k where n: "n = Suc k" by (cases n) auto
  have "pick_loop k start x s = Inr (case find (running s) (us @ [start]) of None \<Rightarrow> 0 | Some y \<Rightarrow> y)"
    using Cons.prems n by (intro Cons.IH) auto
  then show ?case using Cons.prems by (auto simp: n tm.get_val [OF h] simp flip: running_def)
qed

definition start_task :: "'a sched_scheme \<Rightarrow> u32 list \<Rightarrow> u32" where
  "start_task s R = (if current_task s \<noteq> 0 then current_task s else hd R)"

text \<open>The task that runs next: the first running one behind the current task.\<close>

definition next_running :: "'a sched_scheme \<Rightarrow> u32 list \<Rightarrow> u32 option" where
  "next_running s R = (if R = [] then None else find (running s) (after (start_task s R) R))"

lemma start_in_ring: "sched_ok s ts R \<Longrightarrow> R \<noteq> [] \<Longrightarrow> start_task s R \<in> set R"
  using sched_okD(7) [of s ts R] by (auto simp: start_task_def)

lemma pick_next_ok:
  assumes s: "sched_ok s ts R"
  shows "pick_next_task s = Inr (case next_running s R of None \<Rightarrow> 0 | Some x \<Rightarrow> x)"
proof (cases "R = []")
  case True
  then show ?thesis using sched_okD(6) [OF s] by (simp add: pick_next_task_def next_running_def)
next
  case False
  note D = sched_okD [OF s]
  let ?c = "start_task s R"
  have c: "?c \<in> set R" by (rule start_in_ring [OF s False])
  note A = after_facts [OF c D(2)]
  obtain us where us: "after ?c R = us @ [?c]" "?c \<notin> set us" using A(4) by blast
  have "pick_loop list_bound ?c ?c s = Inr (case find (running s) (us @ [?c]) of None \<Rightarrow> 0 | Some x \<Rightarrow> x)"
  proof (rule pick_loop_path [OF D(1)])
    show "\<forall>x\<in>insert ?c (insert ?c (set us)). task_block ts x" using D(3) A(1) us(1) c by auto
    show "path (\<lambda>x. tword s x T_next) ?c (us @ [?c])" using ring_path [OF D(4) c] us(1) by simp
    show "length us < list_bound" using distinct_u32_bound [OF D(2)] A(2) us(1) by simp
  qed (rule us)
  moreover have "task_list s \<noteq> 0" using D(5) [OF False] task_block_nonzero [OF D(1) D(3) [of "hd R"]] False by simp
  moreover have "(if current_task s \<noteq> 0 then current_task s else task_list s) = ?c"
    using D(5) [OF False] by (simp add: start_task_def)
  ultimately show ?thesis using us(1) False by (simp only: pick_next_task_def next_running_def Let_def if_False)
qed

lemma next_running_in: "sched_ok s ts R \<Longrightarrow> next_running s R = Some x \<Longrightarrow> x \<in> set R \<and> running s x"
  using after_facts(1) [OF start_in_ring] sched_okD(2)
  by (fastforce simp: next_running_def find_Some_iff split: if_splits)

section \<open>Switching\<close>

definition switched :: "u32 \<Rightarrow> 'a sched_scheme \<Rightarrow> 'a sched_scheme" where
  "switched x s =
    (let t = s\<lparr>current_task := x, tss_esp0 := tword s x T_stack_top\<rparr>
     in if tword s x T_page_dir \<noteq> 0 then vmm_switch_address_space (tword s x T_page_dir) t else t)"

lemma switch_to_ok:
  assumes s: "sched_ok s ts R" and x: "x \<in> set R"
  shows "switch_to x s = Inr (Resumes (tword s x T_stack), switched x s)" "sched_ok (switched x s) ts R"
    "tword (switched x s) = tword s" "heap_in s q \<Longrightarrow> heap_in (switched x s) q"
proof -
  note D = sched_okD [OF s]
  let ?u = "s\<lparr>current_task := x, tss_esp0 := tword s x T_stack_top\<rparr>"
  have u: "heap_rep ?u ts" "tword ?u = tword s" "\<And>q. heap_in ?u q = heap_in s q" using D(1) by simp_all
  have "heap_rep (switched x s) ts \<and> tword (switched x s) = tword s \<and> (\<forall>q. heap_in s q \<longrightarrow> heap_in (switched x s) q)"
  proof (cases "tword s x T_page_dir = 0")
    case True
    then show ?thesis using u by (simp add: switched_def)
  next
    case False
    then have i: "heap_in ?u (tword s x T_page_dir)" using D(8) [OF x] u(3) by simp
    let ?t = "vmm_switch_address_space (tword s x T_page_dir) ?u"
    have "switched x s = ?t" using False by (simp add: switched_def)
    then show ?thesis using switch_heap(1,3,4) [OF u(1) i] u(2,3) by simp
  qed
  then have w: "heap_rep (switched x s) ts" and T: "tword (switched x s) = tword s"
    and H: "\<And>q. heap_in s q \<Longrightarrow> heap_in (switched x s) q" by blast+
  show "tword (switched x s) = tword s" by (rule T)
  show "heap_in (switched x s) q" if "heap_in s q" by (rule H [OF that])
  have f: "task_list (switched x s) = task_list s" "current_task (switched x s) = x" by (simp_all add: switched_def Let_def)
  show "sched_ok (switched x s) ts R" using s w T H x by (auto simp: sched_ok_def f)
  note b = D(3) [OF x]
  have "tget (s\<lparr>current_task := x\<rparr>) x f = Inr (tword s x f)" "tget ?u x f = Inr (tword s x f)" for f
    using tm.get_val [OF _ b, of "s\<lparr>current_task := x\<rparr>" f] tm.get_val [OF u(1) b, of f] D(1) u(2) by simp_all
  moreover have "tget (switched x s) x T_stack = Inr (tword s x T_stack)" using tm.get_val [OF w b] T by simp
  ultimately show "switch_to x s = Inr (Resumes (tword s x T_stack), switched x s)"
    by (auto simp: switch_to_def switched_def tss_set_esp0_def Let_def)
qed

lemma switched_fields [simp]:
  "current_task (switched x s) = x" "task_list (switched x s) = task_list s" "tick (switched x s) = tick s"
  "next_pid (switched x s) = next_pid s" "io_log (switched x s) = io_log s"
  "tss_esp0 (switched x s) = tword s x T_stack_top"
  "cr3 (switched x s) = (if tword s x T_page_dir \<noteq> 0 then tword s x T_page_dir else cr3 s)"
  by (simp_all add: switched_def Let_def)

section \<open>Waking sleepers\<close>

definition due :: "'a sched_scheme \<Rightarrow> u32 \<Rightarrow> bool" where
  "due s t \<longleftrightarrow> tword s t T_state = TASK_SLEEPING \<and> tword s t T_wakeup_tick \<le> tick s"

definition wake :: "u32 \<Rightarrow> 'a sched_scheme \<Rightarrow> 'a sched_scheme" where
  "wake t s = (if due s t then tput t T_state TASK_RUNNING s else s)"

lemma wake_effect:
  assumes h: "heap_rep s ts" and t: "task_block ts t"
  shows "tasks_only ts s (wake t s)"
    "task_block ts x \<Longrightarrow> tword (wake t s) x f = (if x = t \<and> f = T_state \<and> due s t then TASK_RUNNING else tword s x f)"
  using tasks_only_tput [OF h t] tasks_only_refl [OF h] tm.put_val [OF h t] by (auto simp: wake_def)

lemma wakes_effect:
  assumes "heap_rep s ts" "\<forall>t\<in>set us. task_block ts t" "distinct us"
  shows "tasks_only ts s (fold wake us s)"
    "task_block ts x \<Longrightarrow> tword (fold wake us s) x f =
      (if f = T_state \<and> x \<in> set us \<and> due s x then TASK_RUNNING else tword s x f)"
proof -
  have "tasks_only ts s (fold wake us s) \<and> (\<forall>x f. task_block ts x \<longrightarrow> tword (fold wake us s) x f =
      (if f = T_state \<and> x \<in> set us \<and> due s x then TASK_RUNNING else tword s x f))"
    using assms
  proof (induction us arbitrary: s)
    case Nil
    then show ?case by (simp add: tasks_only_refl)
  next
    case (Cons t us)
    have t: "task_block ts t" using Cons.prems by simp
    note W = wake_effect [OF Cons.prems(1) t]
    have h: "heap_rep (wake t s) ts" using W(1) by (simp add: tasks_only_def)
    from Cons.IH [OF h] Cons.prems have IH: "tasks_only ts (wake t s) (fold wake us (wake t s))"
      "\<And>x f. task_block ts x \<Longrightarrow> tword (fold wake us (wake t s)) x f =
        (if f = T_state \<and> x \<in> set us \<and> due (wake t s) x then TASK_RUNNING else tword (wake t s) x f)" by auto
    have d: "due (wake t s) x = due s x" if "x \<in> set us" for x
      using that Cons.prems W(2) tasks_only_fields(4) [OF W(1)] by (auto simp: due_def)
    show ?case using tasks_only_trans [OF W(1) IH(1)] IH(2) W(2) d Cons.prems(3) by auto
  qed
  then show "tasks_only ts s (fold wake us s)"
    "task_block ts x \<Longrightarrow> tword (fold wake us s) x f =
      (if f = T_state \<and> x \<in> set us \<and> due s x then TASK_RUNNING else tword s x f)" by auto
qed

lemma wake_body:
  assumes "heap_rep s ts" "task_block ts t"
  shows "kbind (tget s t T_state) (\<lambda>st. kbind (if st = TASK_SLEEPING
      then kbind (tget s t T_wakeup_tick) (\<lambda>w. if w \<le> tick s then tset t T_state TASK_RUNNING s else Inr s)
      else Inr s) f) = f (wake t s)"
  using assms by (simp add: tm.field_rules wake_def due_def)

lemma wake_loop_path:
  assumes "heap_rep s ts" "\<forall>x\<in>insert t (set us). task_block ts x"
    and "path (\<lambda>x. tword s x T_next) t (us @ [task_list s])" "task_list s \<notin> set us" "length us < n"
  shows "wake_loop n t s = Inr (fold wake (t # us) s)"
  using assms
proof (induction us arbitrary: t n s)
  case Nil
  then obtain k where n: "n = Suc k" by (cases n) auto
  have t: "task_block ts t" using Nil by simp
  note W = wake_effect [OF Nil(1) t]
  have h: "heap_rep (wake t s) ts" using W(1) by (simp add: tasks_only_def)
  have "tget (wake t s) t T_next = Inr (task_list s)" using tm.get_val [OF h t] W(2) [OF t] Nil(3) by simp
  then show ?case using tasks_only_fields(1) [OF W(1)]
    by (simp add: n wake_body [OF Nil(1) t])
next
  case (Cons x us)
  then obtain k where n: "n = Suc k" by (cases n) auto
  have t: "task_block ts t" "task_block ts x" using Cons.prems by auto
  note W = wake_effect [OF Cons.prems(1) t(1)]
  have h: "heap_rep (wake t s) ts" using W(1) by (simp add: tasks_only_def)
  have g: "tget (wake t s) t T_next = Inr x" using tm.get_val [OF h t(1)] W(2) [OF t(1)] Cons.prems(3) by simp
  have l: "task_list (wake t s) = task_list s" by (rule tasks_only_fields(1) [OF W(1)])
  have "wake_loop k x (wake t s) = Inr (fold wake (x # us) (wake t s))"
  proof (rule Cons.IH [OF h])
    show "path (\<lambda>y. tword (wake t s) y T_next) x (us @ [task_list (wake t s)])"
      using Cons.prems(2,3) W(2) by (subst path_cong [of _ _ _ "\<lambda>y. tword s y T_next"]) (auto simp: l butlast_append)
  qed (use Cons.prems n l in auto)
  then show ?case using g l Cons.prems(4) by (auto simp: n wake_body [OF Cons.prems(1) t(1)])
qed

end
