(* ===== verification/Sched_Timer.thy ===== *)
theory Sched_Timer
  imports Sched_Ring
begin

text \<open>
  The timer interrupt. \<open>sched_tick\<close> wakes the sleepers that are due, saves the interrupted
  context and resumes the first running task behind the current one in the ring. Over a row of timer
  interrupts every running task gets its turn within as many interrupts as there are tasks.
\<close>

section \<open>One interrupt\<close>

definition saved :: "u32 \<Rightarrow> 'a sched_scheme \<Rightarrow> 'a sched_scheme" where
  "saved r s = (if current_task s \<noteq> 0 \<and> running s (current_task s) then tput (current_task s) T_stack r s else s)"

text \<open>The state in which the next task is chosen.\<close>

definition before_pick :: "u32 \<Rightarrow> 'a sched_scheme \<Rightarrow> u32 list \<Rightarrow> 'a sched_scheme" where
  "before_pick r s R = saved r (fold wake R (s\<lparr>tick := tick s + 1\<rparr>))"

lemma sched_ok_fields [simp]:
  "sched_ok (s\<lparr>tick := x\<rparr>) ts R = sched_ok s ts R" "sched_ok (s\<lparr>io_log := y\<rparr>) ts R = sched_ok s ts R"
  "sched_ok (s\<lparr>next_pid := x\<rparr>) ts R = sched_ok s ts R"
  by (simp_all add: sched_ok_def)

lemma saved_effect:
  assumes s: "sched_ok s ts R"
  shows "tasks_only ts s (saved r s)" "sched_ok (saved r s) ts R"
    "x \<in> set R \<Longrightarrow> tword (saved r s) x f = (if f = T_stack \<and> x = current_task s \<and> running s x then r else tword s x f)"
proof -
  note D = sched_okD [OF s]
  have b: "task_block ts (current_task s)" if "current_task s \<noteq> 0" using D(3,7) that by blast
  show o: "tasks_only ts s (saved r s)" using tasks_only_tput [OF D(1) b] tasks_only_refl [OF D(1)] by (auto simp: saved_def)
  show w: "tword (saved r s) x f = (if f = T_stack \<and> x = current_task s \<and> running s x then r else tword s x f)"
    if "x \<in> set R" for x f
    using tm.put_val [OF D(1) b D(3) [OF that]] task_block_nonzero [OF D(1) D(3) [OF that]] by (auto simp: saved_def)
  show "sched_ok (saved r s) ts R" by (rule sched_ok_update [OF s o]) (simp_all add: w)
qed

lemma before_pick_effect:
  assumes s: "sched_ok s ts R"
  shows "sched_ok (before_pick r s R) ts R" "tick (before_pick r s R) = tick s + 1"
    "current_task (before_pick r s R) = current_task s" "io_log (before_pick r s R) = io_log s"
    "cr3 (before_pick r s R) = cr3 s" "next_pid (before_pick r s R) = next_pid s"
    "x \<in> set R \<Longrightarrow> tword (before_pick r s R) x f =
      (if f = T_state \<and> tword s x T_state = TASK_SLEEPING \<and> tword s x T_wakeup_tick \<le> tick s + 1 then TASK_RUNNING
       else if f = T_stack \<and> x = current_task s \<and> running (before_pick r s R) x then r else tword s x f)"
proof -
  let ?s = "s\<lparr>tick := tick s + 1\<rparr>" and ?t = "fold wake R (s\<lparr>tick := tick s + 1\<rparr>)"
  have k: "sched_ok ?s ts R" using s by simp
  note D = sched_okD [OF k]
  have bl: "\<forall>t\<in>set R. task_block ts t" using D(3) by blast
  note W = wakes_effect [OF D(1) bl D(2)]
  have t: "sched_ok ?t ts R" by (rule sched_ok_update [OF k W(1)]) (simp_all add: W(2) D(3))
  note S = saved_effect [OF t, where r = r] and F = tasks_only_fields [OF W(1)]
  show "sched_ok (before_pick r s R) ts R" using S(2) by (simp add: before_pick_def)
  show "tick (before_pick r s R) = tick s + 1" "current_task (before_pick r s R) = current_task s"
    "io_log (before_pick r s R) = io_log s" "cr3 (before_pick r s R) = cr3 s" "next_pid (before_pick r s R) = next_pid s"
    using tasks_only_fields [OF S(1)] F by (simp_all add: before_pick_def)
  have ru: "running (before_pick r s R) x = running ?t x" if "x \<in> set R" for x
    using S(3) [OF that] by (simp add: running_def before_pick_def)
  show "tword (before_pick r s R) x f =
      (if f = T_state \<and> tword s x T_state = TASK_SLEEPING \<and> tword s x T_wakeup_tick \<le> tick s + 1 then TASK_RUNNING
       else if f = T_stack \<and> x = current_task s \<and> running (before_pick r s R) x then r else tword s x f)"
    if x: "x \<in> set R"
  proof -
    have w: "tword ?t x f = (if f = T_state \<and> tword s x T_state = TASK_SLEEPING \<and> tword s x T_wakeup_tick \<le> tick s + 1
        then TASK_RUNNING else tword s x f)" using W(2) [OF D(3) [OF x], of f] x by (simp add: due_def)
    have "tword (before_pick r s R) x f = (if f = T_stack \<and> x = current_task s \<and> running ?t x then r else tword ?t x f)"
      using S(3) [OF x, of f] F(2) by (simp add: before_pick_def)
    with w show ?thesis unfolding ru [OF x] by (cases f) (auto split: if_splits)
  qed
qed

lemma sched_tick_steps:
  assumes s: "sched_ok s ts R" and R: "R \<noteq> []"
  shows "sched_tick r s = Inr (case next_running (before_pick r s R) R of
    None \<Rightarrow> (Returns, before_pick r s R)
  | Some x \<Rightarrow> (Resumes (tword (before_pick r s R) x T_stack), switched x (outb 0x20 0x20 (before_pick r s R))))"
proof -
  let ?s = "s\<lparr>tick := tick s + 1\<rparr>" and ?t = "fold wake R (s\<lparr>tick := tick s + 1\<rparr>)" and ?b = "before_pick r s R"
  have k: "sched_ok ?s ts R" using s by simp
  note D = sched_okD [OF k]
  have bl: "\<forall>t\<in>set R. task_block ts t" using D(3) by blast
  note W = wakes_effect [OF D(1) bl D(2)]
  obtain h us where hus: "R = h # us" using R by (cases R) auto
  have l: "task_list ?s = h" "h \<noteq> 0" using D(5) R task_block_nonzero [OF D(1) D(3) [of h]] by (simp_all add: hus)
  have "path (\<lambda>x. tword ?s x T_next) h (us @ [h])" using ring_path [OF D(4), of h] after_split [of h "[]" us] by (simp add: hus)
  then have loop: "wake_loop list_bound h ?s = Inr ?t"
    using wake_loop_path [OF D(1), of h us list_bound] bl D(2) l distinct_u32_bound [OF D(2)] by (simp add: hus)
  have t: "sched_ok ?t ts R" by (rule sched_ok_update [OF k W(1)]) (simp_all add: W(2) D(3))
  note T = sched_okD [OF t]
  have save: "(if current_task ?t \<noteq> 0 then kbind (tget ?t (current_task ?t) T_state) (\<lambda>st.
      if st = TASK_RUNNING then tset (current_task ?t) T_stack r ?t else Inr ?t) else Inr ?t) = Inr ?b"
  proof (cases "current_task ?t = 0")
    case False
    then have "task_block ts (current_task ?t)" using T(3,7) by blast
    then show ?thesis using False tm.field_rules [OF T(1)] by (simp add: before_pick_def saved_def running_def)
  qed (simp add: before_pick_def saved_def)
  have b: "sched_ok ?b ts R" by (rule before_pick_effect(1) [OF s])
  have o: "sched_ok (outb 0x20 0x20 ?b) ts R" using b by (simp add: outb_def)
  have w: "tword (outb 0x20 0x20 ?b) = tword ?b" by (simp add: outb_def)
  have p: "pick_next_task ?b = Inr (case next_running ?b R of None \<Rightarrow> 0 | Some x \<Rightarrow> x)" by (rule pick_next_ok [OF b])
  have tick: "sched_tick r s = kbind (pick_next_task ?b) (\<lambda>next.
      if next \<noteq> 0 then switch_to next (outb 0x20 0x20 ?b) else Inr (Returns, ?b))"
    using l loop save by (simp add: sched_tick_def Let_def)
  show ?thesis
  proof (cases "next_running ?b R")
    case None
    then show ?thesis using tick p by simp
  next
    case (Some x)
    then have x: "x \<in> set R" "x \<noteq> 0"
      using next_running_in [OF b] task_block_nonzero [OF D(1) D(3)] by blast+
    then show ?thesis using tick p Some switch_to_ok(1) [OF o x(1)] w by simp
  qed
qed

lemma next_running_same:
  assumes "current_task t = current_task s"
  shows "next_running t R = (if R = [] then None else find (running t) (after (start_task s R) R))"
  using assms by (simp add: next_running_def start_task_def)

lemma sched_tick_effect:
  assumes s: "sched_ok s ts R" and R: "R \<noteq> []"
  shows "\<exists>fl t. sched_tick r s = Inr (fl, t) \<and> sched_ok t ts R \<and> tick t = tick s + 1 \<and>
    (\<forall>x\<in>set R. \<forall>f. tword t x f =
      (if f = T_state \<and> tword s x T_state = TASK_SLEEPING \<and> tword s x T_wakeup_tick \<le> tick s + 1 then TASK_RUNNING
       else if f = T_stack \<and> x = current_task s \<and> running t x then r else tword s x f)) \<and>
    (case find (running t) (after (start_task s R) R) of
       None \<Rightarrow> fl = Returns \<and> current_task t = current_task s \<and> cr3 t = cr3 s \<and> io_log t = io_log s
     | Some x \<Rightarrow> fl = Resumes (tword t x T_stack) \<and> current_task t = x \<and> tss_esp0 t = tword s x T_stack_top \<and>
         cr3 t = (if tword s x T_page_dir \<noteq> 0 then tword s x T_page_dir else cr3 s) \<and>
         io_log t = Outb 0x20 0x20 # io_log s)"
proof -
  let ?b = "before_pick r s R"
  note B = before_pick_effect [OF s, where r = r]
  have n: "next_running ?b R = find (running ?b) (after (start_task s R) R)"
    using next_running_same [OF B(3)] R by simp
  show ?thesis
  proof (cases "next_running ?b R")
    case None
    then show ?thesis using sched_tick_steps [OF s R, of r] B n by (intro exI [of _ Returns] exI [of _ ?b]) simp
  next
    case (Some x)
    let ?t = "switched x (outb 0x20 0x20 ?b)"
    have x: "x \<in> set R" using next_running_in [OF B(1) Some] by blast
    have o: "sched_ok (outb 0x20 0x20 ?b) ts R" "tword (outb 0x20 0x20 ?b) = tword ?b" using B(1) by (simp_all add: outb_def)
    note S = switch_to_ok(2,3) [OF o(1) x, unfolded o(2)]
    have r: "running ?t = running ?b" using S(2) by (simp add: running_def fun_eq_iff)
    have fx: "find (running ?b) (after (start_task s R) R) = Some x" using n Some by simp
    have f: "cr3 (outb 0x20 0x20 ?b) = cr3 s" using B(5) by (simp add: outb_def)
    have "tword ?b x T_stack_top = tword s x T_stack_top" "tword ?b x T_page_dir = tword s x T_page_dir"
      using B(7) [OF x] by simp_all
    then show ?thesis
      using sched_tick_steps [OF s R, of r, unfolded Some] S B(2,4,7) fx r f o(2)
      by (intro exI [of _ "Resumes (tword ?b x T_stack)"] exI [of _ ?t]) (simp del: fun_upd_apply)
  qed
qed

section \<open>Many interrupts\<close>

text \<open>Timer interrupts with the frames \<open>rs\<close>, one after the other; the tasks that were current after each.\<close>

fun timer_run :: "u32 list \<Rightarrow> 'a sched_scheme \<Rightarrow> (u32 list \<times> 'a sched_scheme) kres" where
  "timer_run [] s = Inr ([], s)"
| "timer_run (r # rs) s =
    kbind (sched_tick r s) (\<lambda>(fl, s). kbind (timer_run rs s) (\<lambda>(cs, t). Inr (current_task s # cs, t)))"

lemma after_rotate:
  assumes "distinct (us @ vs)" "y \<in> set (us @ vs)"
  shows "after y (us @ vs) = after y (vs @ us)"
proof -
  have *: "after y (as @ bs) = after y (bs @ as)" if d: "distinct (as @ bs)" "y \<in> set as" for as bs
  proof -
    obtain a b where s: "as = a @ y # b" "y \<notin> set a" using split_list_first [OF d(2)] by blast
    have "y \<notin> set (bs @ a)" using d s by auto
    from after_split [OF this, of b] after_split [OF s(2), of "b @ bs"] show ?thesis by (simp add: s)
  qed
  have "distinct (vs @ us)" using assms(1) by auto
  then show ?thesis using assms * [of us vs] * [of vs us] by (metis Un_iff set_append)
qed

lemma after_after:
  assumes "distinct R" "c \<in> set R" "after c R = as @ y # bs"
  shows "after y R = bs @ as @ [y]"
proof -
  obtain p q where R: "R = p @ c # q" "c \<notin> set p" using split_list_first [OF assms(2)] by blast
  have a: "after c R = q @ p @ [c]" using after_split [OF R(2)] R(1) by simp
  have "y \<in> set (p @ [c] @ q)" using arg_cong [OF assms(3), of set] a by auto
  then have "after y R = after y (q @ p @ [c])" using after_rotate [of "p @ [c]" q y] assms(1) R(1) by simp
  moreover have "distinct (as @ y # bs)" using after_facts(3) [OF assms(2,1)] assms(3) by simp
  ultimately show ?thesis using after_split [of y as bs] a assms(3) by simp
qed

lemma find_split: "find P xs = Some y \<Longrightarrow> \<exists>as bs. xs = as @ y # bs \<and> (\<forall>a\<in>set as. \<not> P a) \<and> P y"
proof (induction xs)
  case (Cons x xs)
  show ?case
  proof (cases "P x")
    case True
    with Cons.prems show ?thesis by (intro exI [of _ "[]"] exI [of _ xs]) simp
  next
    case False
    with Cons obtain as bs where "xs = as @ y # bs" "\<forall>a\<in>set as. \<not> P a" "P y" by auto
    with False show ?thesis by (intro exI [of _ "x # as"] exI [of _ bs]) simp
  qed
qed simp

lemma timer_run_returns:
  assumes "sched_ok s ts R" "R \<noteq> []"
  shows "\<exists>cs t. timer_run rs s = Inr (cs, t) \<and> sched_ok t ts R"
  using assms
proof (induction rs arbitrary: s)
  case (Cons r rs)
  obtain fl t where t: "sched_tick r s = Inr (fl, t)" "sched_ok t ts R" using sched_tick_effect [OF Cons.prems] by blast
  from Cons.IH [OF t(2) Cons.prems(2)] t(1) show ?case by auto
qed auto

text \<open>One interrupt picks \<open>x\<close>, or a task that is nearer to it.\<close>

lemma tick_nearer:
  assumes s: "sched_ok s ts R" and x: "x \<in> set R" "running s x" and a: "after (start_task s R) R = us @ x # vs" "x \<notin> set us"
  shows "\<exists>fl t. sched_tick r s = Inr (fl, t) \<and> sched_ok t ts R \<and> running t x \<and>
    (current_task t = x \<or> (\<exists>us' vs'. after (start_task t R) R = us' @ x # vs' \<and> x \<notin> set us' \<and> length us' < length us))"
proof -
  have R: "R \<noteq> []" using x by auto
  obtain fl t where t: "sched_tick r s = Inr (fl, t)" "sched_ok t ts R"
    and w: "\<forall>y\<in>set R. \<forall>f. tword t y f =
      (if f = T_state \<and> tword s y T_state = TASK_SLEEPING \<and> tword s y T_wakeup_tick \<le> tick s + 1 then TASK_RUNNING
       else if f = T_stack \<and> y = current_task s \<and> running t y then r else tword s y f)"
    and n: "case find (running t) (after (start_task s R) R) of
       None \<Rightarrow> fl = Returns \<and> current_task t = current_task s \<and> cr3 t = cr3 s \<and> io_log t = io_log s
     | Some x \<Rightarrow> fl = Resumes (tword t x T_stack) \<and> current_task t = x \<and> tss_esp0 t = tword s x T_stack_top \<and>
         cr3 t = (if tword s x T_page_dir \<noteq> 0 then tword s x T_page_dir else cr3 s) \<and>
         io_log t = Outb 0x20 0x20 # io_log s"
    using sched_tick_effect [OF s R] by blast
  have rx: "running t x" using w x by (auto simp: running_def)
  have "find (running t) (after (start_task s R) R) \<noteq> None" using rx by (auto simp: a find_None_iff)
  then obtain y where y: "find (running t) (us @ x # vs) = Some y" using a(1) by auto
  then have c: "current_task t = y" using n a(1) by simp
  obtain as bs where ab: "us @ x # vs = as @ y # bs" "\<forall>z\<in>set as. \<not> running t z" using find_split [OF y] by blast
  have "\<exists>us' vs'. after (start_task t R) R = us' @ x # vs' \<and> x \<notin> set us' \<and> length us' < length us" if ne: "y \<noteq> x"
  proof -
    have "x \<notin> set as" using ab(2) rx by blast
    then obtain b2 where b2: "us = as @ y # b2" "bs = b2 @ x # vs"
      using ab(1) ne a(2) by (auto simp: append_eq_append_conv2 Cons_eq_append_conv append_eq_Cons_conv)
    have y0: "y \<noteq> 0" "y \<in> set R"
    proof -
      show "y \<in> set R" using after_facts(1) [OF start_in_ring [OF s R] sched_okD(2) [OF s]] arg_cong [OF a(1), of set] b2(1) by auto
      then show "y \<noteq> 0" using task_block_nonzero sched_okD(1,3) [OF s] by blast
    qed
    have "after (start_task s R) R = as @ y # bs" using a(1) ab(1) by simp
    from after_after [OF sched_okD(2) [OF s] start_in_ring [OF s R] this]
    have "after y R = b2 @ x # (vs @ as @ [y])" by (simp add: b2)
    moreover have "start_task t R = y" using c y0 by (simp add: start_task_def)
    ultimately show ?thesis using a(2) b2(1) by (intro exI [of _ b2] exI [of _ "vs @ as @ [y]"]) simp
  qed
  then show ?thesis using t rx c by blast
qed

lemma timer_reaches:
  assumes "sched_ok s ts R" "x \<in> set R" "running s x" "after (start_task s R) R = us @ x # vs" "x \<notin> set us" "length us < length rs"
  shows "\<exists>cs t. timer_run rs s = Inr (cs, t) \<and> x \<in> set cs"
  using assms
proof (induction rs arbitrary: s us vs)
  case (Cons r rs)
  from tick_nearer [OF Cons.prems(1-5)] obtain fl t where
    t: "sched_tick r s = Inr (fl, t)" "sched_ok t ts R" "running t x"
      "current_task t = x \<or> (\<exists>us' vs'. after (start_task t R) R = us' @ x # vs' \<and> x \<notin> set us' \<and> length us' < length us)"
    by blast
  have R: "R \<noteq> []" using Cons.prems(2) by auto
  show ?case
  proof (cases "current_task t = x")
    case True
    then show ?thesis using timer_run_returns [OF t(2) R, of rs] t(1) by auto
  next
    case False
    then obtain us' vs' where u: "after (start_task t R) R = us' @ x # vs'" "x \<notin> set us'" "length us' < length us" using t(4) by blast
    have "length us' < length rs" using u(3) Cons.prems(6) by simp
    from Cons.IH [OF t(2) Cons.prems(2) t(3) u(1,2) this] t(1) show ?thesis by auto
  qed
qed simp

lemma timer_turn:
  assumes s: "sched_ok s ts R" and x: "x \<in> set R" "running s x" and n: "length R \<le> length rs"
  shows "\<exists>cs t. timer_run rs s = Inr (cs, t) \<and> x \<in> set cs"
proof -
  have R: "R \<noteq> []" using x by auto
  note A = after_facts [OF start_in_ring [OF s R] sched_okD(2) [OF s]]
  have "x \<in> set (after (start_task s R) R)" using A(1) x(1) by simp
  then obtain us vs where "after (start_task s R) R = us @ x # vs" "x \<notin> set us" using split_list_first by metis
  moreover from this have "length us < length rs" using A(2) n by simp
  ultimately show ?thesis by (rule timer_reaches [OF s x])
qed

lemma timer_hits:
  assumes "timer_run rs s = Inr (cs, t)" "x \<in> set cs"
  shows "\<exists>k \<le> length rs. \<exists>cs u. timer_run (take k rs) s = Inr (cs, u) \<and> current_task u = x"
  using assms
proof (induction rs arbitrary: s cs)
  case (Cons r rs)
  from Cons.prems(1) obtain fl u cs' where
    u: "sched_tick r s = Inr (fl, u)" "timer_run rs u = Inr (cs', t)" "cs = current_task u # cs'"
    by (auto simp: kbind_eq_Inr)
  show ?case
  proof (cases "current_task u = x")
    case True
    then show ?thesis using u(1) by (intro exI [of _ 1]) simp
  next
    case False
    with Cons.IH [OF u(2)] Cons.prems(2) u(3) obtain k ds v where
      "k \<le> length rs" "timer_run (take k rs) u = Inr (ds, v)" "current_task v = x" by auto
    then show ?thesis using u(1) by (intro exI [of _ "Suc k"]) simp
  qed
qed simp

text \<open>So every running task becomes the current one.\<close>

lemma timer_current:
  assumes "sched_ok s ts R" "x \<in> set R" "running s x" "length R \<le> length rs"
  shows "\<exists>k \<le> length R. \<exists>cs u. timer_run (take k rs) s = Inr (cs, u) \<and> current_task u = x"
proof -
  have l: "length (take (length R) rs) = length R" using assms(4) by simp
  obtain cs u where "timer_run (take (length R) rs) s = Inr (cs, u)" "x \<in> set cs"
    using timer_turn [OF assms(1-3), of "take (length R) rs"] assms(4) by auto
  from timer_hits [OF this] obtain k ds w where
    k: "k \<le> length R" "timer_run (take k (take (length R) rs)) s = Inr (ds, w)" "current_task w = x" unfolding l by blast
  then show ?thesis by (auto simp: min_absorb1)
qed

end
