(* ===== verification/Sched_Create.thy ===== *)
theory Sched_Create
  imports Sched_Timer
begin

text \<open>
  New tasks. A task is made from two blocks of the heap, one for the struct and one for the kernel
  stack, at whose end the first register frame is written; the struct is then linked behind the
  head of the ring. The frames at the ends of stacks are a second provider of \<open>field_store\<close> (\<open>rm\<close>).
\<close>

section \<open>Words of blocks\<close>

lemma block_store:
  fixes s :: "'a sched_scheme"
  assumes h: "heap_rep s ts" and p: "(unat p, k) \<in> live ts" "unat c + 4 \<le> k" "4 dvd unat c"
  shows "vload32 s (p + c) = Inr (heap_word s (p + c))" "vstore32 (p + c) v s = Inr (heap_put (p + c) v s)"
    "tasks_only ts s (heap_put (p + c) v s)" "heap_word (heap_put (p + c) v s) = (heap_word s)(p + c := v)"
proof -
  note B = block_word [OF h p]
  note W = rep_write_in_use [OF h B(3,2)]
  show "vload32 s (p + c) = Inr (heap_word s (p + c))" "vstore32 (p + c) v s = Inr (heap_put (p + c) v s)"
    "heap_word (heap_put (p + c) v s) = (heap_word s)(p + c := v)" using W by auto
  have m: "heap_mapped s" using h by (simp add: heap_rep_def tiled_def)
  have o: "heap_only s (heap_put (p + c) v s)" by (rule heap_only_put [OF m in_use_cell [OF h B(3,2)]])
  have "heap_put (p + c) v s\<lparr>phys_mem := phys_mem s\<rparr> = s" by (simp add: heap_put_def)
  then show "tasks_only ts s (heap_put (p + c) v s)" using W(3) o heap_in_only [OF o m] by (simp add: tasks_only_def)
qed

lemma task_word_kept:
  fixes s :: "'a sched_scheme"
  assumes h: "heap_rep s ts" and p: "(unat p, k) \<in> live ts" "unat c + 4 \<le> k" "4 dvd unat c" and x: "task_block ts x" "x \<noteq> p"
  shows "tword (heap_put (p + c) v s) x f = tword s x f"
proof -
  obtain j where j: "36 \<le> j" "(unat x, j) \<in> live ts" using x(1) by (auto simp: task_block_def)
  have "unat (task_off f) + 4 \<le> j" using task_off_less(1) [of f] j(1) by linarith
  from block_words_apart [OF h j(2) this task_off_less(2) p] x(2) show ?thesis
    by (simp add: tword_def block_store(4) [OF h p])
qed

section \<open>The first frame of a stack\<close>

definition rword :: "'a heap_scheme \<Rightarrow> u32 \<Rightarrow> reg_field \<Rightarrow> u32" where
  "rword s r f = heap_word s (r + reg_off f)"

definition rput :: "u32 \<Rightarrow> reg_field \<Rightarrow> u32 \<Rightarrow> 'a heap_scheme \<Rightarrow> 'a heap_scheme" where
  "rput r f v s = heap_put (r + reg_off f) v s"

definition stack_block :: "tile list \<Rightarrow> u32 \<Rightarrow> bool" where
  "stack_block ts p \<longleftrightarrow> (\<exists>k \<ge> 4096. (unat p, k) \<in> live ts)"

definition frame_of :: "u32 \<Rightarrow> u32" where
  "frame_of p = p + STACK_SIZE - sizeof_regs"

definition first_frame :: "tile list \<Rightarrow> u32 \<Rightarrow> bool" where
  "first_frame ts r \<longleftrightarrow> (\<exists>p. stack_block ts p \<and> r = frame_of p)"

lemma frame_of_plus: "frame_of p + c = p + (4020 + c)"
  by (simp add: frame_of_def STACK_SIZE_def sizeof_regs_def)

lemma frame_offset:
  fixes c :: u32
  assumes "unat c + 4 \<le> 76" "4 dvd unat c"
  shows "unat (4020 + c) = 4020 + unat c" "unat (4020 + c) + 4 \<le> 4096" "4 dvd unat (4020 + c)"
proof -
  show u: "unat (4020 + c) = 4020 + unat c" using assms(1) by (simp add: unat_word_ariths)
  show "unat (4020 + c) + 4 \<le> 4096" using u assms(1) by simp
  have "(4::nat) dvd 4020" by simp
  then show "4 dvd unat (4020 + c)" unfolding u using assms(2) by (rule dvd_add)
qed

lemma stack_word:
  fixes p c :: u32
  assumes "stack_block ts p" "unat c + 4 \<le> 76" "4 dvd unat c"
  obtains k where "(unat p, k) \<in> live ts" "unat (4020 + c) + 4 \<le> k" "4 dvd unat (4020 + c)"
  using assms frame_offset [OF assms(2,3)] unfolding stack_block_def by (meson order_trans)

lemma reg_off_less: "unat (reg_off f) + 4 \<le> 76" "4 dvd unat (reg_off f)"
  by (cases f; simp)+

lemma reg_off_inject: "reg_off f = reg_off g \<longleftrightarrow> f = g"
  by (cases f; cases g; simp)

lemma frame_store:
  fixes s :: "'a sched_scheme"
  assumes h: "heap_rep s ts" and p: "stack_block ts p" and c: "unat c + 4 \<le> 76" "4 dvd unat c"
  shows "vload32 s (frame_of p + c) = Inr (heap_word s (frame_of p + c))"
    "vstore32 (frame_of p + c) v s = Inr (heap_put (frame_of p + c) v s)"
    "tasks_only ts s (heap_put (frame_of p + c) v s)"
    "heap_word (heap_put (frame_of p + c) v s) = (heap_word s)(frame_of p + c := v)"
    "task_block ts x \<Longrightarrow> x \<noteq> p \<Longrightarrow> tword (heap_put (frame_of p + c) v s) x f = tword s x f"
proof -
  obtain k where k: "(unat p, k) \<in> live ts" "unat (4020 + c) + 4 \<le> k" "4 dvd unat (4020 + c)"
    by (rule stack_word [OF p c])
  note B = block_store [OF h k] and K = task_word_kept [OF h k]
  show "vload32 s (frame_of p + c) = Inr (heap_word s (frame_of p + c))"
    "vstore32 (frame_of p + c) v s = Inr (heap_put (frame_of p + c) v s)"
    "tasks_only ts s (heap_put (frame_of p + c) v s)"
    "heap_word (heap_put (frame_of p + c) v s) = (heap_word s)(frame_of p + c := v)"
    "task_block ts x \<Longrightarrow> x \<noteq> p \<Longrightarrow> tword (heap_put (frame_of p + c) v s) x f = tword s x f"
    unfolding frame_of_plus by (rule B K; assumption?)+
qed

lemma frame_words_apart:
  fixes p q c d :: u32
  assumes h: "heap_rep s ts" and p: "stack_block ts p" "unat c + 4 \<le> 76" "4 dvd unat c"
    and q: "stack_block ts q" "unat d + 4 \<le> 76" "4 dvd unat d"
  shows "frame_of p + c = frame_of q + d \<longleftrightarrow> p = q \<and> c = d"
proof -
  obtain k j where k: "(unat p, k) \<in> live ts" "unat (4020 + c) + 4 \<le> k" "4 dvd unat (4020 + c)"
    and j: "(unat q, j) \<in> live ts" "unat (4020 + d) + 4 \<le> j" "4 dvd unat (4020 + d)"
    by (meson stack_word [OF p] stack_word [OF q])
  from block_words_apart [OF h k j] show ?thesis by (simp add: frame_of_plus)
qed

lemma frame_of_inject: "frame_of p = frame_of q \<longleftrightarrow> p = q"
  by (simp add: frame_of_def)

interpretation rm: field_store rget rset "\<lambda>s. heap_rep (s :: 'a sched_scheme) ts" "first_frame ts" rword rput for ts
proof unfold_locales
  fix s :: "'a sched_scheme" and r q f g v
  assume s: "heap_rep s ts" and r: "first_frame ts r"
  then obtain p where p: "stack_block ts p" "r = frame_of p" by (auto simp: first_frame_def)
  note F = frame_store [OF s p(1) reg_off_less, of f]
  show "rget s r f = Inr (rword s r f)" using F(1) by (simp add: rget_def rword_def p)
  show "rset r f v s = Inr (rput r f v s)" using F(2) by (simp add: rset_def rput_def p)
  show "heap_rep (rput r f v s) ts" using F(3) by (simp add: rput_def p tasks_only_def)
  show "rword (rput r f v s) q g = (if q = r \<and> g = f then v else rword s q g)" if "first_frame ts q"
  proof -
    obtain p' where p': "stack_block ts p'" "q = frame_of p'" using \<open>first_frame ts q\<close> by (auto simp: first_frame_def)
    from frame_words_apart [OF s p'(1) reg_off_less p(1) reg_off_less, of g f] show ?thesis
      by (simp add: rword_def rput_def F(4) p p' reg_off_inject frame_of_inject)
  qed
qed

lemma rsets_puts:
  fixes s :: "'a sched_scheme"
  assumes "heap_rep s ts" "first_frame ts r"
  shows "rsets r fvs s = Inr (fold (\<lambda>(f, v). rput r f v) fvs s)"
  using assms by (induction r fvs s rule: rsets.induct) (auto simp: rm.field_rules)

lemma rputs_effect:
  fixes s :: "'a sched_scheme"
  assumes "heap_rep s ts" "stack_block ts p"
  shows "tasks_only ts s (fold (\<lambda>(f, v). rput (frame_of p) f v) fvs s)"
    "task_block ts x \<Longrightarrow> x \<noteq> p \<Longrightarrow> tword (fold (\<lambda>(f, v). rput (frame_of p) f v) fvs s) x g = tword s x g"
proof -
  have "tasks_only ts s (fold (\<lambda>(f, v). rput (frame_of p) f v) fvs s) \<and>
      (task_block ts x \<longrightarrow> x \<noteq> p \<longrightarrow> tword (fold (\<lambda>(f, v). rput (frame_of p) f v) fvs s) x g = tword s x g)"
    using assms(1)
  proof (induction fvs arbitrary: s)
    case (Cons fv fvs)
    obtain f v where fv: "fv = (f, v)" by (cases fv)
    note F = frame_store(3,5) [OF Cons.prems assms(2) reg_off_less(1) [of f] reg_off_less(2) [of f], where v = v, folded rput_def]
    have "heap_rep (rput (frame_of p) f v s) ts" using F(1) by (simp add: tasks_only_def)
    from Cons.IH [OF this] tasks_only_trans [OF F(1)] F(2) show ?case by (simp add: fv)
  qed (simp add: tasks_only_refl)
  then show "tasks_only ts s (fold (\<lambda>(f, v). rput (frame_of p) f v) fvs s)"
    "task_block ts x \<Longrightarrow> x \<noteq> p \<Longrightarrow> tword (fold (\<lambda>(f, v). rput (frame_of p) f v) fvs s) x g = tword s x g" by auto
qed

section \<open>init_regs\<close>

text \<open>The registers a task starts with.\<close>

definition first_regs :: "u32 \<Rightarrow> u32 \<Rightarrow> reg_field \<Rightarrow> u32" where
  "first_regs entry esp f =
    (case f of R_gs \<Rightarrow> 0x23 | R_fs \<Rightarrow> 0x23 | R_es \<Rightarrow> 0x23 | R_ds \<Rightarrow> 0x23 | R_user_ss \<Rightarrow> 0x23
     | R_cs \<Rightarrow> 0x1B | R_eip \<Rightarrow> entry | R_eflags \<Rightarrow> 0x202 | R_user_esp \<Rightarrow> esp | _ \<Rightarrow> 0)"

lemma reg_off_index: "reg_off f = 4 * (reg_off f div 4)" "unat (reg_off f) = 4 * unat (reg_off f div 4)"
  by (cases f; simp)+

lemma zero_frame:
  fixes s :: "'a sched_scheme"
  assumes h: "heap_rep s ts" and p: "stack_block ts p"
  shows "\<exists>t. for_err 0 (sizeof_regs div 4) (\<lambda>i. vstore32 (frame_of p + 4 * i) 0) s = Inr t \<and> tasks_only ts s t \<and>
    (\<forall>f. rword t (frame_of p) f = 0) \<and> (\<forall>x f. task_block ts x \<longrightarrow> x \<noteq> p \<longrightarrow> tword t x f = tword s x f)"
proof -
  let ?P = "\<lambda>(i :: u32) (t :: 'a sched_scheme). i \<le> 19 \<and> tasks_only ts s t \<and>
    (\<forall>f. unat (reg_off f) < 4 * unat i \<longrightarrow> rword t (frame_of p) f = 0) \<and>
    (\<forall>x f. task_block ts x \<longrightarrow> x \<noteq> p \<longrightarrow> tword t x f = tword s x f)"
  have n: "sizeof_regs div 4 = 19" by (simp add: sizeof_regs_def)
  have "\<exists>t. for_err 0 19 (\<lambda>i. vstore32 (frame_of p + 4 * i) 0) s = Inr t \<and> ?P 19 t"
  proof (rule for_err_invariant [where P = ?P])
    fix i :: u32 and t :: "'a sched_scheme"
    assume i: "i < 19" and P: "?P i t"
    have u: "unat i < 19" using i by (simp add: word_less_nat_alt)
    then have c: "unat (4 * i) = 4 * unat i" by (simp add: unat_word_ariths)
    have cc: "unat (4 * i) + 4 \<le> 76" "4 dvd unat (4 * i)" using c u by simp_all
    have ht: "heap_rep t ts" using P by (simp add: tasks_only_def)
    note F = frame_store [OF ht p cc]
    let ?t = "heap_put (frame_of p + 4 * i) 0 t"
    have z: "rword ?t (frame_of p) f = 0" if f: "unat (reg_off f) < 4 * unat (i + 1)" for f
    proof (cases "reg_off f = 4 * i")
      case True
      then show ?thesis using F(4) by (simp add: rword_def)
    next
      case False
      then have "unat (reg_off f) \<noteq> 4 * unat i" using c by (auto simp: word_unat_eq_iff)
      moreover obtain a where a: "unat (reg_off f) = 4 * a" using reg_off_index(2) [of f] by blast
      ultimately have "unat (reg_off f) < 4 * unat i" using f unat_inc [OF i] unfolding a by simp
      then show ?thesis using P False F(4) by (simp add: rword_def)
    qed
    have "tasks_only ts s ?t" using P tasks_only_trans F(3) by blast
    moreover have "\<forall>x f. task_block ts x \<longrightarrow> x \<noteq> p \<longrightarrow> tword ?t x f = tword s x f" using P F(5) by simp
    ultimately show "\<exists>t'. vstore32 (frame_of p + 4 * i) 0 t = Inr t' \<and> ?P (i + 1) t'"
      using F(2) z inc_le_iff [OF i] by blast
  qed (simp_all add: tasks_only_refl [OF h])
  then obtain t where t: "for_err 0 19 (\<lambda>i. vstore32 (frame_of p + 4 * i) 0) s = Inr t" "?P 19 t" by blast
  have "unat (reg_off f) < 4 * unat (19 :: u32)" for f using reg_off_less(1) [of f] by simp
  then show ?thesis using t unfolding n by blast
qed

lemma init_regs_effect:
  fixes s :: "'a sched_scheme"
  assumes h: "heap_rep s ts" and p: "stack_block ts p"
  shows "\<exists>t. init_regs (frame_of p) entry esp s = Inr t \<and> tasks_only ts s t \<and>
    (\<forall>f. rword t (frame_of p) f = first_regs entry esp f) \<and>
    (\<forall>x f. task_block ts x \<longrightarrow> x \<noteq> p \<longrightarrow> tword t x f = tword s x f)"
proof -
  from zero_frame [OF assms] obtain t where
    t: "for_err 0 (sizeof_regs div 4) (\<lambda>i. vstore32 (frame_of p + 4 * i) 0) s = Inr t" "tasks_only ts s t"
      "\<forall>f. rword t (frame_of p) f = 0" "\<forall>x f. task_block ts x \<longrightarrow> x \<noteq> p \<longrightarrow> tword t x f = tword s x f" by blast
  let ?fvs = "[(R_gs, USER_DATA), (R_fs, USER_DATA), (R_es, USER_DATA), (R_ds, USER_DATA),
    (R_eip, entry), (R_cs, USER_CODE), (R_eflags, 0x202), (R_user_esp, esp), (R_user_ss, USER_DATA)]"
  let ?u = "fold (\<lambda>(f, v). rput (frame_of p) f v) ?fvs t"
  have ht: "heap_rep t ts" and fr: "first_frame ts (frame_of p)" using t(2) p by (auto simp: tasks_only_def first_frame_def)
  have i: "init_regs (frame_of p) entry esp s = Inr ?u"
    unfolding init_regs_def t(1) kbind_simps by (rule rsets_puts [OF ht fr])
  have dist: "distinct (map fst ?fvs)" by simp
  have "rword ?u (frame_of p) f = first_regs entry esp f" for f
    using rm.puts_val [OF ht fr fr dist, of f] t(3)
    by (cases f) (simp_all add: first_regs_def USER_DATA_def USER_CODE_def GDT_USER_DATA_SEG_def GDT_USER_CODE_SEG_def del: fold.simps)
  moreover have "tasks_only ts s ?u" by (rule tasks_only_trans [OF t(2) rputs_effect(1) [OF ht p]])
  moreover have "tword ?u x f = tword s x f" if "task_block ts x" "x \<noteq> p" for x f
    using trans [OF rputs_effect(2) [OF ht p that]] t(4) that by blast
  ultimately show ?thesis using i by blast
qed

section \<open>Linking a task\<close>

text \<open>\<open>rest_kept s t\<close>: memory outside the frames of the heap and the pool of free frames are the same.\<close>

definition rest_kept :: "'a heap_scheme \<Rightarrow> 'a heap_scheme \<Rightarrow> bool" where
  "rest_kept s t \<longleftrightarrow> pmm_pool t = pmm_pool s \<and> heap_frames t = heap_frames s \<and>
     (\<forall>g j. aligned_page g \<longrightarrow> j < 1024 \<longrightarrow> g \<notin> heap_frames s \<longrightarrow> mword (phys_mem t) g j = mword (phys_mem s) g j)"

lemma rest_kept_trans: "rest_kept s t \<Longrightarrow> rest_kept t u \<Longrightarrow> rest_kept s u"
  by (simp add: rest_kept_def)

lemma rest_kept_only:
  fixes s t :: "'a heap_scheme"
  shows "heap_only s t \<Longrightarrow> rest_kept s t"
  using heap_only_vmm(6) [of s t] by (simp add: rest_kept_def heap_only_def)

lemma rest_kept_tasks: "tasks_only ts s t \<Longrightarrow> rest_kept s t"
  by (simp add: tasks_only_def rest_kept_only)

lemma rest_kept_fields [simp]:
  fixes s :: "'a sched_scheme"
  shows "rest_kept (s\<lparr>task_list := x\<rparr>) t = rest_kept s t" "rest_kept (s\<lparr>next_pid := x\<rparr>) t = rest_kept s t"
proof -
  have "heap_frames (s\<lparr>task_list := x\<rparr>) = heap_frames s" "heap_frames (s\<lparr>next_pid := x\<rparr>) = heap_frames s"
    by (simp_all add: heap_frames_def heap_frame_def in_heap_def)
  moreover have "pmm_pool (s\<lparr>task_list := x\<rparr>) = pmm_pool s" "pmm_pool (s\<lparr>next_pid := x\<rparr>) = pmm_pool s"
    by (rule pmm_same; simp)+
  ultimately show "rest_kept (s\<lparr>task_list := x\<rparr>) t = rest_kept s t" "rest_kept (s\<lparr>next_pid := x\<rparr>) t = rest_kept s t"
    by (simp_all add: rest_kept_def)
qed

lemma frame_kept:
  fixes s :: "'a sched_scheme"
  assumes h: "heap_rep s ts" and x: "task_block ts x" and p: "stack_block ts p" "x \<noteq> p"
  shows "rword (tput x f v s) (frame_of p) g = rword s (frame_of p) g"
proof -
  obtain k where k: "36 \<le> k" "(unat x, k) \<in> live ts" using x by (auto simp: task_block_def)
  have c: "unat (task_off f) + 4 \<le> k" using task_off_less(1) [of f] k(1) by linarith
  obtain j where j: "(unat p, j) \<in> live ts" "unat (4020 + reg_off g) + 4 \<le> j" "4 dvd unat (4020 + reg_off g)"
    by (rule stack_word [OF p(1) reg_off_less])
  from block_words_apart [OF h j k(2) c task_off_less(2)] p(2) show ?thesis
    unfolding rword_def tput_def block_store(4) [OF h k(2) c task_off_less(2)] frame_of_plus by auto
qed

lemma tputs_effect:
  fixes s :: "'a sched_scheme"
  assumes "heap_rep s ts" "task_block ts t"
  shows "tasks_only ts s (fold (\<lambda>(f, v). tput t f v) fvs s)"
    "stack_block ts p \<Longrightarrow> t \<noteq> p \<Longrightarrow> rword (fold (\<lambda>(f, v). tput t f v) fvs s) (frame_of p) g = rword s (frame_of p) g"
proof -
  have "tasks_only ts s (fold (\<lambda>(f, v). tput t f v) fvs s) \<and> (stack_block ts p \<longrightarrow> t \<noteq> p \<longrightarrow>
      rword (fold (\<lambda>(f, v). tput t f v) fvs s) (frame_of p) g = rword s (frame_of p) g)"
    using assms(1)
  proof (induction fvs arbitrary: s)
    case (Cons fv fvs)
    obtain f v where fv: "fv = (f, v)" by (cases fv)
    note T = tasks_only_tput [OF Cons.prems assms(2), of f v]
    have "heap_rep (tput t f v s) ts" using T by (simp add: tasks_only_def)
    from Cons.IH [OF this] tasks_only_trans [OF T] frame_kept [OF Cons.prems assms(2)] show ?case by (simp add: fv)
  qed (simp add: tasks_only_refl)
  then show "tasks_only ts s (fold (\<lambda>(f, v). tput t f v) fvs s)"
    "stack_block ts p \<Longrightarrow> t \<noteq> p \<Longrightarrow> rword (fold (\<lambda>(f, v). tput t f v) fvs s) (frame_of p) g = rword s (frame_of p) g"
    by auto
qed

definition link_in :: "'k \<Rightarrow> 'k list \<Rightarrow> 'k list" where
  "link_in t R = (case R of [] \<Rightarrow> [t] | h # us \<Rightarrow> h # t # us)"

lemma link_in_set [simp]: "set (link_in t R) = insert t (set R)" "distinct (link_in t R) \<longleftrightarrow> t \<notin> set R \<and> distinct R"
  "link_in t R \<noteq> []" "hd (link_in t R) = (if R = [] then t else hd R)"
  by (auto simp: link_in_def split: list.splits)

lemma ring_link_in:
  assumes "ring nx (h # us)" "t \<notin> set (h # us)" "distinct (h # us)"
  shows "ring (nx(t := nx h, h := t)) (h # t # us)"
proof (cases us rule: rev_cases)
  case Nil
  then show ?thesis using assms by (simp add: ring_def)
next
  case (snoc vs l)
  have p: "nx l = h" "path nx h us" using assms(1) by (simp_all add: ring_def snoc)
  have "path (nx(t := nx h, h := t)) t us \<longleftrightarrow> path nx h us"
  proof (cases us)
    case (Cons a as)
    have "path (nx(t := nx h, h := t)) a as = path nx a as"
      using assms(2,3) by (intro path_cong) (auto simp: Cons dest: in_set_butlastD)
    then show ?thesis using assms(2) by (simp add: Cons)
  qed simp
  then show ?thesis using p assms(2,3) by (auto simp: ring_def snoc)
qed

lemma insert_task_ok:
  fixes s :: "'a sched_scheme"
  assumes s: "sched_ok s ts R" and t: "task_block ts t" "t \<notin> set R"
    and pd: "tword s t T_page_dir \<noteq> 0 \<longrightarrow> heap_in s (tword s t T_page_dir)"
  shows "\<exists>u. insert_task t s = Inr u \<and> sched_ok u ts (link_in t R) \<and> next_pid u = next_pid s \<and> current_task u = current_task s \<and> rest_kept s u \<and>
    (\<forall>x\<in>insert t (set R). \<forall>f. f \<noteq> T_next \<longrightarrow> tword u x f = tword s x f) \<and>
    (\<forall>p g. stack_block ts p \<longrightarrow> p \<notin> insert t (set R) \<longrightarrow> rword u (frame_of p) g = rword s (frame_of p) g)"
proof (cases R)
  case Nil
  note D = sched_okD [OF s]
  let ?s = "s\<lparr>task_list := t\<rparr>"
  have h: "heap_rep ?s ts" using D(1) by simp
  let ?u = "tput t T_next t ?s"
  have o: "tasks_only ts ?s ?u" by (rule tasks_only_tput [OF h t(1)])
  have w: "tword ?u t f = (if f = T_next then t else tword s t f)" for f using tm.put_val [OF h t(1) t(1)] by simp
  have "sched_ok ?u ts [t]"
    using o t(1) pd D(7) Nil w tasks_only_fields [OF o] by (auto simp: sched_ok_def tasks_only_def ring_single)
  moreover have "insert_task t s = Inr ?u" using D(6) Nil tm.sto_put [OF h t(1)] by (simp add: insert_task_def)
  moreover have "rword ?u (frame_of p) g = rword s (frame_of p) g" if "stack_block ts p" "p \<noteq> t" for p g
    using frame_kept [OF h t(1) that(1) that(2) [symmetric]] heap_view(2) [of ?s s] by (simp add: rword_def)
  moreover have "rest_kept s ?u" using rest_kept_tasks [OF o] by simp
  ultimately show ?thesis using w Nil by (auto simp: link_in_def)
next
  case (Cons h us)
  note D = sched_okD [OF s]
  have b: "task_block ts h" "h \<noteq> t" "task_list s = h" "h \<noteq> 0"
    using D(3,5) t(2) task_block_nonzero [OF D(1) D(3)] by (auto simp: Cons)
  let ?v = "tput t T_next (tword s h T_next) s" let ?u = "tput h T_next t ?v"
  have o: "tasks_only ts s ?v" by (rule tasks_only_tput [OF D(1) t(1)])
  have hv: "heap_rep ?v ts" using o by (simp add: tasks_only_def)
  have o2: "tasks_only ts s ?u" by (rule tasks_only_trans [OF o tasks_only_tput [OF hv b(1)]])
  have i: "insert_task t s = Inr ?u"
    using b tm.get_val [OF D(1) b(1)] tm.sto_put [OF D(1) t(1)] tm.sto_put [OF hv b(1)] by (simp add: insert_task_def)
  have w: "tword ?u x f = (if x = h \<and> f = T_next then t else if x = t \<and> f = T_next then tword s h T_next else tword s x f)"
    if "task_block ts x" for x f
    by (simp only: tm.put_val [OF hv b(1) that] tm.put_val [OF D(1) t(1) that])
  have wn: "tword ?u x f = tword s x f" if "x \<in> insert t (set R)" "f \<noteq> T_next" for x f
    using w [of x f] that t(1) D(3) by auto
  have "ring (\<lambda>x. tword ?u x T_next) (h # t # us) =
      ring ((\<lambda>x. tword s x T_next)(t := tword s h T_next, h := t)) (h # t # us)"
    using w t(1) D(3) b(2) by (intro ring_cong) (auto simp: Cons)
  then have "ring (\<lambda>x. tword ?u x T_next) (h # t # us)"
    using ring_link_in [of "\<lambda>x. tword s x T_next" h us t] D(2,4) t(2) by (simp add: Cons)
  moreover have "heap_rep ?u ts" "\<forall>q. heap_in s q \<longrightarrow> heap_in ?u q" using o2 by (auto simp: tasks_only_def)
  ultimately have "sched_ok ?u ts (link_in t R)"
    using wn [of _ T_page_dir] D t pd tasks_only_fields [OF o2] b(3) unfolding sched_ok_def
    by (auto simp: Cons link_in_def)
  moreover have "rword ?u (frame_of p) g = rword s (frame_of p) g" if "stack_block ts p" "p \<notin> insert t (set R)" for p g
  proof -
    have "t \<noteq> p" "h \<noteq> p" using that(2) by (auto simp: Cons)
    then show ?thesis using frame_kept [OF hv b(1) that(1)] frame_kept [OF D(1) t(1) that(1)] by simp
  qed
  ultimately show ?thesis using i wn tasks_only_fields [OF o2] rest_kept_tasks [OF o2] by blast
qed

section \<open>setup_task\<close>

text \<open>The fields of a new task, its link apart.\<close>

definition new_task :: "u32 \<Rightarrow> u32 \<Rightarrow> u32 \<Rightarrow> u32 \<Rightarrow> u32 \<Rightarrow> task_field \<Rightarrow> u32" where
  "new_task r stop pid parent pd f =
    (case f of T_stack \<Rightarrow> r | T_stack_top \<Rightarrow> stop | T_pid \<Rightarrow> pid | T_parent \<Rightarrow> parent | T_state \<Rightarrow> TASK_RUNNING
     | T_exit_code \<Rightarrow> 0 | T_wakeup_tick \<Rightarrow> 0 | T_page_dir \<Rightarrow> pd | T_next \<Rightarrow> 0)"

lemma setup_task_ok:
  fixes s :: "'a sched_scheme"
  assumes s: "sched_ok s ts R" and t: "task_block ts t" "t \<notin> set R" and pd: "pd = 0 \<or> heap_in s pd"
  shows "\<exists>u. setup_task t r stack parent pd s = Inr (0, u) \<and> sched_ok u ts (link_in t R) \<and> next_pid u = next_pid s + 1 \<and>
    current_task u = current_task s \<and> rest_kept s u \<and>
    (\<forall>f. f \<noteq> T_next \<longrightarrow> tword u t f = new_task r (stack + STACK_SIZE) (next_pid s) parent pd f) \<and>
    (\<forall>x\<in>set R. \<forall>f. f \<noteq> T_next \<longrightarrow> tword u x f = tword s x f) \<and>
    (\<forall>p g. stack_block ts p \<longrightarrow> p \<notin> insert t (set R) \<longrightarrow> rword u (frame_of p) g = rword s (frame_of p) g)"
proof -
  note D = sched_okD [OF s]
  let ?A = "[(T_stack, r), (T_stack_top, stack + STACK_SIZE)]"
  let ?B = "[(T_pid, next_pid s), (T_parent, parent), (T_state, TASK_RUNNING), (T_exit_code, 0), (T_wakeup_tick, 0), (T_page_dir, pd)]"
  let ?put = "\<lambda>fvs s. fold (\<lambda>(f, v). tput t f v) fvs s"
  define a where "a = ?put ?A s"
  define b where "b = ?put ?B (a\<lparr>next_pid := next_pid s + 1\<rparr>)"
  have oa: "tasks_only ts s a" and ra: "\<And>p g. stack_block ts p \<Longrightarrow> t \<noteq> p \<Longrightarrow> rword a (frame_of p) g = rword s (frame_of p) g"
    unfolding a_def by (rule tputs_effect [OF D(1) t(1)]; assumption)+
  have ha: "heap_rep (a\<lparr>next_pid := next_pid s + 1\<rparr>) ts" using oa by (simp add: tasks_only_def)
  have ob: "tasks_only ts (a\<lparr>next_pid := next_pid s + 1\<rparr>) b"
    and rb: "\<And>p g. stack_block ts p \<Longrightarrow> t \<noteq> p \<Longrightarrow> rword b (frame_of p) g = rword (a\<lparr>next_pid := next_pid s + 1\<rparr>) (frame_of p) g"
    unfolding b_def by (rule tputs_effect [OF ha t(1)]; assumption)+
  have rab: "rword b (frame_of p) g = rword s (frame_of p) g" if "stack_block ts p" "t \<noteq> p" for p g
    using ra [OF that] rb [OF that] heap_view(2) [of "a\<lparr>next_pid := next_pid s + 1\<rparr>" a] by (simp add: rword_def)
  have hb: "heap_rep b ts" using ob by (simp add: tasks_only_def)
  have va: "tword a x f = (if x = t then case map_of ?A f of Some v \<Rightarrow> v | None \<Rightarrow> tword s x f else tword s x f)"
    if "task_block ts x" for x f unfolding a_def using tm.puts_val [OF D(1) t(1) that, of ?A f] by simp
  have vb: "tword b x f = (if x = t then case map_of ?B f of Some v \<Rightarrow> v | None \<Rightarrow> tword a x f else tword a x f)"
    if "task_block ts x" for x f unfolding b_def using tm.puts_val [OF ha t(1) that, of ?B f] by simp
  have v: "tword b x f = (if x = t \<and> f \<noteq> T_next then new_task r (stack + STACK_SIZE) (next_pid s) parent pd f else tword s x f)"
    if "task_block ts x" for x f unfolding vb [OF that] va [OF that] by (cases f) (auto simp: new_task_def)
  have sa: "sched_ok a ts R" by (rule sched_ok_update [OF s oa]) (use va D(3) t(2) in auto)
  then have "sched_ok (a\<lparr>next_pid := next_pid s + 1\<rparr>) ts R" by simp
  then have sb: "sched_ok b ts R" by (rule sched_ok_update [OF _ ob]) (use vb D(3) t(2) in auto)
  have "tword b t T_page_dir \<noteq> 0 \<longrightarrow> heap_in b (tword b t T_page_dir)"
    using pd oa ob v [OF t(1), of T_page_dir] by (auto simp: tasks_only_def new_task_def)
  from insert_task_ok [OF sb t this] obtain u where
    u: "insert_task t b = Inr u" "sched_ok u ts (link_in t R)" "next_pid u = next_pid b" "current_task u = current_task b" "rest_kept b u"
      "\<forall>x\<in>insert t (set R). \<forall>f. f \<noteq> T_next \<longrightarrow> tword u x f = tword b x f"
      "\<forall>p g. stack_block ts p \<longrightarrow> p \<notin> insert t (set R) \<longrightarrow> rword u (frame_of p) g = rword b (frame_of p) g" by blast
  have "next_pid a = next_pid s" using tasks_only_fields(3) [OF oa] .
  then have "setup_task t r stack parent pd s = Inr (0, u)"
    using u(1) tsets_puts [OF D(1) t(1), of ?A] tsets_puts [OF ha t(1), of ?B]
    unfolding setup_task_def a_def [symmetric] by (simp only: a_def [symmetric] b_def [symmetric] kbind_simps Let_def)
  moreover have "next_pid u = next_pid s + 1" "current_task u = current_task s"
    using u(3,4) tasks_only_fields(2,3) [OF ob] tasks_only_fields(2) [OF oa] by simp_all
  moreover have "\<forall>f. f \<noteq> T_next \<longrightarrow> tword u t f = new_task r (stack + STACK_SIZE) (next_pid s) parent pd f"
    using u(6) v [OF t(1)] by simp
  moreover have "\<forall>x\<in>set R. \<forall>f. f \<noteq> T_next \<longrightarrow> tword u x f = tword s x f" using u(6) v D(3) t(2) by auto
  moreover have "\<forall>p g. stack_block ts p \<longrightarrow> p \<notin> insert t (set R) \<longrightarrow> rword u (frame_of p) g = rword s (frame_of p) g"
    using u(7) rab by auto
  moreover have "rest_kept s u"
    using rest_kept_trans [OF rest_kept_tasks [OF oa] rest_kept_trans [OF _ u(5)]] rest_kept_tasks [OF ob] by simp
  ultimately show ?thesis using u(2) by blast
qed

section \<open>task_create_elf\<close>

text \<open>An operation of the heap that leaves the blocks of the tasks in use.\<close>

lemma sched_ok_heap:
  fixes s t :: "'a sched_scheme"
  assumes s: "sched_ok s ts R" and o: "heap_only s t" and h: "heap_rep t us"
    and b: "\<And>x. x \<in> set R \<Longrightarrow> task_block us x" and w: "\<forall>c. in_use ts c \<longrightarrow> heap_word t c = heap_word s c"
  shows "sched_ok t us R" "x \<in> set R \<Longrightarrow> tword t x f = tword s x f" "heap_in s pd \<Longrightarrow> heap_in t pd"
proof -
  note D = sched_okD [OF s]
  have m: "heap_mapped s" using D(1) by (simp add: heap_rep_def tiled_def)
  show w: "tword t x f = tword s x f" if "x \<in> set R" for x f
    using w task_word(3) [OF D(1) D(3) [OF that]] by (simp add: tword_def)
  show i: "heap_in t pd" if "heap_in s pd" for pd by (rule heap_in_only [OF o m that])
  have "ring (\<lambda>x. tword t x T_next) R = ring (\<lambda>x. tword s x T_next) R" by (rule ring_cong) (rule w)
  then show "sched_ok t us R"
    using D h b w [of _ T_page_dir] i heap_only_sched [OF o] by (auto simp: sched_ok_def)
qed

lemma malloc_sched:
  fixes s :: "'a sched_scheme"
  assumes s: "sched_ok s ts R" and n: "n \<noteq> 0" "n \<le> 0xFFFFFFF0" and c: "cut_first (unat (block_needed n)) ts = Some (d, us)"
  shows "\<exists>p k t. malloc n s = Inr (p, t) \<and> p \<noteq> 0 \<and> sched_ok t us R \<and> live us = insert (unat p, k) (live ts) \<and> unat n \<le> k \<and>
    (\<forall>j. (unat p, j) \<notin> live ts) \<and> next_pid t = next_pid s \<and> current_task t = current_task s \<and>
    (\<forall>x\<in>set R. \<forall>f. tword t x f = tword s x f) \<and> (\<forall>pd. heap_in s pd \<longrightarrow> heap_in t pd) \<and>
    heap_only s t \<and> (\<forall>c. in_use ts c \<longrightarrow> heap_word t c = heap_word s c)"
proof -
  note D = sched_okD [OF s]
  from rep_malloc [OF D(1) n(1) c] obtain p k t where
    t: "malloc n s = Inr (p, t)" "p \<noteq> 0" "heap_rep t us" "heap_only s t" "live us = insert (unat p, k) (live ts)"
      "\<forall>j. (unat p, j) \<notin> live ts" "unat (block_needed n) \<le> k + 8" "\<forall>c. in_use ts c \<longrightarrow> heap_word t c = heap_word s c" by blast
  have b: "task_block us x" if "x \<in> set R" for x using D(3) [OF that] t(5) unfolding task_block_def by auto
  have "unat n \<le> k" using block_needed_size(1) [OF n(2)] t(7) by simp
  then show ?thesis using t sched_ok_heap [OF s t(4,3) b t(8)] heap_only_sched(2,3) [OF t(4)] by blast
qed

lemma live_not_task:
  assumes "sched_ok s ts R" "\<forall>j. (unat p, j) \<notin> live ts"
  shows "p \<notin> set R"
  using sched_okD(3) [OF assms(1)] assms(2) by (auto simp: task_block_def)

lemma in_use_live: "in_use ts c \<longleftrightarrow> (\<exists>(p, k)\<in>live ts. p \<le> unat c \<and> unat c < p + k)"
proof
  assume "in_use ts c"
  then obtain b n where b: "(b, n, False) \<in> set (layout heap_base ts)" "b + 8 \<le> unat c" "unat c < b + n" by (auto simp: in_use_def)
  then have "(b + 8, n - 8) \<in> live ts" by (auto simp: live_iff)
  then show "\<exists>(p, k)\<in>live ts. p \<le> unat c \<and> unat c < p + k" using b(2,3) by (intro bexI) auto
next
  assume "\<exists>(p, k)\<in>live ts. p \<le> unat c \<and> unat c < p + k"
  then obtain b n where "(b, n, False) \<in> set (layout heap_base ts)" "b + 8 \<le> unat c" "unat c < b + 8 + (n - 8)" by (auto simp: live_iff)
  then show "in_use ts c" unfolding in_use_def by (intro bexI [of _ "(b, n, False)"]) auto
qed

text \<open>The two blocks of a new task.\<close>

lemma create_blocks:
  fixes s :: "'a sched_scheme"
  assumes s: "sched_ok s ts R" and c: "cut_first (unat (block_needed 36)) ts = Some (d, us)"
    "cut_first (unat (block_needed 4096)) us = Some (e, vs)"
  shows "\<exists>t p a b. malloc sizeof_task s = Inr (t, a) \<and> t \<noteq> 0 \<and> malloc STACK_SIZE a = Inr (p, b) \<and> p \<noteq> 0 \<and>
    sched_ok b vs R \<and> task_block vs t \<and> stack_block vs p \<and> t \<notin> set R \<and> p \<notin> set R \<and> p \<noteq> t \<and> live ts \<subseteq> live vs \<and>
    (\<forall>j. (unat t, j) \<notin> live ts \<and> (unat p, j) \<notin> live ts) \<and> next_pid b = next_pid s \<and> current_task b = current_task s \<and>
    (\<forall>x\<in>set R. \<forall>f. tword b x f = tword s x f) \<and> (\<forall>pd. heap_in s pd \<longrightarrow> heap_in b pd) \<and> heap_only s b \<and>
    (\<forall>c. in_use ts c \<longrightarrow> heap_word b c = heap_word s c)"
proof -
  have m: "malloc 36 = (malloc sizeof_task :: 'a sched_scheme \<Rightarrow> _)" "malloc 4096 = (malloc STACK_SIZE :: 'a sched_scheme \<Rightarrow> _)"
    by (simp_all add: sizeof_task_def STACK_SIZE_def)
  from malloc_sched [OF s _ _ c(1)] obtain t k a where
    a: "malloc sizeof_task s = Inr (t, a)" "t \<noteq> 0" "sched_ok a us R" "live us = insert (unat t, k) (live ts)" "36 \<le> k"
      "\<forall>j. (unat t, j) \<notin> live ts" "next_pid a = next_pid s" "current_task a = current_task s"
      "\<forall>x\<in>set R. \<forall>f. tword a x f = tword s x f" "\<forall>pd. heap_in s pd \<longrightarrow> heap_in a pd" "heap_only s a"
      "\<forall>c. in_use ts c \<longrightarrow> heap_word a c = heap_word s c" unfolding m by auto
  from malloc_sched [OF a(3) _ _ c(2)] obtain p j b where
    b: "malloc STACK_SIZE a = Inr (p, b)" "p \<noteq> 0" "sched_ok b vs R" "live vs = insert (unat p, j) (live us)" "4096 \<le> j"
      "\<forall>i. (unat p, i) \<notin> live us" "next_pid b = next_pid a" "current_task b = current_task a"
      "\<forall>x\<in>set R. \<forall>f. tword b x f = tword a x f" "\<forall>pd. heap_in a pd \<longrightarrow> heap_in b pd" "heap_only a b"
      "\<forall>c. in_use us c \<longrightarrow> heap_word b c = heap_word a c" unfolding m by auto
  have "task_block vs t" "stack_block vs p" using a(4,5) b(4,5) by (auto simp: task_block_def stack_block_def)
  moreover have "t \<notin> set R" "p \<notin> set R" using live_not_task [OF s a(6)] live_not_task [OF a(3) b(6)] by auto
  moreover have "p \<noteq> t" "live ts \<subseteq> live vs" "\<forall>j. (unat t, j) \<notin> live ts \<and> (unat p, j) \<notin> live ts" using b(4,6) a(4,6) by auto
  moreover have "heap_word b c = heap_word s c" if "in_use ts c" for c
  proof -
    have "in_use us c" using that a(4) unfolding in_use_live by auto
    then show ?thesis using that a(12) b(12) by simp
  qed
  ultimately show ?thesis using a b heap_only_trans [OF a(11) b(11)]
    by (intro exI [of _ t] exI [of _ p] exI [of _ a] exI [of _ b]) simp
qed

lemma create_elf_effect:
  fixes s :: "'a sched_scheme"
  assumes s: "sched_ok s ts R" and c: "cut_first (unat (block_needed 36)) ts = Some (d, us)"
    "cut_first (unat (block_needed 4096)) us = Some (e, vs)" and pd: "pd = 0 \<or> heap_in s pd"
  shows "\<exists>t p u. task_create_elf entry esp pd s = Inr (0, u) \<and> t \<notin> set R \<and> sched_ok u vs (link_in t R) \<and>
    stack_block vs p \<and> live ts \<subseteq> live vs \<and> (\<forall>j. (unat t, j) \<notin> live ts \<and> (unat p, j) \<notin> live ts) \<and> p \<noteq> t \<and>
    next_pid u = next_pid s + 1 \<and> current_task u = current_task s \<and>
    (\<forall>f. f \<noteq> T_next \<longrightarrow> tword u t f = new_task (frame_of p) (p + STACK_SIZE) (next_pid s) 0 pd f) \<and>
    (\<forall>f. rword u (frame_of p) f = first_regs entry esp f) \<and>
    (\<forall>x\<in>set R. \<forall>f. f \<noteq> T_next \<longrightarrow> tword u x f = tword s x f)"
proof -
  from create_blocks [OF s c] obtain t p a b where
    a: "malloc sizeof_task s = Inr (t, a)" "t \<noteq> 0" "malloc STACK_SIZE a = Inr (p, b)" "p \<noteq> 0"
    and b: "sched_ok b vs R" "task_block vs t" "stack_block vs p" "t \<notin> set R" "p \<notin> set R" "p \<noteq> t"
    and l: "live ts \<subseteq> live vs" "\<forall>j. (unat t, j) \<notin> live ts \<and> (unat p, j) \<notin> live ts"
    and w: "next_pid b = next_pid s" "current_task b = current_task s"
      "\<forall>x\<in>set R. \<forall>f. tword b x f = tword s x f" "\<forall>pd. heap_in s pd \<longrightarrow> heap_in b pd" by blast
  note B = sched_okD [OF b(1)]
  from init_regs_effect [OF B(1) b(3), of entry esp] obtain v where
    v: "init_regs (frame_of p) entry esp b = Inr v" "tasks_only vs b v" "\<forall>f. rword v (frame_of p) f = first_regs entry esp f"
      "\<forall>x f. task_block vs x \<longrightarrow> x \<noteq> p \<longrightarrow> tword v x f = tword b x f" by blast
  have vR: "tword v x f = tword b x f" if "x \<in> set R" for x f using v(4) B(3) [OF that] that b(5) by auto
  have sv: "sched_ok v vs R" by (rule sched_ok_update [OF b(1) v(2)]) (rule vR; assumption)+
  have pv: "pd = 0 \<or> heap_in v pd" using pd w(4) v(2) by (auto simp: tasks_only_def)
  from setup_task_ok [OF sv b(2,4) pv, of "frame_of p" p 0] obtain u where
    u: "setup_task t (frame_of p) p 0 pd v = Inr (0, u)" "sched_ok u vs (link_in t R)" "next_pid u = next_pid v + 1"
      "current_task u = current_task v"
      "\<forall>f. f \<noteq> T_next \<longrightarrow> tword u t f = new_task (frame_of p) (p + STACK_SIZE) (next_pid v) 0 pd f"
      "\<forall>x\<in>set R. \<forall>f. f \<noteq> T_next \<longrightarrow> tword u x f = tword v x f"
      "\<forall>q g. stack_block vs q \<longrightarrow> q \<notin> insert t (set R) \<longrightarrow> rword u (frame_of q) g = rword v (frame_of q) g" by blast
  have "task_create_elf entry esp pd s = Inr (0, u)"
    using a v(1) u(1) by (simp add: task_create_elf_def Let_def flip: frame_of_def)
  moreover have "next_pid v = next_pid s" "current_task v = current_task s"
    using tasks_only_fields(2,3) [OF v(2)] w(1,2) by simp_all
  moreover have "\<forall>x\<in>set R. \<forall>f. f \<noteq> T_next \<longrightarrow> tword u x f = tword s x f" using u(6) vR w(3) by auto
  moreover have "\<forall>f. rword u (frame_of p) f = first_regs entry esp f" using u(7) v(3) b(3,5,6) by auto
  ultimately show ?thesis using u(2-5) b(3,4,6) l
    by (intro exI [of _ t] exI [of _ p] exI [of _ u]) (simp only: simp_thms)
qed

end
