(* ===== verification/Sched_Reap.thy ===== *)
theory Sched_Reap
  imports Sched_Create
begin

text \<open>
  Waiting for a child. \<open>sched_wait\<close> takes the first zombie child of the current task off the ring,
  destroys its address space and gives its two blocks back to the heap.
\<close>

section \<open>The predecessor in the ring\<close>

lemma find_prev_path:
  assumes h: "heap_rep s ts" and b: "\<forall>x\<in>insert a (set ws). task_block ts x"
    and p: "path (\<lambda>x. tword s x T_next) a (ws @ [z])" and z: "z \<notin> set ws" and n: "length ws < n"
  shows "find_prev n z a s = Inr (last (a # ws))"
  using b p z n
proof (induction ws arbitrary: a n)
  case Nil
  then obtain k where "n = Suc k" by (cases n) auto
  with Nil show ?case by (simp add: tm.get_val [OF h])
next
  case (Cons w ws)
  then obtain k where n: "n = Suc k" by (cases n) auto
  have "find_prev k z w s = Inr (last (w # ws))" using Cons.prems n by (intro Cons.IH) auto
  then show ?case using Cons.prems by (auto simp: n tm.get_val [OF h])
qed

lemma ring_prefix:
  assumes "ring nx (h # us @ z # vs)"
  shows "path nx h (us @ [z])"
  using assms path_append [of nx h "us @ [z]" vs] by (simp add: ring_def)

lemma find_prev_ring:
  assumes s: "sched_ok s ts R" and R: "R = us @ z # vs"
  shows "find_prev list_bound z (task_list s) s = Inr (last (z # vs @ us))"
proof -
  note D = sched_okD [OF s]
  have l: "length R < list_bound" by (rule distinct_u32_bound [OF D(2)])
  have zus: "z \<notin> set us" "z \<notin> set vs" using D(2) by (auto simp: R)
  have ne: "R \<noteq> []" by (simp add: R)
  show ?thesis
  proof (cases us)
    case Nil
    then have z: "task_list s = z" using D(5) [OF ne] by (simp add: R)
    have "path (\<lambda>x. tword s x T_next) z (vs @ [z])"
      using ring_after [of "\<lambda>x. tword s x T_next" us z vs] D(4) by (simp add: R Nil)
    from find_prev_path [OF D(1) _ this zus(2)] D(3) l z show ?thesis by (auto simp: R Nil)
  next
    case (Cons h us')
    then have z: "task_list s = h" using D(5) [OF ne] by (simp add: R)
    have "path (\<lambda>x. tword s x T_next) h (us' @ [z])"
      using ring_prefix [of "\<lambda>x. tword s x T_next" h us' z vs] D(4) by (simp add: R Cons)
    from find_prev_path [OF D(1) _ this] D(3) l z zus(1) show ?thesis by (auto simp: R Cons)
  qed
qed

lemma ring_unlink:
  assumes "ring nx (us @ z # vs)" "distinct (us @ z # vs)"
  shows "ring (nx(last (z # vs @ us) := nx z)) (us @ vs)"
proof -
  let ?ws = "vs @ us" let ?ny = "nx(last (z # ?ws) := nx z)"
  have p: "path nx z (?ws @ [z])" using ring_after [OF assms(1)] by simp
  have "ring ?ny ?ws"
  proof (cases "?ws = []")
    case False
    then obtain w ws where w: "?ws = w # ws" by (cases ?ws) auto
    have d: "distinct (w # ws)" using assms(2) unfolding w [symmetric] by auto
    have q: "nx z = w" "path nx w ws" using p unfolding w by (simp_all add: path_append)
    have "path ?ny w ws"
    proof (cases "ws = []")
      case False
      have "last ws \<notin> insert w (set (butlast ws))"
        using d False by (metis append_butlast_last_id distinct.simps(2) distinct_append insert_iff last_in_set not_distinct_conv_prefix)
      then have "path ?ny w ws = path nx w ws" using False unfolding w by (intro path_cong) auto
      then show ?thesis using q(2) by simp
    qed simp
    then show ?thesis unfolding ring_def w using q by simp
  qed (simp add: ring_def)
  then show ?thesis using ring_rotate [of ?ny us vs] by simp
qed

section \<open>Unlinking\<close>

lemma unlink_ok:
  fixes s :: "'a sched_scheme"
  assumes s: "sched_ok s ts R" and R: "R = us @ z # vs" and c: "current_task s \<noteq> z"
  shows "\<exists>u. unlink_task z s = Inr u \<and> sched_ok u ts (us @ vs) \<and> current_task u = current_task s \<and>
    heap_only s (u\<lparr>task_list := task_list s\<rparr>) \<and>
    (\<forall>x\<in>set R. \<forall>f. f \<noteq> T_next \<longrightarrow> tword u x f = tword s x f)"
proof -
  note D = sched_okD [OF s]
  let ?p = "last (z # vs @ us)" let ?v = "tput ?p T_next (tword s z T_next) s"
  have "last (z # vs @ us) \<in> set (z # vs @ us)" by (rule last_in_set) simp
  then have pR: "?p \<in> set R" "z \<in> set R" unfolding R by auto
  note B = D(3) [OF pR(1)] D(3) [OF pR(2)]
  have o: "tasks_only ts s ?v" by (rule tasks_only_tput [OF D(1) B(1)])
  have hv: "heap_rep ?v ts" using o by (simp add: tasks_only_def)
  have w: "tword ?v x f = (if x = ?p \<and> f = T_next then tword s z T_next else tword s x f)" if "x \<in> set R" for x f
    by (rule tm.put_val [OF D(1) B(1) D(3) [OF that]])
  let ?l = "if us = [] then if vs = [] then 0 else hd vs else hd us"
  let ?u = "?v\<lparr>task_list := ?l\<rparr>"
  have tl: "task_list s = hd R" using D(5) by (simp add: R)
  have z0: "z \<noteq> 0" by (rule task_block_nonzero [OF D(1) B(2)])
  have p: "path (\<lambda>x. tword s x T_next) z (vs @ us @ [z])"
    by (rule ring_after) (use D(4) in \<open>simp add: R\<close>)
  have nz: "tword ?v z T_next = tword s z T_next" using w [OF pR(2), of T_next] by auto
  have "unlink_task z s = Inr ?u"
  proof (cases "us = []")
    case True
    then have "tword s z T_next = (if vs = [] then z else hd vs)" using p by (cases vs) auto
    moreover have "hd vs \<noteq> z" if "vs \<noteq> []" using D(2) that by (cases vs) (auto simp: R)
    ultimately show ?thesis
      using find_prev_ring [OF s R] tm.get_val [OF D(1) B(2)] tm.sto_put [OF D(1) B(1)] tm.get_val [OF hv B(2)] nz tl True
      by (simp add: unlink_task_def R)
  next
    case False
    then have "hd us \<noteq> z" using D(2) by (cases us) (auto simp: R)
    then show ?thesis
      using find_prev_ring [OF s R] tm.get_val [OF D(1) B(2)] tm.sto_put [OF D(1) B(1)] tl False
      by (simp add: unlink_task_def R)
  qed
  moreover have "ring (\<lambda>x. tword ?v x T_next) (us @ vs)"
  proof -
    have "ring (\<lambda>x. tword ?v x T_next) (us @ vs) = ring ((\<lambda>x. tword s x T_next)(?p := tword s z T_next)) (us @ vs)"
      by (rule ring_cong) (use w in \<open>auto simp: R\<close>)
    then show ?thesis using ring_unlink [of "\<lambda>x. tword s x T_next" us z vs] D(2,4) by (simp add: R)
  qed
  then have "sched_ok ?u ts (us @ vs)"
    using D o w hv c tasks_only_fields(2) [OF o] unfolding sched_ok_def by (auto simp: R tasks_only_def)
  moreover have "heap_only s (?u\<lparr>task_list := task_list s\<rparr>)"
  proof -
    have "?v\<lparr>task_list := ?l\<rparr>\<lparr>task_list := task_list s\<rparr> = ?v" by (simp add: tput_def heap_put_def)
    then show ?thesis using heap_only_tput [OF D(1) B(1)] by (simp only:)
  qed
  moreover have "\<forall>x\<in>set R. \<forall>f. f \<noteq> T_next \<longrightarrow> tword ?u x f = tword s x f" using w by auto
  ultimately show ?thesis using tasks_only_fields(2) [OF o] by (intro exI [of _ ?u]) simp
qed

section \<open>Giving back what the task owns\<close>

lemma destroy_sched:
  fixes s :: "'a sched_scheme"
  assumes s: "sched_ok s ts R" and ok: "direct s" "space_ok s d" "kernel_page_directory s \<in> pmm_managed s"
    and d: "d \<noteq> 0" "d \<noteq> kernel_page_directory s"
  shows "\<exists>t. vmm_destroy_address_space d s = Inr t \<and> sched_ok t ts R \<and> tword t = tword s \<and> current_task t = current_task s \<and>
    pmm_pool t = insert d (pmm_pool s \<union> (private_frames s d 1024 \<inter> pmm_managed s))"
proof -
  from destroy_effect [OF ok d] obtain t where
    t: "vmm_destroy_address_space d s = Inr t" "phys_mem t = phys_mem s"
      "pmm_pool t = insert d (pmm_pool s \<union> (private_frames s d 1024 \<inter> pmm_managed s))" by blast
  note F = mem_only_fields [OF keptD [OF kept_destroy t(1)]]
  have m: "heap_free t = heap_free s" "heap_top t = heap_top s" "task_list t = task_list s" "current_task t = current_task s"
    using F(6) by (cases s; cases t; simp)+
  note V = heap_view [OF t(2) F(2,3) m(2,1)]
  have "sched_ok t ts R" using s by (simp add: sched_ok_def V m)
  then show ?thesis using t m V by blast
qed

lemma free_sched:
  fixes s :: "'a sched_scheme"
  assumes s: "sched_ok s ts R" and p: "(unat p, k) \<in> live ts" "p \<notin> set R"
  shows "\<exists>t us. free p s = Inr t \<and> sched_ok t us R \<and> live us = {b \<in> live ts. fst b \<noteq> unat p} \<and>
    current_task t = current_task s \<and> pmm_pool t = pmm_pool s \<and> (\<forall>x\<in>set R. \<forall>f. tword t x f = tword s x f)"
proof -
  note D = sched_okD [OF s]
  have unat_cast: "of_nat (unat p) = p" by simp
  let ?us = "join (mark (unat p - 8 - heap_base) ts)"
  from rep_free [OF D(1) p(1)] obtain t where
    t: "free p s = Inr t" "heap_rep t ?us" "heap_only s t" "live ?us = live ts - {(unat p, k)}"
      "\<forall>c. in_use ts c \<longrightarrow> heap_word t c = heap_word s c" unfolding unat_cast by blast
  have u: "j = k" if "(unat p, j) \<in> live ts" for j by (rule rep_live_unique [OF D(1) that p(1)])
  have "live ts - {(unat p, k)} = {b \<in> live ts. fst b \<noteq> unat p}" by (auto dest: u)
  with t(4) have l: "live ?us = {b \<in> live ts. fst b \<noteq> unat p}" by simp
  have b: "task_block ?us x" if "x \<in> set R" for x
  proof -
    have "x \<noteq> p" using that p(2) by auto
    then have "unat x \<noteq> unat p" by (simp add: word_unat_eq_iff)
    then show ?thesis using D(3) [OF that] unfolding task_block_def l by simp
  qed
  show ?thesis
    using t(1) l sched_ok_heap(1,2) [OF s t(3,2) b t(5)] heap_only_sched(2) [OF t(3)] heap_only_vmm(6) [OF t(3)]
    by (intro exI [of _ t] exI [of _ ?us]) simp
qed

text \<open>What a task owns: its address space, where it has one, and the blocks of its struct and its stack.\<close>

definition reapable :: "'a sched_scheme \<Rightarrow> tile list \<Rightarrow> u32 list \<Rightarrow> u32 \<Rightarrow> bool" where
  "reapable s ts R z \<longleftrightarrow>
     (tword s z T_page_dir \<noteq> 0 \<longrightarrow> space_ok s (tword s z T_page_dir) \<and> tword s z T_page_dir \<noteq> kernel_page_directory s) \<and>
     (tword s z T_stack_top \<noteq> 0 \<longrightarrow> (\<exists>k. (unat (tword s z T_stack_top - STACK_SIZE), k) \<in> live ts) \<and>
        tword s z T_stack_top - STACK_SIZE \<notin> set R)"

definition owned_blocks :: "'a sched_scheme \<Rightarrow> u32 \<Rightarrow> nat set" where
  "owned_blocks s z = insert (unat z)
     (if tword s z T_stack_top \<noteq> 0 then {unat (tword s z T_stack_top - STACK_SIZE)} else {})"

definition owned_frames :: "'a sched_scheme \<Rightarrow> u32 \<Rightarrow> u32 set" where
  "owned_frames s z =
    (let pd = tword s z T_page_dir
     in if pd \<noteq> 0 then insert pd (private_frames s pd 1024 \<inter> pmm_managed s) else {})"

lemma heap_in_tables:
  "heap_in s pd \<Longrightarrow> aligned_page pd" "heap_in s pd \<Longrightarrow> tables (phys_mem s) pd \<inter> heap_frames s = {}"
  by (auto simp: heap_in_def heap_frames_def)

lemma private_frames_heap:
  fixes s t :: "'a heap_scheme"
  assumes o: "heap_only s t" and i: "heap_in s pd" "heap_in s (kernel_page_directory s)"
  shows "private_frames t pd 1024 = private_frames s pd 1024"
proof -
  note P = heap_only_tables(1) [OF o heap_in_tables [OF i(1)]] and K = heap_only_tables(1) [OF o heap_in_tables [OF i(2)]]
  let ?K = "kernel_page_directory s"
  have d: "mword (phys_mem t) pd j = mword (phys_mem s) pd j" "mword (phys_mem t) ?K j = mword (phys_mem s) ?K j"
    if "j < 1024" for j using P [OF _ that] K [OF _ that] by (simp_all add: in_tables)
  have "mapped_frames (phys_mem t) (table_of (phys_mem s) pd j) 1024 = mapped_frames (phys_mem s) (table_of (phys_mem s) pd j) 1024"
    if j: "j < 1024" "present (phys_mem s) pd j" for j
  proof -
    have "table_of (phys_mem s) pd j \<in> tables (phys_mem s) pd" using j by (auto simp: in_tables)
    then show ?thesis using P by (intro mapped_frames_cong) simp
  qed
  moreover have "present (phys_mem t) pd j = present (phys_mem s) pd j" "table_of (phys_mem t) pd j = table_of (phys_mem s) pd j"
    if "j < 1024" for j using d(1) [OF that] by (simp_all add: present_def table_of_def)
  ultimately show ?thesis unfolding private_frames_def heap_only_vmm(5) [OF o] by (auto simp: d)
qed

lemma task_list_space:
  fixes s :: "'a sched_scheme"
  shows "direct (s\<lparr>task_list := x\<rparr>) = direct s" "space_ok (s\<lparr>task_list := x\<rparr>) d = space_ok s d"
    "private_frames (s\<lparr>task_list := x\<rparr>) d n = private_frames s d n" "pmm_pool (s\<lparr>task_list := x\<rparr>) = pmm_pool s"
    "pmm_managed (s\<lparr>task_list := x\<rparr>) = pmm_managed s"
proof -
  show p: "pmm_pool (s\<lparr>task_list := x\<rparr>) = pmm_pool s" "pmm_managed (s\<lparr>task_list := x\<rparr>) = pmm_managed s"
    by (rule pmm_same; simp)+
  show "direct (s\<lparr>task_list := x\<rparr>) = direct s" "space_ok (s\<lparr>task_list := x\<rparr>) d = space_ok s d"
    "private_frames (s\<lparr>task_list := x\<rparr>) d n = private_frames s d n"
    by (simp_all add: direct_def translate_def space_ok_def private_frames_def p)
qed

lemma reap_space:
  fixes s a :: "'a sched_scheme"
  assumes s: "sched_ok s ts R" "z \<in> set R" and a: "sched_ok a ts us" "heap_only s (a\<lparr>task_list := task_list s\<rparr>)" and z: "reapable s ts R z"
    and k: "direct s" "kernel_page_directory s \<in> pmm_managed s" "heap_in s (kernel_page_directory s)"
    and pd: "pd = tword s z T_page_dir"
  shows "\<exists>b. (if pd \<noteq> 0 then vmm_destroy_address_space pd a else Inr a) = Inr b \<and> sched_ok b ts us \<and> tword b = tword a \<and>
    current_task b = current_task a \<and> pmm_pool b = pmm_pool s \<union> owned_frames s z"
proof -
  note D = sched_okD [OF s(1)]
  have m: "heap_mapped s" using D(1) by (simp add: heap_rep_def tiled_def)
  note F = heap_only_vmm [OF a(2), unfolded task_list_space] and T = task_list_space [where s = a and x = "task_list s"]
  show ?thesis
  proof (cases "pd = 0")
    case True
    then show ?thesis using a(1) F(6) pd by (simp add: owned_frames_def)
  next
    case False
    have i: "heap_in s pd" using D(8) [OF s(2)] False pd by simp
    have z': "space_ok s pd" "pd \<noteq> kernel_page_directory s" using z False pd by (auto simp: reapable_def)
    have "direct a" using heap_only_direct(1) [OF a(2) m k(1)] T(1) by simp
    moreover have "space_ok a pd" using heap_only_tables(4) [OF a(2) heap_in_tables [OF i]] z'(1) T(2) by simp
    moreover have kp: "kernel_page_directory a = kernel_page_directory s" using F(5) by simp
    ultimately obtain b where
      b: "vmm_destroy_address_space pd a = Inr b" "sched_ok b ts us" "tword b = tword a" "current_task b = current_task a"
        "pmm_pool b = insert pd (pmm_pool a \<union> (private_frames a pd 1024 \<inter> pmm_managed a))"
      using destroy_sched [OF a(1), of pd] k(2) False z'(2) F(7) by auto
    have "private_frames a pd 1024 = private_frames s pd 1024" using private_frames_heap [OF a(2) i k(3)] T(3) by simp
    then have "pmm_pool b = pmm_pool s \<union> owned_frames s z" using b(5) F(6,7) False pd by (auto simp: owned_frames_def Let_def)
    then show ?thesis using b False by simp
  qed
qed

lemma reap_stack:
  fixes s :: "'a sched_scheme"
  assumes s: "sched_ok s ts R" and t: "tp \<noteq> 0 \<longrightarrow> (\<exists>k. (unat (tp - STACK_SIZE), k) \<in> live ts) \<and> tp - STACK_SIZE \<notin> set R"
  shows "\<exists>d xs. (if tp \<noteq> 0 then free (tp - STACK_SIZE) s else Inr s) = Inr d \<and> sched_ok d xs R \<and>
    current_task d = current_task s \<and> live xs = {q \<in> live ts. tp \<noteq> 0 \<longrightarrow> fst q \<noteq> unat (tp - STACK_SIZE)} \<and>
    pmm_pool d = pmm_pool s \<and> (\<forall>x\<in>set R. \<forall>f. tword d x f = tword s x f)"
proof (cases "tp = 0")
  case True
  then show ?thesis using s by (intro exI [of _ s] exI [of _ ts]) simp
next
  case False
  with t obtain k where "(unat (tp - STACK_SIZE), k) \<in> live ts" "tp - STACK_SIZE \<notin> set R" by blast
  from free_sched [OF s this] show ?thesis using False by auto
qed

lemma reap_effect:
  fixes s :: "'a sched_scheme"
  assumes s: "sched_ok s ts (us @ z # vs)" and c: "current_task s \<noteq> z" and z: "reapable s ts (us @ z # vs) z"
    and k: "direct s" "kernel_page_directory s \<in> pmm_managed s" "heap_in s (kernel_page_directory s)"
  shows "\<exists>t ws. reap_task z s = Inr (tword s z T_exit_code, t) \<and> sched_ok t ws (us @ vs) \<and>
    current_task t = current_task s \<and> live ws = {b \<in> live ts. fst b \<notin> owned_blocks s z} \<and>
    pmm_pool t = pmm_pool s \<union> owned_frames s z \<and>
    (\<forall>x\<in>set (us @ vs). \<forall>f. f \<noteq> T_next \<longrightarrow> tword t x f = tword s x f)"
proof -
  note D = sched_okD [OF s]
  let ?pd = "tword s z T_page_dir" and ?top = "tword s z T_stack_top" and ?R = "us @ vs"
  have bz: "task_block ts z" using D(3) by simp
  have zR: "z \<notin> set ?R" using D(2) by auto
  from unlink_ok [OF s refl c] obtain a where
    a: "unlink_task z s = Inr a" "sched_ok a ts ?R" "current_task a = current_task s" "heap_only s (a\<lparr>task_list := task_list s\<rparr>)"
      "\<forall>x\<in>set (us @ z # vs). \<forall>f. f \<noteq> T_next \<longrightarrow> tword a x f = tword s x f" by blast
  from reap_space [OF s _ a(2,4) z k refl] obtain b where
    b: "(if ?pd \<noteq> 0 then vmm_destroy_address_space ?pd a else Inr a) = Inr b" "sched_ok b ts ?R" "tword b = tword a"
      "current_task b = current_task a" "pmm_pool b = pmm_pool s \<union> owned_frames s z" by auto
  have "?top \<noteq> 0 \<longrightarrow> (\<exists>k. (unat (?top - STACK_SIZE), k) \<in> live ts) \<and> ?top - STACK_SIZE \<notin> set ?R"
    using z by (simp add: reapable_def)
  from reap_stack [OF b(2) this] obtain d xs where
    d: "(if ?top \<noteq> 0 then free (?top - STACK_SIZE) b else Inr b) = Inr d" "sched_ok d xs ?R" "current_task d = current_task b"
      "live xs = {q \<in> live ts. ?top \<noteq> 0 \<longrightarrow> fst q \<noteq> unat (?top - STACK_SIZE)}" "pmm_pool d = pmm_pool b"
      "\<forall>x\<in>set ?R. \<forall>f. tword d x f = tword b x f" by blast
  obtain k where k: "(unat z, k) \<in> live xs"
  proof -
    have "?top \<noteq> 0 \<longrightarrow> z \<noteq> ?top - STACK_SIZE" using z by (auto simp: reapable_def)
    then have "?top \<noteq> 0 \<longrightarrow> unat z \<noteq> unat (?top - STACK_SIZE)" by (simp only: word_unat_eq_iff)
    moreover obtain k where "(unat z, k) \<in> live ts" using bz unfolding task_block_def by blast
    ultimately show thesis using that [of k] unfolding d(4) by simp
  qed
  from free_sched [OF d(2) k zR] obtain t ws where
    t: "free z d = Inr t" "sched_ok t ws ?R" "live ws = {q \<in> live xs. fst q \<noteq> unat z}" "current_task t = current_task d"
      "pmm_pool t = pmm_pool d" "\<forall>x\<in>set ?R. \<forall>f. tword t x f = tword d x f" by blast
  have gs: "tget s z T_exit_code = Inr (tword s z T_exit_code)" by (rule tm.get_val [OF D(1) bz])
  have ga: "tget a z T_page_dir = Inr ?pd" using tm.get_val [OF sched_okD(1) [OF a(2)] bz, of T_page_dir] a(5) by simp
  have gb: "tget b z T_stack_top = Inr ?top" using tm.get_val [OF sched_okD(1) [OF b(2)] bz, of T_stack_top] a(5) b(3) by simp
  have "reap_task z s = Inr (tword s z T_exit_code, t)"
    unfolding reap_task_def gs a(1) kbind_simps ga b(1) gb d(1) t(1) ..
  moreover have "live ws = {b \<in> live ts. fst b \<notin> owned_blocks s z}" unfolding t(3) d(4) owned_blocks_def by auto
  moreover have "tword t x f = tword s x f" if "x \<in> set ?R" "f \<noteq> T_next" for x f
    using that t(6) d(6) b(3) a(5) by simp
  ultimately show ?thesis using t(2,4,5) d(3,5) b(4,5) a(3) by auto
qed

section \<open>sched_wait\<close>

definition zombie_child :: "'a sched_scheme \<Rightarrow> u32 \<Rightarrow> bool" where
  "zombie_child s z \<longleftrightarrow> tword s z T_parent = current_task s \<and> tword s z T_state = TASK_ZOMBIE"

lemma wait_loop_path:
  assumes h: "heap_rep s ts" and b: "\<forall>x\<in>insert t (set us). task_block ts x"
    and p: "path (\<lambda>x. tword s x T_next) t (us @ [start])" and u: "start \<notin> set us" and n: "length us < n"
  shows "wait_loop n start t s = (case find (zombie_child s) (t # us) of None \<Rightarrow> Inr (-1, s) | Some z \<Rightarrow> reap_task z s)"
  using b p u n
proof (induction us arbitrary: t n)
  case Nil
  then obtain k where "n = Suc k" by (cases n) auto
  with Nil show ?case by (simp add: tm.get_val [OF h] zombie_child_def)
next
  case (Cons x us)
  then obtain k where n: "n = Suc k" by (cases n) auto
  have "wait_loop k start x s = (case find (zombie_child s) (x # us) of None \<Rightarrow> Inr (-1, s) | Some z \<Rightarrow> reap_task z s)"
    using Cons.prems n by (intro Cons.IH) auto
  then show ?case using Cons.prems zombie_child_def [of s t]
    by (auto simp: n tm.get_val [OF h] simp del: find.simps(2) simp add: find.simps(2) [of _ t])
qed

lemma sched_wait_finds:
  assumes s: "sched_ok s ts R" and c: "current_task s \<noteq> 0"
  shows "sched_wait s = (case find (zombie_child s) R of None \<Rightarrow> Inr (-1, s) | Some z \<Rightarrow> reap_task z s)"
proof -
  note D = sched_okD [OF s]
  obtain h us where R: "R = h # us" using D(7) [OF c] by (cases R) auto
  have h: "task_list s = h" "h \<notin> set us" using D(2,5) by (simp_all add: R)
  have "path (\<lambda>x. tword s x T_next) h (us @ [h])"
    using ring_after [of "\<lambda>x. tword s x T_next" "[]" h us] D(4) by (simp add: R)
  moreover have "length us < list_bound" using distinct_u32_bound [OF D(2)] by (simp add: R)
  moreover have "h \<noteq> 0" using task_block_nonzero [OF D(1) D(3)] by (simp add: R)
  ultimately show ?thesis
    using wait_loop_path [OF D(1) _ _ h(2)] D(3) c h(1) unfolding sched_wait_def by (auto simp: R)
qed

lemma sched_wait_effect:
  fixes s :: "'a sched_scheme"
  assumes s: "sched_ok s ts R" and c: "current_task s \<noteq> 0" "tword s (current_task s) T_state \<noteq> TASK_ZOMBIE"
    and z: "find (zombie_child s) R = Some z" "reapable s ts R z"
    and k: "direct s" "kernel_page_directory s \<in> pmm_managed s" "heap_in s (kernel_page_directory s)"
  shows "\<exists>t ws. sched_wait s = Inr (tword s z T_exit_code, t) \<and> sched_ok t ws (remove1 z R) \<and>
    current_task t = current_task s \<and> live ws = {b \<in> live ts. fst b \<notin> owned_blocks s z} \<and>
    pmm_pool t = pmm_pool s \<union> owned_frames s z \<and>
    (\<forall>x\<in>set (remove1 z R). \<forall>f. f \<noteq> T_next \<longrightarrow> tword t x f = tword s x f)"
proof -
  obtain us vs where R: "R = us @ z # vs" and zz: "zombie_child s z" using find_split [OF z(1)] by blast
  have "z \<notin> set us" using sched_okD(2) [OF s] by (auto simp: R)
  then have r: "remove1 z R = us @ vs" by (simp add: R remove1_append)
  have "current_task s \<noteq> z" using c(2) zz by (auto simp: zombie_child_def)
  from reap_effect [OF s [unfolded R] this z(2) [unfolded R] k] sched_wait_finds [OF s c(1)] z(1)
  show ?thesis unfolding r by simp
qed

end
