(* ===== verification/Vmm_Clone.thy ===== *)
theory Vmm_Clone
  imports Vmm_Boot
begin

text \<open>
  Cloning an address space, \<^verbatim>\<open>vmm_clone_address_space\<close> of src/src/kernel/vmm.c, which fork relies on.
  With enough free frames the clone has its own copy, in frames that were free, of every page that
  the space does not share with the kernel, and nothing else in memory changes.
\<close>

section \<open>Spending frames\<close>

text \<open>States in which free frames can be written: none of them is a table in use.\<close>

definition calm :: "'a vmm_scheme \<Rightarrow> bool" where
  "calm s \<longleftrightarrow> pmm_inv s \<and> direct s \<and> (paging s \<longrightarrow> tables (phys_mem s) (cur s) \<inter> pmm_pool s = {})"

text \<open>\<open>spent s t N\<close>: from \<open>s\<close> to \<open>t\<close> frames were taken from the pool, and nothing was written but to
  these and to the frames \<open>N\<close>.\<close>

definition spent :: "'a vmm_scheme \<Rightarrow> 'a vmm_scheme \<Rightarrow> u32 set \<Rightarrow> bool" where
  "spent s t N \<longleftrightarrow> calm t \<and> pmm_pool t \<subseteq> pmm_pool s \<and> pmm_managed t = pmm_managed s \<and>
     kernel_page_directory t = kernel_page_directory s \<and> cr3 t = cr3 s \<and> paging t = paging s \<and>
     (paging s \<longrightarrow> tables (phys_mem t) (cur s) = tables (phys_mem s) (cur s)) \<and>
     (\<forall>g j. aligned_page g \<longrightarrow> j < 1024 \<longrightarrow> g \<notin> N \<union> (pmm_pool s - pmm_pool t) \<longrightarrow>
        mword (phys_mem t) g j = mword (phys_mem s) g j)"

lemma spentD:
  assumes "spent s t N"
  shows "calm t" "pmm_pool t \<subseteq> pmm_pool s" "pmm_managed t = pmm_managed s"
    "kernel_page_directory t = kernel_page_directory s" "cr3 t = cr3 s" "paging t = paging s"
    "paging s \<Longrightarrow> tables (phys_mem t) (cur s) = tables (phys_mem s) (cur s)"
    "aligned_page g \<Longrightarrow> j < 1024 \<Longrightarrow> g \<notin> N \<Longrightarrow> g \<notin> pmm_pool s \<or> g \<in> pmm_pool t \<Longrightarrow> mword (phys_mem t) g j = mword (phys_mem s) g j"
  using assms by (auto simp: spent_def)

lemma spent_refl: "calm s \<Longrightarrow> spent s s N"
  by (simp add: spent_def)

lemma spent_trans:
  assumes "spent s t N" "spent t u M" "M \<subseteq> N \<union> (pmm_pool s - pmm_pool t)"
  shows "spent s u N"
proof -
  note T = spentD [OF assms(1)] and U = spentD [OF assms(2)]
  have "mword (phys_mem u) g j = mword (phys_mem s) g j"
    if "aligned_page g" "j < 1024" "g \<notin> N \<union> (pmm_pool s - pmm_pool u)" for g j
  proof -
    have "g \<notin> N" "g \<notin> M" "g \<notin> pmm_pool t \<or> g \<in> pmm_pool u" "g \<notin> pmm_pool s \<or> g \<in> pmm_pool t"
      using that(3) T(2) U(2) assms(3) by blast+
    then show ?thesis using T(8) [OF that(1,2)] U(8) [OF that(1,2)] by simp
  qed
  moreover have "paging s \<longrightarrow> tables (phys_mem u) (cur s) = tables (phys_mem s) (cur s)" using T(5-7) U(7) by simp
  ultimately show ?thesis using T(2-6) U(1-6) unfolding spent_def by simp
qed

lemma spent_mono: "spent s t N \<Longrightarrow> N \<subseteq> M \<Longrightarrow> spent s t M"
  unfolding spent_def by blast

text \<open>Writing frames that are not tables in use.\<close>

lemma spent_write:
  fixes s :: "'a vmm_scheme"
  assumes s: "calm s" and N: "paging s \<Longrightarrow> tables (phys_mem s) (cur s) \<inter> N = {}"
    and m: "\<And>g j. aligned_page g \<Longrightarrow> j < 1024 \<Longrightarrow> g \<notin> N \<Longrightarrow> mword m g j = mword (phys_mem s) g j"
  shows "spent s (s\<lparr>phys_mem := m\<rparr>) N"
proof -
  have w: "walk m (cur s) = walk (phys_mem s) (cur s) \<and> tables m (cur s) = tables (phys_mem s) (cur s)" if p: "paging s"
  proof -
    have "mword m f j = mword (phys_mem s) f j" if "f \<in> tables (phys_mem s) (cur s)" "j < 1024" for f j
      using m [OF tables_aligned [OF masked_aligned that(1)] that(2)] N [OF p] that(1) by blast
    then show ?thesis by (auto intro!: ext walk_cong)
  qed
  have "direct (s\<lparr>phys_mem := m\<rparr>)" by (rule direct_update) (use s w in \<open>auto simp: calm_def\<close>)
  then show ?thesis using s w m by (auto simp: spent_def calm_def)
qed

lemma spent_alloc:
  fixes s :: "'a vmm_scheme"
  assumes s: "calm s" and a: "pmm_alloc_page s = (a, t)" "a \<noteq> 0"
  shows "spent s t {}" "a \<in> pmm_pool s" "pmm_pool t = pmm_pool s - {a}" "a \<in> pmm_managed t" "phys_mem t = phys_mem s"
proof -
  have o: "pmm_inv s" "direct s" using s by (auto simp: calm_def)
  note A = alloc_frame [OF o a] and K = alloc_keeps [OF a(1)]
  show "a \<in> pmm_pool s" "pmm_pool t = pmm_pool s - {a}" "a \<in> pmm_managed t" "phys_mem t = phys_mem s" by (rule A K)+
  show "spent s t {}" using s A K by (auto simp: spent_def calm_def)
qed

lemma spent_store:
  fixes s :: "'a vmm_scheme"
  assumes s: "calm s" and f: "f \<in> pmm_managed s" "paging s \<Longrightarrow> f \<notin> tables (phys_mem s) (cur s)" "j < 1024"
  shows "\<exists>t. vstore32 (entry_at f j) v s = Inr t \<and> spent s t {f} \<and> pmm_pool t = pmm_pool s \<and>
    (\<forall>g k. aligned_page g \<longrightarrow> k < 1024 \<longrightarrow> mword (phys_mem t) g k = (if g = f \<and> k = j then v else mword (phys_mem s) g k))"
proof -
  let ?m = "store32 (phys_mem s) (entry_at f j) v"
  have w: "mword ?m g k = (if g = f \<and> k = j then v else mword (phys_mem s) g k)" if "aligned_page g" "k < 1024" for g k
    using mword_store [OF managed_aligned [OF f(1)] that(1) f(3) that(2)] by auto
  have "spent s (s\<lparr>phys_mem := ?m\<rparr>) {f}" using f(2) w by (intro spent_write [OF s]) auto
  then show ?thesis using direct_store [of s f j v] s f(1,3) w by (auto simp: calm_def)
qed

lemma spent_copy:
  fixes s :: "'a vmm_scheme"
  assumes s: "calm s" and f: "f \<in> pmm_managed s" "paging s \<Longrightarrow> f \<notin> tables (phys_mem s) (cur s)"
    and g: "g \<in> pmm_managed s" "g \<noteq> f"
  shows "\<exists>t. copy_table f g s = Inr t \<and> spent s t {f} \<and> pmm_pool t = pmm_pool s \<and>
    (\<forall>h k. aligned_page h \<longrightarrow> k < 1024 \<longrightarrow> mword (phys_mem t) h k = mword (phys_mem s) (if h = f then g else h) k)"
proof -
  have "direct s" using s by (simp add: calm_def)
  from copy_table_effect [OF this f g] obtain m where
    m: "copy_table f g s = Inr (s\<lparr>phys_mem := m\<rparr>)"
      "\<forall>h k. aligned_page h \<longrightarrow> k < 1024 \<longrightarrow> mword m h k = (if h = f then mword (phys_mem s) g k else mword (phys_mem s) h k)" by blast
  have "spent s (s\<lparr>phys_mem := m\<rparr>) {f}" using f(2) m(2) by (intro spent_write [OF s]) auto
  then show ?thesis using m by (intro exI [of _ "s\<lparr>phys_mem := m\<rparr>"]) auto
qed

section \<open>Copying a table\<close>

text \<open>Entry \<open>j\<close> of the table \<open>N\<close> in \<open>m'\<close> is a copy of that of \<open>pt\<close> in \<open>m\<close>: with the same flags it
  refers to a frame of \<open>X\<close> that holds the same words.\<close>

definition copied :: "memory \<Rightarrow> memory \<Rightarrow> u32 \<Rightarrow> u32 \<Rightarrow> u32 set \<Rightarrow> u32 \<Rightarrow> bool" where
  "copied m m' pt N X j \<longleftrightarrow>
    (if present m pt j
     then table_of m' N j \<in> X \<and> mword m' N j = table_of m' N j OR (mword m pt j AND 0xFFF) \<and>
       (\<forall>k < 1024. mword m' (table_of m' N j) k = mword m (table_of m pt j) k)
     else mword m' N j = 0)"

lemma copied_present: "copied m m' pt N X j \<Longrightarrow> present m' N j = present m pt j"
proof (cases "present m pt j")
  case True
  assume c: "copied m m' pt N X j"
  have e: "mword m' N j = table_of m' N j OR (mword m pt j AND 0xFFF)" using c True by (simp add: copied_def)
  have "aligned_page (table_of m' N j)" by (simp add: table_of_def)
  from frame_entry_bits(2) [OF this low_bits_small, of "mword m pt j"] True show ?thesis
    unfolding present_def e low_bits_present by (simp only:)
qed (simp add: copied_def present_def)

lemma copied_keep:
  assumes "copied m m1 pt N X j" "mword m2 N j = mword m1 N j" "\<And>P k. P \<in> X \<Longrightarrow> k < 1024 \<Longrightarrow> mword m2 P k = mword m1 P k" "X \<subseteq> Y"
  shows "copied m m2 pt N Y j"
proof -
  have "table_of m2 N j = table_of m1 N j" using assms(2) by (simp add: table_of_def)
  then show ?thesis using assms by (auto simp: copied_def)
qed

text \<open>What the copy of the entry needs: both tables are frames in use and so is the page.\<close>

definition can_copy :: "'a vmm_scheme \<Rightarrow> u32 \<Rightarrow> u32 \<Rightarrow> u32 \<Rightarrow> bool" where
  "can_copy s pt N j \<longleftrightarrow> N \<in> pmm_managed s - pmm_pool s \<and> pt \<in> pmm_managed s - pmm_pool s \<and> pt \<noteq> N \<and>
     (paging s \<longrightarrow> N \<notin> tables (phys_mem s) (cur s)) \<and>
     (present (phys_mem s) pt j \<longrightarrow> table_of (phys_mem s) pt j \<in> pmm_managed s - pmm_pool s \<and> table_of (phys_mem s) pt j \<noteq> N)"

lemma clone_entry_ok:
  fixes s :: "'a vmm_scheme"
  assumes s: "calm s" and c: "can_copy s pt N j" and j: "j < 1024" and p: "present (phys_mem s) pt j \<longrightarrow> pmm_pool s \<noteq> {}"
  shows "\<exists>u. clone_entry N pt j (False, s) = Inr (False, u) \<and> spent s u {N} \<and>
    copied (phys_mem s) (phys_mem u) pt N (pmm_pool s - pmm_pool u) j \<and>
    card (pmm_pool s) = card (pmm_pool u) + (if present (phys_mem s) pt j then 1 else 0) \<and>
    (\<forall>k < 1024. k \<noteq> j \<longrightarrow> mword (phys_mem u) N k = mword (phys_mem s) N k)"
proof -
  let ?m = "phys_mem s"
  have N: "N \<in> pmm_managed s" "N \<notin> pmm_pool s" "pt \<in> pmm_managed s" "pt \<notin> pmm_pool s" "pt \<noteq> N"
    "paging s \<Longrightarrow> N \<notin> tables ?m (cur s)" using c by (auto simp: can_copy_def)
  have al: "aligned_page N" "aligned_page pt" using managed_aligned N(1,3) by blast+
  have d: "direct s" using s by (simp add: calm_def)
  note l = direct_load [OF d N(3) j]
  show ?thesis
  proof (cases "present ?m pt j")
    case False
    from spent_store [OF s N(1,6) j, of 0] obtain u where
      u: "vstore32 (entry_at N j) 0 s = Inr u" "spent s u {N}" "pmm_pool u = pmm_pool s"
        "\<forall>g k. aligned_page g \<longrightarrow> k < 1024 \<longrightarrow> mword (phys_mem u) g k = (if g = N \<and> k = j then 0 else mword ?m g k)" by blast
    have "clone_entry N pt j (False, s) = Inr (False, u)"
      using u(1) l False by (simp add: clone_entry_def present_def VMM_PRESENT_def)
    then show ?thesis using u(2-4) False al(1) j by (auto simp: copied_def)
  next
    case True
    let ?F = "table_of ?m pt j" and ?e = "mword ?m pt j"
    have F: "?F \<in> pmm_managed s" "?F \<notin> pmm_pool s" "?F \<noteq> N" using c True by (auto simp: can_copy_def)
    obtain P a where a: "pmm_alloc_page s = (P, a)" by fastforce
    have P0: "P \<noteq> 0" using fra.alloc_zero_iff [of s] s p True a by (simp add: calm_def)
    note A = spent_alloc [OF s a P0] note B = spentD [OF A(1)]
    have PN: "P \<noteq> N" "P \<noteq> ?F" "P \<noteq> pt" using A(2) N(2,4) F(2) by auto
    have Pt: "P \<notin> tables (phys_mem a) (cur a)" if "paging a" using s A(2,5) B(5,6) that by (auto simp: calm_def)
    from spent_copy [OF B(1) A(4) Pt, of ?F] obtain b where
      b: "copy_table P ?F a = Inr b" "spent a b {P}" "pmm_pool b = pmm_pool a"
        "\<forall>h k. aligned_page h \<longrightarrow> k < 1024 \<longrightarrow> mword (phys_mem b) h k = mword ?m (if h = P then ?F else h) k"
      using F(1) PN(2) B(3) A(5) by auto
    note C = spentD [OF b(2)]
    have db: "direct b" using C(1) by (simp add: calm_def)
    have lb: "vload32 b (entry_at pt j) = Inr ?e"
      using direct_load [OF db _ j, of pt] N(3) C(3) B(3) b(4) al(2) j PN(3) by simp
    have Nt: "N \<notin> tables (phys_mem b) (cur b)" if "paging b" using N(6) that B(5-7) C(5-7) by simp
    from spent_store [OF C(1) _ Nt j, of "P OR (?e AND 0xFFF)"] obtain u where
      u: "vstore32 (entry_at N j) (P OR (?e AND 0xFFF)) b = Inr u" "spent b u {N}" "pmm_pool u = pmm_pool b"
        "\<forall>g k. aligned_page g \<longrightarrow> k < 1024 \<longrightarrow>
           mword (phys_mem u) g k = (if g = N \<and> k = j then P OR (?e AND 0xFFF) else mword (phys_mem b) g k)"
      using N(1) C(3) B(3) by auto
    have "clone_entry N pt j (False, s) = Inr (False, u)"
      using True l a P0 b(1) lb u(1) by (simp add: clone_entry_def present_def VMM_PRESENT_def table_of_def)
    moreover have "spent s u {N}"
    proof (rule spent_trans [OF spent_trans [OF spent_mono [OF A(1)] b(2)] u(2)])
      show "{P} \<subseteq> {N} \<union> (pmm_pool s - pmm_pool a)" using A(2,3) by simp
    qed simp_all
    moreover have aP: "aligned_page P" using managed_aligned A(4) by blast
    have eN: "mword (phys_mem u) N j = P OR (?e AND 0xFFF)" using u(4) al(1) j by simp
    then have tN: "table_of (phys_mem u) N j = P"
      using frame_entry_bits(1) [OF aP low_bits_small] by (simp add: table_of_def)
    have "mword (phys_mem u) P k = mword ?m ?F k" if "k < 1024" for k using u(4) b(4) aP that PN(1) by simp
    then have "copied ?m (phys_mem u) pt N (pmm_pool s - pmm_pool u) j"
      using True eN tN A(2,3) b(3) u(3) by (simp add: copied_def)
    moreover have "card (pmm_pool s) = card (pmm_pool u) + 1"
      using A(2,3) b(3) u(3) card_Suc_Diff1 [of "pmm_pool s" P] by simp
    moreover have "\<forall>k < 1024. k \<noteq> j \<longrightarrow> mword (phys_mem u) N k = mword ?m N k" using u(4) b(4) al(1) PN(1) by simp
    ultimately show ?thesis using True by (intro exI [of _ u]) simp
  qed
qed

text \<open>The entries below \<open>k\<close> are copied, each to a frame of its own.\<close>

definition table_copied :: "memory \<Rightarrow> memory \<Rightarrow> u32 \<Rightarrow> u32 \<Rightarrow> u32 set \<Rightarrow> u32 \<Rightarrow> bool" where
  "table_copied m m' pt N X k \<longleftrightarrow> (\<forall>j < k. copied m m' pt N X j) \<and>
     (\<forall>i < k. \<forall>j < k. present m pt i \<longrightarrow> present m pt j \<longrightarrow> table_of m' N i = table_of m' N j \<longrightarrow> i = j)"

definition entries :: "memory \<Rightarrow> u32 \<Rightarrow> u32 \<Rightarrow> nat" where
  "entries m pt k = card {j. j < k \<and> present m pt j}"

lemma entries_step:
  assumes "k < 1024"
  shows "entries m pt (k + 1) = entries m pt k + (if present m pt k then 1 else 0)"
proof -
  have "{j. j < k + 1 \<and> present m pt j} = (if present m pt k then insert k {j. j < k \<and> present m pt j} else {j. j < k \<and> present m pt j})"
    using less_inc_iff [OF assms] by (auto simp: le_less)
  then show ?thesis by (simp add: entries_def)
qed

lemma entries_mono: "k \<le> l \<Longrightarrow> entries m pt k \<le> entries m pt l"
  unfolding entries_def by (rule card_mono) auto

lemma spent_words:
  assumes "spent s t N" "f \<in> pmm_managed s - pmm_pool s" "f \<notin> N" "j < 1024"
  shows "mword (phys_mem t) f j = mword (phys_mem s) f j" "present (phys_mem t) f j = present (phys_mem s) f j"
    "table_of (phys_mem t) f j = table_of (phys_mem s) f j"
proof -
  show "mword (phys_mem t) f j = mword (phys_mem s) f j"
    using spentD(8) [OF assms(1) managed_aligned assms(4)] assms(2,3) by blast
  then show "present (phys_mem t) f j = present (phys_mem s) f j" "table_of (phys_mem t) f j = table_of (phys_mem s) f j"
    by (simp_all add: present_def table_of_def)
qed

lemma can_copy_spent:
  assumes "spent s t {N}" "can_copy s pt N j" "j < 1024"
  shows "can_copy t pt N j"
  using spentD(2,3,5,6,7) [OF assms(1)] spent_words(2,3) [OF assms(1) _ _ assms(3), of pt] assms(2)
  unfolding can_copy_def by auto

lemma table_copied_step:
  assumes s: "calm s" and k: "k < 1024" and v: "spent s v {N}" "table_copied (phys_mem s) (phys_mem v) pt N (pmm_pool s - pmm_pool v) k"
    and c: "can_copy s pt N k" and u: "spent v u {N}" "copied (phys_mem v) (phys_mem u) pt N (pmm_pool v - pmm_pool u) k"
      "\<forall>j < 1024. j \<noteq> k \<longrightarrow> mword (phys_mem u) N j = mword (phys_mem v) N j"
  shows "table_copied (phys_mem s) (phys_mem u) pt N (pmm_pool s - pmm_pool u) (k + 1)"
proof -
  note V = spentD [OF v(1)] and U = spentD [OF u(1)] and P = spent_words [OF v(1)]
  have N: "N \<notin> pmm_pool s" "pt \<in> pmm_managed s - pmm_pool s" "pt \<notin> {N}" using c by (auto simp: can_copy_def)
  let ?X = "pmm_pool s - pmm_pool u"
  have old: "copied (phys_mem s) (phys_mem u) pt N ?X j" "mword (phys_mem u) N j = mword (phys_mem v) N j" if "j < k" for j
  proof -
    show e: "mword (phys_mem u) N j = mword (phys_mem v) N j" using u(3) that k by auto
    show "copied (phys_mem s) (phys_mem u) pt N ?X j"
    proof (rule copied_keep [OF _ e])
      show "copied (phys_mem s) (phys_mem v) pt N (pmm_pool s - pmm_pool v) j" using v(2) that by (simp add: table_copied_def)
      show "mword (phys_mem u) f i = mword (phys_mem v) f i" if "f \<in> pmm_pool s - pmm_pool v" "i < 1024" for f i
        using U(8) [of f i] that N(1) fra.pool_frames [of s f] s by (auto simp: calm_def)
      show "pmm_pool s - pmm_pool v \<subseteq> ?X" using U(2) by auto
    qed
  qed
  have "copied (phys_mem s) (phys_mem u) pt N ?X k"
  proof (cases "present (phys_mem s) pt k")
    case True
    then have F: "table_of (phys_mem s) pt k \<in> pmm_managed s - pmm_pool s" "table_of (phys_mem s) pt k \<notin> {N}"
      using c by (auto simp: can_copy_def)
    show ?thesis using True u(2) P [OF N(2,3) k] P(1) [OF F] V(2) by (auto simp: copied_def)
  next
    case False
    then show ?thesis using u(2) P [OF N(2,3) k] by (simp add: copied_def)
  qed
  moreover have "table_of (phys_mem u) N i \<noteq> table_of (phys_mem u) N k"
    if "i < k" "present (phys_mem s) pt i" "present (phys_mem s) pt k" for i
  proof -
    have "copied (phys_mem s) (phys_mem v) pt N (pmm_pool s - pmm_pool v) i" using v(2) that(1) by (simp add: table_copied_def)
    then have "table_of (phys_mem v) N i \<notin> pmm_pool v" using that(2) by (simp add: copied_def)
    moreover have "table_of (phys_mem u) N k \<in> pmm_pool v" using u(2) that(3) P(2) [OF N(2,3) k] by (simp add: copied_def)
    moreover have "table_of (phys_mem u) N i = table_of (phys_mem v) N i" using old(2) [OF that(1)] by (simp add: table_of_def)
    ultimately show ?thesis by auto
  qed
  moreover have "i = j" if "i < k" "j < k" "present (phys_mem s) pt i" "present (phys_mem s) pt j"
    "table_of (phys_mem u) N i = table_of (phys_mem u) N j" for i j
    using v(2) that old(2) [OF that(1)] old(2) [OF that(2)] by (simp add: table_copied_def table_of_def)
  ultimately show ?thesis
    using old(1) unfolding table_copied_def less_inc_iff [OF k] le_less by metis
qed

lemma clone_table_ok:
  fixes s :: "'a vmm_scheme"
  assumes s: "calm s" and c: "\<And>j. j < 1024 \<Longrightarrow> can_copy s pt N j" and p: "entries (phys_mem s) pt 1024 \<le> card (pmm_pool s)"
  shows "\<exists>u. for_err 0 1024 (clone_entry N pt) (False, s) = Inr (False, u) \<and> spent s u {N} \<and>
    table_copied (phys_mem s) (phys_mem u) pt N (pmm_pool s - pmm_pool u) 1024 \<and>
    card (pmm_pool s) = card (pmm_pool u) + entries (phys_mem s) pt 1024"
proof -
  let ?P = "\<lambda>k x. \<not> fst x \<and> spent s (snd x) {N} \<and>
      table_copied (phys_mem s) (phys_mem (snd x)) pt N (pmm_pool s - pmm_pool (snd x)) k \<and>
      card (pmm_pool s) = card (pmm_pool (snd x)) + entries (phys_mem s) pt k"
  have "\<exists>x. for_err 0 1024 (clone_entry N pt) (False, s) = Inr x \<and> ?P 1024 x"
  proof (rule for_err_invariant)
    show "?P 0 (False, s)" using spent_refl [OF s] by (simp add: table_copied_def entries_def)
  next
    fix k :: u32 and x :: "bool \<times> 'a vmm_scheme"
    assume k: "k < 1024" and x: "?P k x"
    obtain v where v: "x = (False, v)" "spent s v {N}" "table_copied (phys_mem s) (phys_mem v) pt N (pmm_pool s - pmm_pool v) k"
      "card (pmm_pool s) = card (pmm_pool v) + entries (phys_mem s) pt k" using x by (cases x) auto
    have pv: "present (phys_mem v) pt k = present (phys_mem s) pt k"
      using spent_words(2) [OF v(2) _ _ k, of pt] c [OF k] by (auto simp: can_copy_def)
    have "0 < card (pmm_pool v)" if "present (phys_mem s) pt k"
    proof -
      have "entries (phys_mem s) pt (k + 1) = entries (phys_mem s) pt k + 1" using entries_step [OF k] that by simp
      with p v(4) entries_mono [OF inc_le_iff [OF k], of "phys_mem s" pt] show ?thesis by linarith
    qed
    then have "present (phys_mem s) pt k \<longrightarrow> pmm_pool v \<noteq> {}" by auto
    with clone_entry_ok [OF spentD(1) [OF v(2)] can_copy_spent [OF v(2) c [OF k] k] k] pv obtain u where
      u: "clone_entry N pt k (False, v) = Inr (False, u)" "spent v u {N}"
        "copied (phys_mem v) (phys_mem u) pt N (pmm_pool v - pmm_pool u) k"
        "card (pmm_pool v) = card (pmm_pool u) + (if present (phys_mem s) pt k then 1 else 0)"
        "\<forall>j < 1024. j \<noteq> k \<longrightarrow> mword (phys_mem u) N j = mword (phys_mem v) N j" by auto
    have "?P (k + 1) (False, u)"
      using spent_trans [OF v(2) u(2)] table_copied_step [OF s k v(2,3) c [OF k] u(2,3,5)] v(4) u(4) entries_step [OF k] by simp
    then show "\<exists>x'. clone_entry N pt k x = Inr x' \<and> ?P (k + 1) x'" using u(1) v(1) by auto
  qed simp
  then show ?thesis by auto
qed

section \<open>Cloning a directory\<close>

text \<open>An entry of \<open>pd\<close> that is not the kernel's.\<close>

definition own_entry :: "memory \<Rightarrow> u32 \<Rightarrow> u32 \<Rightarrow> u32 \<Rightarrow> bool" where
  "own_entry m K pd i \<longleftrightarrow> present m pd i \<and> mword m pd i \<noteq> mword m K i"

text \<open>The space is made of frames in use.\<close>

definition cloneable :: "'a vmm_scheme \<Rightarrow> u32 \<Rightarrow> bool" where
  "cloneable s pd \<longleftrightarrow>
    (let m = phys_mem s; K = kernel_page_directory s; used = pmm_managed s - pmm_pool s
     in pd \<in> used \<and> K \<in> used \<and> (\<forall>i < 1024. own_entry m K pd i \<longrightarrow> table_of m pd i \<in> used \<and>
       (\<forall>j < 1024. present m (table_of m pd i) j \<longrightarrow> table_of m (table_of m pd i) j \<in> used)))"

text \<open>The frames a clone takes besides its directory: a table for each such entry and a page for each
  entry of these tables.\<close>

definition clone_cost :: "memory \<Rightarrow> u32 \<Rightarrow> u32 \<Rightarrow> u32 \<Rightarrow> nat" where
  "clone_cost m K pd i = (\<Sum>k\<in>{k. k < i \<and> own_entry m K pd k}. entries m (table_of m pd k) 1024 + 1)"

lemma clone_cost_step:
  assumes "i < 1024"
  shows "clone_cost m K pd (i + 1) =
    clone_cost m K pd i + (if own_entry m K pd i then entries m (table_of m pd i) 1024 + 1 else 0)"
proof -
  have "{k. k < i + 1 \<and> own_entry m K pd k} =
      (if own_entry m K pd i then insert i {k. k < i \<and> own_entry m K pd k} else {k. k < i \<and> own_entry m K pd k})"
    using less_inc_iff [OF assms] by (auto simp: le_less)
  then show ?thesis by (simp add: clone_cost_def)
qed

lemma clone_cost_mono: "i \<le> l \<Longrightarrow> clone_cost m K pd i \<le> clone_cost m K pd l"
  unfolding clone_cost_def by (rule sum_mono2) auto

definition entry_cloned :: "memory \<Rightarrow> memory \<Rightarrow> u32 \<Rightarrow> u32 \<Rightarrow> u32 set \<Rightarrow> u32 \<Rightarrow> bool" where
  "entry_cloned m m' pd D X k \<longleftrightarrow> table_of m' D k \<in> X \<and>
     mword m' D k = table_of m' D k OR (mword m pd k AND 0xFFF) \<and>
     table_copied m m' (table_of m pd k) (table_of m' D k) X 1024"

text \<open>The pages of entry \<open>k\<close> of the clone.\<close>

definition pages :: "memory \<Rightarrow> u32 \<Rightarrow> u32 \<Rightarrow> u32 set" where
  "pages m D k = mapped_frames m (table_of m D k) 1024"

definition dir_cloned :: "memory \<Rightarrow> memory \<Rightarrow> u32 \<Rightarrow> u32 \<Rightarrow> u32 \<Rightarrow> u32 set \<Rightarrow> u32 \<Rightarrow> bool" where
  "dir_cloned m m' K pd D X i \<longleftrightarrow>
     (\<forall>k < i. own_entry m K pd k \<longrightarrow> entry_cloned m m' pd D X k) \<and>
     (\<forall>k < i. \<forall>l < i. own_entry m K pd k \<longrightarrow> own_entry m K pd l \<longrightarrow> k \<noteq> l \<longrightarrow> pages m' D k \<inter> pages m' D l = {}) \<and>
     (\<forall>k < 1024. \<not> (k < i \<and> own_entry m K pd k) \<longrightarrow> mword m' D k = mword m D k)"

lemma table_copied_pages:
  assumes "table_copied m m' pt N X 1024" "f \<in> mapped_frames m' N 1024"
  shows "f \<in> X"
proof -
  obtain j where j: "j < 1024" "f = table_of m' N j" "present m' N j" using assms(2) by (auto simp: mapped_frames_def)
  have c: "copied m m' pt N X j" using assms(1) j(1) by (simp add: table_copied_def)
  then show ?thesis using copied_present [OF c] j by (simp add: copied_def)
qed

lemma table_copied_keep:
  assumes c: "table_copied m m1 pt N X 1024" and n: "N \<in> X" and w: "\<And>P k. P \<in> X \<Longrightarrow> k < 1024 \<Longrightarrow> mword m2 P k = mword m1 P k"
    and y: "X \<subseteq> Y"
  shows "table_copied m m2 pt N Y 1024"
proof -
  have "copied m m2 pt N Y j" if "j < 1024" for j
    using copied_keep [OF _ w [OF n that] w y] c that by (auto simp: table_copied_def)
  moreover have "table_of m2 N j = table_of m1 N j" if "j < 1024" for j using w [OF n that] by (simp add: table_of_def)
  ultimately show ?thesis using c by (simp add: table_copied_def)
qed

lemma entry_cloned_keep:
  assumes c: "entry_cloned m m1 pd D X k" and e: "mword m2 D k = mword m1 D k"
    and w: "\<And>P j. P \<in> X \<Longrightarrow> j < 1024 \<Longrightarrow> mword m2 P j = mword m1 P j" and y: "X \<subseteq> Y"
  shows "entry_cloned m m2 pd D Y k" "pages m2 D k = pages m1 D k"
proof -
  have t: "table_of m2 D k = table_of m1 D k" using e by (simp add: table_of_def)
  have n: "table_of m1 D k \<in> X" using c by (simp add: entry_cloned_def)
  show "entry_cloned m m2 pd D Y k"
    using c e t y table_copied_keep [OF _ n w y, where m = m and pt = "table_of m pd k"] by (auto simp: entry_cloned_def)
  show "pages m2 D k = pages m1 D k" unfolding pages_def t by (rule mapped_frames_cong [OF w [OF n]])
qed

text \<open>What holds of the new directory \<open>D\<close> in the state \<open>s\<close> in which the loop starts.\<close>

definition clone_base :: "'a vmm_scheme \<Rightarrow> u32 \<Rightarrow> u32 \<Rightarrow> bool" where
  "clone_base s pd D \<longleftrightarrow> calm s \<and> cloneable s pd \<and> D \<in> pmm_managed s - pmm_pool s \<and>
     (paging s \<longrightarrow> D \<notin> tables (phys_mem s) (cur s)) \<and> D \<noteq> pd \<and> D \<noteq> kernel_page_directory s \<and>
     (\<forall>i < 1024. own_entry (phys_mem s) (kernel_page_directory s) pd i \<longrightarrow> table_of (phys_mem s) pd i \<noteq> D \<and>
        (\<forall>j < 1024. present (phys_mem s) (table_of (phys_mem s) pd i) j \<longrightarrow>
           table_of (phys_mem s) (table_of (phys_mem s) pd i) j \<noteq> D))"

lemma clone_baseD:
  assumes "clone_base s pd D"
  shows "calm s" "D \<in> pmm_managed s - pmm_pool s" "paging s \<Longrightarrow> D \<notin> tables (phys_mem s) (cur s)"
    "pd \<in> pmm_managed s - pmm_pool s" "kernel_page_directory s \<in> pmm_managed s - pmm_pool s" "pd \<notin> {D}" "kernel_page_directory s \<notin> {D}"
    "i < 1024 \<Longrightarrow> own_entry (phys_mem s) (kernel_page_directory s) pd i \<Longrightarrow>
      table_of (phys_mem s) pd i \<in> pmm_managed s - pmm_pool s \<and> table_of (phys_mem s) pd i \<notin> {D}"
    "i < 1024 \<Longrightarrow> own_entry (phys_mem s) (kernel_page_directory s) pd i \<Longrightarrow> j < 1024 \<Longrightarrow>
      present (phys_mem s) (table_of (phys_mem s) pd i) j \<Longrightarrow>
      table_of (phys_mem s) (table_of (phys_mem s) pd i) j \<in> pmm_managed s - pmm_pool s \<and>
      table_of (phys_mem s) (table_of (phys_mem s) pd i) j \<notin> {D}"
  using assms by (auto simp: clone_base_def cloneable_def Let_def)

text \<open>The copy of the table of one entry: from \<open>t\<close> a table is taken and filled.\<close>

lemma clone_table_entry:
  fixes s t :: "'a vmm_scheme"
  assumes b: "clone_base s pd D" and t: "spent s t {D}" and i: "i < 1024"
    and o: "own_entry (phys_mem s) (kernel_page_directory s) pd i"
    and p: "entries (phys_mem s) (table_of (phys_mem s) pd i) 1024 + 1 \<le> card (pmm_pool t)"
  shows "\<exists>N a u. pmm_alloc_page t = (N, a) \<and> N \<noteq> 0 \<and> N \<in> pmm_pool t - pmm_pool u \<and>
    for_err 0 1024 (clone_entry N (table_of (phys_mem s) pd i)) (False, a) = Inr (False, u) \<and> spent t u {} \<and>
    table_copied (phys_mem s) (phys_mem u) (table_of (phys_mem s) pd i) N (pmm_pool t - pmm_pool u) 1024 \<and>
    card (pmm_pool t) = card (pmm_pool u) + (entries (phys_mem s) (table_of (phys_mem s) pd i) 1024 + 1)"
proof -
  let ?T = "table_of (phys_mem s) pd i"
  note B = clone_baseD [OF b] and S = spentD [OF t] and W = spent_words [OF t]
  note T = B(8) [OF i o] and F = B(9) [OF i o]
  obtain N a where a: "pmm_alloc_page t = (N, a)" by fastforce
  have N0: "N \<noteq> 0" using fra.alloc_zero_iff [of t] S(1) p a by (auto simp: calm_def)
  note A = spent_alloc [OF S(1) a N0] note C = spentD [OF A(1)]
  have m: "mword (phys_mem a) f j = mword (phys_mem s) f j" if "f \<in> pmm_managed s - pmm_pool s" "f \<notin> {D}" "j < 1024" for f j
    using W(1) [OF that] A(5) by simp
  have e: "present (phys_mem a) ?T j = present (phys_mem s) ?T j" "table_of (phys_mem a) ?T j = table_of (phys_mem s) ?T j"
    if "j < 1024" for j using m [of ?T j] T that by (simp_all add: present_def table_of_def)
  have pu: "f \<in> pmm_managed a - pmm_pool a" "f \<noteq> N" if "f \<in> pmm_managed s - pmm_pool s" for f
    using that A(2,3) S(2,3) C(3) by auto
  have "can_copy a ?T N j" if j: "j < 1024" for j
    using pu T F [OF j] e [OF j] A(2-4) S(1) C(5,6) A(5) unfolding can_copy_def calm_def by auto
  moreover have en: "entries (phys_mem a) ?T 1024 = entries (phys_mem s) ?T 1024"
    unfolding entries_def using e(1) by (intro arg_cong [of _ _ card]) auto
  moreover have ca: "card (pmm_pool t) = card (pmm_pool a) + 1" using A(2,3) card_Suc_Diff1 [of "pmm_pool t" N] by simp
  ultimately obtain u where
    u: "for_err 0 1024 (clone_entry N ?T) (False, a) = Inr (False, u)" "spent a u {N}"
      "table_copied (phys_mem a) (phys_mem u) ?T N (pmm_pool a - pmm_pool u) 1024"
      "card (pmm_pool a) = card (pmm_pool u) + entries (phys_mem s) ?T 1024"
    using clone_table_ok [OF C(1), of ?T N] p by auto
  note U = spentD [OF u(2)]
  have "copied (phys_mem s) (phys_mem u) ?T N (pmm_pool t - pmm_pool u) j" if j: "j < 1024" for j
  proof -
    have "copied (phys_mem a) (phys_mem u) ?T N (pmm_pool a - pmm_pool u) j" using u(3) j by (simp add: table_copied_def)
    then show ?thesis
      using e [OF j] m [of ?T j] T F [OF j] j m C(2) unfolding copied_def by auto
  qed
  moreover have "i = j" if "i < 1024" "j < 1024" "present (phys_mem s) ?T i" "present (phys_mem s) ?T j"
      "table_of (phys_mem u) N i = table_of (phys_mem u) N j" for i j
    using u(3) that e(1) unfolding table_copied_def by metis
  ultimately have "table_copied (phys_mem s) (phys_mem u) ?T N (pmm_pool t - pmm_pool u) 1024"
    unfolding table_copied_def by blast
  moreover have "spent t u {}" by (rule spent_trans [OF A(1) u(2)]) (use A(2,3) in auto)
  moreover have "N \<in> pmm_pool t - pmm_pool u" using A(2,3) U(2) by auto
  ultimately show ?thesis using a N0 u(1,4) ca by (intro exI [of _ N] exI [of _ a] exI [of _ u]) simp
qed

lemma dir_cloned_step:
  assumes i: "i < 1024" and o: "own_entry m K pd i" and c: "dir_cloned m m1 K pd D X i"
    and w: "\<And>P k. P \<in> X \<Longrightarrow> k < 1024 \<Longrightarrow> mword m2 P k = mword m1 P k"
    and d: "\<And>k. k < 1024 \<Longrightarrow> k \<noteq> i \<Longrightarrow> mword m2 D k = mword m1 D k"
    and e: "entry_cloned m m2 pd D Y i" "X \<inter> Y = {}"
  shows "dir_cloned m m2 K pd D (X \<union> Y) (i + 1)"
proof -
  have old: "entry_cloned m m2 pd D (X \<union> Y) k" "pages m2 D k = pages m1 D k" "pages m1 D k \<subseteq> X"
    if k: "k < i" "own_entry m K pd k" for k
  proof -
    have ec: "entry_cloned m m1 pd D X k" using c k by (simp add: dir_cloned_def)
    have "mword m2 D k = mword m1 D k" using k(1) i by (intro d) auto
    note K = entry_cloned_keep [OF ec this w]
    show "entry_cloned m m2 pd D (X \<union> Y) k" "pages m2 D k = pages m1 D k" using K by auto
    show "pages m1 D k \<subseteq> X" using ec table_copied_pages unfolding entry_cloned_def pages_def by blast
  qed
  have new: "entry_cloned m m2 pd D (X \<union> Y) i" by (rule entry_cloned_keep(1) [OF e(1)]) auto
  have pn: "pages m2 D i \<subseteq> Y" using e(1) table_copied_pages unfolding entry_cloned_def pages_def by blast
  have "pages m2 D k \<inter> pages m2 D l = {}"
    if kl: "k \<le> i" "l \<le> i" "own_entry m K pd k" "own_entry m K pd l" "k \<noteq> l" for k l
  proof -
    have "k < i \<or> l < i" using kl(1,2,5) by auto
    then consider "k < i" "l < i" | "k < i" "l = i" | "k = i" "l < i" using kl(1,2) by (auto simp: le_less)
    then show ?thesis
    proof cases
      case 1
      then show ?thesis using c kl(3-5) old(2) by (simp add: dir_cloned_def)
    next
      case 2
      then show ?thesis using old(2,3) [OF 2(1) kl(3)] pn e(2) by auto
    next
      case 3
      then show ?thesis using old(2,3) [OF 3(2) kl(4)] pn e(2) by auto
    qed
  qed
  moreover have "mword m2 D k = mword m D k" if "k < 1024" "\<not> (k \<le> i \<and> own_entry m K pd k)" for k
  proof -
    have "k \<noteq> i" "\<not> (k < i \<and> own_entry m K pd k)" using that(2) o by auto
    then show ?thesis using d [OF that(1)] c that(1) by (simp add: dir_cloned_def)
  qed
  moreover have "entry_cloned m m2 pd D (X \<union> Y) k" if "k \<le> i" "own_entry m K pd k" for k
    using that old(1) new by (auto simp: le_less)
  ultimately show ?thesis unfolding dir_cloned_def less_inc_iff [OF i] by blast
qed

lemma dir_cloned_skip:
  assumes "i < 1024" "\<not> own_entry m K pd i" "dir_cloned m m1 K pd D X i"
  shows "dir_cloned m m1 K pd D X (i + 1)"
proof -
  have "k \<le> i \<and> own_entry m K pd k \<longleftrightarrow> k < i \<and> own_entry m K pd k" for k using assms(2) by (auto simp: le_less)
  then show ?thesis using assms(3) unfolding dir_cloned_def less_inc_iff [OF assms(1)] by (metis (no_types, lifting))
qed

lemma clone_round_ok:
  fixes s t :: "'a vmm_scheme"
  assumes b: "clone_base s pd D" and t: "spent s t {D}" and i: "i < 1024"
    and c: "dir_cloned (phys_mem s) (phys_mem t) (kernel_page_directory s) pd D (pmm_pool s - pmm_pool t) i"
    and cost: "cost = (if own_entry (phys_mem s) (kernel_page_directory s) pd i
      then entries (phys_mem s) (table_of (phys_mem s) pd i) 1024 + 1 else 0)" "cost \<le> card (pmm_pool t)"
  shows "\<exists>w. clone_round pd D i (None, t) = Inr (None, w) \<and> spent s w {D} \<and>
    dir_cloned (phys_mem s) (phys_mem w) (kernel_page_directory s) pd D (pmm_pool s - pmm_pool w) (i + 1) \<and>
    card (pmm_pool t) = card (pmm_pool w) + cost"
proof -
  let ?m = "phys_mem s" and ?K = "kernel_page_directory s"
  let ?e = "mword ?m pd i"
  note B = clone_baseD [OF b] and S = spentD [OF t] and W = spent_words(1) [OF t]
  have dt: "direct t" using S(1) by (simp add: calm_def)
  have l: "vload32 t (entry_at pd i) = Inr ?e" "vload32 t (entry_at ?K i) = Inr (mword ?m ?K i)"
    using direct_load [OF dt _ i] B(4,5) S(3) W [OF B(4,6) i] W [OF B(5,7) i] by auto
  have sh: "shared_entry i ?e t = Inr (mword ?m ?K i AND VMM_PRESENT \<noteq> 0 \<and> ?e = mword ?m ?K i)"
    using l(2) S(4) by (simp add: shared_entry_def)
  show ?thesis
  proof (cases "own_entry ?m ?K pd i")
    case False
    then have "clone_round pd D i (None, t) = Inr (None, t)"
      using l(1) sh by (auto simp: clone_round_def own_entry_def present_def VMM_PRESENT_def)
    then show ?thesis using t dir_cloned_skip [OF i False c] cost(1) False by auto
  next
    case True
    from clone_table_entry [OF b t i True] cost True obtain N a u where
      u: "pmm_alloc_page t = (N, a)" "N \<noteq> 0" "N \<in> pmm_pool t - pmm_pool u"
        "for_err 0 1024 (clone_entry N (table_of ?m pd i)) (False, a) = Inr (False, u)" "spent t u {}"
        "table_copied ?m (phys_mem u) (table_of ?m pd i) N (pmm_pool t - pmm_pool u) 1024"
        "card (pmm_pool t) = card (pmm_pool u) + cost" by auto
    note U = spentD [OF u(5)]
    have du: "direct u" using U(1) by (simp add: calm_def)
    have lu: "vload32 u (entry_at pd i) = Inr ?e"
      using direct_load [OF du _ i, of pd] spent_words(1) [OF u(5) _ _ i, of pd] B(4) S(2,3) U(3) W [OF B(4,6) i] by auto
    have Dt: "D \<notin> tables (phys_mem u) (cur u)" if "paging u" using B(3) that S(5-7) U(5-7) by simp
    from spent_store [OF U(1) _ Dt i, of "N OR (?e AND 0xFFF)"] obtain w where
      w: "vstore32 (entry_at D i) (N OR (?e AND 0xFFF)) u = Inr w" "spent u w {D}" "pmm_pool w = pmm_pool u"
        "\<forall>g k. aligned_page g \<longrightarrow> k < 1024 \<longrightarrow>
           mword (phys_mem w) g k = (if g = D \<and> k = i then N OR (?e AND 0xFFF) else mword (phys_mem u) g k)"
      using B(2) S(3) U(3) by auto
    have r: "clone_round pd D i (None, t) = Inr (None, w)"
      using True l(1) sh u(1,2,4) lu w(1)
      by (auto simp: clone_round_def own_entry_def present_def VMM_PRESENT_def table_of_def)
    have sw: "spent s w {D}"
      by (rule spent_trans [OF spent_trans [OF t u(5)] w(2)]) simp_all
    have pool: "aligned_page f" "f \<noteq> D" if "f \<in> pmm_pool s" for f
      using fra.pool_frames [of s f] that B(1,2) by (auto simp: calm_def)
    have aD: "aligned_page D" "D \<notin> pmm_pool t" using B(2) S(2) managed_aligned by auto
    have Dw: "mword (phys_mem w) D k = mword (phys_mem t) D k" if "k < 1024" "k \<noteq> i" for k
      using w(4) U(8) [of D k] aD that by simp
    have aN: "aligned_page N" "N \<noteq> D" using pool [of N] u(3) S(2) by auto
    have eD: "mword (phys_mem w) D i = N OR (?e AND 0xFFF)" using w(4) aD(1) i by simp
    then have tD: "table_of (phys_mem w) D i = N"
      using frame_entry_bits(1) [OF aN(1) low_bits_small] by (simp add: table_of_def)
    have "entry_cloned ?m (phys_mem w) pd D (pmm_pool t - pmm_pool u) i"
      unfolding entry_cloned_def tD using u(3) eD S(2)
      by (auto intro!: table_copied_keep [OF u(6,3)] simp: w(4) pool subset_iff)
    moreover have "mword (phys_mem w) f k = mword (phys_mem t) f k" if "f \<in> pmm_pool s - pmm_pool t" "k < 1024" for f k
      using w(4) U(8) [of f k] that pool [of f] by auto
    moreover have "(pmm_pool s - pmm_pool t) \<union> (pmm_pool t - pmm_pool u) = pmm_pool s - pmm_pool w"
      using S(2) U(2) w(3) by auto
    ultimately have "dir_cloned ?m (phys_mem w) ?K pd D (pmm_pool s - pmm_pool w) (i + 1)"
      using dir_cloned_step [OF i True c _ Dw, of "pmm_pool t - pmm_pool u"] by auto
    then show ?thesis using r sw u(7) w(3) by auto
  qed
qed

section \<open>vmm_clone_address_space\<close>

lemma clone_loop:
  fixes s :: "'a vmm_scheme"
  assumes b: "clone_base s pd D" and p: "clone_cost (phys_mem s) (kernel_page_directory s) pd 1024 \<le> card (pmm_pool s)"
  shows "\<exists>w. for_err 0 1024 (clone_round pd D) (None, s) = Inr (None, w) \<and> spent s w {D} \<and>
    dir_cloned (phys_mem s) (phys_mem w) (kernel_page_directory s) pd D (pmm_pool s - pmm_pool w) 1024"
proof -
  let ?m = "phys_mem s" and ?K = "kernel_page_directory s"
  let ?P = "\<lambda>i x. fst x = None \<and> spent s (snd x) {D} \<and>
      dir_cloned ?m (phys_mem (snd x)) ?K pd D (pmm_pool s - pmm_pool (snd x)) i \<and>
      card (pmm_pool s) = card (pmm_pool (snd x)) + clone_cost ?m ?K pd i"
  have "\<exists>x. for_err 0 1024 (clone_round pd D) (None, s) = Inr x \<and> ?P 1024 x"
  proof (rule for_err_invariant)
    show "?P 0 (None, s)" using spent_refl clone_baseD(1) [OF b] by (auto simp: dir_cloned_def clone_cost_def)
  next
    fix i :: u32 and x :: "u32 option \<times> 'a vmm_scheme"
    assume i: "i < 1024" and x: "?P i x"
    then obtain t where t: "x = (None, t)" "spent s t {D}" "dir_cloned ?m (phys_mem t) ?K pd D (pmm_pool s - pmm_pool t) i"
      "card (pmm_pool s) = card (pmm_pool t) + clone_cost ?m ?K pd i" by (cases x) auto
    define cost where "cost = (if own_entry ?m ?K pd i then entries ?m (table_of ?m pd i) 1024 + 1 else 0)"
    have c: "clone_cost ?m ?K pd (i + 1) = clone_cost ?m ?K pd i + cost" unfolding cost_def by (rule clone_cost_step [OF i])
    have "cost \<le> card (pmm_pool t)" using c p t(4) clone_cost_mono [OF inc_le_iff [OF i], of ?m ?K pd] by linarith
    from clone_round_ok [OF b t(2) i t(3) cost_def this] t(1,4) c
    show "\<exists>x'. clone_round pd D i x = Inr x' \<and> ?P (i + 1) x'" by auto
  qed simp
  then show ?thesis by auto
qed

lemma clone_start:
  fixes s :: "'a vmm_scheme"
  assumes s: "calm s" and k: "space_ok s (kernel_page_directory s)" and c: "cloneable s pd" and p: "pmm_pool s \<noteq> {}"
  shows "\<exists>D t. vmm_create_address_space s = Inr (D, t) \<and> D \<noteq> 0 \<and> D \<in> pmm_pool s \<and> pmm_pool t = pmm_pool s - {D} \<and>
    spent s t {} \<and> clone_base t pd D \<and> (\<forall>j < 1024. mword (phys_mem t) D j =
      (if present (phys_mem s) (kernel_page_directory s) j then mword (phys_mem s) (kernel_page_directory s) j else 0))"
proof -
  let ?K = "kernel_page_directory s" and ?m = "phys_mem s"
  have o: "pmm_inv s" "direct s" "paging s \<Longrightarrow> tables ?m (cur s) \<inter> pmm_pool s = {}" using s by (auto simp: calm_def)
  from create_effect [OF o(1,2) k o(3) p] obtain D t where
    t: "vmm_create_address_space s = Inr (D, t)" "D \<noteq> 0" "D \<in> pmm_pool s"
      "pmm_pool t = pmm_pool s - {D}" "pmm_managed t = pmm_managed s" "pmm_inv t" "direct t"
      "kernel_page_directory t = ?K" "cr3 t = cr3 s" "paging t = paging s"
      "\<And>g j. aligned_page g \<Longrightarrow> j < 1024 \<Longrightarrow> mword (phys_mem t) g j =
        (if g = D then if present ?m ?K j then mword ?m ?K j else 0 else mword ?m g j)" by blast
  have D: "aligned_page D" "D \<in> pmm_managed s" using fra.pool_frames [OF o(1) t(3)] by auto
  have ct: "tables (phys_mem t) (cur s) = tables ?m (cur s)" if "paging s"
  proof -
    have "mword (phys_mem t) f j = mword ?m f j" if "f \<in> tables ?m (cur s)" "j < 1024" for f j
      using t(3,11) that tables_aligned [OF masked_aligned that(1)] o(3) \<open>paging s\<close> by auto
    then show ?thesis by (rule walk_cong(2))
  qed
  have sp: "spent s t {}" using t ct o(3) D by (auto simp: spent_def calm_def)
  have w: "mword (phys_mem t) f j = mword ?m f j" if "f \<in> pmm_managed s - pmm_pool s" "j < 1024" for f j
    using spent_words(1) [OF sp that(1) _ that(2)] by simp
  have C: "pd \<in> pmm_managed s - pmm_pool s" "?K \<in> pmm_managed s - pmm_pool s"
    "\<And>i. i < 1024 \<Longrightarrow> own_entry ?m ?K pd i \<Longrightarrow> table_of ?m pd i \<in> pmm_managed s - pmm_pool s"
    "\<And>i j. i < 1024 \<Longrightarrow> own_entry ?m ?K pd i \<Longrightarrow> j < 1024 \<Longrightarrow> present ?m (table_of ?m pd i) j \<Longrightarrow>
      table_of ?m (table_of ?m pd i) j \<in> pmm_managed s - pmm_pool s"
    using c by (auto simp: cloneable_def Let_def)
  have e: "own_entry (phys_mem t) ?K pd i = own_entry ?m ?K pd i" "table_of (phys_mem t) pd i = table_of ?m pd i" if "i < 1024" for i
    using w [OF C(1) that] w [OF C(2) that] by (simp_all add: own_entry_def present_def table_of_def)
  have f: "present (phys_mem t) (table_of ?m pd i) j = present ?m (table_of ?m pd i) j"
    "table_of (phys_mem t) (table_of ?m pd i) j = table_of ?m (table_of ?m pd i) j"
    if "i < 1024" "own_entry ?m ?K pd i" "j < 1024" for i j
    using w [OF C(3) [OF that(1,2)] that(3)] by (simp_all add: present_def table_of_def)
  have u: "pmm_managed t - pmm_pool t = insert D (pmm_managed s - pmm_pool s)" using t(3-5) D(2) by auto
  have "cloneable t pd" unfolding cloneable_def Let_def u t(8) using C e f by simp
  moreover have "D \<noteq> pd" "D \<noteq> ?K" "\<And>i. i < 1024 \<Longrightarrow> own_entry ?m ?K pd i \<Longrightarrow> table_of ?m pd i \<noteq> D"
    "\<And>i j. i < 1024 \<Longrightarrow> own_entry ?m ?K pd i \<Longrightarrow> j < 1024 \<Longrightarrow> present ?m (table_of ?m pd i) j \<Longrightarrow>
      table_of ?m (table_of ?m pd i) j \<noteq> D" using C t(3) by blast+
  moreover have "D \<notin> tables (phys_mem t) (cur t)" if "paging t" using that t(3,9,10) o(3) ct by auto
  ultimately have "clone_base t pd D" unfolding clone_base_def t(8) using spentD(1) [OF sp] u e f by simp
  then show ?thesis using t D sp by auto
qed

lemma copied_source:
  assumes "copied m1 m' pt N X j" "mword m1 pt j = mword m pt j"
    "present m pt j \<Longrightarrow> \<forall>k < 1024. mword m1 (table_of m pt j) k = mword m (table_of m pt j) k"
  shows "copied m m' pt N X j"
proof -
  have "present m1 pt j = present m pt j" "table_of m1 pt j = table_of m pt j" using assms(2) by (simp_all add: present_def table_of_def)
  then show ?thesis using assms unfolding copied_def by (cases "present m pt j") simp_all
qed

lemma entry_cloned_source:
  assumes c: "entry_cloned m1 m' pd D X i" and p: "mword m1 pd i = mword m pd i"
    and t: "\<And>j. j < 1024 \<Longrightarrow> mword m1 (table_of m pd i) j = mword m (table_of m pd i) j"
    and f: "\<And>j k. j < 1024 \<Longrightarrow> present m (table_of m pd i) j \<Longrightarrow> k < 1024 \<Longrightarrow>
      mword m1 (table_of m (table_of m pd i) j) k = mword m (table_of m (table_of m pd i) j) k"
  shows "entry_cloned m m' pd D X i"
proof -
  have T: "table_of m1 pd i = table_of m pd i" using p by (simp add: table_of_def)
  have "table_copied m m' (table_of m pd i) (table_of m' D i) X 1024"
  proof -
    have c1: "table_copied m1 m' (table_of m pd i) (table_of m' D i) X 1024" using c T by (simp add: entry_cloned_def)
    have "copied m m' (table_of m pd i) (table_of m' D i) X j" if "j < 1024" for j
      using copied_source [OF _ t [OF that]] f that c1 by (simp add: table_copied_def)
    moreover have "present m1 (table_of m pd i) j = present m (table_of m pd i) j" if "j < 1024" for j
      using t [OF that] by (simp add: present_def)
    ultimately show ?thesis using c1 unfolding table_copied_def by simp
  qed
  then show ?thesis using c p by (simp add: entry_cloned_def)
qed

lemma clone_cost_cong:
  assumes "\<And>i. i < 1024 \<Longrightarrow> own_entry m1 K pd i = own_entry m K pd i"
    "\<And>i j. i < 1024 \<Longrightarrow> own_entry m K pd i \<Longrightarrow> j < 1024 \<Longrightarrow>
      present m1 (table_of m1 pd i) j = present m (table_of m pd i) j"
  shows "clone_cost m1 K pd 1024 = clone_cost m K pd 1024"
  unfolding clone_cost_def
proof (rule sum.cong)
  show "{k. k < 1024 \<and> own_entry m1 K pd k} = {k. k < 1024 \<and> own_entry m K pd k}" using assms(1) by auto
  fix k assume "k \<in> {k. k < 1024 \<and> own_entry m K pd k}"
  then show "entries m1 (table_of m1 pd k) 1024 + 1 = entries m (table_of m pd k) 1024 + 1"
    unfolding entries_def using assms(2) [of k] by (auto intro!: arg_cong [of _ _ card])
qed

lemma clone_effect:
  fixes s :: "'a vmm_scheme"
  assumes s: "calm s" and k: "space_ok s (kernel_page_directory s)" and c: "cloneable s pd"
    and p: "clone_cost (phys_mem s) (kernel_page_directory s) pd 1024 < card (pmm_pool s)"
  shows "\<exists>D t. vmm_clone_address_space pd s = Inr (D, t) \<and> D \<in> pmm_pool s - pmm_pool t \<and> spent s t {} \<and>
    (\<forall>i < 1024. own_entry (phys_mem s) (kernel_page_directory s) pd i \<longrightarrow>
      entry_cloned (phys_mem s) (phys_mem t) pd D (pmm_pool s - pmm_pool t) i) \<and>
    (\<forall>i < 1024. \<forall>l < 1024. own_entry (phys_mem s) (kernel_page_directory s) pd i \<longrightarrow>
      own_entry (phys_mem s) (kernel_page_directory s) pd l \<longrightarrow> i \<noteq> l \<longrightarrow> pages (phys_mem t) D i \<inter> pages (phys_mem t) D l = {}) \<and>
    (\<forall>i < 1024. \<not> own_entry (phys_mem s) (kernel_page_directory s) pd i \<longrightarrow> mword (phys_mem t) D i =
      (if present (phys_mem s) (kernel_page_directory s) i then mword (phys_mem s) (kernel_page_directory s) i else 0))"
proof -
  let ?K = "kernel_page_directory s" and ?m = "phys_mem s"
  have "pmm_pool s \<noteq> {}" using p by auto
  from clone_start [OF s k c this] obtain D a where
    a: "vmm_create_address_space s = Inr (D, a)" "D \<noteq> 0" "D \<in> pmm_pool s" "pmm_pool a = pmm_pool s - {D}"
      "spent s a {}" "clone_base a pd D" "\<forall>j < 1024. mword (phys_mem a) D j = (if present ?m ?K j then mword ?m ?K j else 0)" by blast
  note A = spentD [OF a(5)]
  have C: "pd \<in> pmm_managed s - pmm_pool s" "?K \<in> pmm_managed s - pmm_pool s"
    "\<And>i. i < 1024 \<Longrightarrow> own_entry ?m ?K pd i \<Longrightarrow> table_of ?m pd i \<in> pmm_managed s - pmm_pool s"
    "\<And>i j. i < 1024 \<Longrightarrow> own_entry ?m ?K pd i \<Longrightarrow> j < 1024 \<Longrightarrow> present ?m (table_of ?m pd i) j \<Longrightarrow>
      table_of ?m (table_of ?m pd i) j \<in> pmm_managed s - pmm_pool s"
    using c by (auto simp: cloneable_def Let_def)
  have w: "mword (phys_mem a) f j = mword ?m f j" if "f \<in> pmm_managed s - pmm_pool s" "j < 1024" for f j
    using spent_words(1) [OF a(5) that(1) _ that(2)] by simp
  have e: "own_entry (phys_mem a) ?K pd i = own_entry ?m ?K pd i" "table_of (phys_mem a) pd i = table_of ?m pd i" if "i < 1024" for i
    using w [OF C(1) that] w [OF C(2) that] by (simp_all add: own_entry_def present_def table_of_def)
  have "clone_cost (phys_mem a) ?K pd 1024 = clone_cost ?m ?K pd 1024"
    using e w [OF C(3)] by (intro clone_cost_cong) (simp_all add: present_def)
  moreover have "card (pmm_pool s) = card (pmm_pool a) + 1" using a(3,4) card_Suc_Diff1 [of "pmm_pool s" D] by simp
  ultimately have "clone_cost (phys_mem a) (kernel_page_directory a) pd 1024 \<le> card (pmm_pool a)" using p A(4) by simp
  from clone_loop [OF a(6) this] obtain t where
    t: "for_err 0 1024 (clone_round pd D) (None, a) = Inr (None, t)" "spent a t {D}"
      "dir_cloned (phys_mem a) (phys_mem t) ?K pd D (pmm_pool a - pmm_pool t) 1024" using A(4) by auto
  note T = spentD [OF t(2)]
  have "vmm_clone_address_space pd s = Inr (D, t)" using a(1,2) t(1) by (simp add: vmm_clone_address_space_def)
  moreover have "spent s t {}" by (rule spent_trans [OF a(5) t(2)]) (use a(3,4) in auto)
  moreover have "D \<in> pmm_pool s - pmm_pool t" using a(3,4) T(2) by auto
  moreover have "entry_cloned ?m (phys_mem t) pd D (pmm_pool s - pmm_pool t) i" if i: "i < 1024" "own_entry ?m ?K pd i" for i
  proof -
    have "entry_cloned (phys_mem a) (phys_mem t) pd D (pmm_pool a - pmm_pool t) i" using t(3) i e(1) by (simp add: dir_cloned_def)
    from entry_cloned_keep(1) [OF this refl refl, of "pmm_pool s - pmm_pool t"]
    have "entry_cloned (phys_mem a) (phys_mem t) pd D (pmm_pool s - pmm_pool t) i" using a(4) by auto
    then show ?thesis by (rule entry_cloned_source) (use w C i in blast)+
  qed
  moreover have "pages (phys_mem t) D i \<inter> pages (phys_mem t) D l = {}"
    if "i < 1024" "l < 1024" "own_entry ?m ?K pd i" "own_entry ?m ?K pd l" "i \<noteq> l" for i l
    using t(3) that e(1) by (simp add: dir_cloned_def)
  moreover have "mword (phys_mem t) D i = (if present ?m ?K i then mword ?m ?K i else 0)" if "i < 1024" "\<not> own_entry ?m ?K pd i" for i
    using t(3) that e(1) a(7) by (simp add: dir_cloned_def)
  ultimately show ?thesis by blast
qed

lemma cloned_walk:
  assumes o: "own_entry m K pd (pd_index v)" and c: "entry_cloned m m' pd D X (pd_index v)"
  shows "walk m' D v = (if walk m pd v = None then None
    else Some (table_of m' (table_of m' D (pd_index v)) (pt_index v) + (v AND 0xFFF)))"
    "walk m pd v \<noteq> None \<Longrightarrow> copied m m' (table_of m pd (pd_index v)) (table_of m' D (pd_index v)) X (pt_index v)"
    "walk m pd v \<noteq> None \<Longrightarrow> present m (table_of m pd (pd_index v)) (pt_index v)"
    "walk m pd v \<noteq> None \<Longrightarrow> table_of m' (table_of m' D (pd_index v)) (pt_index v) \<in> pages m' D (pd_index v)"
proof -
  have pm: "present m pd (pd_index v)" using o by (simp add: own_entry_def)
  have e: "mword m' D (pd_index v) = table_of m' D (pd_index v) OR (mword m pd (pd_index v) AND 0xFFF)"
    using c by (simp add: entry_cloned_def)
  have "aligned_page (table_of m' D (pd_index v))" by (simp add: table_of_def)
  from frame_entry_bits(2) [OF this low_bits_small] have pD: "present m' D (pd_index v)"
    using pm unfolding present_def e low_bits_present by simp
  have t: "copied m m' (table_of m pd (pd_index v)) (table_of m' D (pd_index v)) X (pt_index v)"
    using c by (simp add: entry_cloned_def table_copied_def)
  note P = copied_present [OF t]
  show "walk m' D v = (if walk m pd v = None then None
      else Some (table_of m' (table_of m' D (pd_index v)) (pt_index v) + (v AND 0xFFF)))"
    using pm pD P by (simp add: walk_present)
  show w: "present m (table_of m pd (pd_index v)) (pt_index v)" if "walk m pd v \<noteq> None"
    using that by (simp add: walk_present split: if_splits)
  show "copied m m' (table_of m pd (pd_index v)) (table_of m' D (pd_index v)) X (pt_index v)" if "walk m pd v \<noteq> None" by (rule t)
  show "table_of m' (table_of m' D (pd_index v)) (pt_index v) \<in> pages m' D (pd_index v)" if "walk m pd v \<noteq> None"
    using w [OF that] P by (auto simp: pages_def mapped_frames_def)
qed

lemma frame_plus:
  fixes f g v w :: u32
  assumes "aligned_page f" "aligned_page g"
  shows "(f + (v AND 0xFFF)) AND 0xFFFFF000 = f"
    "f + (v AND 0xFFF) = g + (w AND 0xFFF) \<longleftrightarrow> f = g \<and> v AND 0xFFF = w AND 0xFFF"
proof -
  show "(f + (v AND 0xFFF)) AND 0xFFFFF000 = f" unfolding page_mask by (rule base_plus_high [OF assms(1) low_bits_small])
  show "f + (v AND 0xFFF) = g + (w AND 0xFFF) \<longleftrightarrow> f = g \<and> v AND 0xFFF = w AND 0xFFF"
    by (rule base_plus_inject [OF assms(1) low_bits_small assms(2) low_bits_small])
qed

lemma index_inject:
  fixes v w :: u32
  assumes "pd_index v = pd_index w" "pt_index v = pt_index w" "v AND 0xFFF = w AND 0xFFF"
  shows "v = w"
proof -
  have "v AND NOT (mask 12) = w AND NOT (mask 12)" using assms(1,2) same_page_index [of v w] by (simp add: same_page_def page_mask)
  moreover have "v AND mask 12 = w AND mask 12" using assms(3) by (simp add: offset_mask take_bit_eq_mask)
  ultimately show ?thesis by (metis bit.conj_disj_distrib bit.disj_cancel_right and.right_neutral)
qed

lemma cloned_inject:
  assumes c: "\<And>i. i < 1024 \<Longrightarrow> own_entry m K pd i \<Longrightarrow> entry_cloned m m' pd D X i"
    and a: "\<And>i l. i < 1024 \<Longrightarrow> l < 1024 \<Longrightarrow> own_entry m K pd i \<Longrightarrow> own_entry m K pd l \<Longrightarrow> i \<noteq> l \<Longrightarrow> pages m' D i \<inter> pages m' D l = {}"
    and o: "own_entry m K pd (pd_index v)" "own_entry m K pd (pd_index w)"
    and n: "walk m' D v \<noteq> None" and e: "walk m' D v = walk m' D w"
  shows "v = w"
proof -
  let ?f = "\<lambda>v. table_of m' (table_of m' D (pd_index v)) (pt_index v)"
  note V = cloned_walk [OF o(1) c [OF index_bounds(1) o(1)]] and W = cloned_walk [OF o(2) c [OF index_bounds(1) o(2)]]
  have d: "walk m pd v \<noteq> None" "walk m pd w \<noteq> None" using n e V(1) W(1) by (auto split: if_splits)
  then have "walk m' D v = Some (?f v + (v AND 0xFFF))" "walk m' D w = Some (?f w + (w AND 0xFFF))"
    unfolding V(1) W(1) by (simp_all only: if_False)
  then have "?f v + (v AND 0xFFF) = ?f w + (w AND 0xFFF)" using e by simp
  then have f: "?f v = ?f w" and l: "v AND 0xFFF = w AND 0xFFF" using frame_plus(2) [of "?f v" "?f w" v w] by (simp_all add: table_of_def)
  have "?f w \<in> pages m' D (pd_index v) \<inter> pages m' D (pd_index w)" using V(4) [OF d(1)] W(4) [OF d(2)] f by (simp only: Int_iff simp_thms)
  then have i: "pd_index v = pd_index w" using a [OF index_bounds(1) index_bounds(1) o] by blast
  have "table_copied m m' (table_of m pd (pd_index v)) (table_of m' D (pd_index v)) X 1024"
    using c [OF index_bounds(1) o(1)] by (simp add: entry_cloned_def)
  then have inj: "present m (table_of m pd (pd_index v)) k \<Longrightarrow> present m (table_of m pd (pd_index v)) l \<Longrightarrow>
      table_of m' (table_of m' D (pd_index v)) k = table_of m' (table_of m' D (pd_index v)) l \<Longrightarrow> k = l"
    if "k < 1024" "l < 1024" for k l using that by (simp add: table_copied_def)
  have "pt_index v = pt_index w"
  proof (rule inj [OF index_bounds(2) index_bounds(2)])
    show "present m (table_of m pd (pd_index v)) (pt_index v)" by (rule V(3) [OF d(1)])
    show "present m (table_of m pd (pd_index v)) (pt_index w)" unfolding i by (rule W(3) [OF d(2)])
    show "table_of m' (table_of m' D (pd_index v)) (pt_index v) = table_of m' (table_of m' D (pd_index v)) (pt_index w)"
      using f by (simp only: i)
  qed
  from index_inject [OF i this l] show ?thesis .
qed

text \<open>\<open>D\<close> in the memory \<open>m'\<close> is a copy of the space \<open>pd\<close> in \<open>m\<close>. A page of an entry that is not the
  kernel's is in a frame of \<open>X\<close> that holds the same words; the other addresses translate as in the kernel's space.\<close>

definition space_cloned :: "memory \<Rightarrow> memory \<Rightarrow> u32 \<Rightarrow> u32 \<Rightarrow> u32 \<Rightarrow> u32 set \<Rightarrow> bool" where
  "space_cloned m m' K pd D X \<longleftrightarrow>
    (\<forall>v. if own_entry m K pd (pd_index v)
      then case walk m pd v of None \<Rightarrow> walk m' D v = None
        | Some a \<Rightarrow> (\<exists>f \<in> X. walk m' D v = Some (f + (v AND 0xFFF)) \<and>
            (\<forall>k < 1024. mword m' f k = mword m (a AND 0xFFFFF000) k))
      else walk m' D v = walk m K v)"

lemma space_clonedI:
  assumes own: "\<And>i. i < 1024 \<Longrightarrow> own_entry m K pd i \<Longrightarrow> entry_cloned m m' pd D X i"
    and rest: "\<And>i. i < 1024 \<Longrightarrow> \<not> own_entry m K pd i \<Longrightarrow> mword m' D i = (if present m K i then mword m K i else 0)"
    and kern: "\<And>i j. i < 1024 \<Longrightarrow> present m K i \<Longrightarrow> j < 1024 \<Longrightarrow> mword m' (table_of m K i) j = mword m (table_of m K i) j"
  shows "space_cloned m m' K pd D X"
proof -
  have "case walk m pd v of None \<Rightarrow> walk m' D v = None
        | Some a \<Rightarrow> (\<exists>f \<in> X. walk m' D v = Some (f + (v AND 0xFFF)) \<and> (\<forall>k < 1024. mword m' f k = mword m (a AND 0xFFFFF000) k))"
    if o: "own_entry m K pd (pd_index v)" for v
  proof (cases "walk m pd v")
    case None
    then show ?thesis using cloned_walk(1) [OF o own [OF index_bounds(1) o]] by simp
  next
    case (Some b)
    note W = cloned_walk [OF o own [OF index_bounds(1) o]]
    have c: "copied m m' (table_of m pd (pd_index v)) (table_of m' D (pd_index v)) X (pt_index v)"
      "present m (table_of m pd (pd_index v)) (pt_index v)" using W(2,3) Some by auto
    have "b = table_of m (table_of m pd (pd_index v)) (pt_index v) + (v AND 0xFFF)"
      using Some by (simp add: walk_present split: if_splits)
    moreover have al: "aligned_page (table_of m (table_of m pd (pd_index v)) (pt_index v))" by (simp add: table_of_def)
    ultimately have "b AND 0xFFFFF000 = table_of m (table_of m pd (pd_index v)) (pt_index v)"
      using frame_plus(1) [OF al al] by (simp only:)
    then show ?thesis using Some W(1) c by (auto simp: copied_def)
  qed
  moreover have "walk m' D v = walk m K v" if "\<not> own_entry m K pd (pd_index v)" for v
    using rest [OF index_bounds(1) that] kern [OF index_bounds(1) _ index_bounds(2)]
    by (auto simp: walk_present present_def table_of_def)
  ultimately show ?thesis by (simp add: space_cloned_def)
qed

text \<open>C2: \<open>vmm_clone_address_space\<close> with enough free frames returns a new directory. A page of an
  entry that is not the kernel's is at the same address in the clone, in a frame of its own that was free and
  now holds the same words; all other addresses translate as in the kernel's space. Nothing is
  written but to frames that were free.\<close>

theorem clone_copies_pages:
  fixes s :: "'a vmm_scheme"
  assumes "calm s" "space_ok s (kernel_page_directory s)" "cloneable s pd"
    and "clone_cost (phys_mem s) (kernel_page_directory s) pd 1024 < card (pmm_pool s)"
  shows "\<exists>D t. vmm_clone_address_space pd s = Inr (D, t) \<and> D \<in> pmm_pool s - pmm_pool t \<and> spent s t {} \<and>
    (\<forall>v. if own_entry (phys_mem s) (kernel_page_directory s) pd (pd_index v)
      then case walk (phys_mem s) pd v of None \<Rightarrow> walk (phys_mem t) D v = None
        | Some a \<Rightarrow> (\<exists>f \<in> pmm_pool s - pmm_pool t. walk (phys_mem t) D v = Some (f + (v AND 0xFFF)) \<and>
            (\<forall>k < 1024. mword (phys_mem t) f k = mword (phys_mem s) (a AND 0xFFFFF000) k))
      else walk (phys_mem t) D v = walk (phys_mem s) (kernel_page_directory s) v) \<and>
    (\<forall>v w. own_entry (phys_mem s) (kernel_page_directory s) pd (pd_index v) \<longrightarrow>
      own_entry (phys_mem s) (kernel_page_directory s) pd (pd_index w) \<longrightarrow>
      walk (phys_mem t) D v \<noteq> None \<longrightarrow> walk (phys_mem t) D v = walk (phys_mem t) D w \<longrightarrow> v = w)"
proof -
  let ?K = "kernel_page_directory s" and ?m = "phys_mem s"
  from clone_effect [OF assms] obtain D t where
    t: "vmm_clone_address_space pd s = Inr (D, t)" "D \<in> pmm_pool s - pmm_pool t" "spent s t {}"
    and own: "\<And>i. i < 1024 \<Longrightarrow> own_entry ?m ?K pd i \<Longrightarrow> entry_cloned ?m (phys_mem t) pd D (pmm_pool s - pmm_pool t) i"
    and apart: "\<And>i l. i < 1024 \<Longrightarrow> l < 1024 \<Longrightarrow> own_entry ?m ?K pd i \<Longrightarrow> own_entry ?m ?K pd l \<Longrightarrow> i \<noteq> l \<Longrightarrow>
      pages (phys_mem t) D i \<inter> pages (phys_mem t) D l = {}"
    and rest: "\<And>i. i < 1024 \<Longrightarrow> \<not> own_entry ?m ?K pd i \<Longrightarrow>
      mword (phys_mem t) D i = (if present ?m ?K i then mword ?m ?K i else 0)" by blast
  have "mword (phys_mem t) (table_of ?m ?K i) j = mword ?m (table_of ?m ?K i) j" if "i < 1024" "present ?m ?K i" "j < 1024" for i j
    using spent_words(1) [OF t(3) space_okD(4) [OF assms(2) that(1,2)] _ that(3)] by simp
  then have "space_cloned ?m (phys_mem t) ?K pd D (pmm_pool s - pmm_pool t)" using own rest by (intro space_clonedI) auto
  moreover have "v = w" if o: "own_entry ?m ?K pd (pd_index v)" "own_entry ?m ?K pd (pd_index w)"
      and n: "walk (phys_mem t) D v \<noteq> None" and e: "walk (phys_mem t) D v = walk (phys_mem t) D w" for v w
    by (rule cloned_inject [OF own apart o n e])
  ultimately show ?thesis using t unfolding space_cloned_def by blast
qed

section \<open>Example\<close>

text \<open>A machine of 16 frames without paging. The space to be cloned has one page, at 0x5000.\<close>

lemma demo_take:
  fixes s :: vmm
  assumes "pmm_inv s" "\<not> paging s" "card (pmm_pool s) = Suc n"
  obtains a and t :: vmm where "a \<in> pmm_pool s" "pmm_pool t = pmm_pool s - {a}" "pmm_managed t = pmm_managed s" "pmm_inv t"
    "\<not> paging t" "a \<in> pmm_managed t" "card (pmm_pool t) = n"
proof -
  obtain a t where a: "pmm_alloc_page s = (a, t)" by fastforce
  have p: "pmm_pool s \<noteq> {}" using assms(3) by auto
  have nz: "a \<noteq> 0" using fra.alloc_zero_iff [OF assms(1)] p a by simp
  have d: "direct s" using assms(2) by (simp add: direct_def translate_def)
  note A = alloc_frame [OF assms(1) d a nz]
  have "card (pmm_pool t) = n" using A(1,2) assms(3) by simp
  then show thesis using that [of a t] A alloc_keeps(4) [OF a] assms(2) by simp
qed

lemma demo_frames:
  "\<exists>(s :: vmm) K P T F. pmm_inv s \<and> \<not> paging s \<and> card (pmm_pool s) = 11 \<and> {K, P, T, F} \<subseteq> pmm_managed s - pmm_pool s \<and>
    distinct [K, P, T, F]"
proof -
  have s: "pmm_inv (demo_vm 16)" "\<not> paging (demo_vm 16)" "card (pmm_pool (demo_vm 16)) = Suc 14"
    using demo_vm_inv [of 16] by (simp_all add: demo_vm_fields)
  obtain K and a :: vmm where a: "K \<in> pmm_pool (demo_vm 16)" "pmm_pool a = pmm_pool (demo_vm 16) - {K}" "pmm_inv a" "\<not> paging a"
    "K \<in> pmm_managed a" "card (pmm_pool a) = Suc 13" by (rule demo_take [OF s]) simp
  obtain P and b :: vmm where b: "P \<in> pmm_pool a" "pmm_pool b = pmm_pool a - {P}" "pmm_managed b = pmm_managed a" "pmm_inv b" "\<not> paging b"
    "P \<in> pmm_managed b" "card (pmm_pool b) = Suc 12" by (rule demo_take [OF a(3,4,6)]) simp
  obtain T and d :: vmm where d: "T \<in> pmm_pool b" "pmm_pool d = pmm_pool b - {T}" "pmm_managed d = pmm_managed b" "pmm_inv d" "\<not> paging d"
    "T \<in> pmm_managed d" "card (pmm_pool d) = Suc 11" by (rule demo_take [OF b(4,5,7)]) simp
  obtain F and e :: vmm where e: "F \<in> pmm_pool d" "pmm_pool e = pmm_pool d - {F}" "pmm_managed e = pmm_managed d" "pmm_inv e" "\<not> paging e"
    "F \<in> pmm_managed e" "card (pmm_pool e) = 11" by (rule demo_take [OF d(4,5,7)]) simp
  have "distinct [K, P, T, F]" using a(2) b(1,2) d(1,2) e(1,2) by auto
  moreover have "{K, P, T, F} \<subseteq> pmm_managed e - pmm_pool e" using a(2,5) b(1-3,6) d(1-3,6) e(1-3,6) by auto
  ultimately show ?thesis using e(4,5,7) by blast
qed

theorem clone_copies_pages_witness:
  "\<exists>(s :: vmm) (t :: vmm) pd D f. vmm_clone_address_space pd s = Inr (D, t) \<and> walk (phys_mem t) D 0x5000 = Some f \<and>
    f \<in> pmm_pool s \<and> mword (phys_mem t) f 7 = 0xCAFE"
proof -
  obtain s :: vmm and K P T F where s: "pmm_inv s" "\<not> paging s" "card (pmm_pool s) = 11" "{K, P, T, F} \<subseteq> pmm_managed s - pmm_pool s"
    "distinct [K, P, T, F]" using demo_frames by blast
  have al: "aligned_page K" "aligned_page P" "aligned_page T" "aligned_page F" using s(4) managed_aligned by auto
  obtain m where w: "\<And>f j. aligned_page f \<Longrightarrow> j < 1024 \<Longrightarrow> mword m f j =
      (if f = F \<and> j = 7 then 0xCAFE else if f = T \<and> j = 5 then F OR 7 else if f = P \<and> j = 0 then T OR 7 else 0)"
  proof -
    have z: "mword (\<lambda>_. 0) f j = 0" for f j by (simp add: mword_def load32_def)
    show thesis
      by (rule that [of "store32 (store32 (store32 (\<lambda>_. 0) (entry_at P 0) (T OR 7)) (entry_at T 5) (F OR 7)) (entry_at F 7) 0xCAFE"])
        (use al z in \<open>auto simp: mword_store\<close>)
  qed
  define u where "u = s\<lparr>phys_mem := m, kernel_page_directory := K\<rparr>"
  have u: "phys_mem u = m" "kernel_page_directory u = K" "paging u = paging s" by (simp_all add: u_def)
  have f: "pmm_pool u = pmm_pool s" "pmm_managed u = pmm_managed s" "pmm_inv u = pmm_inv s" unfolding u_def by (rule pmm_same; simp)+
  have b: "(T OR 7) AND 0xFFFFF000 = T" "(T OR 7) AND 1 = 1" "(F OR 7) AND 0xFFFFF000 = F" "(F OR 7) AND 1 = 1"
    using frame_entry_bits(1,2) [OF al(3), of 7] frame_entry_bits(1,2) [OF al(4), of 7] by simp_all
  have calm: "calm u" using s(1,2) f by (simp add: calm_def direct_def translate_def u)
  have pK: "\<not> present m K i" if "i < 1024" for i using w [OF al(1) that] s(5) by (auto simp: present_def)
  have sp: "space_ok u K" using pK s(4) by (auto simp: space_ok_def in_tables f u)
  have pP: "own_entry m K P i \<longleftrightarrow> i = 0" if "i < 1024" for i
    using w [OF al(1) that] w [OF al(2) that] s(5) b(2) by (auto simp: own_entry_def present_def)
  have tP: "table_of m P 0 = T" using w [OF al(2), of 0] s(5) b(1) by (auto simp: table_of_def)
  have pT: "present m T j \<longleftrightarrow> j = 5" if "j < 1024" for j
    using w [OF al(3) that] s(5) b(4) by (auto simp: present_def)
  have tT: "table_of m T 5 = F" using w [OF al(3), of 5] s(5) b(3) by (auto simp: table_of_def)
  have cl: "cloneable u P" using s(4) pP tP pT tT by (auto simp: cloneable_def Let_def f u)
  have co: "clone_cost m K P 1024 = 2"
  proof -
    have "{k. k < 1024 \<and> own_entry m K P k} = {0}" "{j. j < 1024 \<and> present m T j} = {5}" using pP pT by auto
    then show ?thesis by (simp add: clone_cost_def tP entries_def)
  qed
  have lt: "clone_cost (phys_mem u) (kernel_page_directory u) P 1024 < card (pmm_pool u)" unfolding u f co using s(3) by simp
  obtain D t where
    t: "vmm_clone_address_space P u = Inr (D, t)"
    and W: "\<forall>v. if own_entry m K P (pd_index v)
      then case walk m P v of None \<Rightarrow> walk (phys_mem t) D v = None
        | Some a \<Rightarrow> (\<exists>f \<in> pmm_pool s - pmm_pool t. walk (phys_mem t) D v = Some (f + (v AND 0xFFF)) \<and>
            (\<forall>k < 1024. mword (phys_mem t) f k = mword m (a AND 0xFFFFF000) k))
      else walk (phys_mem t) D v = walk m K v"
    using clone_copies_pages [OF calm _ cl lt] sp unfolding u f by blast
  have i: "pd_index 0x5000 = 0" "pt_index 0x5000 = 5" by (simp_all add: pd_index_def pt_index_def drop_bit_eq_div)
  have "walk m P 0x5000 = Some F" using pP [of 0] pT [of 5] tP tT i by (simp add: walk_present own_entry_def)
  moreover have "F AND 0xFFFFF000 = F" using frame_plus(1) [OF al(4,4), of 0] by simp
  ultimately obtain g where "g \<in> pmm_pool u" "walk (phys_mem t) D 0x5000 = Some g" "mword (phys_mem t) g 7 = 0xCAFE"
    using W [rule_format, of "0x5000"] pP [of 0] i w [OF al(4), of 7] f(1) by auto
  then show ?thesis using t by blast
qed

end
