(* ===== verification/Sched_Space.thy ===== *)
theory Sched_Space
  imports Sched_Reap Vmm_Clone
begin

text \<open>
  Address spaces and the heap: taking frames from the pool keeps the heap and the ring of tasks, and a
  new address space maps the heap as the kernel's does.
\<close>

section \<open>The heap while frames are spent\<close>

lemma tables_spent:
  fixes s t :: "'a vmm_scheme"
  assumes "spent s t {}" "aligned_page c" "tables (phys_mem s) c \<inter> pmm_pool s = {}"
  shows "walk (phys_mem t) c = walk (phys_mem s) c" "tables (phys_mem t) c = tables (phys_mem s) c"
proof -
  have "mword (phys_mem t) f j = mword (phys_mem s) f j" if "f \<in> tables (phys_mem s) c" "j < 1024" for f j
    using spentD(8) [OF assms(1) tables_aligned [OF assms(2) that(1)] that(2)] assms(3) that(1) by blast
  then show "walk (phys_mem t) c = walk (phys_mem s) c" "tables (phys_mem t) c = tables (phys_mem s) c"
    by (auto intro!: ext walk_cong)
qed

lemma heap_spent:
  fixes s t :: "'a sched_scheme"
  assumes h: "heap_rep s ts" and c: "calm s" and t: "spent s t {}" "mem_only s t" and f: "heap_frames s \<inter> pmm_pool s = {}"
  shows "heap_rep t ts" "heap_word t = heap_word s" "heap_frames t = heap_frames s" "in_heap t = in_heap s"
    "heap_in s pd \<Longrightarrow> tables (phys_mem s) pd \<inter> pmm_pool s = {} \<Longrightarrow> heap_in t pd"
proof -
  note F = mem_only_fields [OF t(2)]
  have m: "heap_mapped s" using h by (simp add: heap_rep_def tiled_def)
  then have "paging s" by (simp add: heap_mapped_def)
  then have "tables (phys_mem s) (cur s) \<inter> pmm_pool s = {}" using c by (simp add: calm_def)
  note W = tables_spent [OF t(1) masked_aligned this]
  note H = heap_more_fields [OF F(6)]
  show i: "in_heap t = in_heap s" using H(2) by (simp add: in_heap_def fun_eq_iff)
  have hf: "heap_frame t = heap_frame s" using W(1) F(2) by (simp add: heap_frame_def fun_eq_iff)
  show "heap_frames t = heap_frames s" by (simp add: heap_frames_def hf i)
  have m': "heap_mapped t" using m W F(2,3) H(2) by (simp add: heap_mapped_def i hf)
  show w: "heap_word t = heap_word s"
  proof
    fix a
    have "load32 (phys_mem t) (heap_frame s a) = load32 (phys_mem s) (heap_frame s a)" if a: "a \<in> heap_cells s"
    proof -
      let ?g = "heap_frame s a AND 0xFFFFF000"
      obtain j where j: "j < 1024" "heap_frame s a = entry_at ?g j" using heap_cell_frame(2) [OF m a] by auto
      have "?g \<in> heap_frames s" using a by (auto simp: heap_frames_def heap_cells_def)
      then have "mword (phys_mem t) ?g j = mword (phys_mem s) ?g j" using f spentD(8) [OF t(1) masked_aligned j(1)] by blast
      then show ?thesis using j(2) by (simp add: mword_def)
    qed
    then show "heap_word t a = heap_word s a" by (simp add: heap_word_def heap_cells_def i hf)
  qed
  show "heap_rep t ts" using h m' w H by (simp add: heap_rep_def tiled_def)
  show "heap_in t pd" if "heap_in s pd" "tables (phys_mem s) pd \<inter> pmm_pool s = {}"
    using that tables_spent [OF t(1) heap_in_tables(1) [OF that(1)] that(2)] W(1) F(2) by (simp add: heap_in_def hf i)
qed

text \<open>The spaces of the tasks are in use.\<close>

definition spaces_used :: "'a sched_scheme \<Rightarrow> u32 list \<Rightarrow> bool" where
  "spaces_used s R \<longleftrightarrow> (\<forall>x\<in>set R. tword s x T_page_dir \<noteq> 0 \<longrightarrow> tables (phys_mem s) (tword s x T_page_dir) \<inter> pmm_pool s = {})"

lemma sched_spent:
  fixes s t :: "'a sched_scheme"
  assumes s: "sched_ok s ts R" and c: "calm s" and t: "spent s t {}" "mem_only s t" and f: "heap_frames s \<inter> pmm_pool s = {}"
    and u: "spaces_used s R"
  shows "sched_ok t ts R" "tword t = tword s" "rword t = rword s" "next_pid t = next_pid s" "current_task t = current_task s"
proof -
  note D = sched_okD [OF s] note H = heap_spent [OF D(1) c t f]
  show w: "tword t = tword s" "rword t = rword s" by (simp_all add: tword_def rword_def fun_eq_iff H(2))
  have m: "task_list t = task_list s" and n: "next_pid t = next_pid s" "current_task t = current_task s"
    using mem_only_fields(6) [OF t(2)] by (cases s; cases t; simp)+
  show "next_pid t = next_pid s" "current_task t = current_task s" by (rule n)+
  show "sched_ok t ts R" using s H(1,5) u unfolding sched_ok_def spaces_used_def w(1) m n by auto
qed

section \<open>A new address space\<close>

lemma new_space:
  fixes s :: "'a sched_scheme"
  assumes c: "calm s" and K: "space_ok s (kernel_page_directory s)" "heap_in s (kernel_page_directory s)"
    and h: "heap_rep s ts" "heap_frames s \<inter> pmm_pool s = {}" and p: "pmm_pool s \<noteq> {}"
  shows "\<exists>D t. vmm_create_address_space s = Inr (D, t) \<and> D \<noteq> 0 \<and> D \<in> pmm_pool s \<and> spent s t {} \<and> mem_only s t \<and>
    heap_in t D \<and> space_ok t D \<and> private_frames t D 1024 = {} \<and>
    walk (phys_mem t) D = walk (phys_mem s) (kernel_page_directory s)"
proof -
  let ?K = "kernel_page_directory s"
  have C: "pmm_inv s" "direct s" "paging s \<Longrightarrow> tables (phys_mem s) (cur s) \<inter> pmm_pool s = {}" using c by (auto simp: calm_def)
  have o: "\<not> own_entry (phys_mem s) ?K ?K i" for i by (simp add: own_entry_def)
  have "cloneable s ?K" using space_okD(1,2) [OF K(1)] o by (simp add: cloneable_def Let_def)
  from clone_start [OF c K(1) this p] obtain D t where
    t: "vmm_create_address_space s = Inr (D, t)" "D \<noteq> 0" "D \<in> pmm_pool s" "pmm_pool t = pmm_pool s - {D}" "spent s t {}"
    and w: "\<forall>j < 1024. mword (phys_mem t) D j = (if present (phys_mem s) ?K j then mword (phys_mem s) ?K j else 0)" by blast
  from create_space [OF C(1,2) K(1) C(3) p] t(1) have
    v: "vm_ok t D" "walk (phys_mem t) D = walk (phys_mem s) ?K" by auto
  have m: "mem_only s t" using keptD [OF kept_create t(1)] by simp
  note S = spentD [OF t(5)] and H = heap_spent [OF h(1) c t(5) m h(2)]
  have sp: "space_ok t D" using v(1) by (simp add: vm_ok_def)
  have kt: "tables (phys_mem s) ?K \<inter> pmm_pool s = {}" using K(1) by (auto simp: space_ok_def)
  have hK: "heap_in t ?K" by (rule H(5) [OF K(2) kt])
  have W: "walk (phys_mem t) ?K = walk (phys_mem s) ?K" "tables (phys_mem t) ?K = tables (phys_mem s) ?K"
    using tables_spent [OF t(5) space_okD(3) [OF K(1)] kt] by auto
  have kw: "mword (phys_mem t) ?K j = mword (phys_mem s) ?K j" if "j < 1024" for j
    using S(8) [OF space_okD(3) [OF K(1)] that] space_okD(2) [OF K(1)] by simp
  have Dj: "present (phys_mem t) D j = present (phys_mem s) ?K j"
    "present (phys_mem s) ?K j \<Longrightarrow> mword (phys_mem t) D j = mword (phys_mem t) ?K j" if "j < 1024" for j
    using w kw that by (auto simp: present_def)
  have pf: "private_frames t D 1024 = {}" using Dj S(4) by (auto simp: private_frames_def)
  have "tables (phys_mem t) D \<subseteq> insert D (tables (phys_mem t) ?K)"
  proof
    fix f assume "f \<in> tables (phys_mem t) D"
    moreover have "present (phys_mem t) ?K j \<and> table_of (phys_mem t) D j = table_of (phys_mem t) ?K j"
      if "j < 1024" "present (phys_mem t) D j" for j using that Dj kw by (simp add: present_def table_of_def)
    ultimately show "f \<in> insert D (tables (phys_mem t) ?K)" using in_tables [of f "phys_mem t" D] in_tables [of f "phys_mem t" ?K] by blast
  qed
  moreover have "heap_frame t v AND 0xFFFFF000 \<notin> insert D (tables (phys_mem t) ?K)" if "in_heap t v" for v
  proof -
    have "heap_frame t v AND 0xFFFFF000 \<in> heap_frames s" using that H(3) unfolding heap_frames_def by blast
    then have "heap_frame t v AND 0xFFFFF000 \<noteq> D" using h(2) t(3) by blast
    then show ?thesis using hK that by (simp add: heap_in_def)
  qed
  ultimately have "heap_in t D" using hK v(2) W(1) space_okD(3) [OF sp] unfolding heap_in_def by auto
  with t v(2) m sp pf show ?thesis by blast
qed

end
