(* ===== verification/Sched_Exit.thy ===== *)
theory Sched_Exit
  imports Sched_Space
begin

text \<open>
  From exit to wait: giving up the processor, what a zombie keeps until its parent waits for it, and
  the parent's call of \<^verbatim>\<open>sched_wait\<close> after any number of timer interrupts.
\<close>

section \<open>Leaving the processor\<close>

text \<open>\<open>sched_exit_with\<close> and \<open>sched_sleep\<close> set fields of the current task and give up the processor.\<close>

lemma blocked_yield:
  fixes s :: "'a sched_scheme"
  assumes s: "sched_ok s ts R" and c: "current_task s = c" "c \<noteq> 0"
    and f: "distinct (map fst fvs)" "\<forall>f\<in>{T_next, T_page_dir, T_stack}. map_of fvs f = None"
  shows "\<exists>v. sched_ok v ts R \<and> tasks_only ts s v \<and>
    (\<forall>x\<in>set R. \<forall>f. tword v x f = (if x = c then case map_of (fvs @ [(T_stack, r)]) f of Some w \<Rightarrow> w | None \<Rightarrow> tword s x f
       else tword s x f)) \<and>
    kbind (tsets c fvs s) (yield r irqs) =
      (case find (running v) (after c R) of
         Some x \<Rightarrow> Inr (Resumes (tword v x T_stack), switched x v)
       | None \<Rightarrow> yield_loop irqs v)"
proof -
  note D = sched_okD [OF s]
  have cR: "c \<in> set R" using D(7) c by simp
  have b: "task_block ts c" using D(3) cR by blast
  let ?fvs = "fvs @ [(T_stack, r)]"
  let ?v = "fold (\<lambda>(f, w). tput c f w) ?fvs s"
  have o: "tasks_only ts s ?v" by (rule tputs_effect [OF D(1) b])
  have d: "distinct (map fst ?fvs)" using f by (auto simp: map_of_eq_None_iff)
  have w: "tword ?v x f = (if x = c then case map_of ?fvs f of Some w \<Rightarrow> w | None \<Rightarrow> tword s x f else tword s x f)"
    if "x \<in> set R" for x f by (rule tm.puts_val [OF D(1) b D(3) [OF that] d])
  have v: "sched_ok ?v ts R" by (rule sched_ok_update [OF s o]) (use w f in \<open>auto simp: map_add_def\<close>)
  let ?a = "fold (\<lambda>(f, w). tput c f w) fvs s"
  have a: "heap_rep ?a ts" "current_task ?a = c"
    using tputs_effect(1) [OF D(1) b, of fvs] tasks_only_fields(2) [OF tputs_effect(1) [OF D(1) b, of fvs]] c(1)
    by (auto simp: tasks_only_def)
  have y: "kbind (tsets c fvs s) (yield r irqs) = yield_loop irqs ?v"
    using tsets_puts [OF D(1) b, of fvs] tm.sto_put [OF a(1) b] c(2) a(2) by (simp add: yield_def)
  have cv: "current_task ?v = c" using tasks_only_fields(2) [OF o] c(1) by simp
  have n: "next_running ?v R = find (running ?v) (after c R)"
    using cR c(2) cv by (auto simp: next_running_def start_task_def)
  have "yield_loop irqs ?v = (case find (running ?v) (after c R) of
      Some x \<Rightarrow> Inr (Resumes (tword ?v x T_stack), switched x ?v) | None \<Rightarrow> yield_loop irqs ?v)"
  proof (cases "find (running ?v) (after c R)")
    case (Some x)
    then have x: "x \<in> set R" using next_running_in [OF v] n by simp
    have "x \<noteq> 0" using task_block_nonzero [OF D(1) D(3) [OF x]] .
    then show ?thesis
      unfolding yield_loop.simps [of irqs ?v] pick_next_ok [OF v] n Some kbind_simps option.case
      using switch_to_ok(1) [OF v x] by simp
  qed simp
  with y have "kbind (tsets c fvs s) (yield r irqs) = (case find (running ?v) (after c R) of
      Some x \<Rightarrow> Inr (Resumes (tword ?v x T_stack), switched x ?v) | None \<Rightarrow> yield_loop irqs ?v)" by (rule trans)
  with v o w show ?thesis by blast
qed

section \<open>From exit to wait\<close>

lemma find_only:
  assumes "x \<in> set xs" "P x" "\<And>y. y \<in> set xs \<Longrightarrow> P y \<Longrightarrow> y = x"
  shows "find P xs = Some x"
proof (cases "find P xs")
  case None
  then show ?thesis using assms(1,2) by (auto simp: find_None_iff)
next
  case (Some y)
  then have "y \<in> set xs" "P y" using find_split [OF Some] by auto
  from assms(3) [OF this] Some show ?thesis by simp
qed

lemma switched_space:
  fixes s :: "'a sched_scheme"
  shows "space_ok (switched x s) d = space_ok s d" "private_frames (switched x s) d n = private_frames s d n"
    "pmm_pool (switched x s) = pmm_pool s" "pmm_managed (switched x s) = pmm_managed s"
    "kernel_page_directory (switched x s) = kernel_page_directory s" "phys_mem (switched x s) = phys_mem s"
    "paging (switched x s) = paging s" "total_pages (switched x s) = total_pages s"
proof -
  have f: "pmm_bitmap (switched x s) = pmm_bitmap s" "free_count (switched x s) = free_count s"
    by (simp_all add: switched_def vmm_switch_address_space_def Let_def)
  show k: "kernel_page_directory (switched x s) = kernel_page_directory s" "phys_mem (switched x s) = phys_mem s"
    and t: "paging (switched x s) = paging s" "total_pages (switched x s) = total_pages s"
    by (simp_all add: switched_def vmm_switch_address_space_def Let_def)
  show p: "pmm_pool (switched x s) = pmm_pool s" "pmm_managed (switched x s) = pmm_managed s"
    using pmm_same [OF f(1) t(2) f(2)] by blast+
  show "space_ok (switched x s) d = space_ok s d" "private_frames (switched x s) d n = private_frames s d n"
    by (simp_all add: space_ok_def private_frames_def p k)
qed

lemma direct_switched:
  fixes s v :: "'a sched_scheme"
  assumes s: "sched_ok s ts R" "x \<in> set R" and o: "heap_only s v" "tword v x T_page_dir = tword s x T_page_dir"
    and d: "direct (switched x s)"
  shows "direct (switched x v)"
proof -
  note D = sched_okD [OF s(1)]
  let ?c = "cr3 (switched x s) AND 0xFFFFF000"
  have m: "heap_mapped s" using D(1) by (simp add: heap_rep_def tiled_def)
  have W: "walk (phys_mem v) ?c = walk (phys_mem s) ?c"
  proof (cases "tword s x T_page_dir = 0")
    case True
    have "tables (phys_mem s) (cur s) \<inter> heap_frames s = {}" using m by (auto simp: heap_mapped_def heap_frames_def)
    from heap_only_tables(2) [OF o(1) masked_aligned this] show ?thesis using True by simp
  next
    case False
    note i = heap_in_tables [OF D(8) [OF s(2) False]]
    then have "tword s x T_page_dir AND 0xFFFFF000 = tword s x T_page_dir"
      using base_plus_high [of 12 "tword s x T_page_dir" 0] by (simp add: page_mask)
    then show ?thesis using heap_only_tables(2) [OF o(1) i] False by simp
  qed
  have c: "cr3 (switched x v) = cr3 (switched x s)" using o(2) heap_only_vmm(1) [OF o(1)] by simp
  show ?thesis
    unfolding direct_def translate_def switched_space heap_only_vmm [OF o(1)] c W
    by (rule d [unfolded direct_def translate_def switched_space])
qed

text \<open>\<open>parked ts R z s t\<close>: what the parent of \<open>z\<close> needs to reap it is in \<open>t\<close> as it is in \<open>s\<close>: the ring
  is in order, the tables of every task's space are where they are mapped, and the space, the blocks and the
  frames of \<open>z\<close> are the same.\<close>

definition parked :: "tile list \<Rightarrow> u32 list \<Rightarrow> u32 \<Rightarrow> 'a sched_scheme \<Rightarrow> 'a sched_scheme \<Rightarrow> bool" where
  "parked ts R z s t \<longleftrightarrow> sched_ok t ts R \<and> direct t \<and> (\<forall>x\<in>set R. direct (switched x t)) \<and>
     kernel_page_directory t = kernel_page_directory s \<and> heap_in t (kernel_page_directory s) \<and>
     pmm_managed t = pmm_managed s \<and> pmm_pool t = pmm_pool s \<and> reapable t ts R z = reapable s ts R z \<and>
     owned_frames t z = owned_frames s z \<and> owned_blocks t z = owned_blocks s z"

lemma parked_update:
  fixes s t v :: "'a sched_scheme"
  assumes p: "parked ts R z s t" and z: "z \<in> set R" and o: "heap_only t v" and v: "sched_ok v ts R"
    and f: "\<forall>x\<in>set R. tword v x T_page_dir = tword t x T_page_dir" "tword v z T_stack_top = tword t z T_stack_top"
  shows "parked ts R z s v"
proof -
  let ?pd = "tword t z T_page_dir"
  have t: "sched_ok t ts R" "direct t" "kernel_page_directory t = kernel_page_directory s" "heap_in t (kernel_page_directory s)"
    using p by (auto simp: parked_def)
  note D = sched_okD [OF t(1)] and V = heap_only_vmm [OF o]
  have m: "heap_mapped t" using D(1) by (simp add: heap_rep_def tiled_def)
  have w: "tword v z T_page_dir = ?pd" using f(1) z by simp
  have k: "heap_in t (kernel_page_directory t)" using t(3,4) by simp
  have sp: "space_ok v ?pd = space_ok t ?pd" "private_frames v ?pd 1024 = private_frames t ?pd 1024" if "?pd \<noteq> 0"
    using heap_only_tables(4) [OF o heap_in_tables [OF D(8) [OF z that]]] private_frames_heap [OF o D(8) [OF z that] k] by auto
  have "reapable v ts R z = reapable t ts R z" unfolding reapable_def w f(2) V using sp(1) by auto
  moreover have "owned_frames v z = owned_frames t z" unfolding owned_frames_def w V Let_def using sp(2) by auto
  moreover have "owned_blocks v z = owned_blocks t z" by (simp add: owned_blocks_def f(2))
  moreover have "direct (switched x v)" if "x \<in> set R" for x
    by (rule direct_switched [OF t(1) that o]) (use p f that in \<open>auto simp: parked_def\<close>)
  ultimately show ?thesis
    using p v heap_only_direct(1) [OF o m t(2)] heap_in_only [OF o m t(4)] unfolding parked_def V by simp
qed

lemma same_space:
  fixes s t :: "'a sched_scheme"
  assumes "phys_mem t = phys_mem s" "kernel_page_directory t = kernel_page_directory s" "total_pages t = total_pages s"
    "pmm_bitmap t = pmm_bitmap s" "free_count t = free_count s" "tword t = tword s"
  shows "reapable t ts R z = reapable s ts R z" "owned_frames t z = owned_frames s z" "owned_blocks t z = owned_blocks s z"
    "pmm_pool t = pmm_pool s" "pmm_managed t = pmm_managed s"
proof -
  show P: "pmm_pool t = pmm_pool s" "pmm_managed t = pmm_managed s" using pmm_same [OF assms(4,3,5)] by blast+
  have "space_ok t d = space_ok s d" "private_frames t d n = private_frames s d n" for d n
    by (simp_all add: space_ok_def private_frames_def P assms)
  then show "reapable t ts R z = reapable s ts R z" "owned_frames t z = owned_frames s z" "owned_blocks t z = owned_blocks s z"
    by (simp_all add: reapable_def owned_frames_def owned_blocks_def P assms Let_def)
qed

lemma same_direct:
  "phys_mem t = phys_mem s \<Longrightarrow> cr3 t = cr3 s \<Longrightarrow> paging t = paging s \<Longrightarrow> total_pages t = total_pages s \<Longrightarrow> direct t = direct s"
  by (simp add: direct_def translate_def)

lemma switched_view [simp]:
  "phys_mem (switched x s) = phys_mem s" "kernel_page_directory (switched x s) = kernel_page_directory s"
  "total_pages (switched x s) = total_pages s" "pmm_bitmap (switched x s) = pmm_bitmap s" "free_count (switched x s) = free_count s"
  "paging (switched x s) = paging s"
  by (simp_all add: switched_def vmm_switch_address_space_def Let_def)

lemma parked_switch:
  fixes s t :: "'a sched_scheme"
  assumes p: "parked ts R z s t" and x: "x \<in> set R"
  shows "parked ts R z s (switched x t)"
proof -
  have t: "sched_ok t ts R" "heap_in t (kernel_page_directory s)" "\<And>y. y \<in> set R \<Longrightarrow> direct (switched y t)"
    using p by (auto simp: parked_def)
  note S = switch_to_ok(2-4) [OF t(1) x]
  have "direct (switched y (switched x t))" if "y \<in> set R" for y
    using t(3) [OF that] t(3) [OF x]
      same_direct [of "switched y (switched x t)" "if tword t y T_page_dir \<noteq> 0 then switched y t else switched x t"]
    by (simp add: S(2) split: if_splits)
  then show ?thesis
    using p S(1,3) t(3) [OF x] same_space [of "switched x t" t, OF _ _ _ _ _ S(2)] by (simp add: parked_def)
qed

lemma parked_fields:
  fixes s t :: "'a sched_scheme"
  assumes p: "parked ts R z s t"
  shows "parked ts R z s (t\<lparr>tick := a\<rparr>)" "parked ts R z s (t\<lparr>io_log := b\<rparr>)"
proof -
  have *: "parked ts R z s u" if "sched_ok u ts R = sched_ok t ts R" "heap_in u (kernel_page_directory s) = heap_in t (kernel_page_directory s)"
    and f: "phys_mem u = phys_mem t" "kernel_page_directory u = kernel_page_directory t" "total_pages u = total_pages t"
      "pmm_bitmap u = pmm_bitmap t" "free_count u = free_count t" "tword u = tword t" and c: "cr3 u = cr3 t" "paging u = paging t"
    for u :: "'a sched_scheme"
  proof -
    have "direct (switched x u) = direct (switched x t)" for x by (rule same_direct) (simp_all add: f c)
    then show ?thesis using p that(1,2) same_direct [OF f(1) c f(3)] same_space [OF f] by (simp add: parked_def f(2))
  qed
  show "parked ts R z s (t\<lparr>tick := a\<rparr>)" "parked ts R z s (t\<lparr>io_log := b\<rparr>)" by (rule *; simp)+
qed

text \<open>Timer interrupts leave a zombie as it is, and make no task a zombie.\<close>

definition same_kin :: "u32 list \<Rightarrow> 'a sched_scheme \<Rightarrow> 'a sched_scheme \<Rightarrow> bool" where
  "same_kin R s t \<longleftrightarrow> (\<forall>x\<in>set R. tword t x T_parent = tword s x T_parent \<and> tword t x T_exit_code = tword s x T_exit_code \<and>
     (tword t x T_state = TASK_ZOMBIE \<longleftrightarrow> tword s x T_state = TASK_ZOMBIE))"

lemma before_pick_only:
  assumes s: "sched_ok s ts R"
  shows "tasks_only ts (s\<lparr>tick := tick s + 1\<rparr>) (before_pick r s R)"
proof -
  let ?s = "s\<lparr>tick := tick s + 1\<rparr>"
  have k: "sched_ok ?s ts R" using s by simp
  note D = sched_okD [OF k]
  have bl: "\<forall>t\<in>set R. task_block ts t" using D(3) by blast
  note W = wakes_effect [OF D(1) bl D(2)]
  have "sched_ok (fold wake R ?s) ts R" by (rule sched_ok_update [OF k W(1)]) (simp_all add: W(2) D(3))
  then show ?thesis unfolding before_pick_def by (rule tasks_only_trans [OF W(1) saved_effect(1)])
qed

lemma parked_tick:
  fixes s t :: "'a sched_scheme"
  assumes p: "parked ts R z s t" and z: "z \<in> set R" and u: "sched_tick r t = Inr (fl, u)"
  shows "parked ts R z s u" "same_kin R t u"
proof -
  have t: "sched_ok t ts R" using p by (simp add: parked_def)
  have R: "R \<noteq> []" using z by auto
  let ?b = "before_pick r t R"
  note B = before_pick_effect [OF t, where r = r]
  have o: "heap_only (t\<lparr>tick := tick t + 1\<rparr>) ?b" using before_pick_only [OF t] by (simp add: tasks_only_def)
  have b: "parked ts R z s ?b"
    by (rule parked_update [OF parked_fields(1) [OF p] z o B(1)]) (use B(7) z in auto)
  show "parked ts R z s u"
  proof (cases "next_running ?b R")
    case None
    then show ?thesis using b u sched_tick_steps [OF t R, of r] by simp
  next
    case (Some x)
    have "parked ts R z s (outb 0x20 0x20 ?b)" using parked_fields(2) [OF b] by (simp add: outb_def)
    from parked_switch [OF this] next_running_in [OF B(1) Some] have "parked ts R z s (switched x (outb 0x20 0x20 ?b))" by blast
    moreover have "u = switched x (outb 0x20 0x20 ?b)" using u Some sched_tick_steps [OF t R, of r] by simp
    ultimately show ?thesis by simp
  qed
  from sched_tick_effect [OF t R, of r] u show "same_kin R t u"
    by (auto simp: same_kin_def TASK_RUNNING_def TASK_SLEEPING_def TASK_ZOMBIE_def split: if_splits)
qed

lemma parked_run:
  fixes s t :: "'a sched_scheme"
  assumes "parked ts R z s t" "z \<in> set R" "timer_run rs t = Inr (cs, u)"
  shows "parked ts R z s u \<and> same_kin R t u"
  using assms
proof (induction rs arbitrary: t cs)
  case (Cons r rs)
  from Cons.prems(3) obtain fl v ds where v: "sched_tick r t = Inr (fl, v)" "timer_run rs v = Inr (ds, u)"
    by (auto simp: kbind_eq_Inr)
  note T = parked_tick [OF Cons.prems(1,2) v(1)]
  from Cons.IH [OF T(1) Cons.prems(2) v(2)] T(2) show ?case by (simp add: same_kin_def)
qed (simp add: same_kin_def)

lemma find_front:
  assumes "\<exists>x\<in>set us. P x" "\<forall>x\<in>set us. P x = Q x"
  shows "\<exists>q\<in>set us. P q \<and> find P (us @ vs) = Some q \<and> find Q (us @ ws) = Some q"
  using assms by (induction us) auto

lemma exit_resumes:
  fixes s :: "'a sched_scheme"
  assumes s: "sched_ok s ts R" and z: "current_task s = z" "z \<noteq> 0" and p: "p \<in> set R" "p \<noteq> z" "running s p"
  shows "\<exists>q v. q \<in> set R \<and> q \<noteq> z \<and> find (running s) (after z R) = Some q \<and>
    sched_exit_with r code irqs s = Inr (Resumes (tword s q T_stack), switched q v) \<and>
    sched_ok v ts R \<and> tasks_only ts s v \<and> (\<forall>x\<in>set R. \<forall>f. tword v x f = (if x = z then
      case f of T_exit_code \<Rightarrow> code | T_state \<Rightarrow> TASK_ZOMBIE | T_stack \<Rightarrow> r | _ \<Rightarrow> tword s x f else tword s x f))"
proof -
  note D = sched_okD [OF s]
  have zR: "z \<in> set R" using D(7) z by simp
  have z0: "task_list s \<noteq> 0" using D(5) task_block_nonzero [OF D(1) D(3)] zR by (cases R) auto
  let ?fvs = "[(T_exit_code, code), (T_state, TASK_ZOMBIE)]"
  from blocked_yield [OF s z, of ?fvs r irqs] obtain v where
    v: "sched_ok v ts R" "tasks_only ts s v"
      "\<And>x f. x \<in> set R \<Longrightarrow> tword v x f = (if x = z then case map_of (?fvs @ [(T_stack, r)]) f of Some w \<Rightarrow> w | None \<Rightarrow> tword s x f
         else tword s x f)"
      "kbind (tsets z ?fvs s) (yield r irqs) = (case find (running v) (after z R) of
         Some x \<Rightarrow> Inr (Resumes (tword v x T_stack), switched x v) | None \<Rightarrow> yield_loop irqs v)" by auto
  have w: "tword v x f = (if x = z then case f of T_exit_code \<Rightarrow> code | T_state \<Rightarrow> TASK_ZOMBIE | T_stack \<Rightarrow> r | _ \<Rightarrow> tword s x f
      else tword s x f)" if "x \<in> set R" for x f using v(3) [OF that, of f] by (cases f) simp_all
  note A = after_facts [OF zR D(2)]
  obtain us where us: "after z R = us @ [z]" "z \<notin> set us" using A(4) by blast
  have uR: "set us = set R - {z}" using A(1) us by auto
  then have "\<forall>x\<in>set us. running s x = running v x" using w by (auto simp: running_def)
  moreover have "\<exists>x\<in>set us. running s x" using uR p by blast
  ultimately obtain q where q: "q \<in> set us" "find (running s) (us @ [z]) = Some q" "find (running v) (us @ [z]) = Some q"
    using find_front [of us "running s" "running v" "[z]" "[z]"] by blast
  then have qR: "q \<in> set R" "q \<noteq> z" using uR by auto
  then have "tword v q T_stack = tword s q T_stack" using w by simp
  then have "sched_exit_with r code irqs s = Inr (Resumes (tword s q T_stack), switched q v)"
    using v(4) z0 z q(3) us(1) by (simp add: sched_exit_with_def)
  then show ?thesis using v(1,2) w qR q(2) us(1) by auto
qed

text \<open>The parent's call of \<^verbatim>\<open>sched_wait\<close> in a state that is like the one in which the child left.\<close>

lemma parked_wait:
  fixes s t :: "'a sched_scheme"
  assumes p: "parked ts R z s t" and c: "current_task t \<in> set R" "tword t (current_task t) T_state \<noteq> TASK_ZOMBIE"
    and z: "z \<in> set R" "zombie_child t z" "\<forall>x\<in>set R. zombie_child t x \<longrightarrow> x = z"
    and s: "reapable s ts R z" "kernel_page_directory s \<in> pmm_managed s"
  shows "\<exists>u ws. sched_wait t = Inr (tword t z T_exit_code, u) \<and> sched_ok u ws (remove1 z R) \<and>
    current_task u = current_task t \<and> live ws = {b \<in> live ts. fst b \<notin> owned_blocks s z} \<and>
    pmm_pool u = pmm_pool s \<union> owned_frames s z"
proof -
  have t: "sched_ok t ts R" "direct t" "heap_in t (kernel_page_directory t)" "kernel_page_directory t \<in> pmm_managed t" "reapable t ts R z"
    "owned_frames t z = owned_frames s z" "owned_blocks t z = owned_blocks s z" "pmm_pool t = pmm_pool s"
    using p s by (auto simp: parked_def)
  have f: "find (zombie_child t) R = Some z" by (rule find_only [where P = "zombie_child t", OF z(1,2)]) (use z(3) in blast)
  have "current_task t \<noteq> 0" using task_block_nonzero sched_okD(1,3) [OF t(1)] c(1) by blast
  from sched_wait_effect [OF t(1) this c(2) f t(5,2,4,3)] show ?thesis unfolding t(6-8) by blast
qed

end
