(* ===== verification/Sched_Props.thy ===== *)
theory Sched_Props
  imports Sched_Exit
begin

text \<open>
  The properties of the scheduler, src/src/kernel/sched.c: whom the timer interrupt resumes and that
  every running task gets its turn, that creating a task and waiting for a child keep the ring of
  tasks and the heap in order, and how the exit code of a task reaches its parent. The examples at the
  end run on a machine that has been booted as far as \<^verbatim>\<open>sched_init\<close>.
\<close>

section \<open>From exit to wait\<close>

text \<open>C12: the exit code of a task reaches its parent. Let the current task \<open>z\<close> exit while its parent
  \<open>p\<close>, another task, is running, has no other zombie child, and the space of every task maps the managed
  frames at their own addresses. Then the processor resumes the first running task behind \<open>z\<close> in the ring.
  While the tasks that run are interrupted by nothing but the timer, the parent is the current task after at
  most as many interrupts as there are tasks; and whenever it is the current task, its call of
  \<open>sched_wait\<close> returns the exit code, the child is off the ring, and the blocks and frames of the child
  are free again.\<close>

theorem exit_code_reaches_parent:
  fixes s :: "'a sched_scheme"
  assumes s: "sched_ok s ts R" and z: "current_task s = z" "z \<noteq> 0"
    and p: "tword s z T_parent = p" "p \<in> set R" "p \<noteq> z" "running s p"
    and only: "\<forall>x\<in>set R. tword s x T_parent = p \<longrightarrow> x \<noteq> z \<longrightarrow> tword s x T_state \<noteq> TASK_ZOMBIE"
    and own: "reapable s ts R z" "kernel_page_directory s \<in> pmm_managed s" "heap_in s (kernel_page_directory s)"
    and dir: "direct s" "\<forall>x\<in>set R. direct (switched x s)"
  shows "\<exists>q t. find (running s) (after z R) = Some q \<and>
    sched_exit_with r code irqs s = Inr (Resumes (tword s q T_stack), t) \<and> current_task t = q \<and>
    (\<forall>rs. length R \<le> length rs \<longrightarrow>
       (\<exists>k \<le> length R. \<exists>cs u. timer_run (take k rs) t = Inr (cs, u) \<and> current_task u = p)) \<and>
    (\<forall>rs cs u. timer_run rs t = Inr (cs, u) \<longrightarrow> current_task u = p \<longrightarrow>
       (\<exists>v ws. sched_wait u = Inr (code, v) \<and> sched_ok v ws (remove1 z R) \<and> current_task v = p \<and>
          live ws = {b \<in> live ts. fst b \<notin> owned_blocks s z} \<and> pmm_pool v = pmm_pool s \<union> owned_frames s z))"
proof -
  have zR: "z \<in> set R" using sched_okD(7) [OF s] z by simp
  from exit_resumes [OF s z p(2-4)] obtain q v where
    q: "q \<in> set R" "find (running s) (after z R) = Some q"
    and v: "sched_exit_with r code irqs s = Inr (Resumes (tword s q T_stack), switched q v)" "sched_ok v ts R" "tasks_only ts s v"
      "\<And>x f. x \<in> set R \<Longrightarrow> tword v x f = (if x = z then
        case f of T_exit_code \<Rightarrow> code | T_state \<Rightarrow> TASK_ZOMBIE | T_stack \<Rightarrow> r | _ \<Rightarrow> tword s x f else tword s x f)" by blast
  let ?t = "switched q v"
  note T = switch_to_ok(2,3) [OF v(2) q(1)]
  have "parked ts R z s s" using s own dir by (simp add: parked_def)
  then have "parked ts R z s v"
    by (rule parked_update [OF _ zR _ v(2)]) (use v(3,4) zR in \<open>auto simp: tasks_only_def\<close>)
  then have P: "parked ts R z s ?t" by (rule parked_switch [OF _ q(1)])
  have rp: "running ?t p" using p(2-4) v(4) by (simp add: running_def T(2))
  have wait: "\<exists>w ws. sched_wait u = Inr (code, w) \<and> sched_ok w ws (remove1 z R) \<and> current_task w = p \<and>
      live ws = {b \<in> live ts. fst b \<notin> owned_blocks s z} \<and> pmm_pool w = pmm_pool s \<union> owned_frames s z"
    if u: "timer_run rs ?t = Inr (cs, u)" "current_task u = p" for rs cs u
  proof -
    have U: "parked ts R z s u" "same_kin R ?t u" using parked_run [OF P zR u(1)] by auto
    have kin: "tword u x T_parent = tword v x T_parent \<and> tword u x T_exit_code = tword v x T_exit_code \<and>
        (tword u x T_state = TASK_ZOMBIE \<longleftrightarrow> tword v x T_state = TASK_ZOMBIE)" if "x \<in> set R" for x
      using U(2) that by (simp add: same_kin_def T(2))
    have "tword u (current_task u) T_state \<noteq> TASK_ZOMBIE"
      using kin [OF p(2)] v(4) [OF p(2)] p(3,4) u(2) by (auto simp: running_def TASK_RUNNING_def TASK_ZOMBIE_def)
    moreover have "zombie_child u z" using kin [OF zR] v(4) [OF zR] p(1) u(2) by (simp add: zombie_child_def)
    moreover have "x = z" if "x \<in> set R" "zombie_child u x" for x
      using kin [OF that(1)] v(4) [OF that(1)] only that u(2) by (auto simp: zombie_child_def split: if_splits)
    moreover have "tword u z T_exit_code = code" using kin [OF zR] v(4) [OF zR] by simp
    ultimately show ?thesis using parked_wait [OF U(1) _ _ zR _ _ own(1,2)] p(2) u(2) by auto
  qed
  show ?thesis using q(2) v(1) timer_current [OF T(1) p(2) rp] wait by (intro exI [of _ q] exI [of _ ?t]) simp
qed

section \<open>Choosing tasks and the timer\<close>

text \<open>C17: the loop of \<open>pick_next_task\<close> along the links ends, and finds the first running task behind
  the current one in the order of the ring, with the current task itself last; it gives 0 when no task runs.\<close>

theorem pick_next_round_robin:
  assumes "sched_ok s ts R"
  shows "pick_next_task s = Inr (case next_running s R of None \<Rightarrow> 0 | Some x \<Rightarrow> x)"
  by (rule pick_next_ok [OF assms])

text \<open>C10: one timer interrupt. \<open>sched_tick\<close> returns and keeps the ring; it wakes exactly the sleepers that are
  due, saves the interrupted frame in the current task when that runs, and resumes the saved frame
  of the next running task with its kernel stack in the TSS and its address space in cr3, after the interrupt
  was acknowledged. When no task runs it returns.\<close>

theorem sched_tick_resumes:
  assumes "sched_ok s ts R" "R \<noteq> []"
  shows "\<exists>fl t. sched_tick r s = Inr (fl, t) \<and> sched_ok t ts R \<and> tick t = tick s + 1 \<and>
    (\<forall>x\<in>set R. \<forall>f. tword t x f =
      (if f = T_state \<and> tword s x T_state = TASK_SLEEPING \<and> tword s x T_wakeup_tick \<le> tick s + 1 then TASK_RUNNING
       else if f = T_stack \<and> x = current_task s \<and> running t x then r else tword s x f)) \<and>
    (case find (running t) (after (start_task s R) R) of
       None \<Rightarrow> fl = Returns \<and> current_task t = current_task s \<and> cr3 t = cr3 s \<and> io_log t = io_log s
     | Some x \<Rightarrow> fl = Resumes (tword t x T_stack) \<and> current_task t = x \<and> tss_esp0 t = tword s x T_stack_top \<and>
         cr3 t = (if tword s x T_page_dir \<noteq> 0 then tword s x T_page_dir else cr3 s) \<and>
         io_log t = Outb 0x20 0x20 # io_log s)"
  by (rule sched_tick_effect [OF assms])

text \<open>C11: no running task starves. Within as many timer interrupts as there are tasks, every task that is
  running when they start has been resumed.\<close>

theorem timer_fair:
  assumes s: "sched_ok s ts R" and x: "x \<in> set R" "running s x" and n: "length R \<le> length rs"
  shows "\<exists>cs t. timer_run rs s = Inr (cs, t) \<and> x \<in> set cs"
  by (rule timer_turn [OF assms])

text \<open>C40: a task that sleeps while no other task exists does not get back to its program. The tick that
  wakes it replaces the frame saved by \<open>sched_sleep\<close> with the frame of the interrupted loop of \<open>yield\<close>, so that
  \<open>sched_tick\<close> and then \<open>yield\<close> resume that loop, whatever the saved frame was.\<close>

theorem sleeper_alone_loses_frame:
  fixes s :: "'a sched_scheme"
  assumes s: "sched_ok s ts [c]" "current_task s = c" and d: "tword s c T_state = TASK_SLEEPING" "tword s c T_wakeup_tick \<le> tick s + 1"
  shows "\<exists>t. sched_tick k s = Inr (Resumes k, t) \<and> tword t c T_stack = k \<and>
    (\<exists>u. yield_loop irqs t = Inr (Resumes k, u) \<and> tword u c T_stack = k)"
proof -
  have c0: "c \<noteq> 0" using task_block_nonzero [OF sched_okD(1,3) [OF s(1)]] by simp
  have a: "after c [c] = [c]" by (simp add: after_def)
  obtain fl t where
    t: "sched_tick k s = Inr (fl, t)" "sched_ok t ts [c]"
    and w: "\<forall>x\<in>set [c]. \<forall>f. tword t x f =
      (if f = T_state \<and> tword s x T_state = TASK_SLEEPING \<and> tword s x T_wakeup_tick \<le> tick s + 1 then TASK_RUNNING
       else if f = T_stack \<and> x = current_task s \<and> running t x then k else tword s x f)"
    and e: "case find (running t) (after (start_task s [c]) [c]) of
       None \<Rightarrow> fl = Returns \<and> current_task t = current_task s \<and> cr3 t = cr3 s \<and> io_log t = io_log s
     | Some x \<Rightarrow> fl = Resumes (tword t x T_stack) \<and> current_task t = x \<and> tss_esp0 t = tword s x T_stack_top \<and>
         cr3 t = (if tword s x T_page_dir \<noteq> 0 then tword s x T_page_dir else cr3 s) \<and>
         io_log t = Outb 0x20 0x20 # io_log s"
    using sched_tick_effect [OF s(1), of k] by blast
  have r: "running t c" unfolding running_def using w d by simp
  have k: "tword t c T_stack = k" using w r s(2) by simp
  have f: "fl = Resumes k" "current_task t = c" using e r k s(2) c0 by (simp_all add: start_task_def a)
  have n: "next_running t [c] = Some c" using r f(2) a c0 by (simp add: next_running_def start_task_def)
  have "yield_loop irqs t = Inr (Resumes (tword t c T_stack), switched c t)"
    unfolding yield_loop.simps [of irqs t] pick_next_ok [OF t(2)] n kbind_simps option.case
    using switch_to_ok(1) [OF t(2), of c] c0 by simp
  then show ?thesis using t(1) k f(1) switch_to_ok(3) [OF t(2), of c] by simp
qed

section \<open>Creating and reaping\<close>

text \<open>C15: let the free tiles of the heap fit the task and, after it, its stack, so that the heap need not
  grow, and let the new task have no space of its own or one that maps the heap as the current one does. Then
  \<open>task_create_elf\<close> returns 0. The new task is a new block, linked into
  the ring behind its head; its fields and the register frame on its own stack block are those of a task that starts at
  the entry in user mode with interrupts on. No other task changes but for the link of the head. A heap that
  has to grow and the returns of -1 are not part of this statement.\<close>

theorem task_create_elf_links:
  fixes s :: "'a sched_scheme"
  assumes "sched_ok s ts R" "cut_first (unat (block_needed 36)) ts = Some (d, us)"
    "cut_first (unat (block_needed 4096)) us = Some (e, vs)" "pd = 0 \<or> heap_in s pd"
  shows "\<exists>t p u. task_create_elf entry esp pd s = Inr (0, u) \<and> t \<notin> set R \<and> sched_ok u vs (link_in t R) \<and>
    stack_block vs p \<and> live ts \<subseteq> live vs \<and> (\<forall>j. (unat t, j) \<notin> live ts \<and> (unat p, j) \<notin> live ts) \<and> p \<noteq> t \<and>
    next_pid u = next_pid s + 1 \<and> current_task u = current_task s \<and>
    (\<forall>f. f \<noteq> T_next \<longrightarrow> tword u t f = new_task (frame_of p) (p + STACK_SIZE) (next_pid s) 0 pd f) \<and>
    (\<forall>f. rword u (frame_of p) f = first_regs entry esp f) \<and>
    (\<forall>x\<in>set R. \<forall>f. f \<noteq> T_next \<longrightarrow> tword u x f = tword s x f)"
  by (rule create_elf_effect [OF assms])

text \<open>C13: \<open>sched_wait\<close>. Without a zombie child it returns -1 and changes nothing. Otherwise it returns the
  exit code of the first one in the ring and takes it out: the other tasks keep their fields and stay a
  ring, the two blocks of the child are free and its frames are back in the pool.\<close>

theorem sched_wait_reaps:
  fixes s :: "'a sched_scheme"
  assumes s: "sched_ok s ts R" and c: "current_task s \<noteq> 0" "tword s (current_task s) T_state \<noteq> TASK_ZOMBIE"
    and z: "\<forall>z\<in>set R. zombie_child s z \<longrightarrow> reapable s ts R z"
    and k: "direct s" "kernel_page_directory s \<in> pmm_managed s" "heap_in s (kernel_page_directory s)"
  shows "case find (zombie_child s) R of
      None \<Rightarrow> sched_wait s = Inr (-1, s)
    | Some z \<Rightarrow> (\<exists>t ws. sched_wait s = Inr (tword s z T_exit_code, t) \<and> sched_ok t ws (remove1 z R) \<and>
        current_task t = current_task s \<and> live ws = {b \<in> live ts. fst b \<notin> owned_blocks s z} \<and>
        pmm_pool t = pmm_pool s \<union> owned_frames s z \<and>
        (\<forall>x\<in>set (remove1 z R). \<forall>f. f \<noteq> T_next \<longrightarrow> tword t x f = tword s x f))"
proof (cases "find (zombie_child s) R")
  case None
  then show ?thesis using sched_wait_finds [OF s c(1)] by simp
next
  case (Some y)
  then have "reapable s ts R y" using z find_split [OF Some] by auto
  from sched_wait_effect [OF s c Some this k] show ?thesis by (simp add: Some)
qed

section \<open>Examples\<close>

text \<open>A machine with 256 frames that is booted as far as \<open>sched_init\<close>.\<close>

definition demo_sched :: sched where
  "demo_sched = heap.extend demo_heap (sched.fields 0 0 1)"

lemma demo_sched_pool: "pmm_inv demo_sched" "card (pmm_pool demo_sched) = 255" "total_pages demo_sched = 256" "\<not> paging demo_sched"
proof -
  have f: "pmm_bitmap demo_sched = pmm_bitmap demo_heap" "total_pages demo_sched = total_pages demo_heap"
    "free_count demo_sched = free_count demo_heap" "paging demo_sched = paging demo_heap"
    by (simp_all add: demo_sched_def heap.defs)
  show "pmm_inv demo_sched" "card (pmm_pool demo_sched) = 255"
    using demo_heap_pool f by (simp_all add: pmm_inv_def pmm_pool_def count_ok_def free_frames_def pmm_test_def)
  show "total_pages demo_sched = 256" "\<not> paging demo_sched" by (simp_all add: f demo_heap_fields)
qed

lemma ready_view:
  fixes s :: "'a sched_scheme"
  shows "heap_ready (s\<lparr>task_list := a\<rparr>) ts = heap_ready s ts" "heap_ready (s\<lparr>current_task := a\<rparr>) ts = heap_ready s ts"
    "heap_ready (s\<lparr>next_pid := a\<rparr>) ts = heap_ready s ts" "heap_ready (s\<lparr>tick := a\<rparr>) ts = heap_ready s ts"
proof -
  have *: "heap_ready t ts = heap_ready s ts"
    if "phys_mem t = phys_mem s" "cr3 t = cr3 s" "paging t = paging s" "heap_top t = heap_top s" "heap_free t = heap_free s"
      "pmm_bitmap t = pmm_bitmap s" "total_pages t = total_pages s" "free_count t = free_count s"
      "kernel_page_directory t = kernel_page_directory s" "current_page_directory t = current_page_directory s"
    for t :: "'a sched_scheme"
  proof -
    note p = pmm_same [OF that(6-8)] and h = heap_view(1) [OF that(1-5)]
    have "heap_frames t = heap_frames s" by (simp add: heap_frames_def heap_frame_def in_heap_def that)
    moreover have "kernel_space t = kernel_space s"
      by (simp add: kernel_space_def vm_ok_def space_ok_def reachable_from_def other_def direct_def translate_def p that)
    ultimately show ?thesis by (simp add: heap_ready_def h p)
  qed
  show "heap_ready (s\<lparr>task_list := a\<rparr>) ts = heap_ready s ts" "heap_ready (s\<lparr>current_task := a\<rparr>) ts = heap_ready s ts"
    "heap_ready (s\<lparr>next_pid := a\<rparr>) ts = heap_ready s ts" "heap_ready (s\<lparr>tick := a\<rparr>) ts = heap_ready s ts"
    by (rule *; simp)+
qed

lemma demo_sched_ready:
  "\<exists>t u. vmm_init demo_sched = Inr t \<and> heap_init t = Inr u \<and> heap_ready (sched_init u) [(65536, True)] \<and>
     sched_ok (sched_init u) [(65536, True)] [] \<and> 221 \<le> card (pmm_pool (sched_init u)) \<and>
     kernel_page_directory (sched_init u) \<noteq> 0"
proof -
  obtain t where t: "vmm_init demo_sched = Inr t" "kernel_space t" "card (pmm_pool t) = 253" "kernel_page_directory t \<noteq> 0"
    using booted_space [of demo_sched] by (auto simp: demo_sched_pool HEAP_START_def)
  from heap_init_effect [OF t(2)] t(3) obtain u where u: "heap_init t = Inr u" "heap_ready u [(65536, True)]" "221 \<le> card (pmm_pool u)" "kernel_page_directory u \<noteq> 0"
    using t(4) by auto
  then have "heap_ready (sched_init u) [(65536, True)]" by (simp add: sched_init_def ready_view)
  moreover from this have "sched_ok (sched_init u) [(65536, True)] []"
    by (simp add: sched_ok_def heap_ready_def ring_def sched_init_def)
  moreover have "pmm_pool (sched_init u) = pmm_pool u" by (rule pmm_same; simp add: sched_init_def)
  moreover have "kernel_page_directory (sched_init u) = kernel_page_directory u" by (simp add: sched_init_def)
  ultimately show ?thesis using t(1) u(1,3,4) by auto
qed

lemma ready_fit:
  fixes s :: "'a heap_scheme"
  assumes "heap_ready s ts" "n \<noteq> 0" "cut_first (unat (block_needed n)) ts = Some (d, us)"
  shows "\<exists>t :: 'a heap_scheme. heap_ready t us \<and> heap_only s t"
  using malloc_fit [OF ready_rep [OF assms(1)] assms(2,3)] heap_only_ready [OF _ assms(1)] by blast

lemma ready_tput:
  assumes "heap_ready s ts" "task_block ts x"
  shows "heap_ready (tput x f v s) ts \<and> heap_only s (tput x f v s)"
  using heap_only_tput [OF ready_rep [OF assms(1)] assms(2)]
  unfolding tput_def using write_in_use(2) [OF assms(1)] task_word(2,3) [OF ready_rep [OF assms(1)] assms(2)] by blast

lemma ready_task:
  fixes s :: "'a heap_scheme"
  assumes s: "heap_ready s ts" and x: "task_block ts x"
  shows "\<exists>t :: 'a heap_scheme. heap_ready t ts \<and> heap_only s t \<and> (\<forall>f. tword t x f = F f) \<and> (\<forall>y f. task_block ts y \<longrightarrow> y \<noteq> x \<longrightarrow> tword t y f = tword s y f)"
proof -
  let ?fs = "[T_stack, T_stack_top, T_next, T_parent, T_pid, T_exit_code, T_state, T_wakeup_tick, T_page_dir]"
  let ?fvs = "map (\<lambda>f. (f, F f)) ?fs"
  let ?t = "fold (\<lambda>(f, v). tput x f v) ?fvs s"
  have "heap_ready (fold (\<lambda>(f, v). tput x f v) fvs s) ts \<and> heap_only s (fold (\<lambda>(f, v). tput x f v) fvs s)" for fvs
    using s
  proof (induction fvs arbitrary: s)
    case (Cons fv fvs)
    note T = ready_tput [OF Cons.prems x, of "fst fv" "snd fv"]
    show ?case using Cons.IH [OF conjunct1 [OF T]] heap_only_trans [OF conjunct2 [OF T]] by (simp add: case_prod_beta)
  qed (simp add: heap_only_refl)
  then have r: "heap_ready ?t ts" "heap_only s ?t" by blast+
  note V = tm.puts_val [OF ready_rep [OF s] x]
  have "tword ?t x f = F f" for f using V [OF x, of ?fvs f] by (cases f) simp_all
  moreover have "tword ?t y f = tword s y f" if "task_block ts y" "y \<noteq> x" for y f using V [OF that(1), of ?fvs f] that(2) by simp
  ultimately show ?thesis using r by blast
qed

definition demo_tiles :: "tile list" where
  "demo_tiles = [(48, False), (48, False), (4104, False), (61336, True)]"

lemma demo_blocks:
  "live demo_tiles = {(3489660936, 40), (3489660984, 40), (3489661032, 4096)}"
  "task_block demo_tiles 0xD0000008" "task_block demo_tiles 0xD0000038"
proof -
  show "live demo_tiles = {(3489660936, 40), (3489660984, 40), (3489661032, 4096)}"
    by (auto simp: demo_tiles_def live_def heap_base_values(1))
  then show "task_block demo_tiles 0xD0000008" "task_block demo_tiles 0xD0000038" by (auto simp: task_block_def)
qed

lemma task_sizes: "unat (block_needed 36) = 48" "unat (block_needed 4096) = 4104"
  by (simp_all add: block_needed_def sizeof_heap_block_def HEAP_ALIGN_def HEAP_MIN_BLOCK_def Let_def)

lemma demo_tiles_ready: "\<exists>s :: sched. heap_ready s demo_tiles \<and> pmm_pool s \<noteq> {} \<and> kernel_page_directory s \<noteq> 0"
proof -
  obtain s :: sched where s: "heap_ready s [(65536, True)]" "221 \<le> card (pmm_pool s)" "kernel_page_directory s \<noteq> 0" using demo_sched_ready by blast
  obtain a :: sched where a: "heap_ready a [(48, False), (65488, True)]" "heap_only s a"
    using ready_fit [OF s(1), of 36] by (auto simp: task_sizes cut_tile_def)
  obtain b :: sched where b: "heap_ready b [(48, False), (48, False), (65440, True)]" "heap_only a b"
    using ready_fit [OF a(1), of 36] by (auto simp: task_sizes cut_tile_def)
  obtain c :: sched where c: "heap_ready c demo_tiles" "heap_only b c"
    using ready_fit [OF b(1), of 4096] by (auto simp: task_sizes cut_tile_def demo_tiles_def)
  have "heap_only s c" by (rule heap_only_trans [OF a(2) heap_only_trans [OF b(2) c(2)]])
  then show ?thesis using s(2,3) c(1) heap_only_vmm(5,6) [of s c] by auto
qed

text \<open>Rings of one and of two tasks with any fields, the first one current.\<close>

lemma demo_one:
  assumes "F T_next = 0xD0000008" "F T_page_dir = 0"
  shows "\<exists>s :: sched. sched_ok s demo_tiles [0xD0000008] \<and> current_task s = 0xD0000008 \<and> tick s = 5 \<and>
    (\<forall>f. tword s 0xD0000008 f = F f)"
proof -
  let ?c = "0xD0000008 :: u32"
  obtain d :: sched where d: "heap_ready d demo_tiles" using demo_tiles_ready by blast
  obtain v :: sched where v: "heap_ready v demo_tiles" "\<forall>f. tword v ?c f = F f" using ready_task [OF d demo_blocks(2), of F] by blast
  let ?t = "v\<lparr>task_list := ?c, current_task := ?c, tick := 5\<rparr>"
  have "sched_ok ?t demo_tiles [?c]" using ready_rep [OF v(1)] demo_blocks(2) v(2) assms by (simp add: sched_ok_def ring_def)
  then show ?thesis using v by (intro exI [of _ ?t]) simp
qed

lemma demo_two:
  assumes "F T_next = 0xD0000038" "G T_next = 0xD0000008" "F T_page_dir = 0" "G T_page_dir = 0"
  shows "\<exists>s :: sched. heap_ready s demo_tiles \<and> sched_ok s demo_tiles [0xD0000008, 0xD0000038] \<and> current_task s = 0xD0000008 \<and>
    (\<forall>f. tword s 0xD0000008 f = F f \<and> tword s 0xD0000038 f = G f)"
proof -
  let ?c = "0xD0000008 :: u32" and ?z = "0xD0000038 :: u32"
  obtain d :: sched where d: "heap_ready d demo_tiles" using demo_tiles_ready by blast
  obtain u :: sched where u: "heap_ready u demo_tiles" "\<forall>f. tword u ?c f = F f" using ready_task [OF d demo_blocks(2), of F] by blast
  obtain v :: sched where v: "heap_ready v demo_tiles" "\<forall>f. tword v ?z f = G f" "\<forall>f. tword v ?c f = tword u ?c f"
    using ready_task [OF u(1) demo_blocks(3), of G] demo_blocks(2) by fastforce
  let ?t = "v\<lparr>task_list := ?c, current_task := ?c\<rparr>"
  have "sched_ok ?t demo_tiles [?c, ?z]"
    using ready_rep [OF v(1)] demo_blocks(2,3) u(2) v(2,3) assms by (simp add: sched_ok_def ring_def)
  then show ?thesis using v u(2) by (intro exI [of _ ?t]) (simp add: ready_view)
qed

lemma ready_kernel:
  assumes "heap_ready s ts"
  shows "direct s" "kernel_page_directory s \<in> pmm_managed s" "heap_in s (kernel_page_directory s)"
proof -
  have k: "direct s" "space_ok s (kernel_page_directory s)" "cur s = kernel_page_directory s" and m: "heap_mapped s"
    using assms by (auto simp: heap_ready_def heap_rep_def tiled_def kernel_space_def vm_ok_def)
  show "direct s" "kernel_page_directory s \<in> pmm_managed s" using k space_okD(1) by blast+
  show "heap_in s (kernel_page_directory s)" using m space_okD(3) [OF k(2)] k(3) by (simp add: heap_in_def heap_mapped_def)
qed

text \<open>A task in the given state whose stack is the third block, with the given links.\<close>

definition demo_task :: "u32 \<Rightarrow> u32 \<Rightarrow> u32 \<Rightarrow> task_field \<Rightarrow> u32" where
  "demo_task nx parent st f =
    (case f of T_next \<Rightarrow> nx | T_parent \<Rightarrow> parent | T_state \<Rightarrow> st | T_stack_top \<Rightarrow> 0xD0001068 | T_stack \<Rightarrow> 0xD000101C
     | T_exit_code \<Rightarrow> 7 | T_page_dir \<Rightarrow> 0 | T_wakeup_tick \<Rightarrow> 3 | T_pid \<Rightarrow> 1)"

lemma demo_pair:
  "\<exists>s :: sched. heap_ready s demo_tiles \<and> sched_ok s demo_tiles [0xD0000008, 0xD0000038] \<and> current_task s = 0xD0000008 \<and>
    tword s 0xD0000008 = demo_task 0xD0000038 p a \<and> tword s 0xD0000038 = demo_task 0xD0000008 q b"
  using demo_two [of "demo_task 0xD0000038 p a" "demo_task 0xD0000008 q b"] by (simp add: demo_task_def fun_eq_iff all_conj_distrib)

theorem pick_next_round_robin_witness:
  "\<exists>s :: sched. current_task s = 0xD0000008 \<and> pick_next_task s = Inr 0xD0000038"
proof -
  obtain s :: sched where s: "sched_ok s demo_tiles [0xD0000008, 0xD0000038]" "current_task s = 0xD0000008"
    "tword s 0xD0000038 = demo_task 0xD0000008 0 TASK_RUNNING" using demo_pair [of 0 TASK_RUNNING 0 TASK_RUNNING] by blast
  have "next_running s [0xD0000008, 0xD0000038] = Some 0xD0000038"
    using s(2,3) by (simp add: next_running_def start_task_def after_def running_def demo_task_def)
  with pick_next_round_robin [OF s(1)] s(2) show ?thesis by auto
qed

theorem sched_tick_resumes_witness:
  "\<exists>s t :: sched. current_task s = 0xD0000008 \<and> sched_tick 0xD0000FFC s = Inr (Resumes 0xD000101C, t) \<and>
    current_task t = 0xD0000038 \<and> tword t 0xD0000008 T_stack = 0xD0000FFC"
proof -
  obtain s :: sched where s: "sched_ok s demo_tiles [0xD0000008, 0xD0000038]" "current_task s = 0xD0000008"
    "tword s 0xD0000008 = demo_task 0xD0000038 0 TASK_RUNNING" "tword s 0xD0000038 = demo_task 0xD0000008 0 TASK_RUNNING"
    using demo_pair [of 0 TASK_RUNNING 0 TASK_RUNNING] by blast
  obtain fl t where t: "sched_tick 0xD0000FFC s = Inr (fl, t)"
    and w: "\<forall>x\<in>set [0xD0000008, 0xD0000038]. \<forall>f. tword t x f =
      (if f = T_state \<and> tword s x T_state = TASK_SLEEPING \<and> tword s x T_wakeup_tick \<le> tick s + 1 then TASK_RUNNING
       else if f = T_stack \<and> x = current_task s \<and> running t x then 0xD0000FFC else tword s x f)"
    and e: "case find (running t) (after (start_task s [0xD0000008, 0xD0000038]) [0xD0000008, 0xD0000038]) of
       None \<Rightarrow> fl = Returns \<and> current_task t = current_task s \<and> cr3 t = cr3 s \<and> io_log t = io_log s
     | Some x \<Rightarrow> fl = Resumes (tword t x T_stack) \<and> current_task t = x \<and> tss_esp0 t = tword s x T_stack_top \<and>
         cr3 t = (if tword s x T_page_dir \<noteq> 0 then tword s x T_page_dir else cr3 s) \<and>
         io_log t = Outb 0x20 0x20 # io_log s"
    using sched_tick_resumes [OF s(1), of "0xD0000FFC"] by blast
  have r: "running t 0xD0000008" "running t 0xD0000038"
    unfolding running_def using w s(3,4) by (simp_all add: demo_task_def TASK_RUNNING_def TASK_SLEEPING_def)
  have st: "tword t 0xD0000008 T_stack = 0xD0000FFC" "tword t 0xD0000038 T_stack = 0xD000101C"
    using w s(2,4) r by (simp_all add: demo_task_def)
  have "fl = Resumes 0xD000101C \<and> current_task t = 0xD0000038"
    using e r st s(2) by (simp add: start_task_def after_def)
  then show ?thesis using t s(2) st by auto
qed

theorem timer_fair_witness:
  "\<exists>s t :: sched. \<exists>cs. timer_run [0xD0000FFC, 0xD0000FFC] s = Inr (cs, t) \<and> 0xD0000008 \<in> set cs"
proof -
  obtain s :: sched where s: "sched_ok s demo_tiles [0xD0000008, 0xD0000038]"
    "tword s 0xD0000008 = demo_task 0xD0000038 0 TASK_RUNNING" using demo_pair [of 0 TASK_RUNNING 0 TASK_RUNNING] by blast
  have "running s 0xD0000008" using s(2) by (simp add: running_def demo_task_def)
  from timer_fair [OF s(1) _ this, of "[0xD0000FFC, 0xD0000FFC]"] show ?thesis by auto
qed

theorem sleeper_alone_loses_frame_witness:
  "\<exists>s t :: sched. tword s 0xD0000008 T_stack = 0xD000101C \<and> sched_tick 0xD0000FFC s = Inr (Resumes 0xD0000FFC, t) \<and>
    tword t 0xD0000008 T_stack = 0xD0000FFC"
proof -
  obtain s :: sched where s: "sched_ok s demo_tiles [0xD0000008]" "current_task s = 0xD0000008" "tick s = 5"
    "\<forall>f. tword s 0xD0000008 f = demo_task 0xD0000008 0 TASK_SLEEPING f"
    using demo_one [of "demo_task 0xD0000008 0 TASK_SLEEPING"] by (auto simp: demo_task_def)
  have "tword s 0xD0000008 T_state = TASK_SLEEPING" "tword s 0xD0000008 T_wakeup_tick \<le> tick s + 1"
    "tword s 0xD0000008 T_stack = 0xD000101C" using s(3,4) by (simp_all add: demo_task_def)
  with sleeper_alone_loses_frame [OF s(1,2)] show ?thesis by blast
qed

theorem task_create_elf_links_witness:
  "\<exists>s t u :: sched. \<exists>x vs. vmm_init demo_sched = Inr s \<and> heap_init s = Inr t \<and>
    task_create_elf 0x08048000 0xB0001000 0 (sched_init t) = Inr (0, u) \<and> sched_ok u vs [x] \<and> tword u x T_pid = 1"
proof -
  obtain s t where s: "vmm_init demo_sched = Inr s" "heap_init s = Inr t" "sched_ok (sched_init t) [(65536, True)] []"
    using demo_sched_ready by blast
  have c: "cut_first (unat (block_needed 36)) [(65536, True)] = Some (0, [(48, False), (65488, True)])"
    "cut_first (unat (block_needed 4096)) [(48, False), (65488, True)] = Some (48, [(48, False), (4104, False), (61384, True)])"
    by (simp_all add: task_sizes cut_tile_def)
  obtain x p u where "task_create_elf 0x08048000 0xB0001000 0 (sched_init t) = Inr (0, u)"
    "sched_ok u [(48, False), (4104, False), (61384, True)] (link_in x [])"
    "\<forall>f. f \<noteq> T_next \<longrightarrow> tword u x f = new_task (frame_of p) (p + STACK_SIZE) (next_pid (sched_init t)) 0 0 f"
    using task_create_elf_links [OF s(3) c, of 0 "0x08048000" "0xB0001000"] by blast
  moreover from this(3) have "tword u x T_pid = 1" by (simp add: new_task_def sched_init_def)
  ultimately show ?thesis using s(1,2) unfolding link_in_def by auto
qed

lemma demo_reapable:
  fixes s :: sched
  assumes "tword s z = demo_task nx p st"
  shows "reapable s demo_tiles [0xD0000008, 0xD0000038] z"
  using assms demo_blocks(1) by (simp add: reapable_def demo_task_def STACK_SIZE_def)

theorem sched_wait_reaps_witness:
  "\<exists>s t :: sched. \<exists>ws. sched_wait s = Inr (7, t) \<and> sched_ok t ws [0xD0000008] \<and> live ws = {(3489660936, 40)}"
proof -
  obtain s :: sched where s: "sched_ok s demo_tiles [0xD0000008, 0xD0000038]" "current_task s = 0xD0000008" "heap_ready s demo_tiles"
    "tword s 0xD0000008 = demo_task 0xD0000038 0 TASK_RUNNING" "tword s 0xD0000038 = demo_task 0xD0000008 0xD0000008 TASK_ZOMBIE"
    using demo_pair [of 0 TASK_RUNNING "0xD0000008" TASK_ZOMBIE] by blast
  have f: "find (zombie_child s) [0xD0000008, 0xD0000038] = Some 0xD0000038"
    using s(2,4,5) by (simp add: zombie_child_def demo_task_def TASK_ZOMBIE_def TASK_RUNNING_def)
  have r: "\<forall>z\<in>set [0xD0000008, 0xD0000038]. zombie_child s z \<longrightarrow> reapable s demo_tiles [0xD0000008, 0xD0000038] z"
    using demo_reapable s(4,5) by auto
  have b: "owned_blocks s 0xD0000038 = {3489660984, 3489661032}" using s(5) by (simp add: owned_blocks_def demo_task_def STACK_SIZE_def insert_commute)
  have "{x \<in> live demo_tiles. fst x \<notin> {3489660984, 3489661032}} = {(3489660936, 40)}" unfolding demo_blocks(1) by auto
  with sched_wait_reaps [OF s(1) _ _ r ready_kernel [OF s(3)]] f s(2,4,5) b show ?thesis
    by (auto simp: demo_task_def TASK_ZOMBIE_def TASK_RUNNING_def)
qed

text \<open>Three running tasks, the first one current, whose parent is the last; a new address space for the
  first one.\<close>

definition demo_tiles3 :: "tile list" where
  "demo_tiles3 = [(48, False), (48, False), (48, False), (4104, False), (61288, True)]"

lemma demo_blocks3:
  "live demo_tiles3 = {(3489660936, 40), (3489660984, 40), (3489661032, 40), (3489661080, 4096)}"
  "task_block demo_tiles3 0xD0000008" "task_block demo_tiles3 0xD0000038" "task_block demo_tiles3 0xD0000068"
proof -
  show "live demo_tiles3 = {(3489660936, 40), (3489660984, 40), (3489661032, 40), (3489661080, 4096)}"
    by (auto simp: demo_tiles3_def live_def heap_base_values(1))
  then show "task_block demo_tiles3 0xD0000008" "task_block demo_tiles3 0xD0000038" "task_block demo_tiles3 0xD0000068"
    by (auto simp: task_block_def)
qed

lemma demo_tiles3_ready: "\<exists>s :: sched. heap_ready s demo_tiles3 \<and> pmm_pool s \<noteq> {}"
proof -
  obtain s :: sched where s: "heap_ready s [(65536, True)]" "221 \<le> card (pmm_pool s)" using demo_sched_ready by blast
  obtain a :: sched where a: "heap_ready a [(48, False), (65488, True)]" "heap_only s a"
    using ready_fit [OF s(1), of 36] by (auto simp: task_sizes cut_tile_def)
  obtain b :: sched where b: "heap_ready b [(48, False), (48, False), (65440, True)]" "heap_only a b"
    using ready_fit [OF a(1), of 36] by (auto simp: task_sizes cut_tile_def)
  obtain c :: sched where c: "heap_ready c [(48, False), (48, False), (48, False), (65392, True)]" "heap_only b c"
    using ready_fit [OF b(1), of 36] by (auto simp: task_sizes cut_tile_def)
  obtain d :: sched where d: "heap_ready d demo_tiles3" "heap_only c d"
    using ready_fit [OF c(1), of 4096] by (auto simp: task_sizes cut_tile_def demo_tiles3_def)
  have "heap_only s d" by (rule heap_only_trans [OF a(2) heap_only_trans [OF b(2) heap_only_trans [OF c(2) d(2)]]])
  then show ?thesis using s(2) d(1) heap_only_vmm(6) [of s d] by auto
qed

definition demo_exit :: "u32 \<Rightarrow> task_field \<Rightarrow> u32" where
  "demo_exit nx = (demo_task nx 0xD0000068 TASK_RUNNING)(T_stack_top := 0xD0001098)"

lemma demo_three:
  "\<exists>s :: sched. heap_ready s demo_tiles3 \<and> sched_ok s demo_tiles3 [0xD0000008, 0xD0000038, 0xD0000068] \<and>
    current_task s = 0xD0000008 \<and> pmm_pool s \<noteq> {} \<and> tword s 0xD0000008 = demo_exit 0xD0000038 \<and>
    tword s 0xD0000038 = demo_exit 0xD0000068 \<and> tword s 0xD0000068 = demo_exit 0xD0000008"
proof -
  let ?z = "0xD0000008 :: u32" and ?y = "0xD0000038 :: u32" and ?p = "0xD0000068 :: u32"
  obtain d :: sched where d: "heap_ready d demo_tiles3" "pmm_pool d \<noteq> {}" using demo_tiles3_ready by blast
  note B = demo_blocks3(2-4)
  obtain u :: sched where u: "heap_ready u demo_tiles3" "heap_only d u" "\<forall>f. tword u ?z f = demo_exit ?y f"
    using ready_task [OF d(1) B(1)] by blast
  obtain v :: sched where v: "heap_ready v demo_tiles3" "heap_only u v" "\<forall>f. tword v ?y f = demo_exit ?p f"
    "\<forall>f. tword v ?z f = tword u ?z f" using ready_task [OF u(1) B(2), of "demo_exit ?p"] B(1) by fastforce
  obtain w :: sched where w: "heap_ready w demo_tiles3" "heap_only v w" "\<forall>f. tword w ?p f = demo_exit ?z f"
    "\<forall>f. tword w ?z f = tword v ?z f" "\<forall>f. tword w ?y f = tword v ?y f"
    using ready_task [OF v(1) B(3), of "demo_exit ?z"] B(1,2) by fastforce
  have t: "tword w ?z = demo_exit ?y" "tword w ?y = demo_exit ?p" "tword w ?p = demo_exit ?z"
    using u(3) v(3,4) w(3-5) by (simp_all add: fun_eq_iff)
  let ?t = "w\<lparr>task_list := ?z, current_task := ?z\<rparr>"
  have "sched_ok ?t demo_tiles3 [?z, ?y, ?p]"
    using ready_rep [OF w(1)] B t by (simp add: sched_ok_def ring_def demo_exit_def demo_task_def)
  moreover have "pmm_pool w = pmm_pool d" using heap_only_vmm(6) u(2) v(2) w(2) by metis
  then have "pmm_pool ?t \<noteq> {}" using d(2) pmm_same(1) [of ?t w] by simp
  ultimately show ?thesis using w(1) t by (intro exI [of _ ?t]) (simp add: ready_view)
qed

lemma given_space:
  fixes s :: "'a sched_scheme"
  assumes r: "heap_ready s ts" and s: "sched_ok s ts R" "z \<in> set R" "\<forall>x\<in>set R. tword s x T_page_dir = 0" and p: "pmm_pool s \<noteq> {}"
  shows "\<exists>D. \<exists>u :: 'a sched_scheme. sched_ok u ts R \<and> current_task u = current_task s \<and>
    (\<forall>x\<in>set R. \<forall>f. tword u x f = (if x = z \<and> f = T_page_dir then D else tword s x f)) \<and>
    D \<noteq> 0 \<and> space_ok u D \<and> D \<noteq> kernel_page_directory u \<and> D \<notin> pmm_pool u \<and> owned_frames u z = {D} \<and>
    kernel_page_directory u \<in> pmm_managed u \<and> heap_in u (kernel_page_directory u) \<and> direct u \<and>
    (\<forall>x\<in>set R. direct (switched x u))"
proof -
  let ?K = "kernel_page_directory s"
  note k = ready_kernel [OF r] and h = ready_rep [OF r]
  have K: "pmm_inv s" "space_ok s ?K" "cur s = ?K" and hf: "heap_frames s \<inter> pmm_pool s = {}"
    using r by (auto simp: heap_ready_def kernel_space_def vm_ok_def)
  have kt: "tables (phys_mem s) ?K \<inter> pmm_pool s = {}" using K(2) by (auto simp: space_ok_def)
  have c: "calm s" using K k(1) kt by (simp add: calm_def)
  from new_space [OF c K(2) k(3) h hf p] obtain D t where
    t: "D \<noteq> 0" "D \<in> pmm_pool s" "spent s t {}" "mem_only s t" "heap_in t D" "space_ok t D" "private_frames t D 1024 = {}"
      "walk (phys_mem t) D = walk (phys_mem s) ?K" by blast
  have su: "spaces_used s R" using s(3) by (simp add: spaces_used_def)
  note S = sched_spent [OF s(1) c t(3,4) hf su] and F = spentD [OF t(3)]
  have hK: "heap_in t ?K" by (rule heap_spent(5) [OF h c t(3,4) hf k(3) kt])
  note T = sched_okD [OF S(1)]
  let ?u = "tput z T_page_dir D t"
  have b: "task_block ts z" by (rule T(3) [OF s(2)])
  have o: "heap_only t ?u" by (rule heap_only_tput [OF T(1) b])
  note V = heap_only_vmm [OF o]
  have w: "tword ?u x f = (if x = z \<and> f = T_page_dir then D else tword s x f)" if "x \<in> set R" for x f
    using tm.put_val [OF T(1) b T(3) [OF that]] S(2) by auto
  have i: "heap_in ?u D" "heap_in ?u ?K" using heap_in_tput [OF T(1) b] t(5) hK by auto
  have pd: "tword t x T_page_dir = 0" if "x \<in> set R" for x using that s(3) S(2) by simp
  have "sched_ok ?u ts R"
    using S(1) tm.put_ok [OF T(1) b] tasks_only_fields(1,2) [OF tasks_only_tput [OF T(1) b]] w i S(2) s(3)
      ring_cong [of R "\<lambda>x. tword ?u x T_next" "\<lambda>x. tword t x T_next"]
    unfolding sched_ok_def by auto
  moreover have dir: "direct ?u" using heap_only_direct(1) [OF o] T(1) F(1) by (simp add: heap_rep_def tiled_def calm_def)
  moreover have "space_ok ?u D" using heap_only_tables(4) [OF o heap_in_tables [OF t(5)]] t(6) by simp
  moreover have "owned_frames ?u z = {D}"
    using w [OF s(2)] private_frames_heap [OF o t(5)] hK t(1,7) F(4) by (simp add: owned_frames_def Let_def)
  moreover have "D \<noteq> ?K" using t(2) space_okD(2) [OF K(2)] by auto
  moreover have "direct (switched x ?u)" if x: "x \<in> set R" for x
  proof -
    have ct: "tables (phys_mem s) (cur s) \<inter> pmm_pool s = {}" using kt K(3) by simp
    have "walk (phys_mem t) (cur t) = walk (phys_mem t) D"
      using tables_spent(1) [OF t(3) masked_aligned ct] F(5) t(8) K(3) by simp
    moreover have "tables (phys_mem t) (cur t) \<inter> heap_frames t = {}"
      using T(1) by (auto simp: heap_rep_def tiled_def heap_mapped_def heap_frames_def)
    ultimately have W: "walk (phys_mem ?u) (cur ?u) = walk (phys_mem ?u) D"
      using heap_only_tables(2) [OF o masked_aligned] heap_only_tables(2) [OF o heap_in_tables [OF t(5)]] V(1) by simp
    have "aligned_page D" using i(1) by (simp add: heap_in_def)
    then have D: "D AND 0xFFFFF000 = D" using base_plus_high [of 12 D 0] by (simp add: page_mask)
    have "cr3 (switched x ?u) = (if x = z then D else cr3 ?u)" using w [OF x, of T_page_dir] s(3) x t(1) by auto
    then have "walk (phys_mem ?u) (cr3 (switched x ?u) AND 0xFFFFF000) = walk (phys_mem ?u) (cur ?u)" using D W by simp
    then show ?thesis using dir by (simp only: direct_def translate_def switched_view)
  qed
  ultimately show ?thesis
    using t(1,2) w i(2) V k(2) F(2-4) S(5) space_okD(2) [OF t(6)]
    by (intro exI [of _ D] exI [of _ ?u]) (simp add: tput_fields)
qed

theorem exit_code_reaches_parent_witness:
  "\<exists>s t u v :: sched. \<exists>D. sched_exit_with 0xD0000FFC 42 [] s = Inr (Resumes 0xD000101C, t) \<and> current_task t = 0xD0000038 \<and>
    (\<exists>rs cs. timer_run rs t = Inr (cs, u)) \<and> current_task u = 0xD0000068 \<and> sched_wait u = Inr (42, v) \<and>
    D \<notin> pmm_pool s \<and> D \<in> pmm_pool v"
proof -
  let ?R = "[0xD0000008, 0xD0000038, 0xD0000068] :: u32 list"
  obtain a :: sched where a: "heap_ready a demo_tiles3" "sched_ok a demo_tiles3 ?R" "current_task a = 0xD0000008" "pmm_pool a \<noteq> {}"
    "tword a 0xD0000008 = demo_exit 0xD0000038" "tword a 0xD0000038 = demo_exit 0xD0000068" "tword a 0xD0000068 = demo_exit 0xD0000008"
    using demo_three by blast
  have "\<forall>x\<in>set ?R. tword a x T_page_dir = 0" using a(5-7) by (simp add: demo_exit_def demo_task_def)
  from given_space [OF a(1,2) _ this a(4), where z = "0xD0000008"] a(3) obtain D and s :: sched where
    s: "sched_ok s demo_tiles3 ?R" "current_task s = 0xD0000008"
      "\<forall>x\<in>set ?R. \<forall>f. tword s x f = (if x = 0xD0000008 \<and> f = T_page_dir then D else tword a x f)"
      "D \<noteq> 0" "space_ok s D" "D \<noteq> kernel_page_directory s" "D \<notin> pmm_pool s" "owned_frames s 0xD0000008 = {D}"
      "kernel_page_directory s \<in> pmm_managed s" "heap_in s (kernel_page_directory s)" "direct s" "\<forall>x\<in>set ?R. direct (switched x s)"
    by auto
  have w: "tword s 0xD0000008 f = (if f = T_page_dir then D else demo_exit 0xD0000038 f)"
    "tword s 0xD0000038 f = demo_exit 0xD0000068 f" "tword s 0xD0000068 f = demo_exit 0xD0000008 f" for f
    using s(3) a(5-7) by auto
  have r: "reapable s demo_tiles3 ?R 0xD0000008"
    using w(1) s(5,6) demo_blocks3(1) by (simp add: reapable_def demo_exit_def demo_task_def STACK_SIZE_def)
  have ru: "running s x" if "x \<in> set ?R" for x
    using w that by (auto simp: running_def demo_exit_def demo_task_def)
  have f: "find (running s) (after 0xD0000008 ?R) = Some 0xD0000038" using ru by (simp add: after_def)
  have par: "tword s 0xD0000008 T_parent = 0xD0000068" "tword s 0xD0000038 T_stack = 0xD000101C"
    using w by (simp_all add: demo_exit_def demo_task_def)
  have only: "\<forall>x\<in>set ?R. tword s x T_parent = 0xD0000068 \<longrightarrow> x \<noteq> 0xD0000008 \<longrightarrow> tword s x T_state \<noteq> TASK_ZOMBIE"
    using ru by (auto simp: running_def TASK_RUNNING_def TASK_ZOMBIE_def)
  from exit_code_reaches_parent [OF s(1,2) _ par(1) _ _ ru only r s(9-12), of "0xD0000FFC" 42 "[]"] f par(2) obtain t where
    t: "sched_exit_with 0xD0000FFC 42 [] s = Inr (Resumes 0xD000101C, t)" "current_task t = 0xD0000038"
    and turn: "\<And>rs. length ?R \<le> length rs \<Longrightarrow> \<exists>k \<le> length ?R. \<exists>cs u. timer_run (take k rs) t = Inr (cs, u) \<and> current_task u = 0xD0000068"
    and wt: "\<And>rs cs u. timer_run rs t = Inr (cs, u) \<Longrightarrow> current_task u = 0xD0000068 \<Longrightarrow>
       \<exists>v. sched_wait u = Inr (42, v) \<and> pmm_pool v = pmm_pool s \<union> owned_frames s 0xD0000008" by simp blast
  obtain k cs u where u: "timer_run (take k [0xD0000FFC, 0xD0000FFC, 0xD0000FFC]) t = Inr (cs, u)" "current_task u = 0xD0000068"
    using turn [of "[0xD0000FFC, 0xD0000FFC, 0xD0000FFC]"] by auto
  from wt [OF u] s(8) obtain v where "sched_wait u = Inr (42, v)" "D \<in> pmm_pool v" by auto
  then show ?thesis using t u s(7) by blast
qed

end
