(* ===== verification/Sched_Fork.thy ===== *)
theory Sched_Fork
  imports Sched_Props
begin

text \<open>
  Forking, \<^verbatim>\<open>task_create_fork\<close> of src/src/kernel/sched.c. It brings three providers together: the heap gives
  the two blocks of the child, the virtual memory manager clones the address space of the parent, and the
  new task is linked into the ring.
\<close>

section \<open>Copying a register frame\<close>

lemma copy_frame:
  fixes s :: "'a sched_scheme"
  assumes h: "heap_rep s ts" and p: "stack_block ts p" and q: "stack_block ts q" "q \<noteq> p"
  shows "\<exists>t. copy_regs (frame_of p) (frame_of q) s = Inr t \<and> tasks_only ts s t \<and>
    (\<forall>f. rword t (frame_of p) f = rword s (frame_of q) f) \<and> (\<forall>x f. task_block ts x \<longrightarrow> x \<noteq> p \<longrightarrow> tword t x f = tword s x f)"
proof -
  let ?P = "\<lambda>(i :: u32) (t :: 'a sched_scheme). i \<le> 19 \<and> tasks_only ts s t \<and>
    (\<forall>f. unat (reg_off f) < 4 * unat i \<longrightarrow> rword t (frame_of p) f = rword s (frame_of q) f) \<and>
    (\<forall>j < 19. heap_word t (frame_of q + 4 * j) = heap_word s (frame_of q + 4 * j)) \<and>
    (\<forall>x f. task_block ts x \<longrightarrow> x \<noteq> p \<longrightarrow> tword t x f = tword s x f)"
  let ?body = "\<lambda>i s. kbind (vload32 s (frame_of q + 4 * i)) (\<lambda>w. vstore32 (frame_of p + 4 * i) w s)"
  have off: "unat (4 * i) + 4 \<le> 76" "4 dvd unat (4 * i)" "unat (4 * i) = 4 * unat i" if "i < 19" for i :: u32
  proof -
    have "unat i < 19" using that by (simp add: word_less_nat_alt)
    moreover from this show "unat (4 * i) = 4 * unat i" by (simp add: unat_word_ariths)
    ultimately show "unat (4 * i) + 4 \<le> 76" "4 dvd unat (4 * i)" by simp_all
  qed
  have "\<exists>t. for_err 0 19 ?body s = Inr t \<and> ?P 19 t"
  proof (rule for_err_invariant [where P = ?P])
    fix i :: u32 and t :: "'a sched_scheme"
    assume i: "i < 19" and P: "?P i t"
    note c = off [OF i]
    have ht: "heap_rep t ts" using P by (simp add: tasks_only_def)
    note F = frame_store [OF ht p c(1,2)] and Q = frame_store(1) [OF ht q(1) c(1,2)]
    let ?w = "heap_word t (frame_of q + 4 * i)"
    let ?t = "heap_put (frame_of p + 4 * i) ?w t"
    have a: "frame_of q + 4 * j \<noteq> frame_of p + 4 * i" if "j < 19" for j
      using frame_words_apart [OF ht q(1) off(1,2) [OF that] p c(1,2)] q(2) by blast
    have z: "rword ?t (frame_of p) f = rword s (frame_of q) f" if f: "unat (reg_off f) < 4 * unat (i + 1)" for f
    proof (cases "reg_off f = 4 * i")
      case True
      then show ?thesis using F(4) P i by (simp add: rword_def)
    next
      case False
      then have "unat (reg_off f) \<noteq> 4 * unat i" using c(3) by (auto simp: word_unat_eq_iff)
      moreover obtain a where a: "unat (reg_off f) = 4 * a" using reg_off_index(2) [of f] by blast
      ultimately have "unat (reg_off f) < 4 * unat i" using f unat_inc [OF i] unfolding a by simp
      then show ?thesis using P False F(4) by (simp add: rword_def)
    qed
    have "tasks_only ts s ?t" using P tasks_only_trans F(3) by blast
    moreover have "\<forall>x f. task_block ts x \<longrightarrow> x \<noteq> p \<longrightarrow> tword ?t x f = tword s x f" using P F(5) by simp
    moreover have "\<forall>j < 19. heap_word ?t (frame_of q + 4 * j) = heap_word s (frame_of q + 4 * j)" using P a F(4) by simp
    moreover have "?body i t = Inr ?t" unfolding Q kbind_simps by (rule F(2))
    ultimately show "\<exists>t'. ?body i t = Inr t' \<and> ?P (i + 1) t'" using z inc_le_iff [OF i] by blast
  qed (simp_all add: tasks_only_refl [OF h])
  then obtain t where t: "for_err 0 19 ?body s = Inr t" "?P 19 t" by blast
  have "unat (reg_off f) < 4 * unat (19 :: u32)" for f using reg_off_less(1) [of f] by simp
  moreover have "copy_regs (frame_of p) (frame_of q) s = Inr t" using t(1) by (simp add: copy_regs_def sizeof_regs_def)
  ultimately show ?thesis using t(2) by blast
qed

text \<open>The child's frame: that of the parent, but the call returns 0.\<close>

definition child_regs :: "(reg_field \<Rightarrow> u32) \<Rightarrow> reg_field \<Rightarrow> u32" where
  "child_regs r = r(R_eax := 0)"

lemma fork_frame:
  fixes s :: "'a sched_scheme"
  assumes h: "heap_rep s ts" and p: "stack_block ts p" and q: "stack_block ts q" "q \<noteq> p"
  shows "\<exists>t. kbind (copy_regs (frame_of p) (frame_of q) s) (rset (frame_of p) R_eax 0) = Inr t \<and> tasks_only ts s t \<and>
    rword t (frame_of p) = child_regs (rword s (frame_of q)) \<and> (\<forall>x f. task_block ts x \<longrightarrow> x \<noteq> p \<longrightarrow> tword t x f = tword s x f)"
proof -
  from copy_frame [OF assms] obtain t where
    t: "copy_regs (frame_of p) (frame_of q) s = Inr t" "tasks_only ts s t" "\<forall>f. rword t (frame_of p) f = rword s (frame_of q) f"
      "\<forall>x f. task_block ts x \<longrightarrow> x \<noteq> p \<longrightarrow> tword t x f = tword s x f" by blast
  have ht: "heap_rep t ts" and fr: "first_frame ts (frame_of p)" using t(2) p by (auto simp: tasks_only_def first_frame_def)
  let ?u = "rput (frame_of p) R_eax 0 t"
  have e: "fold (\<lambda>(f, v). rput (frame_of p) f v) [(R_eax, 0)] t = ?u" by simp
  note E = rputs_effect [OF ht p, where fvs = "[(R_eax, 0)]", unfolded e]
  have "rword ?u (frame_of p) = child_regs (rword s (frame_of q))"
    using t(3) rm.put_val [OF ht fr fr, of R_eax 0] by (simp add: child_regs_def fun_eq_iff)
  moreover have "tword ?u x f = tword s x f" if "task_block ts x" "x \<noteq> p" for x f using E(2) [OF that] t(4) that by simp
  moreover have "tasks_only ts s ?u" by (rule tasks_only_trans [OF t(2) E(1)])
  moreover have "kbind (copy_regs (frame_of p) (frame_of q) s) (rset (frame_of p) R_eax 0) = Inr ?u"
    unfolding t(1) kbind_simps by (rule rm.sto_put [OF ht fr])
  ultimately show ?thesis by blast
qed

section \<open>The address space of the parent\<close>

text \<open>What the clone of the parent's space needs: \<open>pd\<close> is a space in use that shares the heap with the
  kernel and has none of its frames, and there are enough free frames.\<close>

definition forkable :: "'a sched_scheme \<Rightarrow> u32 list \<Rightarrow> u32 \<Rightarrow> bool" where
  "forkable s R pd \<longleftrightarrow>
    (let m = phys_mem s; K = kernel_page_directory s
     in calm s \<and> space_ok s K \<and> heap_in s K \<and> heap_in s pd \<and> cloneable s pd \<and> clone_cost m K pd 1024 < card (pmm_pool s) \<and>
        heap_frames s \<inter> pmm_pool s = {} \<and> private_frames s pd 1024 \<inter> heap_frames s = {} \<and> spaces_used s R \<and>
        (\<forall>v. in_heap s v \<longrightarrow> \<not> own_entry m K pd (pd_index v)))"

lemma forkableD:
  assumes "forkable s R pd"
  shows "calm s" "space_ok s (kernel_page_directory s)" "heap_in s (kernel_page_directory s)" "heap_in s pd" "cloneable s pd"
    "clone_cost (phys_mem s) (kernel_page_directory s) pd 1024 < card (pmm_pool s)" "heap_frames s \<inter> pmm_pool s = {}"
    "private_frames s pd 1024 \<inter> heap_frames s = {}" "spaces_used s R"
    "in_heap s v \<Longrightarrow> \<not> own_entry (phys_mem s) (kernel_page_directory s) pd (pd_index v)"
  using assms by (auto simp: forkable_def Let_def)

lemma private_page:
  assumes "own_entry (phys_mem s) (kernel_page_directory s) pd i" "i < 1024"
  shows "table_of (phys_mem s) pd i \<in> private_frames s pd 1024"
    "j < 1024 \<Longrightarrow> present (phys_mem s) (table_of (phys_mem s) pd i) j \<Longrightarrow>
      table_of (phys_mem s) (table_of (phys_mem s) pd i) j \<in> private_frames s pd 1024"
  using assms by (auto simp: own_entry_def private_frames_def mapped_frames_def)

text \<open>A change inside the heap does not show in the space.\<close>

lemma forkable_words:
  fixes s t :: "'a sched_scheme"
  assumes s: "forkable s R pd" and o: "heap_only s t"
  defines "K \<equiv> kernel_page_directory s" and "m \<equiv> phys_mem s" and "m' \<equiv> phys_mem t"
  shows "i < 1024 \<Longrightarrow> own_entry m' K pd i = own_entry m K pd i" "i < 1024 \<Longrightarrow> table_of m' pd i = table_of m pd i"
    "i < 1024 \<Longrightarrow> own_entry m K pd i \<Longrightarrow> j < 1024 \<Longrightarrow> mword m' (table_of m pd i) j = mword m (table_of m pd i) j"
    "i < 1024 \<Longrightarrow> own_entry m K pd i \<Longrightarrow> j < 1024 \<Longrightarrow> present m (table_of m pd i) j \<Longrightarrow> k < 1024 \<Longrightarrow>
      mword m' (table_of m (table_of m pd i) j) k = mword m (table_of m (table_of m pd i) j) k"
    "walk m' pd = walk m pd" "walk m' K = walk m K"
proof -
  note F = forkableD [OF s, folded K_def m_def]
  note P = heap_only_tables [OF o heap_in_tables [OF F(4)], folded m_def m'_def]
    and Q = heap_only_tables [OF o heap_in_tables [OF F(3)], folded K_def m_def m'_def]
  have w: "mword m' g j = mword m g j" if "aligned_page g" "j < 1024" "g \<notin> heap_frames s" for g j
    using o that by (simp add: heap_only_def m_def m'_def)
  show "walk m' pd = walk m pd" "walk m' K = walk m K" by (rule P Q)+
  have d: "mword m' pd i = mword m pd i" "mword m' K i = mword m K i" if "i < 1024" for i
    using P(1) [OF _ that] Q(1) [OF _ that] by (simp_all add: in_tables m_def m'_def)
  show "own_entry m' K pd i = own_entry m K pd i" "table_of m' pd i = table_of m pd i" if "i < 1024" for i
    using d [OF that] by (simp_all add: own_entry_def present_def table_of_def)
  show "mword m' (table_of m pd i) j = mword m (table_of m pd i) j" if "i < 1024" "own_entry m K pd i" "j < 1024" for i j
    using w [OF _ that(3), of "table_of m pd i"] F(8) private_page(1) [of s pd i] that by (auto simp: table_of_def K_def m_def)
  show "mword m' (table_of m (table_of m pd i) j) k = mword m (table_of m (table_of m pd i) j) k"
    if "i < 1024" "own_entry m K pd i" "j < 1024" "present m (table_of m pd i) j" "k < 1024" for i j k
  proof (rule w [OF _ that(5)])
    show "aligned_page (table_of m (table_of m pd i) j)" by (simp add: table_of_def)
    show "table_of m (table_of m pd i) j \<notin> heap_frames s"
      using F(8) private_page(2) [of s pd i j] that unfolding K_def m_def by blast
  qed
qed

lemma forkable_heap:
  fixes s t :: "'a sched_scheme"
  assumes s: "forkable s R pd" "heap_rep s ts" and o: "heap_only s t"
    and R: "\<And>x. x \<in> set R \<Longrightarrow> tword t x T_page_dir = tword s x T_page_dir" "sched_ok s ts R"
  shows "forkable t R pd"
proof -
  let ?K = "kernel_page_directory s" and ?m = "phys_mem s" and ?m' = "phys_mem t"
  note F = forkableD [OF s(1)] and V = heap_only_vmm [OF o] and W = forkable_words [OF s(1) o]
  have m: "heap_mapped s" using s(2) by (simp add: heap_rep_def tiled_def)
  have "tables ?m (cur s) \<inter> heap_frames s = {}" using m by (auto simp: heap_mapped_def heap_frames_def)
  note C = heap_only_tables [OF o masked_aligned this]
  have e: "present ?m' (table_of ?m pd i) j = present ?m (table_of ?m pd i) j"
    "table_of ?m' (table_of ?m pd i) j = table_of ?m (table_of ?m pd i) j"
    if "i < 1024" "own_entry ?m ?K pd i" "j < 1024" for i j
    using W(3) [OF that] by (simp_all add: present_def table_of_def)
  have "calm t" using F(1) V heap_only_direct(1) [OF o m] C(3) by (auto simp: calm_def)
  moreover have "space_ok t ?K" using heap_only_tables(4) [OF o heap_in_tables [OF F(3)]] F(2) by simp
  moreover have "heap_in t ?K" "heap_in t pd" using heap_in_only [OF o m] F(3,4) by auto
  moreover have "cloneable t pd" using F(5) W(1,2) e unfolding cloneable_def Let_def V by auto
  moreover have "clone_cost ?m' ?K pd 1024 < card (pmm_pool t)"
    using F(6) V clone_cost_cong [of ?m' ?K pd ?m] W(1,2) e by auto
  moreover have "heap_frames t = heap_frames s" using o by (simp add: heap_only_def)
  moreover have "private_frames t pd 1024 = private_frames s pd 1024" by (rule private_frames_heap [OF o F(4,3)])
  moreover have "spaces_used t R"
  proof -
    have "tables ?m' (tword s x T_page_dir) = tables ?m (tword s x T_page_dir)" if "x \<in> set R" "tword s x T_page_dir \<noteq> 0" for x
      using heap_only_tables(3) [OF o heap_in_tables] sched_okD(8) [OF R(2) that] by blast
    then show ?thesis using F(9) R(1) V unfolding spaces_used_def by auto
  qed
  moreover have "\<not> own_entry ?m' ?K pd (pd_index v)" if "in_heap t v" for v
    using F(10) that W(1) [OF index_bounds(1)] heap_only_fields(4) [OF o] by simp
  ultimately show ?thesis using F(7,8) unfolding forkable_def Let_def V by auto
qed

lemma space_cloned_cong:
  assumes c: "space_cloned m1 m1' K pd D X"
    and o: "\<And>i. i < 1024 \<Longrightarrow> own_entry m1 K pd i = own_entry m K pd i" and w: "walk m1 pd = walk m pd" "walk m1 K = walk m K"
    and d: "walk m' D = walk m1' D" and x: "\<And>f k. f \<in> X \<Longrightarrow> k < 1024 \<Longrightarrow> mword m' f k = mword m1' f k"
    and p: "\<And>v a k. own_entry m K pd (pd_index v) \<Longrightarrow> walk m pd v = Some a \<Longrightarrow> k < 1024 \<Longrightarrow>
      mword m1 (a AND 0xFFFFF000) k = mword m (a AND 0xFFFFF000) k"
  shows "space_cloned m m' K pd D X"
  unfolding space_cloned_def
proof
  fix v
  have C: "if own_entry m K pd (pd_index v)
      then case walk m pd v of None \<Rightarrow> walk m' D v = None
        | Some a \<Rightarrow> (\<exists>f \<in> X. walk m' D v = Some (f + (v AND 0xFFF)) \<and>
            (\<forall>k < 1024. mword m1' f k = mword m1 (a AND 0xFFFFF000) k))
      else walk m' D v = walk m K v"
    using spec [OF c [unfolded space_cloned_def], of v] unfolding o [OF index_bounds(1)] w d .
  show "if own_entry m K pd (pd_index v)
      then case walk m pd v of None \<Rightarrow> walk m' D v = None
        | Some a \<Rightarrow> (\<exists>f \<in> X. walk m' D v = Some (f + (v AND 0xFFF)) \<and>
            (\<forall>k < 1024. mword m' f k = mword m (a AND 0xFFFFF000) k))
      else walk m' D v = walk m K v"
    using C x p [of v] by (cases "walk m pd v") (auto split: if_splits)
qed

section \<open>Cloning it\<close>

lemma cloned_tables:
  assumes "\<And>i. i < 1024 \<Longrightarrow> own_entry m K pd i \<Longrightarrow> entry_cloned m m' pd D X i"
    and "\<And>i. i < 1024 \<Longrightarrow> \<not> own_entry m K pd i \<Longrightarrow> mword m' D i = (if present m K i then mword m K i else 0)"
  shows "tables m' D \<subseteq> insert D (X \<union> tables m K)"
proof
  fix g assume "g \<in> tables m' D"
  then consider "g = D" | i where "i < 1024" "present m' D i" "g = table_of m' D i" by (auto simp: in_tables)
  then show "g \<in> insert D (X \<union> tables m K)"
  proof cases
    case 2
    show ?thesis
    proof (cases "own_entry m K pd i")
      case True
      then show ?thesis using assms(1) [OF 2(1)] 2(3) by (simp add: entry_cloned_def)
    next
      case False
      then have "present m K i" "mword m' D i = mword m K i" using assms(2) [OF 2(1)] 2(2) by (auto simp: present_def split: if_splits)
      then show ?thesis using 2(1,3) by (auto simp: in_tables table_of_def)
    qed
  qed simp
qed

lemma fork_space:
  fixes s :: "'a sched_scheme"
  assumes s: "sched_ok s ts R" and f: "forkable s R pd"
  shows "\<exists>D t. vmm_clone_address_space pd s = Inr (D, t) \<and> D \<noteq> 0 \<and> D \<in> pmm_pool s - pmm_pool t \<and> sched_ok t ts R \<and>
    tword t = tword s \<and> rword t = rword s \<and> next_pid t = next_pid s \<and> current_task t = current_task s \<and>
    heap_in t D \<and> heap_frames t = heap_frames s \<and>
    space_cloned (phys_mem s) (phys_mem t) (kernel_page_directory s) pd D (pmm_pool s - pmm_pool t)"
proof -
  let ?K = "kernel_page_directory s" and ?m = "phys_mem s"
  note F = forkableD [OF f]
  from clone_effect [OF F(1,2,5,6)] obtain D t where
    t: "vmm_clone_address_space pd s = Inr (D, t)" "D \<in> pmm_pool s - pmm_pool t" "spent s t {}"
    and own: "\<And>i. i < 1024 \<Longrightarrow> own_entry ?m ?K pd i \<Longrightarrow> entry_cloned ?m (phys_mem t) pd D (pmm_pool s - pmm_pool t) i"
    and rest: "\<And>i. i < 1024 \<Longrightarrow> \<not> own_entry ?m ?K pd i \<Longrightarrow>
      mword (phys_mem t) D i = (if present ?m ?K i then mword ?m ?K i else 0)" by blast
  have k: "mem_only s t" using keptD [OF kept_clone t(1)] by simp
  note S = sched_spent [OF s F(1) t(3) k F(7,9)] and H = heap_spent [OF sched_okD(1) [OF s] F(1) t(3) k F(7)]
  have "mword (phys_mem t) (table_of ?m ?K i) j = mword ?m (table_of ?m ?K i) j" if "i < 1024" "present ?m ?K i" "j < 1024" for i j
    using spent_words(1) [OF t(3) space_okD(4) [OF F(2) that(1,2)] _ that(3)] by simp
  then have cl: "space_cloned ?m (phys_mem t) ?K pd D (pmm_pool s - pmm_pool t)" using own rest by (intro space_clonedI) auto
  have D: "D \<noteq> 0" "aligned_page D" using fra.pool_frames [of s D] F(1) t(2) by (auto simp: calm_def)
  have kp: "tables ?m ?K \<inter> pmm_pool s = {}" using F(2) by (auto simp: space_ok_def)
  then have K: "heap_in t ?K" using H(5) [OF F(3)] by blast
  have "heap_in t D"
    unfolding heap_in_def
  proof (intro conjI allI impI)
    fix v assume v: "in_heap t v"
    then have "\<not> own_entry ?m ?K pd (pd_index v)" using F(10) H(4) by simp
    then have "walk (phys_mem t) D v = walk ?m ?K v" using cl unfolding space_cloned_def by (metis (full_types))
    also have "\<dots> = walk (phys_mem t) ?K v" by (simp only: tables_spent(1) [OF t(3) space_okD(3) [OF F(2)] kp])
    also have "\<dots> = walk (phys_mem t) (cur t) v" using K v by (simp add: heap_in_def)
    finally show "walk (phys_mem t) D v = walk (phys_mem t) (cur t) v" .
    have "heap_frame t v AND 0xFFFFF000 \<in> heap_frames s" using v H(3) by (auto simp: heap_frames_def)
    moreover have "tables (phys_mem t) D \<subseteq> insert D (pmm_pool s \<union> tables ?m ?K)" using cloned_tables [OF own rest] by blast
    ultimately show "heap_frame t v AND 0xFFFFF000 \<notin> tables (phys_mem t) D"
      using F(7) t(2) heap_in_tables(2) [OF F(3)] by blast
  qed (rule D)
  then show ?thesis using t(1,2) D(1) S H(3) cl by blast
qed

section \<open>task_create_fork\<close>

lemma own_page:
  assumes "own_entry (phys_mem s) (kernel_page_directory s) pd (pd_index v)" "walk (phys_mem s) pd v = Some a"
  shows "present (phys_mem s) (table_of (phys_mem s) pd (pd_index v)) (pt_index v)"
    "a AND 0xFFFFF000 = table_of (phys_mem s) (table_of (phys_mem s) pd (pd_index v)) (pt_index v)"
proof -
  let ?f = "table_of (phys_mem s) (table_of (phys_mem s) pd (pd_index v)) (pt_index v)"
  have a: "present (phys_mem s) (table_of (phys_mem s) pd (pd_index v)) (pt_index v) \<and> a = ?f + (v AND 0xFFF)"
    using assms(2) by (simp add: walk_present split: if_splits)
  then show "present (phys_mem s) (table_of (phys_mem s) pd (pd_index v)) (pt_index v)" by simp
  have "aligned_page ?f" by (simp add: table_of_def)
  then show "a AND 0xFFFFF000 = ?f" using frame_plus(1) [of ?f ?f v] a by (simp only:)
qed

lemma frame_in_use:
  assumes "heap_rep s ts" "stack_block ts q"
  shows "in_use ts (frame_of q + reg_off f)"
proof -
  obtain k where k: "(unat q, k) \<in> live ts" "unat (4020 + reg_off f) + 4 \<le> k" "4 dvd unat (4020 + reg_off f)"
    by (rule stack_word [OF assms(2) reg_off_less])
  show ?thesis unfolding frame_of_plus by (rule block_word(3) [OF assms(1) k])
qed

text \<open>The clone is still one after changes to the heap.\<close>

lemma cloned_kept:
  fixes s b g u :: "'a sched_scheme"
  assumes f: "forkable s R pd" and b: "heap_only s b"
    and g: "space_cloned (phys_mem b) (phys_mem g) (kernel_page_directory b) pd D (pmm_pool b - pmm_pool g)" "heap_in g D"
      "heap_frames g = heap_frames b" and u: "rest_kept g u"
  shows "space_cloned (phys_mem s) (phys_mem u) (kernel_page_directory s) pd D (pmm_pool s - pmm_pool u)"
proof -
  note F = forkableD [OF f] and V = heap_only_vmm [OF b] and W = forkable_words [OF f b]
  have hf: "heap_frames g = heap_frames s" using b g(3) by (simp add: heap_only_def)
  have pu: "pmm_pool u = pmm_pool g" and k: "\<And>h j. aligned_page h \<Longrightarrow> j < 1024 \<Longrightarrow> h \<notin> heap_frames s \<Longrightarrow>
      mword (phys_mem u) h j = mword (phys_mem g) h j" using u hf by (auto simp: rest_kept_def)
  show ?thesis
    unfolding pu
  proof (rule space_cloned_cong [OF g(1) [unfolded V] W(1) W(5,6)])
    have "mword (phys_mem u) h j = mword (phys_mem g) h j" if "h \<in> tables (phys_mem g) D" "j < 1024" for h j
      using k [OF tables_aligned [OF heap_in_tables(1) [OF g(2)] that(1)] that(2)] heap_in_tables(2) [OF g(2)] that(1) hf by blast
    then show "walk (phys_mem u) D = walk (phys_mem g) D" by (auto intro!: ext walk_cong)
    show "mword (phys_mem u) h j = mword (phys_mem g) h j" if "h \<in> pmm_pool s - pmm_pool g" "j < 1024" for h j
      using k [OF _ that(2), of h] fra.pool_frames [of s h] F(1,7) that(1) by (auto simp: calm_def)
    show "mword (phys_mem b) (x AND 0xFFFFF000) j = mword (phys_mem s) (x AND 0xFFFFF000) j"
      if "own_entry (phys_mem s) (kernel_page_directory s) pd (pd_index v)" "walk (phys_mem s) pd v = Some x" "j < 1024" for v x j
      unfolding own_page(2) [OF that(1,2)] by (rule W(4) [OF index_bounds(1) that(1) index_bounds(2) own_page(1) [OF that(1,2)] that(3)])
  qed
qed

lemma fork_effect:
  fixes s :: "'a sched_scheme"
  assumes s: "sched_ok s ts R" and c: "cut_first (unat (block_needed 36)) ts = Some (d, us)"
    "cut_first (unat (block_needed 4096)) us = Some (e, vs)"
    and q: "stack_block ts q" "q \<notin> set R" and cu: "current_task s \<noteq> 0" and pd: "pd = tword s (current_task s) T_page_dir" "pd \<noteq> 0"
    and f: "forkable s R pd"
  shows "\<exists>t p D u. task_create_fork (frame_of q) s = Inr (0, u) \<and> t \<notin> set R \<and> sched_ok u vs (link_in t R) \<and>
    stack_block vs p \<and> live ts \<subseteq> live vs \<and> (\<forall>j. (unat t, j) \<notin> live ts \<and> (unat p, j) \<notin> live ts) \<and> p \<noteq> t \<and>
    next_pid u = next_pid s + 1 \<and> current_task u = current_task s \<and>
    (\<forall>f. f \<noteq> T_next \<longrightarrow> tword u t f = new_task (frame_of p) (p + STACK_SIZE) (next_pid s) (current_task s) D f) \<and>
    rword u (frame_of p) = child_regs (rword s (frame_of q)) \<and>
    (\<forall>x\<in>set R. \<forall>f. f \<noteq> T_next \<longrightarrow> tword u x f = tword s x f) \<and> D \<in> pmm_pool s - pmm_pool u \<and>
    space_cloned (phys_mem s) (phys_mem u) (kernel_page_directory s) pd D (pmm_pool s - pmm_pool u)"
proof -
  let ?K = "kernel_page_directory s" and ?m = "phys_mem s" and ?c = "current_task s"
  from create_blocks [OF s c] obtain t p a b where
    a: "malloc sizeof_task s = Inr (t, a)" "t \<noteq> 0" "malloc STACK_SIZE a = Inr (p, b)" "p \<noteq> 0"
    and b: "sched_ok b vs R" "task_block vs t" "stack_block vs p" "t \<notin> set R" "p \<notin> set R" "p \<noteq> t"
    and l: "live ts \<subseteq> live vs" "\<forall>j. (unat t, j) \<notin> live ts \<and> (unat p, j) \<notin> live ts"
    and w: "next_pid b = next_pid s" "current_task b = ?c" "\<forall>x\<in>set R. \<forall>f. tword b x f = tword s x f" "heap_only s b"
      "\<forall>c. in_use ts c \<longrightarrow> heap_word b c = heap_word s c" by blast
  have qv: "stack_block vs q" "q \<noteq> p" using q l by (auto simp: stack_block_def)
  have qb: "rword b (frame_of q) = rword s (frame_of q)"
    using w(5) frame_in_use [OF sched_okD(1) [OF s] q(1)] by (simp add: rword_def fun_eq_iff)
  have cR: "?c \<in> set R" using sched_okD(7) [OF s cu] .
  have fb: "forkable b R pd" by (rule forkable_heap [OF f sched_okD(1) [OF s] w(4) _ s]) (use w(3) in simp)
  from fork_space [OF b(1) fb] obtain D g where
    g: "vmm_clone_address_space pd b = Inr (D, g)" "D \<noteq> 0" "D \<in> pmm_pool b - pmm_pool g" "sched_ok g vs R"
      "tword g = tword b" "rword g = rword b" "next_pid g = next_pid b" "current_task g = current_task b" "heap_in g D"
      "heap_frames g = heap_frames b"
      "space_cloned (phys_mem b) (phys_mem g) (kernel_page_directory b) pd D (pmm_pool b - pmm_pool g)" by blast
  note G = sched_okD [OF g(4)]
  from fork_frame [OF G(1) b(3) qv] obtain v where
    v: "kbind (copy_regs (frame_of p) (frame_of q) g) (rset (frame_of p) R_eax 0) = Inr v" "tasks_only vs g v"
      "rword v (frame_of p) = child_regs (rword g (frame_of q))" "\<forall>x f. task_block vs x \<longrightarrow> x \<noteq> p \<longrightarrow> tword v x f = tword g x f" by blast
  have vR: "tword v x f = tword g x f" if "x \<in> set R" for x f using v(4) G(3) [OF that] that b(5) by auto
  have sv: "sched_ok v vs R" by (rule sched_ok_update [OF g(4) v(2)]) (rule vR; assumption)+
  have pv: "D = 0 \<or> heap_in v D" using g(9) v(2) by (auto simp: tasks_only_def)
  from setup_task_ok [OF sv b(2,4) pv, of "frame_of p" p ?c] obtain u where
    u: "setup_task t (frame_of p) p ?c D v = Inr (0, u)" "sched_ok u vs (link_in t R)" "next_pid u = next_pid v + 1"
      "current_task u = current_task v" "rest_kept v u"
      "\<forall>f. f \<noteq> T_next \<longrightarrow> tword u t f = new_task (frame_of p) (p + STACK_SIZE) (next_pid v) ?c D f"
      "\<forall>x\<in>set R. \<forall>f. f \<noteq> T_next \<longrightarrow> tword u x f = tword v x f"
      "\<forall>q g. stack_block vs q \<longrightarrow> q \<notin> insert t (set R) \<longrightarrow> rword u (frame_of q) g = rword v (frame_of q) g" by blast
  have nv: "next_pid v = next_pid s" "current_task v = ?c" using tasks_only_fields(2,3) [OF v(2)] g(7,8) w(1,2) by simp_all
  have tg: "tget b ?c T_page_dir = Inr pd" using tm.get_val [OF sched_okD(1,3) [OF b(1)]] cR w(3) pd(1) by simp
  obtain x where x: "copy_regs (frame_of p) (frame_of q) g = Inr x" "rset (frame_of p) R_eax 0 x = Inr v"
    using v(1) by (cases "copy_regs (frame_of p) (frame_of q) g") auto
  have "task_create_fork (frame_of q) s = Inr (0, u)"
    using a w(2) cu tg pd(2) g(1,2) x nv(2) u(1) by (simp add: task_create_fork_def Let_def flip: frame_of_def)
  moreover have "\<forall>x\<in>set R. \<forall>f. f \<noteq> T_next \<longrightarrow> tword u x f = tword s x f" using u(7) vR g(5) w(3) by simp
  moreover have "rword u (frame_of p) = child_regs (rword s (frame_of q))" using u(8) v(3) g(6) qb b(3,5,6) by (simp add: fun_eq_iff)
  moreover have ru: "rest_kept g u" by (rule rest_kept_trans [OF rest_kept_tasks [OF v(2)] u(5)])
  then have "space_cloned ?m (phys_mem u) ?K pd D (pmm_pool s - pmm_pool u)" by (rule cloned_kept [OF f w(4) g(11,9,10)])
  moreover have "D \<in> pmm_pool s - pmm_pool u" using g(3) ru heap_only_vmm(6) [OF w(4)] by (simp add: rest_kept_def)
  ultimately show ?thesis using u(2,3,4,6) b(3,4,6) l nv
    by (intro exI [of _ t] exI [of _ p] exI [of _ D] exI [of _ u]) (simp only: simp_thms)
qed

text \<open>C14: fork. With room in the heap and enough free frames \<open>task_create_fork\<close> returns 0. The child is a new
  task in the ring with the current task as its parent; on its own stack it has a copy of the parent's
  registers in which eax is 0; its address space is a copy of the parent's, page by page, in frames
  that were free. The other tasks keep their fields, but for the link of the head.\<close>

theorem fork_copies_parent:
  fixes s :: "'a sched_scheme"
  assumes "sched_ok s ts R" "cut_first (unat (block_needed 36)) ts = Some (d, us)"
    "cut_first (unat (block_needed 4096)) us = Some (e, vs)"
    "stack_block ts q" "q \<notin> set R" "current_task s \<noteq> 0" "pd = tword s (current_task s) T_page_dir" "pd \<noteq> 0" "forkable s R pd"
  shows "\<exists>t p D u. task_create_fork (frame_of q) s = Inr (0, u) \<and> t \<notin> set R \<and> sched_ok u vs (link_in t R) \<and>
    stack_block vs p \<and> live ts \<subseteq> live vs \<and> (\<forall>j. (unat t, j) \<notin> live ts \<and> (unat p, j) \<notin> live ts) \<and> p \<noteq> t \<and>
    next_pid u = next_pid s + 1 \<and> current_task u = current_task s \<and>
    (\<forall>f. f \<noteq> T_next \<longrightarrow> tword u t f = new_task (frame_of p) (p + STACK_SIZE) (next_pid s) (current_task s) D f) \<and>
    rword u (frame_of p) = child_regs (rword s (frame_of q)) \<and>
    (\<forall>x\<in>set R. \<forall>f. f \<noteq> T_next \<longrightarrow> tword u x f = tword s x f) \<and> D \<in> pmm_pool s - pmm_pool u \<and>
    space_cloned (phys_mem s) (phys_mem u) (kernel_page_directory s) pd D (pmm_pool s - pmm_pool u)"
  by (rule fork_effect [OF assms])

section \<open>Example\<close>

text \<open>A ring of one task that runs in the address space of the kernel.\<close>

lemma demo_parent:
  "\<exists>s :: sched. heap_ready s demo_tiles \<and> sched_ok s demo_tiles [0xD0000008] \<and> current_task s = 0xD0000008 \<and> pmm_pool s \<noteq> {} \<and>
    tword s 0xD0000008 T_page_dir = kernel_page_directory s \<and> kernel_page_directory s \<noteq> 0"
proof -
  let ?c = "0xD0000008 :: u32"
  obtain d :: sched where d: "heap_ready d demo_tiles" "pmm_pool d \<noteq> {}" "kernel_page_directory d \<noteq> 0" using demo_tiles_ready by blast
  obtain v :: sched where v: "heap_ready v demo_tiles" "heap_only d v"
    "\<forall>f. tword v ?c f = ((\<lambda>f. 0)(T_next := ?c, T_page_dir := kernel_page_directory d)) f"
    using ready_task [OF d(1) demo_blocks(2), of "(\<lambda>f. 0)(T_next := ?c, T_page_dir := kernel_page_directory d)"] by blast
  note V = heap_only_vmm [OF v(2)]
  let ?t = "v\<lparr>task_list := ?c, current_task := ?c\<rparr>"
  have "sched_ok ?t demo_tiles [?c]"
    using ready_rep [OF v(1)] demo_blocks(2) v(3) ready_kernel(3) [OF v(1)] V(5) by (simp add: sched_ok_def ring_def)
  moreover have "pmm_pool ?t = pmm_pool d" using V(6) pmm_same(1) [of ?t v] by simp
  ultimately show ?thesis using v V(5) d(2,3) by (intro exI [of _ ?t]) (simp add: ready_view)
qed

lemma ready_forkable:
  fixes s :: "'a sched_scheme"
  assumes r: "heap_ready s ts" and p: "pmm_pool s \<noteq> {}" and R: "\<forall>x\<in>set R. tword s x T_page_dir = kernel_page_directory s"
  shows "forkable s R (kernel_page_directory s)"
proof -
  let ?K = "kernel_page_directory s"
  note k = ready_kernel [OF r]
  have K: "pmm_inv s" "space_ok s ?K" "cur s = ?K" and h: "heap_frames s \<inter> pmm_pool s = {}"
    using r by (auto simp: heap_ready_def kernel_space_def vm_ok_def)
  have t: "tables (phys_mem s) ?K \<inter> pmm_pool s = {}" using K(2) by (auto simp: space_ok_def)
  have o: "\<not> own_entry (phys_mem s) ?K ?K i" for i by (simp add: own_entry_def)
  have "cloneable s ?K" using space_okD(1,2) [OF K(2)] o by (simp add: cloneable_def Let_def)
  moreover have "clone_cost (phys_mem s) ?K ?K 1024 = 0" by (simp add: clone_cost_def o)
  moreover have "0 < card (pmm_pool s)" using p by (simp add: card_gt_0_iff)
  moreover have "private_frames s ?K 1024 = {}" by (simp add: private_frames_def)
  ultimately show ?thesis using k K t h o R by (simp add: forkable_def Let_def calm_def spaces_used_def)
qed

theorem fork_copies_parent_witness:
  "\<exists>s u :: sched. \<exists>t p vs. task_create_fork 0xD000101C s = Inr (0, u) \<and> sched_ok u vs [0xD0000008, t] \<and>
    tword u t T_parent = 0xD0000008 \<and> tword u t T_stack = frame_of p \<and> rword u (frame_of p) R_eax = 0 \<and>
    rword u (frame_of p) R_eip = rword s 0xD000101C R_eip"
proof -
  obtain s :: sched where s: "heap_ready s demo_tiles" "sched_ok s demo_tiles [0xD0000008]" "current_task s = 0xD0000008"
    "pmm_pool s \<noteq> {}" "tword s 0xD0000008 T_page_dir = kernel_page_directory s" "kernel_page_directory s \<noteq> 0" using demo_parent by blast
  let ?K = "kernel_page_directory s"
  have c: "cut_first (unat (block_needed 36)) demo_tiles =
      Some (4200, [(48, False), (48, False), (4104, False), (48, False), (61288, True)])"
    "cut_first (unat (block_needed 4096)) [(48, False), (48, False), (4104, False), (48, False), (61288, True)] =
      Some (4248, [(48, False), (48, False), (4104, False), (48, False), (4104, False), (57184, True)])"
    by (simp_all add: task_sizes cut_tile_def demo_tiles_def)
  have f: "forkable s [0xD0000008] ?K" by (rule ready_forkable [OF s(1,4)]) (use s(5) in simp)
  have q: "stack_block demo_tiles 0xD0000068" "0xD000101C = frame_of 0xD0000068"
    using demo_blocks(1) by (auto simp: stack_block_def frame_of_def STACK_SIZE_def sizeof_regs_def)
  have K: "?K = tword s (current_task s) T_page_dir" "?K \<noteq> 0" using s(3,5,6) by simp_all
  have n: "0xD0000068 \<notin> set [0xD0000008 :: u32]" "current_task s \<noteq> 0" using s(3) by simp_all
  obtain t p D u vs where u: "task_create_fork (frame_of 0xD0000068) s = Inr (0, u)" "sched_ok u vs (link_in t [0xD0000008])"
    "\<forall>f. f \<noteq> T_next \<longrightarrow> tword u t f = new_task (frame_of p) (p + STACK_SIZE) (next_pid s) (current_task s) D f"
    "rword u (frame_of p) = child_regs (rword s (frame_of 0xD0000068))"
    using fork_copies_parent [OF s(2) c q(1) n K f] by blast
  have "tword u t T_parent = 0xD0000008" "tword u t T_stack = frame_of p" using u(3) s(3) by (simp_all add: new_task_def)
  moreover have "sched_ok u vs [0xD0000008, t]" using u(2) by (simp add: link_in_def)
  ultimately show ?thesis using u(1,4) unfolding q(2)
    by (intro exI [of _ s] exI [of _ u] exI [of _ t] exI [of _ p] exI [of _ vs]) (simp add: child_regs_def)
qed

end
