(* ===== verification/Elf_Props.thy ===== *)
theory Elf_Props
  imports Elf
begin

text \<open>
  What \<^verbatim>\<open>elf_load\<close> of src/src/kernel/elf.c puts into the current address space. \<open>holds s V f\<close> is memory as the
  loader sees it: the addresses \<open>V\<close> are mapped to frames of their own and hold the bytes \<open>f\<close>. The locale
  \<open>byte_memory\<close> states what the byte loops of the loader need of it; the interpretation \<open>um\<close> is on the loads
  and stores through the page tables.
\<close>

section \<open>Byte loops\<close>

locale byte_memory =
  fixes ld :: "'s \<Rightarrow> u32 \<Rightarrow> 'v kres" and sto :: "u32 \<Rightarrow> 'v \<Rightarrow> 's \<Rightarrow> 's kres"
    and hold :: "'s \<Rightarrow> u32 set \<Rightarrow> (u32 \<Rightarrow> 'v) \<Rightarrow> bool" and same :: "'s \<Rightarrow> 's \<Rightarrow> bool"
  assumes load: "hold s V f \<Longrightarrow> a \<in> V \<Longrightarrow> ld s a = Inr (f a)"
    and store: "hold s V f \<Longrightarrow> a \<in> V \<Longrightarrow> \<exists>t. sto a b s = Inr t \<and> hold t V (f(a := b)) \<and> same s t"
    and same_refl: "same s s" and same_trans: "same s t \<Longrightarrow> same t u \<Longrightarrow> same s u"
begin

text \<open>The bytes \<open>f\<close> with those from \<open>dst + i\<close> up to \<open>dst + k\<close> replaced by \<open>h\<close>.\<close>

lemma fill_loop:
  fixes i n dst :: u32 and h f :: "u32 \<Rightarrow> 'v"
  defines "filled k \<equiv> \<lambda>a. if i \<le> a - dst \<and> a - dst < k then h a else f a"
  assumes s: "hold s V f" and v: "\<And>j. i \<le> j \<Longrightarrow> j < n \<Longrightarrow> dst + j \<in> V" and i: "i \<le> n"
    and b: "\<And>k t. i \<le> k \<Longrightarrow> k < n \<Longrightarrow> hold t V (filled k) \<Longrightarrow> body k t = sto (dst + k) (h (dst + k)) t"
  shows "\<exists>t. for_err i n body s = Inr t \<and> hold t V (filled n) \<and> same s t"
proof (rule for_err_invariant [where P = "\<lambda>k t. hold t V (filled k) \<and> same s t"])
  have "filled i = f" by (auto simp: filled_def fun_eq_iff)
  then show "hold s V (filled i) \<and> same s s" using s same_refl by simp
  fix k t
  assume k: "i \<le> k" "k < n" and t: "hold t V (filled k) \<and> same s t"
  have u: "(filled k)(dst + k := h (dst + k)) = filled (k + 1)"
  proof
    fix a :: u32
    have "a = dst + k \<longleftrightarrow> a - dst = k" by (auto simp: algebra_simps)
    then show "((filled k)(dst + k := h (dst + k))) a = filled (k + 1) a"
      unfolding filled_def less_inc_iff [OF k(2)] using k(1) by (auto simp: le_less)
  qed
  from store [OF conjunct1 [OF t] v [OF k], of "h (dst + k)"] u b [OF k conjunct1 [OF t]]
  show "\<exists>u. body k t = Inr u \<and> hold u V (filled (k + 1)) \<and> same s u" using same_trans t by auto
qed (rule i)

lemma copy_loop:
  fixes n src dst :: u32
  assumes h: "hold s V f" and v: "\<And>j. j < n \<Longrightarrow> dst + j \<in> V \<and> src + j \<in> V" and d: "\<And>j. j < n \<Longrightarrow> \<not> src + j - dst < n"
  shows "\<exists>t. for_err 0 n (\<lambda>j s. kbind (ld s (src + j)) (\<lambda>b. sto (dst + j) b s)) s = Inr t \<and>
    hold t V (\<lambda>a. if a - dst < n then f (src + (a - dst)) else f a) \<and> same s t"
proof -
  have "kbind (ld t (src + k)) (\<lambda>b. sto (dst + k) b t) = sto (dst + k) (f (src + (dst + k - dst))) t"
    if k: "k < n" and t: "hold t V (\<lambda>a. if 0 \<le> a - dst \<and> a - dst < k then f (src + (a - dst)) else f a)" for k t
  proof -
    have "\<not> src + k - dst < k" using d [OF k] k by (meson less_trans)
    then have "ld t (src + k) = Inr (f (src + k))" using load [OF t] v [OF k] by simp
    then show ?thesis by simp
  qed
  from fill_loop [OF h, where i = 0 and n = n and dst = dst and h = "\<lambda>a. f (src + (a - dst))", OF _ _ this] v show ?thesis by simp
qed

lemmas clear_loop = fill_loop [where h = "\<lambda>_. z" and body = "\<lambda>j. sto (dst + j) z" for z dst, OF _ _ _ refl]

end

section \<open>Bytes in frames\<close>

lemma load32_byte:
  fixes k :: u32
  assumes "k < 4"
  shows "m (a + k) = ucast (drop_bit (8 * unat k) (load32 m a))"
proof -
  have "unat k < 4" using assms by (simp add: word_less_nat_alt)
  then have "unat k = 0 \<or> unat k = 1 \<or> unat k = 2 \<or> unat k = 3" by linarith
  then consider "k = 0" | "k = 1" | "k = 2" | "k = 3" by (auto simp: word_unat_eq_iff)
  then show ?thesis
  proof cases
    case 1 then show ?thesis by (intro bit_word_eqI) (auto simp: load32_def bit_simps dest: bit_imp_le_length)
  next
    case 2 then show ?thesis by (intro bit_word_eqI) (auto simp: load32_def bit_simps dest: bit_imp_le_length)
  next
    case 3 then show ?thesis by (intro bit_word_eqI) (auto simp: load32_def bit_simps dest: bit_imp_le_length)
  next
    case 4 then show ?thesis by (intro bit_word_eqI) (auto simp: load32_def bit_simps dest: bit_imp_le_length)
  qed
qed

lemma frame_split:
  fixes p :: u32
  obtains j k where "j < 1024" "k < 4" "p = entry_at (p AND 0xFFFFF000) j + k"
proof -
  let ?q = "p AND NOT (mask 2)"
  have p: "p = ?q + take_bit 2 p" by (rule split_base_low)
  have "aligned4 ?q" by (rule take_bit_high)
  then obtain j where j: "j < 1024" "?q = entry_at (?q AND 0xFFFFF000) j" by (rule aligned_entry)
  have "?q AND 0xFFFFF000 = p AND 0xFFFFF000" unfolding page_mask by (rule bit_word_eqI) (auto simp: bit_simps)
  moreover have "take_bit 2 p < 4" using take_bit_nat_less_exp [of 2 "unat p"] by (simp add: word_less_nat_alt unsigned_take_bit_eq)
  ultimately show thesis using that [of j "take_bit 2 p"] j p by argo
qed

lemma entry_in_frame:
  fixes g j k :: u32
  assumes "aligned_page g" "j < 1024" "k < 4"
  shows "(entry_at g j + k) AND 0xFFFFF000 = g"
proof -
  have "(entry_at g j + k) div PAGE_SIZE = g div PAGE_SIZE" by (rule entry_frame [OF assms])
  then have d: "drop_bit 12 (entry_at g j + k) = drop_bit 12 g" by (simp add: PAGE_SIZE_def page_div)
  have "g AND 0xFFFFF000 = g" unfolding page_mask using base_plus_high [OF assms(1), of 0] by simp
  then show ?thesis using d unfolding page_high by argo
qed

text \<open>The bytes of a frame are determined by its words.\<close>

lemma frame_bytes:
  fixes p :: u32
  assumes "\<And>j. j < 1024 \<Longrightarrow> mword m' (p AND 0xFFFFF000) j = mword m (p AND 0xFFFFF000) j"
  shows "m' p = m p"
proof -
  obtain j k where j: "j < 1024" "k < 4" "p = entry_at (p AND 0xFFFFF000) j + k" by (rule frame_split)
  have "m' p = ucast (drop_bit (8 * unat k) (mword m' (p AND 0xFFFFF000) j))" "m p = ucast (drop_bit (8 * unat k) (mword m (p AND 0xFFFFF000) j))"
    unfolding mword_def using load32_byte [OF j(2)] j(3) by metis+
  then show ?thesis using assms [OF j(1)] by simp
qed

lemma other_frame:
  assumes "aligned_page g" "j < 1024" "\<And>p. m' p \<noteq> m p \<Longrightarrow> p AND 0xFFFFF000 \<noteq> g"
  shows "mword m' g j = mword m g j"
proof -
  have "m' (entry_at g j + k) = m (entry_at g j + k)" if "k < 4" for k
    using assms(3) entry_in_frame [OF assms(1,2) that] by metis
  from this [of 0] this [of 1] this [of 2] this [of 3] show ?thesis by (simp add: mword_def load32_def)
qed

section \<open>Memory as the loader sees it\<close>

definition loc :: "'a vmm_scheme \<Rightarrow> u32 \<Rightarrow> u32" where
  "loc s v = the (walk (phys_mem s) (cur s) v)"

definition holds :: "'a vmm_scheme \<Rightarrow> u32 set \<Rightarrow> (u32 \<Rightarrow> u8) \<Rightarrow> bool" where
  "holds s V f \<longleftrightarrow> vm_core s (cur s) \<and> paging s \<and> current_page_directory s = cur s \<and>
     (\<forall>v\<in>V. walk (phys_mem s) (cur s) v \<noteq> None \<and>
        loc s v AND 0xFFFFF000 \<notin> tables (phys_mem s) (cur s) \<union> pmm_pool s \<and> phys_mem s (loc s v) = f v) \<and>
     inj_on (loc s) V"

lemma holdsD:
  assumes "holds s V f"
  shows "vm_core s (cur s)" "paging s" "current_page_directory s = cur s"
    "v \<in> V \<Longrightarrow> walk (phys_mem s) (cur s) v = Some (loc s v)" "v \<in> V \<Longrightarrow> translate s v = Inr (loc s v)"
    "v \<in> V \<Longrightarrow> loc s v AND 0xFFFFF000 \<notin> tables (phys_mem s) (cur s) \<union> pmm_pool s" "v \<in> V \<Longrightarrow> phys_mem s (loc s v) = f v"
    "v \<in> V \<Longrightarrow> w \<in> V \<Longrightarrow> loc s v = loc s w \<longleftrightarrow> v = w"
proof -
  show "vm_core s (cur s)" and p: "paging s" and "current_page_directory s = cur s"
    "v \<in> V \<Longrightarrow> loc s v AND 0xFFFFF000 \<notin> tables (phys_mem s) (cur s) \<union> pmm_pool s" "v \<in> V \<Longrightarrow> phys_mem s (loc s v) = f v"
    using assms by (simp_all add: holds_def)
  show w: "walk (phys_mem s) (cur s) v = Some (loc s v)" if "v \<in> V" using assms that by (simp add: holds_def loc_def)
  show "translate s v = Inr (loc s v)" if "v \<in> V" using w [OF that] p by (simp add: translate_def)
  have "inj_on (loc s) V" using assms by (simp add: holds_def)
  then show "v \<in> V \<Longrightarrow> w \<in> V \<Longrightarrow> loc s v = loc s w \<longleftrightarrow> v = w" by (rule inj_on_eq_iff)
qed

lemma holds_mono: "holds s V f \<Longrightarrow> U \<subseteq> V \<Longrightarrow> (\<And>v. v \<in> U \<Longrightarrow> g v = f v) \<Longrightarrow> holds s U g"
  using inj_on_subset [of "loc s" V U] unfolding holds_def by auto

text \<open>What the stores of the loader keep.\<close>

definition mem_same :: "'a vmm_scheme \<Rightarrow> 'a vmm_scheme \<Rightarrow> bool" where
  "mem_same s t \<longleftrightarrow> t\<lparr>phys_mem := phys_mem s\<rparr> = s"

lemma holds_write:
  fixes s :: "'a vmm_scheme"
  assumes s: "holds s V f" and w: "\<And>p. m p \<noteq> phys_mem s p \<Longrightarrow> p AND 0xFFFFF000 \<notin> tables (phys_mem s) (cur s)"
    and b: "\<And>v. v \<in> V \<Longrightarrow> m (loc s v) = g v"
  shows "holds (s\<lparr>phys_mem := m\<rparr>) V g"
proof -
  note H = holdsD [OF s]
  have m: "mword m h j = mword (phys_mem s) h j" if "h \<in> tables (phys_mem s) (cur s)" "j < 1024" for h j
    by (rule other_frame [OF tables_aligned [OF masked_aligned that(1)] that(2)]) (use w that(1) in blast)
  have W: "walk m (cur s) = walk (phys_mem s) (cur s)" "tables m (cur s) = tables (phys_mem s) (cur s)"
    using walk_cong [OF m] by (auto simp: fun_eq_iff)
  have e: "present m (cur s) i = present (phys_mem s) (cur s) i" "table_of m (cur s) i = table_of (phys_mem s) (cur s) i"
    if "i < 1024" for i using m [of "cur s" i] that by (simp_all add: in_tables present_def table_of_def)
  have "vm_core (s\<lparr>phys_mem := m\<rparr>) (cur s)"
    using H(1) direct_update [of s m] W e by (auto simp: vm_core_def reachable_from_def space_ok_def)
  moreover have "loc (s\<lparr>phys_mem := m\<rparr>) = loc s" by (simp add: loc_def fun_eq_iff W)
  ultimately show ?thesis using s b by (simp add: holds_def W)
qed

lemma holds_store8:
  fixes s :: "'a vmm_scheme"
  assumes s: "holds s V f" and a: "a \<in> V"
  shows "\<exists>t. vstore8 a b s = Inr t \<and> holds t V (f(a := b)) \<and> mem_same s t"
proof -
  note H = holdsD [OF s]
  let ?t = "s\<lparr>phys_mem := (phys_mem s)(loc s a := b)\<rparr>"
  have "holds ?t V (f(a := b))"
    by (rule holds_write [OF s]) (use H(6) [OF a] H(7) H(8) [OF _ a] in \<open>auto split: if_splits\<close>)
  moreover have "vstore8 a b s = Inr ?t" using H(5) [OF a] by (simp add: vstore8_def)
  moreover have "mem_same s ?t" by (simp add: mem_same_def)
  ultimately show ?thesis by blast
qed

lemma holds_load8: "holds s V f \<Longrightarrow> a \<in> V \<Longrightarrow> vload8 s a = Inr (f a)"
  using holdsD(5,7) [of s V f a] by (simp add: vload8_def)

lemma mem_same_trans: "mem_same s t \<Longrightarrow> mem_same t u \<Longrightarrow> mem_same s u"
proof -
  assume "mem_same s t" "mem_same t u"
  then have "u\<lparr>phys_mem := phys_mem t\<rparr>\<lparr>phys_mem := phys_mem s\<rparr> = s" by (simp add: mem_same_def)
  then show ?thesis by (simp add: mem_same_def)
qed

interpretation um: byte_memory vload8 vstore8 "holds :: 'a vmm_scheme \<Rightarrow> _" mem_same
  by unfold_locales (auto intro: holds_load8 holds_store8 mem_same_trans, simp add: mem_same_def)

lemma mem_same_fields:
  assumes "mem_same s t"
  shows "pmm_pool t = pmm_pool s" "total_pages t = total_pages s" "cr3 t = cr3 s" "pmm_managed t = pmm_managed s"
proof -
  have e: "t\<lparr>phys_mem := phys_mem s\<rparr> = s" using assms by (simp add: mem_same_def)
  show "total_pages t = total_pages s" "cr3 t = cr3 s" by (subst e [symmetric], simp)+
  have "pmm_bitmap t = pmm_bitmap s" "total_pages t = total_pages s" "free_count t = free_count s" by (subst e [symmetric], simp)+
  then show "pmm_pool t = pmm_pool s" "pmm_managed t = pmm_managed s" by (rule pmm_same)+
qed

lemma mem_same_only: "mem_same s t \<Longrightarrow> mem_only s t"
  unfolding mem_same_def by (cases s; cases t) (auto simp: mem_only_def but_mem_def)

section \<open>Words\<close>

definition le16 :: "(u32 \<Rightarrow> u8) \<Rightarrow> u32 \<Rightarrow> u16" where
  "le16 f a = ucast (f a) OR push_bit 8 (ucast (f (a + 1)))"

definition quad :: "u32 \<Rightarrow> u32 set" where
  "quad a = {a, a + 1, a + 2, a + 3}"

lemma holds_load32: "holds s V f \<Longrightarrow> quad a \<subseteq> V \<Longrightarrow> vload32 s a = Inr (load32 f a)"
  by (simp add: vload32_def holds_load8 load32_def quad_def)

lemma holds_load16: "holds s V f \<Longrightarrow> a \<in> V \<Longrightarrow> a + 1 \<in> V \<Longrightarrow> vload16 s a = Inr (le16 f a)"
  by (simp add: vload16_def holds_load8 le16_def)

lemma holds_store32:
  fixes s :: "'a vmm_scheme"
  assumes s: "holds s V f" and a: "quad a \<subseteq> V"
  shows "\<exists>t. vstore32 a w s = Inr t \<and> holds t V (store32 f a w) \<and> mem_same s t"
proof -
  note H = holdsD [OF s]
  have q: "a \<in> V" "a + 1 \<in> V" "a + 2 \<in> V" "a + 3 \<in> V" using a by (auto simp: quad_def)
  let ?m = "(phys_mem s)(loc s a := ucast w, loc s (a + 1) := ucast (drop_bit 8 w),
      loc s (a + 2) := ucast (drop_bit 16 w), loc s (a + 3) := ucast (drop_bit 24 w))"
  let ?t = "s\<lparr>phys_mem := ?m\<rparr>"
  have "p \<in> loc s ` V" if "?m p \<noteq> phys_mem s p" for p using that q by (auto split: if_splits)
  moreover have "?m (loc s v) = store32 f a w v" if "v \<in> V" for v
    using H(7) [OF that] H(8) [OF that] q by (simp add: store32_def)
  ultimately have "holds ?t V (store32 f a w)" using H(6) by (intro holds_write [OF s]) auto
  moreover have "vstore32 a w s = Inr ?t" using H(5) q by (simp add: vstore32_def)
  moreover have "mem_same s ?t" by (simp add: mem_same_def)
  ultimately show ?thesis by blast
qed

section \<open>Pages\<close>

definition page :: "u32 \<Rightarrow> u32 set" where
  "page v = {a. a - v < 0x1000}"

lemma page_same:
  assumes "aligned_page v"
  shows "a \<in> page v \<longleftrightarrow> same_page v a"
proof
  assume "a \<in> page v"
  then have "unat (a - v) < 4096" by (simp add: page_def word_less_nat_alt)
  then have "take_bit 12 (a - v) = a - v" by (simp add: take_bit_self_iff)
  from base_plus_high [OF assms this] have "a AND 0xFFFFF000 = v" unfolding page_mask by simp
  moreover have "v AND 0xFFFFF000 = v" unfolding page_mask using base_plus_high [OF assms, of 0] by simp
  ultimately show "same_page v a" by (simp add: same_page_def)
next
  assume "same_page v a"
  moreover have "v AND 0xFFFFF000 = v" unfolding page_mask using base_plus_high [OF assms, of 0] by simp
  ultimately have "a AND NOT (mask 12) = v" by (simp add: same_page_def page_mask)
  then have "a - v = take_bit 12 a" using split_base_low [of a 12] by (metis add_diff_cancel_left')
  moreover have "take_bit 12 a < 0x1000"
    using take_bit_nat_less_exp [of 12 "unat a"] by (simp add: word_less_nat_alt unsigned_take_bit_eq)
  ultimately show "a \<in> page v" by (simp add: page_def)
qed

lemma holds_alloc:
  fixes s :: "'a vmm_scheme"
  assumes s: "holds s V f" and v: "aligned_page v" "V \<inter> page v = {}" "total_pages s \<le> v div PAGE_SIZE"
    and pool: "2 \<le> card (pmm_pool s)" and fl: "take_bit 12 flags = flags"
  shows "\<exists>p t g. vmm_alloc_page v flags s = Inr (p, t) \<and> p \<noteq> 0 \<and> p \<in> pmm_managed t \<and> holds t (V \<union> page v) g \<and>
    (\<forall>a\<in>V. g a = f a) \<and> mem_only s t \<and> pmm_pool t \<subseteq> pmm_pool s \<and> card (pmm_pool s) \<le> card (pmm_pool t) + 2 \<and>
    (\<forall>a\<in>page v. loc t a = p + (a AND 0xFFF))"
proof -
  let ?d = "cur s"
  note H = holdsD [OF s]
  from alloc_page_effect [OF H(1,2) refl H(3) pool fl v(3)] obtain p t where
    t: "vmm_alloc_page v flags s = Inr (p, t)" "p \<noteq> 0" "p \<in> pmm_pool s" "p \<in> pmm_managed s" "vm_core t ?d"
      "pmm_pool t \<subseteq> pmm_pool s - {p}" "card (pmm_pool s) \<le> card (pmm_pool t) + 2"
      "tables (phys_mem t) ?d \<subseteq> tables (phys_mem s) ?d \<union> (pmm_pool s - {p})"
    and M: "mem_only s t"
    and w: "\<And>w. walk (phys_mem t) ?d w = (if same_page v w then Some (p + (w AND 0xFFF)) else walk (phys_mem s) ?d w)"
    and b: "\<And>g j. aligned_page g \<Longrightarrow> j < 1024 \<Longrightarrow> g \<notin> tables (phys_mem s) ?d \<union> (pmm_pool s - {p}) \<Longrightarrow>
       mword (phys_mem t) g j = mword (phys_mem s) g j" by blast
  note F = mem_only_fields [OF M]
  have al: "aligned_page p" by (rule managed_aligned [OF t(4)])
  have old: "loc t a = loc s a" "walk (phys_mem t) ?d a = Some (loc s a)" "loc s a AND 0xFFFFF000 \<notin> tables (phys_mem s) ?d \<union> pmm_pool s"
    "phys_mem t (loc s a) = f a" if a: "a \<in> V" for a
  proof -
    have "\<not> same_page v a" using v(2) a page_same [OF v(1)] by blast
    then show W: "walk (phys_mem t) ?d a = Some (loc s a)" using w H(4) [OF a] by simp
    then show "loc t a = loc s a" by (simp add: loc_def F(2))
    show n: "loc s a AND 0xFFFFF000 \<notin> tables (phys_mem s) ?d \<union> pmm_pool s" by (rule H(6) [OF a])
    then have "mword (phys_mem t) (loc s a AND 0xFFFFF000) j = mword (phys_mem s) (loc s a AND 0xFFFFF000) j" if "j < 1024" for j
      by (intro b [OF masked_aligned that]) blast
    then have "phys_mem t (loc s a) = phys_mem s (loc s a)" by (rule frame_bytes)
    then show "phys_mem t (loc s a) = f a" using H(7) [OF a] by simp
  qed
  have new: "loc t a = p + (a AND 0xFFF)" "walk (phys_mem t) ?d a = Some (p + (a AND 0xFFF))" "loc t a AND 0xFFFFF000 = p"
    if a: "a \<in> page v" for a
  proof -
    show W: "walk (phys_mem t) ?d a = Some (p + (a AND 0xFFF))" using w a page_same [OF v(1)] by simp
    then show l: "loc t a = p + (a AND 0xFFF)" by (simp add: loc_def F(2))
    show "loc t a AND 0xFFFFF000 = p" unfolding l page_mask by (rule base_plus_high [OF al low_bits_small])
  qed
  have pt: "p \<notin> tables (phys_mem t) ?d \<union> pmm_pool t" using t(3,6,8) H(1) by (auto simp: vm_core_def space_ok_def)
  have "inj_on (loc t) (V \<union> page v)"
  proof (rule inj_onI)
    fix a c assume ac: "a \<in> V \<union> page v" "c \<in> V \<union> page v" "loc t a = loc t c"
    have ne: "x \<notin> V" if "x \<in> V \<union> page v" "y \<in> page v" "loc t x = loc t y" for x y
      using old(1,3) [of x] new(3) [OF that(2)] that(3) t(3) by auto
    show "a = c"
    proof (cases "a \<in> V \<and> c \<in> V")
      case True
      then show ?thesis using ac(3) old(1) H(8) by simp
    next
      case False
      then have "a \<in> page v" "c \<in> page v" using ac ne [of c a] ne [of a c] by auto
      then have e: "a AND 0xFFF = c AND 0xFFF" "a AND 0xFFFFF000 = c AND 0xFFFFF000"
        using ac(3) new(1) page_same [OF v(1)] by (simp_all add: same_page_def)
      show ?thesis using split_base_low [of a 12] split_base_low [of c 12] e by (simp add: offset_mask page_mask)
    qed
  qed
  moreover have "current_page_directory t = cur t" "paging t" "cur t = ?d" using F H by simp_all
  ultimately have "holds t (V \<union> page v) (\<lambda>a. phys_mem t (loc t a))"
    using t(5,6,8) old new pt unfolding holds_def by auto
  then show ?thesis using t(1,2,4,6,7) old M F(7) new(1)
    by (intro exI [of _ p] exI [of _ t] exI [of _ "\<lambda>a. phys_mem t (loc t a)"]) auto
qed

lemma quad_iff:
  fixes k :: u32
  assumes "k < 1024"
  shows "a \<in> quad (v + 4 * k) \<longleftrightarrow> 4 * unat k \<le> unat (a - v) \<and> unat (a - v) < 4 * unat k + 4"
proof -
  have k: "unat k < 1024" using assms by (simp add: word_less_nat_alt)
  have u: "unat (4 * k + i) = 4 * unat k + unat i" if "unat i < 4" for i :: u32
    using k that by (simp add: unat_word_ariths)
  have e: "a = v + 4 * k + i \<longleftrightarrow> unat (a - v) = 4 * unat k + unat i" if "unat i < 4" for i
  proof -
    have "a = v + 4 * k + i \<longleftrightarrow> a - v = 4 * k + i" by (auto simp: algebra_simps)
    then show ?thesis by (simp only: word_unat_eq_iff u [OF that])
  qed
  show ?thesis using e [of 0] e [of 1] e [of 2] e [of 3] by (auto simp: quad_def)
qed

lemma holds_zero_page:
  fixes s :: "'a vmm_scheme"
  assumes s: "holds s V f" and v: "page v \<subseteq> V"
  shows "\<exists>t. zero_page v s = Inr t \<and> holds t V (\<lambda>a. if a \<in> page v then 0 else f a) \<and> mem_same s t"
proof -
  let ?g = "\<lambda>(k :: u32) a. if unat (a - v) < 4 * unat k then 0 else f a"
  have "\<exists>t. for_err 0 1024 (\<lambda>j. vstore32 (v + 4 * j) 0) s = Inr t \<and> holds t V (?g 1024) \<and> mem_same s t"
  proof (rule for_err_invariant [where P = "\<lambda>k t. holds t V (?g k) \<and> mem_same s t"])
    show "holds s V (?g 0) \<and> mem_same s s" using s by (simp add: mem_same_def)
    fix k :: u32 and t
    assume k: "k < 1024" and t: "holds t V (?g k) \<and> mem_same s t"
    have kn: "unat k < 1024" using k by (simp add: word_less_nat_alt)
    have "a \<in> page v" if "a \<in> quad (v + 4 * k)" for a
      using that kn unfolding quad_iff [OF k] page_def by (simp add: word_less_nat_alt)
    then have "quad (v + 4 * k) \<subseteq> V" using v by blast
    from holds_store32 [OF conjunct1 [OF t] this, of 0] obtain u where
      u: "vstore32 (v + 4 * k) 0 t = Inr u" "holds u V (store32 (?g k) (v + 4 * k) 0)" "mem_same t u" by blast
    have "store32 (?g k) (v + 4 * k) 0 a = (if a \<in> quad (v + 4 * k) then 0 else ?g k a)" for a
      by (simp add: store32_def quad_def)
    then have "store32 (?g k) (v + 4 * k) 0 = ?g (k + 1)"
      unfolding quad_iff [OF k] using unat_inc [OF k] by (auto simp: fun_eq_iff)
    then show "\<exists>u. vstore32 (v + 4 * k) 0 t = Inr u \<and> holds u V (?g (k + 1)) \<and> mem_same s u"
      using u t mem_same_trans by auto
  qed simp
  moreover have "?g 1024 = (\<lambda>a. if a \<in> page v then 0 else f a)" by (simp add: page_def word_less_nat_alt fun_eq_iff)
  ultimately show ?thesis by (simp add: zero_page_def)
qed

section \<open>The pages of a segment\<close>

lemma user_flags: "take_bit 12 (VMM_USER OR VMM_WRITABLE) = VMM_USER OR VMM_WRITABLE"
  by (simp add: VMM_USER_def VMM_WRITABLE_def)

lemma elf_page_holds:
  fixes s :: "'a vmm_scheme"
  assumes s: "holds s V f" and v: "aligned_page v" "V \<inter> page v = {}" "total_pages s \<le> v div PAGE_SIZE"
    and pool: "2 \<le> card (pmm_pool s)"
  shows "\<exists>t. elf_page v (False, s) = Inr (False, t) \<and> holds t (V \<union> page v) (\<lambda>a. if a \<in> page v then 0 else f a) \<and>
    mem_only s t \<and> pmm_pool t \<subseteq> pmm_pool s \<and> card (pmm_pool s) \<le> card (pmm_pool t) + 2"
proof -
  from holds_alloc [OF s v pool user_flags] obtain p t g where
    t: "vmm_alloc_page v (VMM_USER OR VMM_WRITABLE) s = Inr (p, t)" "p \<noteq> 0" "holds t (V \<union> page v) g" "\<forall>a\<in>V. g a = f a"
      "mem_only s t" "pmm_pool t \<subseteq> pmm_pool s" "card (pmm_pool s) \<le> card (pmm_pool t) + 2" by blast
  from holds_zero_page [OF t(3)] obtain u where
    u: "zero_page v t = Inr u" "holds u (V \<union> page v) (\<lambda>a. if a \<in> page v then 0 else g a)" "mem_same t u" by blast
  have "holds u (V \<union> page v) (\<lambda>a. if a \<in> page v then 0 else f a)" by (rule holds_mono [OF u(2)]) (use t(4) in auto)
  then show ?thesis
    using t u mem_only_trans [OF t(5) mem_same_only [OF u(3)]] mem_same_fields(1) [OF u(3)] by (intro exI [of _ u]) (simp add: elf_page_def)
qed

definition pages_of :: "u32 \<Rightarrow> u32 \<Rightarrow> u32 set" where
  "pages_of start stop = {a. a - start < stop - start}"

lemma page_step:
  fixes start :: u32
  assumes s: "aligned_page start" and k: "unat start + 4096 * (unat k + 1) \<le> 2 ^ 32"
  shows "aligned_page (start + 0x1000 * k)" "unat (start + 0x1000 * k) = unat start + 4096 * unat k"
    "a \<in> page (start + 0x1000 * k) \<longleftrightarrow> 4096 * unat k \<le> unat (a - start) \<and> unat (a - start) < 4096 * (unat k + 1)"
proof -
  show u: "unat (start + 0x1000 * k) = unat start + 4096 * unat k" using k by (simp add: unat_word_ariths)
  have "4096 dvd unat start" using s by (simp add: take_bit_zero_iff)
  then show "aligned_page (start + 0x1000 * k)" by (simp add: take_bit_zero_iff u)
  have m: "unat (0x1000 * k) = 4096 * unat k" using k by (simp add: unat_word_ariths)
  have e: "a - (start + 0x1000 * k) = (a - start) - 0x1000 * k" by (simp add: algebra_simps)
  show "a \<in> page (start + 0x1000 * k) \<longleftrightarrow> 4096 * unat k \<le> unat (a - start) \<and> unat (a - start) < 4096 * (unat k + 1)"
  proof (cases "0x1000 * k \<le> a - start")
    case True
    then have "unat (a - start - 0x1000 * k) = unat (a - start) - 4096 * unat k" by (simp add: unat_sub m)
    then show ?thesis using True m by (auto simp: page_def e word_less_nat_alt word_le_nat_alt)
  next
    case False
    then have l: "unat (a - start) < 4096 * unat k" using m by (simp add: not_le word_less_nat_alt)
    have "4096 * unat k + 4096 \<le> 2 ^ 32" using k by simp
    moreover have "unat (a - start - 0x1000 * k) = 2 ^ 32 - (4096 * unat k - unat (a - start))"
      using False m l by (simp add: unat_sub_if_size word_size not_le word_le_nat_alt)
    ultimately show ?thesis using l by (auto simp: page_def e word_less_nat_alt)
  qed
qed

lemma elf_pages_holds:
  fixes s :: "'a vmm_scheme"
  assumes s: "holds s V f" and a: "aligned_page start" "aligned_page stop" "start \<le> stop"
    and v: "V \<inter> pages_of start stop = {}" "total_pages s \<le> start div PAGE_SIZE"
    and pool: "2 * unat ((stop - start) div 0x1000) \<le> card (pmm_pool s)"
  shows "\<exists>t. elf_pages start stop s = Inr (False, t) \<and>
    holds t (V \<union> pages_of start stop) (\<lambda>a. if a \<in> pages_of start stop then 0 else f a) \<and>
    mem_only s t \<and> pmm_pool t \<subseteq> pmm_pool s \<and> card (pmm_pool s) \<le> card (pmm_pool t) + 2 * unat ((stop - start) div 0x1000)"
proof (cases "start < stop")
  case False
  then have "pages_of start stop = {}" using a(3) by (simp add: pages_of_def)
  then show ?thesis using False s by (simp add: elf_pages_def)
next
  case True
  let ?n = "(stop - start) div 0x1000"
  have d: "unat (stop - start) = unat stop - unat start" using a(3) by (simp add: unat_sub)
  have "4096 dvd unat stop - unat start" using a(1,2) by (intro dvd_diff_nat) (simp_all add: take_bit_zero_iff)
  then have n: "4096 * unat ?n = unat (stop - start)" using d by (simp add: unat_div)
  let ?U = "\<lambda>k. {a. unat (a - start) < 4096 * unat (k :: u32)}"
  let ?P = "\<lambda>k (failed, t). \<not> failed \<and> holds t (V \<union> ?U k) (\<lambda>a. if a \<in> ?U k then 0 else f a) \<and> mem_only s t \<and>
    pmm_pool t \<subseteq> pmm_pool s \<and> card (pmm_pool s) \<le> card (pmm_pool t) + 2 * unat k"
  have "\<exists>x. for_err 0 ?n (\<lambda>k. elf_page (start + 0x1000 * k)) (False, s) = Inr x \<and> ?P ?n x"
  proof (rule for_err_invariant [where P = ?P])
    show "?P 0 (False, s)" using s by simp
    fix k :: u32 and x :: "bool \<times> 'a vmm_scheme"
    assume k: "k < ?n" and x: "?P k x"
    obtain t where t: "x = (False, t)" "holds t (V \<union> ?U k) (\<lambda>a. if a \<in> ?U k then 0 else f a)" "mem_only s t"
      "pmm_pool t \<subseteq> pmm_pool s" "card (pmm_pool s) \<le> card (pmm_pool t) + 2 * unat k" using x by (cases x) auto
    have kn: "unat k + 1 \<le> unat ?n" using k by (simp add: word_less_nat_alt)
    then have kl: "4096 * (unat k + 1) \<le> unat stop - unat start" using n d by simp
    then have "unat start + 4096 * (unat k + 1) \<le> 2 ^ 32"
      using unsigned_less [of stop, where ?'a = nat] by simp
    note P = page_step [OF a(1) this]
    have "page (start + 0x1000 * k) \<subseteq> pages_of start stop"
      using P(3) kl d by (auto simp: pages_of_def word_less_nat_alt)
    then have A: "(V \<union> ?U k) \<inter> page (start + 0x1000 * k) = {}" using v(1) P(3) by fastforce
    have B: "total_pages t \<le> (start + 0x1000 * k) div PAGE_SIZE"
      using v(2) mem_only_fields(1) [OF t(3)] P(2) by (simp add: word_le_nat_alt unat_div PAGE_SIZE_def)
    have C: "2 \<le> card (pmm_pool t)" using t(5) pool kn by linarith
    from elf_page_holds [OF t(2) P(1) A B C] obtain u where u: "elf_page (start + 0x1000 * k) (False, t) = Inr (False, u)"
      "holds u (V \<union> ?U k \<union> page (start + 0x1000 * k)) (\<lambda>a. if a \<in> page (start + 0x1000 * k) then 0 else if a \<in> ?U k then 0 else f a)"
      "mem_only t u" "pmm_pool u \<subseteq> pmm_pool t" "card (pmm_pool t) \<le> card (pmm_pool u) + 2"
      by (elim exE conjE)
    have U: "?U (k + 1) = ?U k \<union> page (start + 0x1000 * k)"
      by (rule set_eqI) (simp only: Un_iff P(3) mem_Collect_eq unat_inc [OF k], presburger)
    have "holds u (V \<union> ?U (k + 1)) (\<lambda>a. if a \<in> ?U (k + 1) then 0 else f a)"
      by (rule holds_mono [OF u(2)]) (unfold U, auto)
    then show "\<exists>x'. elf_page (start + 0x1000 * k) x = Inr x' \<and> ?P (k + 1) x'"
      using u(1,4,5) t(1,4,5) mem_only_trans [OF t(3) u(3)] unat_inc [OF k] by auto
  qed simp
  moreover have "?U ?n = pages_of start stop" using n by (simp add: pages_of_def word_less_nat_alt)
  ultimately show ?thesis using True by (auto simp: elf_pages_def)
qed

section \<open>A segment\<close>

text \<open>The header at \<open>ph\<close> in the bytes \<open>f\<close>: the pages it asks for, and the bytes they are to hold.\<close>

definition loadable :: "(u32 \<Rightarrow> u8) \<Rightarrow> u32 \<Rightarrow> bool" where
  "loadable f ph \<longleftrightarrow> load32 f ph = PT_LOAD"

definition seg_start :: "(u32 \<Rightarrow> u8) \<Rightarrow> u32 \<Rightarrow> u32" where
  "seg_start f ph = load32 f (ph + 8) AND NOT 0xFFF"

definition seg_stop :: "(u32 \<Rightarrow> u8) \<Rightarrow> u32 \<Rightarrow> u32" where
  "seg_stop f ph = (load32 f (ph + 8) + load32 f (ph + 20) + 0xFFF) AND NOT 0xFFF"

definition seg_pages :: "(u32 \<Rightarrow> u8) \<Rightarrow> u32 \<Rightarrow> u32 set" where
  "seg_pages f ph = (if loadable f ph then pages_of (seg_start f ph) (seg_stop f ph) else {})"

definition seg_cost :: "(u32 \<Rightarrow> u8) \<Rightarrow> u32 \<Rightarrow> nat" where
  "seg_cost f ph = (if loadable f ph then unat ((seg_stop f ph - seg_start f ph) div 0x1000) else 0)"

definition seg_byte :: "(u32 \<Rightarrow> u8) \<Rightarrow> u32 \<Rightarrow> u32 \<Rightarrow> u32 \<Rightarrow> u8" where
  "seg_byte f elf ph a =
    (let j = a - load32 f (ph + 8) in if j < load32 f (ph + 16) then f (elf + load32 f (ph + 4) + j) else 0)"

text \<open>A header that the loader can follow: it lies in the image \<open>A\<close>, as do the bytes it refers to, and its pages
  are above the memory of the machine.\<close>

definition seg_ok :: "u32 set \<Rightarrow> u32 \<Rightarrow> (u32 \<Rightarrow> u8) \<Rightarrow> u32 \<Rightarrow> u32 \<Rightarrow> bool" where
  "seg_ok A lim f elf ph \<longleftrightarrow> quad ph \<union> quad (ph + 4) \<union> quad (ph + 8) \<union> quad (ph + 16) \<union> quad (ph + 20) \<subseteq> A \<and>
     (loadable f ph \<longrightarrow> load32 f (ph + 16) \<le> load32 f (ph + 20) \<and>
        unat (load32 f (ph + 8)) + unat (load32 f (ph + 20)) + 0xFFF < 2 ^ 32 \<and>
        lim \<le> seg_start f ph div PAGE_SIZE \<and>
        (\<forall>j < load32 f (ph + 16). elf + load32 f (ph + 4) + j \<in> A))"

lemma page_down: "(x :: u32) AND NOT 0xFFF = x AND 0xFFFFF000"
proof -
  have "NOT 0xFFF = (0xFFFFF000 :: u32)" by simp
  then show ?thesis by argo
qed

lemma unat_sum: "unat x + unat y < 2 ^ 32 \<Longrightarrow> unat (x + y) = unat x + unat y" for x y :: u32
  by (simp add: unat_word_ariths)

lemma seg_range:
  assumes "unat (load32 f (ph + 8)) + unat (load32 f (ph + 20)) + 0xFFF < 2 ^ 32"
  shows "aligned_page (seg_start f ph)" "aligned_page (seg_stop f ph)" "seg_start f ph \<le> seg_stop f ph"
    "a - load32 f (ph + 8) < load32 f (ph + 20) \<Longrightarrow> a \<in> pages_of (seg_start f ph) (seg_stop f ph)"
proof -
  let ?v = "load32 f (ph + 8)" and ?z = "load32 f (ph + 20)" and ?s = "seg_start f ph" and ?e = "seg_stop f ph"
  show "aligned_page ?s" "aligned_page ?e" unfolding seg_start_def seg_stop_def page_down by (rule masked_aligned)+
  have sn: "unat ?s = 4096 * (unat ?v div 4096)" unfolding seg_start_def page_down by (rule unat_page_floor)
  have "unat (?v + ?z + 0xFFF) = unat ?v + unat ?z + 4095" using assms by (simp add: unat_word_ariths)
  then have en: "unat ?e = 4096 * ((unat ?v + unat ?z + 4095) div 4096)"
    unfolding seg_stop_def page_down by (simp only: unat_page_floor)
  have se: "unat ?s \<le> unat ?e" unfolding sn en by (intro mult_le_mono div_le_mono) simp_all
  then show le: "?s \<le> ?e" by (simp add: word_le_nat_alt)
  assume "a - ?v < ?z"
  then have j: "unat (a - ?v) < unat ?z" by (simp add: word_less_nat_alt)
  have sv: "unat ?s \<le> unat ?v" unfolding sn by simp
  have ve: "unat ?v + unat ?z \<le> unat ?e" unfolding en by linarith
  have d: "unat (?v - ?s) = unat ?v - unat ?s" "unat (?e - ?s) = unat ?e - unat ?s"
    using sv se by (simp_all add: unat_sub word_le_nat_alt)
  have "unat (?v - ?s) + unat (a - ?v) < 2 ^ 32" using d(1) j assms by linarith
  then have "unat ((?v - ?s) + (a - ?v)) = unat (?v - ?s) + unat (a - ?v)" by (rule unat_sum)
  moreover have "(?v - ?s) + (a - ?v) = a - ?s" by simp
  ultimately have "unat (a - ?s) < unat (?e - ?s)" using d j sv ve by simp
  then show "a \<in> pages_of ?s ?e" by (simp add: pages_of_def word_less_nat_alt)
qed

lemma agree_load32: "(\<And>a. a \<in> A \<Longrightarrow> g a = f a) \<Longrightarrow> quad a \<subseteq> A \<Longrightarrow> load32 g a = load32 f a"
  by (simp add: load32_def quad_def)

lemma elf_segment_holds:
  fixes s :: "'a vmm_scheme"
  assumes s: "holds s V g" "A \<subseteq> V" "\<And>a. a \<in> A \<Longrightarrow> g a = f a" and ok: "seg_ok A (total_pages s) f elf ph"
    and v: "V \<inter> seg_pages f ph = {}" and pool: "2 * seg_cost f ph \<le> card (pmm_pool s)"
  shows "\<exists>t. elf_segment elf ph s = Inr (False, t) \<and>
    holds t (V \<union> seg_pages f ph) (\<lambda>a. if a \<in> seg_pages f ph then seg_byte f elf ph a else g a) \<and>
    mem_only s t \<and> pmm_pool t \<subseteq> pmm_pool s \<and> card (pmm_pool s) \<le> card (pmm_pool t) + 2 * seg_cost f ph"
proof -
  have q: "quad ph \<subseteq> A" "quad (ph + 4) \<subseteq> A" "quad (ph + 8) \<subseteq> A" "quad (ph + 16) \<subseteq> A" "quad (ph + 20) \<subseteq> A" using ok by (auto simp: seg_ok_def)
  have ld: "vload32 s x = Inr (load32 f x)" if "quad x \<subseteq> A" for x
    using holds_load32 [OF s(1), of x] agree_load32 [OF s(3) that] that s(2) by auto
  have hd: "p_type s ph = Inr (load32 f ph)" "p_offset s ph = Inr (load32 f (ph + 4))" "p_vaddr s ph = Inr (load32 f (ph + 8))"
    "p_filesz s ph = Inr (load32 f (ph + 16))" "p_memsz s ph = Inr (load32 f (ph + 20))"
    using ld q by (simp_all add: p_type_def p_offset_def p_vaddr_def p_filesz_def p_memsz_def)
  show ?thesis
  proof (cases "loadable f ph")
    case False
    then have "elf_segment elf ph s = Inr (False, s)" using hd(1) by (simp add: elf_segment_def loadable_def)
    then show ?thesis using s(1) False by (intro exI [of _ s]) (simp add: seg_pages_def)
  next
    case True
    let ?v = "load32 f (ph + 8)" and ?z = "load32 f (ph + 20)" and ?n = "load32 f (ph + 16)" and ?o = "elf + load32 f (ph + 4)"
    let ?P = "pages_of (seg_start f ph) (seg_stop f ph)"
    have P: "seg_pages f ph = ?P" using True by (simp add: seg_pages_def)
    have o: "?n \<le> ?z" "unat ?v + unat ?z + 0xFFF < 2 ^ 32" "total_pages s \<le> seg_start f ph div PAGE_SIZE" "\<And>j. j < ?n \<Longrightarrow> ?o + j \<in> A"
      using ok True by (auto simp: seg_ok_def)
    note R = seg_range [OF o(2)]
    from elf_pages_holds [OF s(1) R(1-3) v [unfolded P] o(3)] pool True obtain a where
      a: "elf_pages (seg_start f ph) (seg_stop f ph) s = Inr (False, a)" "holds a (V \<union> ?P) (\<lambda>a. if a \<in> ?P then 0 else g a)"
        "mem_only s a" "pmm_pool a \<subseteq> pmm_pool s" "card (pmm_pool s) \<le> card (pmm_pool a) + 2 * seg_cost f ph"
      by (auto simp: seg_cost_def)
    have in_P: "?v + j \<in> ?P" if "j < ?z" for j using R(4) [of "?v + j"] that by simp
    have nP: "x \<notin> ?P" if "x \<in> A" for x using v s(2) that unfolding P by blast
    have dis: "\<not> ?o + j - ?v < ?n" if "j < ?n" for j
    proof
      assume "?o + j - ?v < ?n"
      then have "?o + j - ?v < ?z" using o(1) by (rule less_le_trans)
      then have "?v + (?o + j - ?v) \<in> ?P" by (rule in_P)
      moreover have "?v + (?o + j - ?v) = ?o + j" by simp
      ultimately show False using nP [OF o(4) [OF that]] by (simp only:)
    qed
    have "\<exists>b. elf_copy ?v ?o ?n a = Inr b \<and> holds b (V \<union> ?P) (\<lambda>x. if x - ?v < ?n then (\<lambda>a. if a \<in> ?P then 0 else g a) (?o + (x - ?v))
        else (\<lambda>a. if a \<in> ?P then 0 else g a) x) \<and> mem_same a b"
      unfolding elf_copy_def
    proof (rule um.copy_loop [OF a(2) _ dis])
      fix j assume "j < ?n"
      moreover from this have "j < ?z" using o(1) by (rule less_le_trans)
      ultimately show "?v + j \<in> V \<union> ?P \<and> ?o + j \<in> V \<union> ?P" using in_P o(4) s(2) by blast
    qed assumption
    then obtain b where b: "elf_copy ?v ?o ?n a = Inr b" "mem_same a b"
      "holds b (V \<union> ?P) (\<lambda>x. if x - ?v < ?n then if ?o + (x - ?v) \<in> ?P then 0 else g (?o + (x - ?v)) else if x \<in> ?P then 0 else g x)"
      by auto
    have "\<exists>t. elf_clear ?v ?n ?z b = Inr t \<and> holds t (V \<union> ?P) (\<lambda>x. if ?n \<le> x - ?v \<and> x - ?v < ?z then 0
        else (\<lambda>x. if x - ?v < ?n then if ?o + (x - ?v) \<in> ?P then 0 else g (?o + (x - ?v)) else if x \<in> ?P then 0 else g x) x) \<and> mem_same b t"
      unfolding elf_clear_def by (rule um.clear_loop [OF b(3) _ o(1)]) (use in_P in blast)
    then obtain t where t: "elf_clear ?v ?n ?z b = Inr t" "mem_same b t"
      "holds t (V \<union> ?P) (\<lambda>x. if ?n \<le> x - ?v \<and> x - ?v < ?z then 0
        else if x - ?v < ?n then if ?o + (x - ?v) \<in> ?P then 0 else g (?o + (x - ?v)) else if x \<in> ?P then 0 else g x)" by auto
    have "holds t (V \<union> ?P) (\<lambda>x. if x \<in> ?P then seg_byte f elf ph x else g x)"
    proof (rule holds_mono [OF t(3)])
      fix x
      have i: "x \<in> ?P" if "x - ?v < ?n" using R(4) [of x] less_le_trans [OF that o(1)] by blast
      have j: "?o + (x - ?v) \<notin> ?P" "g (?o + (x - ?v)) = f (?o + (x - ?v))" if "x - ?v < ?n" using o(4) [OF that] nP s(3) by blast+
      have k: "x \<in> ?P" if "x - ?v < ?z" using R(4) that by blast
      show "(if x \<in> ?P then seg_byte f elf ph x else g x) = (if ?n \<le> x - ?v \<and> x - ?v < ?z then 0
        else if x - ?v < ?n then if ?o + (x - ?v) \<in> ?P then 0 else g (?o + (x - ?v)) else if x \<in> ?P then 0 else g x)"
        using i j k by (simp add: seg_byte_def Let_def flip: not_less)
    qed simp
    moreover have "elf_segment elf ph s = Inr (False, t)"
      using hd True a(1) b(1) t(1) by (simp add: elf_segment_def loadable_def Let_def seg_start_def seg_stop_def)
    moreover have bt: "mem_same a t" by (rule mem_same_trans [OF b(2) t(2)])
    moreover have "mem_only s t" by (rule mem_only_trans [OF a(3) mem_same_only [OF bt]])
    ultimately show ?thesis using a(4,5) mem_same_fields(1) [OF bt] unfolding P by (intro exI [of _ t]) simp
  qed
qed

section \<open>All segments\<close>

text \<open>The header with number \<open>i\<close>, and what the first \<open>i\<close> headers ask for.\<close>

definition phdr :: "(u32 \<Rightarrow> u8) \<Rightarrow> u32 \<Rightarrow> nat \<Rightarrow> u32" where
  "phdr f elf i = elf + load32 f (elf + 28) + sizeof_Phdr * of_nat i"

definition all_pages :: "(u32 \<Rightarrow> u8) \<Rightarrow> u32 \<Rightarrow> nat \<Rightarrow> u32 set" where
  "all_pages f elf n = (\<Union>i<n. seg_pages f (phdr f elf i))"

definition all_cost :: "(u32 \<Rightarrow> u8) \<Rightarrow> u32 \<Rightarrow> nat \<Rightarrow> nat" where
  "all_cost f elf n = (\<Sum>i<n. seg_cost f (phdr f elf i))"

text \<open>An image that the loader can follow. No two segments have a page in common.\<close>

definition elf_image :: "u32 set \<Rightarrow> u32 \<Rightarrow> (u32 \<Rightarrow> u8) \<Rightarrow> u32 \<Rightarrow> nat \<Rightarrow> bool" where
  "elf_image A lim f elf n \<longleftrightarrow> quad elf \<union> quad (elf + 24) \<union> quad (elf + 28) \<union> {elf + 44, elf + 44 + 1} \<subseteq> A \<and>
     load32 f elf = ELF_MAGIC \<and> unat (le16 f (elf + 44)) = n \<and>
     (\<forall>i<n. seg_ok A lim f elf (phdr f elf i)) \<and>
     (\<forall>i<n. seg_pages f (phdr f elf i) \<inter> (A \<union> page 0xB0000000) = {}) \<and>
     (\<forall>i<n. \<forall>j<n. i \<noteq> j \<longrightarrow> seg_pages f (phdr f elf i) \<inter> seg_pages f (phdr f elf j) = {})"

lemma elf_imageD:
  assumes "elf_image A lim f elf n"
  shows "quad elf \<subseteq> A" "quad (elf + 24) \<subseteq> A" "quad (elf + 28) \<subseteq> A" "elf + 44 \<in> A" "elf + 44 + 1 \<in> A"
    "load32 f elf = ELF_MAGIC" "unat (le16 f (elf + 44)) = n" "i < n \<Longrightarrow> seg_ok A lim f elf (phdr f elf i)"
    "i < n \<Longrightarrow> seg_pages f (phdr f elf i) \<inter> (A \<union> page 0xB0000000) = {}"
    "i < n \<Longrightarrow> j < n \<Longrightarrow> i \<noteq> j \<Longrightarrow> seg_pages f (phdr f elf i) \<inter> seg_pages f (phdr f elf j) = {}"
  using assms unfolding elf_image_def by (blast, blast, blast, blast, blast, simp_all)

definition placed :: "(u32 \<Rightarrow> u8) \<Rightarrow> u32 \<Rightarrow> u32 set \<Rightarrow> nat \<Rightarrow> 'a vmm_scheme \<Rightarrow> 'a vmm_scheme \<Rightarrow> bool" where
  "placed f elf A i s t \<longleftrightarrow> mem_only s t \<and> pmm_pool t \<subseteq> pmm_pool s \<and> card (pmm_pool s) \<le> card (pmm_pool t) + 2 * all_cost f elf i \<and>
     (\<exists>g. holds t (A \<union> all_pages f elf i) g \<and> (\<forall>a\<in>A. g a = f a) \<and>
        (\<forall>k<i. \<forall>a\<in>seg_pages f (phdr f elf k). g a = seg_byte f elf (phdr f elf k) a))"

lemma placed_step:
  fixes s t :: "'a vmm_scheme"
  assumes im: "elf_image A (total_pages s) f elf n" and i: "i < n" and t: "placed f elf A i s t"
    and pool: "2 * all_cost f elf n \<le> card (pmm_pool s)"
  shows "\<exists>u. elf_segment elf (phdr f elf i) t = Inr (False, u) \<and> placed f elf A (Suc i) s u"
proof -
  let ?p = "phdr f elf i" and ?V = "A \<union> all_pages f elf i"
  from t obtain g where g: "mem_only s t" "pmm_pool t \<subseteq> pmm_pool s" "card (pmm_pool s) \<le> card (pmm_pool t) + 2 * all_cost f elf i"
    "holds t ?V g" "\<And>a. a \<in> A \<Longrightarrow> g a = f a" "\<And>k a. k < i \<Longrightarrow> a \<in> seg_pages f (phdr f elf k) \<Longrightarrow> g a = seg_byte f elf (phdr f elf k) a"
    unfolding placed_def by blast
  have ok: "seg_ok A (total_pages t) f elf ?p" using elf_imageD(8) [OF im i] mem_only_fields(1) [OF g(1)] by simp
  have dj: "seg_pages f (phdr f elf k) \<inter> seg_pages f ?p = {}" if "k < i" for k
    using elf_imageD(10) [OF im _ i, of k] i that by simp
  have v: "?V \<inter> seg_pages f ?p = {}"
    using elf_imageD(9) [OF im i] dj unfolding all_pages_def by blast
  have c: "all_cost f elf (Suc i) = all_cost f elf i + seg_cost f ?p" by (simp add: all_cost_def)
  have "all_cost f elf (Suc i) \<le> all_cost f elf n" unfolding all_cost_def using i by (intro sum_mono2) auto
  then have "2 * seg_cost f ?p \<le> card (pmm_pool t)" using pool g(3) c by linarith
  from elf_segment_holds [OF g(4) _ g(5) ok v this] obtain u where
    u: "elf_segment elf ?p t = Inr (False, u)" "mem_only t u" "pmm_pool u \<subseteq> pmm_pool t"
      "holds u (?V \<union> seg_pages f ?p) (\<lambda>a. if a \<in> seg_pages f ?p then seg_byte f elf ?p a else g a)"
      "card (pmm_pool t) \<le> card (pmm_pool u) + 2 * seg_cost f ?p" by auto
  let ?g = "\<lambda>a. if a \<in> seg_pages f ?p then seg_byte f elf ?p a else g a"
  have "all_pages f elf (Suc i) = all_pages f elf i \<union> seg_pages f ?p" by (auto simp: all_pages_def less_Suc_eq)
  then have "holds u (A \<union> all_pages f elf (Suc i)) ?g" using u(4) by (simp add: Un_assoc)
  moreover have "\<forall>a\<in>A. ?g a = f a" using v g(5) by auto
  moreover have "\<forall>k<Suc i. \<forall>a\<in>seg_pages f (phdr f elf k). ?g a = seg_byte f elf (phdr f elf k) a"
    using g(6) dj by (auto simp: less_Suc_eq)
  ultimately have "placed f elf A (Suc i) s u"
    unfolding placed_def using mem_only_trans [OF g(1) u(2)] g(2,3) u(3,5) c by (intro conjI exI [of _ ?g]) auto
  then show ?thesis using u(1) by blast
qed

lemma elf_segments_placed:
  fixes s t :: "'a vmm_scheme"
  assumes im: "elf_image A (total_pages s) f elf n" and pool: "2 * all_cost f elf n \<le> card (pmm_pool s)"
    and t: "placed f elf A i s t" and i: "i \<le> n" "n < i + m"
  shows "\<exists>u. elf_segments m elf (elf + load32 f (elf + 28)) (of_nat i) t = Inr (False, u) \<and> placed f elf A n s u"
  using t i
proof (induction m arbitrary: i t)
  case (Suc m)
  obtain g where g: "holds t (A \<union> all_pages f elf i) g" "\<And>a. a \<in> A \<Longrightarrow> g a = f a" using Suc.prems(1) by (auto simp: placed_def)
  note A = elf_imageD(4,5) [OF im] and n = elf_imageD(7) [OF im]
  have "le16 g (elf + 44) = le16 f (elf + 44)" using g(2) A by (simp add: le16_def)
  then have ph: "e_phnum t elf = Inr (le16 f (elf + 44))" using holds_load16 [OF g(1)] A by (simp add: e_phnum_def)
  have nb: "n < 65536" using unsigned_less [of "le16 f (elf + 44)", where ?'a = nat] n by simp
  have ui: "unat (of_nat i :: u32) = i" using nb Suc.prems(2) by (intro unat_of_nat_u32) simp
  have un: "unat (ucast (le16 f (elf + 44)) :: u32) = n" using n nb by (simp add: unsigned_ucast_eq take_bit_nat_eq_self_iff)
  have lt: "(of_nat i :: u32) < ucast (le16 f (elf + 44)) \<longleftrightarrow> i < n" unfolding word_less_nat_alt ui un ..
  show ?case
  proof (cases "i < n")
    case False
    then show ?thesis using ph lt Suc.prems by auto
  next
    case True
    from placed_step [OF im True Suc.prems(1) pool] obtain u where
      u: "elf_segment elf (phdr f elf i) t = Inr (False, u)" "placed f elf A (Suc i) s u" by blast
    show ?thesis using Suc.IH [OF u(2)] True Suc.prems(3) ph lt u(1) by (simp add: phdr_def add.commute [of 1])
  qed
qed simp

section \<open>elf_load\<close>

text \<open>The page of the stack is cleared at the address of its frame.\<close>

lemma holds_zero_frame:
  fixes s :: "'a vmm_scheme"
  assumes s: "holds s (V \<union> page v) g" "V \<inter> page v = {}" and p: "p \<in> pmm_managed s" "\<forall>a\<in>page v. loc s a = p + (a AND 0xFFF)" "aligned_page v"
  shows "\<exists>t. zero_page p s = Inr t \<and> holds t (V \<union> page v) (\<lambda>a. if a \<in> page v then 0 else g a) \<and> mem_same s t"
proof -
  note H = holdsD [OF s(1)]
  have al: "aligned_page p" by (rule managed_aligned [OF p(1)])
  have fr: "loc s a AND 0xFFFFF000 = p" if "a \<in> page v" for a
    using p(2) that base_plus_high [OF al low_bits_small, of a] by (simp add: page_mask)
  have "v \<in> page v" by (simp add: page_def)
  then have np: "p \<notin> tables (phys_mem s) (cur s)" using H(6) [of v] fr by auto
  have "direct s" using H(1) by (simp add: vm_core_def)
  from zero_table_effect [OF this p(1) np] obtain m where
    m: "zero_table p s = Inr (s\<lparr>phys_mem := m\<rparr>)"
      "\<And>h k. aligned_page h \<Longrightarrow> k < 1024 \<Longrightarrow> mword m h k = (if h = p then 0 else mword (phys_mem s) h k)" by blast
  have o: "m q = phys_mem s q" if "q AND 0xFFFFF000 \<noteq> p" for q
    by (rule frame_bytes) (use m(2) [OF masked_aligned] that in simp)
  have z: "m q = 0" if "q AND 0xFFFFF000 = p" for q
  proof -
    have "mword (\<lambda>_. 0) h j = 0" for h j by (simp add: mword_def load32_def)
    then have "m q = (\<lambda>_. 0) q" using m(2) [OF al] that by (intro frame_bytes) simp
    then show ?thesis by simp
  qed
  have "loc s a AND 0xFFFFF000 \<noteq> p" if a: "a \<in> V" for a
  proof
    assume e: "loc s a AND 0xFFFFF000 = p"
    let ?b = "v + (a AND 0xFFF)"
    have "take_bit 12 (loc s a) = a AND 0xFFF" using walk_splits(2) [OF H(4), of a] a by (simp add: offset_mask)
    then have l: "loc s a = p + (a AND 0xFFF)" using split_base_low [of "loc s a" 12] e by (simp add: page_mask)
    have "a AND 0xFFF < 0x1000" using take_bit_nat_less_exp [of 12 "unat a"] by (simp add: offset_mask word_less_nat_alt unsigned_take_bit_eq)
    then have b: "?b \<in> page v" by (simp add: page_def)
    have "?b AND 0xFFF = a AND 0xFFF" using base_plus_low [OF p(3) low_bits_small, of a] by (simp add: offset_mask)
    then have "loc s ?b = loc s a" using p(2) b l by simp
    then show False using H(8) [of ?b a] a b s(2) by auto
  qed
  then have "m (loc s a) = (if a \<in> page v then 0 else g a)" if "a \<in> V \<union> page v" for a using H(7) [OF that] o z fr that by auto
  moreover have "q AND 0xFFFFF000 = p" if "m q \<noteq> phys_mem s q" for q using o that by blast
  ultimately have "holds (s\<lparr>phys_mem := m\<rparr>) (V \<union> page v) (\<lambda>a. if a \<in> page v then 0 else g a)"
    using np by (intro holds_write [OF s(1)]) auto
  moreover have "zero_page p s = zero_table p s" by (simp add: zero_page_def zero_table_def entry_at_def)
  ultimately show ?thesis using m(1) by (intro exI [of _ "s\<lparr>phys_mem := m\<rparr>"]) (simp add: mem_same_def)
qed

lemma elf_load_effect:
  fixes s :: "'a vmm_scheme"
  assumes h: "holds s A f" and im: "elf_image A (total_pages s) f elf n" and st: "A \<inter> page 0xB0000000 = {}" "total_pages s \<le> 0xB0000"
    and pool: "2 * all_cost f elf n + 2 \<le> card (pmm_pool s)"
  shows "\<exists>t g. elf_load elf s = Inr (Some (load32 f (elf + 24), 0xB0001000), t) \<and> mem_only s t \<and> pmm_pool t \<subseteq> pmm_pool s \<and>
    holds t (A \<union> all_pages f elf n \<union> page 0xB0000000) g \<and> (\<forall>a\<in>A. g a = f a) \<and> (\<forall>a\<in>page 0xB0000000. g a = 0) \<and>
    (\<forall>i<n. \<forall>a\<in>seg_pages f (phdr f elf i). g a = seg_byte f elf (phdr f elf i) a)"
proof -
  let ?S = "0xB0000000 :: u32"
  note I = elf_imageD [OF im]
  have hd: "e_magic s elf = Inr ELF_MAGIC" "e_entry s elf = Inr (load32 f (elf + 24))" "e_phoff s elf = Inr (load32 f (elf + 28))"
    using holds_load32 [OF h] I(1-3,6) by (simp_all add: e_magic_def e_entry_def e_phoff_def)
  have "placed f elf A 0 s s" using h by (auto simp: placed_def all_pages_def)
  moreover have "n < 0 + phdr_bound" using unsigned_less [of "le16 f (elf + 44)", where ?'a = nat] I(7) by (simp add: phdr_bound_def)
  ultimately obtain t where t: "elf_segments phdr_bound elf (elf + load32 f (elf + 28)) 0 s = Inr (False, t)" "placed f elf A n s t"
    using elf_segments_placed [OF im, of 0 s phdr_bound] pool by auto
  from t(2) obtain g where g: "mem_only s t" "pmm_pool t \<subseteq> pmm_pool s" "card (pmm_pool s) \<le> card (pmm_pool t) + 2 * all_cost f elf n"
    "holds t (A \<union> all_pages f elf n) g" "\<And>a. a \<in> A \<Longrightarrow> g a = f a"
    "\<And>k a. k < n \<Longrightarrow> a \<in> seg_pages f (phdr f elf k) \<Longrightarrow> g a = seg_byte f elf (phdr f elf k) a" unfolding placed_def by blast
  have al: "aligned_page ?S" by (simp add: take_bit_zero_iff)
  have dj: "(A \<union> all_pages f elf n) \<inter> page ?S = {}" using st(1) I(9) unfolding all_pages_def by blast
  have tp: "total_pages t \<le> ?S div PAGE_SIZE" using st(2) mem_only_fields(1) [OF g(1)] by (simp add: PAGE_SIZE_def)
  have cp: "2 \<le> card (pmm_pool t)" using g(3) pool by linarith
  from holds_alloc [OF g(4) al dj tp cp user_flags] obtain p u k where
    u: "vmm_alloc_page ?S (VMM_USER OR VMM_WRITABLE) t = Inr (p, u)" "p \<noteq> 0" "p \<in> pmm_managed u"
      "holds u (A \<union> all_pages f elf n \<union> page ?S) k" "\<forall>a\<in>A \<union> all_pages f elf n. k a = g a" "mem_only t u"
      "pmm_pool u \<subseteq> pmm_pool t" "\<forall>a\<in>page ?S. loc u a = p + (a AND 0xFFF)" by (elim exE conjE)
  from holds_zero_frame [OF u(4) dj u(3,8) al] obtain w where
    w: "zero_page p u = Inr w" "holds w (A \<union> all_pages f elf n \<union> page ?S) (\<lambda>a. if a \<in> page ?S then 0 else k a)" "mem_same u w" by blast
  let ?g = "\<lambda>a. if a \<in> page ?S then 0 else k a"
  have "elf_load elf s = Inr (Some (load32 f (elf + 24), 0xB0001000), w)"
    using hd t(1) u(1,2) w(1) by (simp add: elf_load_def)
  moreover have "mem_only s w" by (rule mem_only_trans [OF mem_only_trans [OF g(1) u(6)] mem_same_only [OF w(3)]])
  moreover have "pmm_pool w \<subseteq> pmm_pool s" using g(2) u(7) mem_same_fields(1) [OF w(3)] by auto
  moreover have "\<forall>a\<in>A. ?g a = f a" using dj u(5) g(5) by auto
  moreover have "?g a = seg_byte f elf (phdr f elf i) a" if "i < n" "a \<in> seg_pages f (phdr f elf i)" for i a
  proof -
    have "a \<in> all_pages f elf n" using that by (auto simp: all_pages_def)
    then show ?thesis using dj u(5) g(6) [OF that] by auto
  qed
  ultimately show ?thesis using w(2) by (intro exI [of _ w] exI [of _ ?g]) simp
qed

text \<open>C16: the loader. For an image in memory with the ELF magic whose segments lie above the memory of the machine, on pages
  of their own, and with enough free frames, \<open>elf_load\<close> returns the entry point and the top of the stack. Afterwards the
  current address space has the bytes of the file at their addresses and zeros in the rest of the pages of each segment,
  the page of the stack is there and cleared, and the image is as before.\<close>

theorem elf_load_places:
  fixes s :: "'a vmm_scheme"
  assumes "holds s A f" "elf_image A (total_pages s) f elf n" "A \<inter> page 0xB0000000 = {}" "total_pages s \<le> 0xB0000"
    and "2 * all_cost f elf n + 2 \<le> card (pmm_pool s)"
  shows "\<exists>t. elf_load elf s = Inr (Some (load32 f (elf + 24), 0xB0001000), t) \<and> mem_only s t \<and> pmm_pool t \<subseteq> pmm_pool s \<and>
    (\<forall>i<n. \<forall>a\<in>seg_pages f (phdr f elf i). vload8 t a = Inr (seg_byte f elf (phdr f elf i) a)) \<and>
    (\<forall>a\<in>page 0xB0000000. vload8 t a = Inr 0) \<and> (\<forall>a\<in>A. vload8 t a = Inr (f a)) \<and> vm_core t (cur s)"
proof -
  from elf_load_effect [OF assms] obtain t g where
    t: "elf_load elf s = Inr (Some (load32 f (elf + 24), 0xB0001000), t)" "mem_only s t" "pmm_pool t \<subseteq> pmm_pool s"
    and h: "holds t (A \<union> all_pages f elf n \<union> page 0xB0000000) g"
    and g: "\<forall>a\<in>A. g a = f a" "\<forall>a\<in>page 0xB0000000. g a = 0" "\<forall>i<n. \<forall>a\<in>seg_pages f (phdr f elf i). g a = seg_byte f elf (phdr f elf i) a"
    by (elim exE conjE)
  have "vload8 t a = Inr (seg_byte f elf (phdr f elf i) a)" if "i < n" "a \<in> seg_pages f (phdr f elf i)" for i a
    using holds_load8 [OF h, of a] g(3) that by (auto simp: all_pages_def)
  moreover have "vm_core t (cur s)" using holdsD(1) [OF h] mem_only_fields(2) [OF t(2)] by simp
  ultimately show ?thesis using t g(1,2) holds_load8 [OF h] by auto
qed

section \<open>Example\<close>

text \<open>An image of one segment: two bytes of code at 0x08048000, eight bytes in memory.\<close>

definition demo_image :: "u32 \<Rightarrow> u8" where
  "demo_image = (\<lambda>_. 0)(0 := 0x7F, 1 := 0x45, 2 := 0x4C, 3 := 0x46, 25 := 0x80, 26 := 0x04, 27 := 0x08, 28 := 52, 44 := 1,
     52 := 1, 56 := 84, 61 := 0x80, 62 := 0x04, 63 := 0x08, 68 := 2, 72 := 8, 84 := 0xCD, 85 := 0x80)"

lemma demo_image_words:
  fixes a :: u32
  defines "f \<equiv> \<lambda>x. demo_image (x - a)"
  shows "load32 f a = ELF_MAGIC" "load32 f (a + 24) = 0x08048000" "load32 f (a + 28) = 52" "le16 f (a + 44) = 1"
    "load32 f (a + 52) = 1" "load32 f (a + 56) = 84" "load32 f (a + 60) = 0x08048000" "load32 f (a + 68) = 2" "load32 f (a + 72) = 8"
    "f (a + 84) = 0xCD" "f (a + 85) = 0x80"
proof -
  have l: "load32 f (a + c) = load32 demo_image c" "le16 f (a + c) = le16 demo_image c" for c
    by (simp_all add: f_def load32_def le16_def algebra_simps)
  show "load32 f a = ELF_MAGIC" using l(1) [of 0] by (simp add: load32_def demo_image_def ELF_MAGIC_def)
  show "load32 f (a + 24) = 0x08048000" "load32 f (a + 28) = 52" "load32 f (a + 52) = 1" "load32 f (a + 56) = 84"
    "load32 f (a + 60) = 0x08048000" "load32 f (a + 68) = 2" "load32 f (a + 72) = 8"
    unfolding l by (simp_all add: load32_def demo_image_def)
  show "le16 f (a + 44) = 1" unfolding l by (simp add: le16_def demo_image_def)
  show "f (a + 84) = 0xCD" "f (a + 85) = 0x80" by (simp_all add: f_def demo_image_def)
qed

text \<open>A machine of 16 frames after \<open>vmm_init\<close>, with the image in a frame of its own.\<close>

lemma demo_loaded:
  "\<exists>(s :: vmm) a. holds s (page a) (\<lambda>x. demo_image (x - a)) \<and> total_pages s = 16 \<and> 12 \<le> card (pmm_pool s) \<and> aligned_page a \<and> a \<in> pmm_managed s"
proof -
  have d: "pmm_inv (demo_vm 16)" "\<not> paging (demo_vm 16)"
    "unat ((total_pages (demo_vm 16) + 1023) div 1024) < card (pmm_pool (demo_vm 16))"
    using demo_vm_inv [of 16] by (simp_all add: demo_vm_fields)
  from vmm_init_effect [OF d] obtain pd and t :: vmm where
    b: "current_page_directory t = pd" "cr3 t = pd" "paging t" "vm_ok t pd" "total_pages t = total_pages (demo_vm 16)"
      "card (pmm_pool t) + unat ((total_pages (demo_vm 16) + 1023) div 1024) + 1 = card (pmm_pool (demo_vm 16))"
      "\<forall>v. v div PAGE_SIZE < total_pages (demo_vm 16) \<longrightarrow> walk (phys_mem t) pd v = Some v" by blast
  have "card (pmm_pool t) = 13" using b(6) demo_vm_inv [of 16] by (simp add: demo_vm_fields)
  note t = b(1-4) b(5) [unfolded demo_vm_fields] this b(7) [unfolded demo_vm_fields]
  have al: "aligned_page pd" using t(4) space_okD(3) by (auto simp: vm_ok_def)
  then have c: "cur t = pd" unfolding t(2) page_mask using base_plus_high [of 12 pd 0] by simp
  have o: "pmm_inv t" "direct t" "space_ok t pd" "tables (phys_mem t) pd \<inter> pmm_pool t = {}" using t(4) by (auto simp: vm_ok_def space_ok_def)
  obtain a u where au: "pmm_alloc_page t = (a, u)" by fastforce
  have "pmm_pool t \<noteq> {}" using t(6) by auto
  then have a0: "a \<noteq> 0" using fra.alloc_zero_iff [OF o(1)] au by simp
  note A = alloc_frame [OF o(1,2) au a0] and K = alloc_keeps [OF au] and M = mem_only_fields [OF mem_only_alloc [OF au]]
  have cu: "cur u = pd" using c M(2) by simp
  have core: "vm_core u pd" using alloc_prepared [OF o(1-3) au a0] vm_ok_core(1) [OF t(4)] c cu
    by (auto simp: vm_core_def prepared_def reachable_from_def)
  have w: "walk (phys_mem u) pd x = Some x" "x AND 0xFFFFF000 = a" if "x \<in> page a" for x
  proof -
    have s: "same_page a x" using that page_same [OF A(6)] by simp
    have aa: "a AND 0xFFFFF000 = a" unfolding page_mask using base_plus_high [OF A(6), of 0] by simp
    then show h: "x AND 0xFFFFF000 = a" using s by (simp add: same_page_def)
    have "x div PAGE_SIZE = a div PAGE_SIZE"
      using s by (metis same_page_def page_high page_div PAGE_SIZE_def drop_push)
    moreover have "a div PAGE_SIZE < 16" using A(5) M(1) t(5) by (simp add: pmm_managed_def)
    ultimately show "walk (phys_mem u) pd x = Some x" using t(7) K(1) by simp
  qed
  have l: "loc u x = x" if "x \<in> page a" for x using w(1) [OF that] cu by (simp add: loc_def)
  have "inj_on (loc u) (page a)" using l by (auto intro: inj_onI)
  then have "holds u (page a) (phys_mem u)"
    using core cu t(1,3) M(3,4) w l A(1,2) o(4) K(1) unfolding holds_def by auto
  then have "holds (u\<lparr>phys_mem := \<lambda>x. if x \<in> page a then demo_image (x - a) else phys_mem u x\<rparr>) (page a) (\<lambda>x. demo_image (x - a))"
  proof (rule holds_write)
    have "a \<notin> tables (phys_mem u) (cur u)" using A(1) o(4) K(1) cu by auto
    then show "p AND 0xFFFFF000 \<notin> tables (phys_mem u) (cur u)"
      if "(if p \<in> page a then demo_image (p - a) else phys_mem u p) \<noteq> phys_mem u p" for p
      using that w(2) [of p] by (auto split: if_splits)
  qed (simp add: l)
  moreover have "12 \<le> card (pmm_pool u)" using A(1,2) t(6) by simp
  ultimately show ?thesis using A(5,6) M(1) t(5)
    by (intro exI [of _ "u\<lparr>phys_mem := \<lambda>x. if x \<in> page a then demo_image (x - a) else phys_mem u x\<rparr>"] exI [of _ a]) simp
qed

lemma demo_elf_image:
  assumes a: "aligned_page a" "a div PAGE_SIZE < 16"
  shows "elf_image (page a) 16 (\<lambda>x. demo_image (x - a)) a 1" "all_cost (\<lambda>x. demo_image (x - a)) a 1 = 1"
    "phdr (\<lambda>x. demo_image (x - a)) a 0 = a + 52" "seg_pages (\<lambda>x. demo_image (x - a)) (a + 52) = page 0x08048000"
    "page a \<inter> page 0xB0000000 = {}"
proof -
  let ?f = "\<lambda>x. demo_image (x - a)"
  note W = demo_image_words [of a]
  show ph: "phdr ?f a 0 = a + 52" using W(3) by (simp add: phdr_def)
  have ld: "loadable ?f (a + 52)" using W(5) by (simp add: loadable_def PT_LOAD_def)
  have w: "load32 ?f (a + 52 + 4) = 84" "load32 ?f (a + 52 + 8) = 0x08048000" "load32 ?f (a + 52 + 16) = 2" "load32 ?f (a + 52 + 20) = 8"
    using W(6-9) by (simp_all add: add.assoc)
  have se: "seg_start ?f (a + 52) = 0x08048000" "seg_stop ?f (a + 52) = 0x08049000" unfolding seg_start_def seg_stop_def w by simp_all
  show pg: "seg_pages ?f (a + 52) = page 0x08048000" using ld by (simp add: seg_pages_def se pages_of_def page_def)
  show "all_cost ?f a 1 = 1" using ld by (simp add: all_cost_def ph seg_cost_def se)
  have dj: "page a \<inter> page v = {}" if "aligned_page v" "\<not> v div PAGE_SIZE < 16" for v
    using page_same [OF a(1)] page_same [OF that(1)] a(2) that(2) unfolding same_page_def
    by (metis (no_types, lifting) PAGE_SIZE_def disjoint_iff drop_push page_div page_high)
  show s: "page a \<inter> page 0xB0000000 = {}" by (rule dj) (simp_all add: take_bit_zero_iff PAGE_SIZE_def)
  have t: "page a \<inter> page 0x08048000 = {}" by (rule dj) (simp_all add: take_bit_zero_iff PAGE_SIZE_def)
  have st: "page 0x08048000 \<inter> page 0xB0000000 = {}"
    using page_same [of "0x08048000"] page_same [of "0xB0000000"] by (auto simp: take_bit_zero_iff same_page_def)
  have in_page: "a + c \<in> page a" if "c < 0x1000" for c using that by (simp add: page_def)
  have q: "quad (a + c) \<subseteq> page a" if "c < 0x1000" "c + 1 < 0x1000" "c + 2 < 0x1000" "c + 3 < 0x1000" for c
    using that [THEN in_page] unfolding quad_def by (simp add: add.assoc)
  have sz: "\<forall>j < 2. a + 84 + j \<in> page a"
  proof (intro allI impI)
    fix j :: u32 assume "j < 2"
    then have "unat j < 2" by (simp add: word_less_nat_alt)
    then have "unat (84 + j) = 84 + unat j" by (subst unat_sum) simp_all
    with \<open>unat j < 2\<close> have "84 + j < 0x1000" by (simp add: word_less_nat_alt)
    then show "a + 84 + j \<in> page a" using in_page [of "84 + j"] by (simp only: add.assoc)
  qed
  have hq: "quad (a + 52) \<union> quad (a + 52 + 4) \<union> quad (a + 52 + 8) \<union> quad (a + 52 + 16) \<union> quad (a + 52 + 20) \<subseteq> page a"
    using q [of 52] q [of 56] q [of 60] q [of 68] q [of 72] by (simp add: add.assoc)
  have ok: "seg_ok (page a) 16 ?f a (a + 52)"
    unfolding seg_ok_def w se by (intro conjI impI hq sz) (simp_all add: PAGE_SIZE_def)
  have "quad a \<union> quad (a + 24) \<union> quad (a + 28) \<union> {a + 44, a + 44 + 1} \<subseteq> page a"
    using q [of 0] q [of 24] q [of 28] by (simp add: page_def add.assoc)
  moreover have "page 0x08048000 \<inter> (page a \<union> page 0xB0000000) = {}" using t st by blast
  ultimately show "elf_image (page a) 16 ?f a 1"
    using W(1,4) ok unfolding elf_image_def by (simp add: ph pg)
qed

theorem elf_load_places_witness:
  "\<exists>(s :: vmm) (t :: vmm) elf. elf_load elf s = Inr (Some (0x08048000, 0xB0001000), t) \<and>
    vload8 t 0x08048000 = Inr 0xCD \<and> vload8 t 0x08048001 = Inr 0x80 \<and> vload8 t 0x08048002 = Inr 0 \<and> vload8 t 0xB0000FFF = Inr 0"
proof -
  obtain s :: vmm and a where s: "holds s (page a) (\<lambda>x. demo_image (x - a))" "total_pages s = 16" "12 \<le> card (pmm_pool s)"
    "aligned_page a" "a \<in> pmm_managed s" using demo_loaded by blast
  let ?f = "\<lambda>x. demo_image (x - a)"
  note W = demo_image_words [of a]
  have "a div PAGE_SIZE < 16" using s(2,5) by (simp add: pmm_managed_def)
  note D = demo_elf_image [OF s(4) this]
  have pool: "2 * all_cost ?f a 1 + 2 \<le> card (pmm_pool s)" "total_pages s \<le> 0xB0000" using s(2,3) D(2) by simp_all
  from elf_load_places [OF s(1) D(1) [folded s(2)] D(5) pool(2,1)] obtain t where
    t: "elf_load a s = Inr (Some (load32 ?f (a + 24), 0xB0001000), t)"
      "\<forall>i<1. \<forall>x\<in>seg_pages ?f (phdr ?f a i). vload8 t x = Inr (seg_byte ?f a (phdr ?f a i) x)" "\<forall>x\<in>page 0xB0000000. vload8 t x = Inr 0"
    by blast
  have v: "vload8 t x = Inr (seg_byte ?f a (a + 52) x)" if "x \<in> page 0x08048000" for x using t(2) that D(3,4) by simp
  have w: "load32 ?f (a + 52 + 4) = 84" "load32 ?f (a + 52 + 8) = 0x08048000" "load32 ?f (a + 52 + 16) = 2"
    using W(6-8) by (simp_all add: add.assoc)
  have "vload8 t 0x08048000 = Inr 0xCD" "vload8 t 0x08048001 = Inr 0x80" "vload8 t 0x08048002 = Inr 0"
    using v [of "0x08048000"] v [of "0x08048001"] v [of "0x08048002"] W(10,11)
    unfolding seg_byte_def w by (simp_all add: page_def Let_def add.assoc)
  moreover have "vload8 t 0xB0000FFF = Inr 0" using t(3) by (simp add: page_def)
  ultimately show ?thesis using t(1) W(2) by auto
qed

end
