(* ===== verification/Boot_Props.thy ===== *)
theory Boot_Props
  imports Boot Panic
begin

text \<open>
  Properties of code that works without the heap: the loop over the boot information of
  src/src/boot/boot.c ends on every well-formed list of tags and reads each tag once, and the messages
  of src/src/kernel/panic.c fit their buffers.
\<close>

section \<open>The tags of the boot information\<close>

definition tag_size :: "memory \<Rightarrow> u32 \<Rightarrow> u32 \<Rightarrow> u32" where
  "tag_size m info pos = load32 m (info + pos + 4)"

text \<open>There is a tag at \<open>pos\<close>, and it is not the last one.\<close>

definition tag_here :: "memory \<Rightarrow> u32 \<Rightarrow> u32 \<Rightarrow> bool" where
  "tag_here m info pos \<longleftrightarrow> pos < load32 m info \<and> load32 m (info + pos) \<noteq> 0"

definition next_tag :: "memory \<Rightarrow> u32 \<Rightarrow> u32 \<Rightarrow> u32" where
  "next_tag m info pos = pos + ((tag_size m info pos + 7) AND NOT 7)"

text \<open>The positions that the loop visits: the tags lie one behind the other, each aligned to 8 bytes.\<close>

inductive tag_pos :: "memory \<Rightarrow> u32 \<Rightarrow> u32 \<Rightarrow> bool" for m info where
  tag_first: "tag_pos m info 8"
| tag_next: "tag_pos m info pos \<Longrightarrow> tag_here m info pos \<Longrightarrow> tag_pos m info (next_tag m info pos)"

text \<open>Every tag has at least its own header and ends within the block.\<close>

definition tags_ok :: "memory \<Rightarrow> u32 \<Rightarrow> bool" where
  "tags_ok m info \<longleftrightarrow> unat (load32 m info) \<le> 0xFFFFFFF8 \<and>
     (\<forall>pos. tag_pos m info pos \<longrightarrow> tag_here m info pos \<longrightarrow>
        8 \<le> tag_size m info pos \<and> unat pos + unat (tag_size m info pos) \<le> unat (load32 m info))"

lemma boot_tags_step:
  "boot_tags m info pos b =
    (if tag_here m info pos then boot_tags m info (next_tag m info pos) (read_tag m (info + pos) b) else Some b)"
  by (subst boot_tags.simps) (simp add: tag_here_def next_tag_def tag_size_def Let_def)

lemma next_tag_later:
  assumes "tags_ok m info" "tag_pos m info pos" "tag_here m info pos"
  shows "unat pos + 8 \<le> unat (next_tag m info pos)" "unat (next_tag m info pos) \<le> unat (load32 m info) + 7"
proof -
  let ?n = "tag_size m info pos"
  have n: "8 \<le> unat ?n" "unat pos + unat ?n \<le> unat (load32 m info)" "unat (load32 m info) \<le> 0xFFFFFFF8"
    using assms by (auto simp: tags_ok_def word_le_nat_alt)
  have u: "unat (?n + 7) = unat ?n + 7" using n by (simp add: unat_word_ariths)
  have r: "unat ((?n + 7) AND NOT 7) = 8 * ((unat ?n + 7) div 8)" using round_up_8 [of "?n + 7"] u
    by (simp only: minus_mod_eq_mult_div)
  have e: "8 * ((unat ?n + 7) div 8) \<le> unat ?n + 7" "unat ?n \<le> 8 * ((unat ?n + 7) div 8)" by linarith+
  have "unat (next_tag m info pos) = unat pos + 8 * ((unat ?n + 7) div 8)"
    unfolding next_tag_def using r e(1) n by (simp add: unat_word_ariths)
  then show "unat pos + 8 \<le> unat (next_tag m info pos)" "unat (next_tag m info pos) \<le> unat (load32 m info) + 7"
    using n e by linarith+
qed

lemma tags_read:
  assumes ok: "tags_ok m info" and p: "tag_pos m info pos"
  shows "\<exists>ps. (\<forall>b. boot_tags m info pos b = Some (fold (\<lambda>p. read_tag m (info + p)) ps b)) \<and>
    sorted_wrt (<) ps \<and> (\<forall>q\<in>set ps. pos \<le> q \<and> tag_pos m info q \<and> tag_here m info q) \<and>
    (tag_here m info pos \<longrightarrow> pos \<in> set ps) \<and> (\<forall>q\<in>set ps. tag_here m info (next_tag m info q) \<longrightarrow> next_tag m info q \<in> set ps)"
  using p
proof (induction "unat (load32 m info) + 7 - unat pos" arbitrary: pos rule: less_induct)
  case less
  show ?case
  proof (cases "tag_here m info pos")
    case False
    then show ?thesis by (intro exI [of _ "[]"]) (simp add: boot_tags_step)
  next
    case True
    let ?q = "next_tag m info pos"
    note N = next_tag_later [OF ok less.prems True]
    have q: "tag_pos m info ?q" by (rule tag_next [OF less.prems True])
    have "unat (load32 m info) + 7 - unat ?q < unat (load32 m info) + 7 - unat pos" using N by linarith
    from less.hyps [OF this q] obtain ps where
      ps: "\<forall>b. boot_tags m info ?q b = Some (fold (\<lambda>p. read_tag m (info + p)) ps b)" "sorted_wrt (<) ps"
        "\<forall>r\<in>set ps. ?q \<le> r \<and> tag_pos m info r \<and> tag_here m info r" "tag_here m info ?q \<longrightarrow> ?q \<in> set ps"
        "\<forall>r\<in>set ps. tag_here m info (next_tag m info r) \<longrightarrow> next_tag m info r \<in> set ps" by blast
    have lt: "pos < ?q" using N(1) by (simp add: word_less_nat_alt)
    have "\<forall>b. boot_tags m info pos b = Some (fold (\<lambda>p. read_tag m (info + p)) (pos # ps) b)"
      using ps(1) True by (simp add: boot_tags_step [of m info pos])
    moreover have "sorted_wrt (<) (pos # ps)" using ps(2,3) lt by (auto intro: less_le_trans)
    moreover have "\<forall>r\<in>set (pos # ps). pos \<le> r \<and> tag_pos m info r \<and> tag_here m info r"
      using ps(3) lt less.prems True by (auto intro: order_trans [OF less_imp_le])
    ultimately show ?thesis using ps(4,5) by (intro exI [of _ "pos # ps"]) simp
  qed
qed

text \<open>A tag whose size field is 0 is read again and again.\<close>

lemma boot_tags_stuck:
  assumes "tag_here m info pos" "tag_size m info pos = 0"
  shows "boot_tags m info pos b = None"
proof (rule ccontr)
  assume "boot_tags m info pos b \<noteq> None"
  then obtain y where "boot_tags m info pos b = Some y" by blast
  then have "\<not> (tag_here m info pos \<and> tag_size m info pos = 0)"
  proof (rule boot_tags.raw_induct [rotated, where P = "\<lambda>m info pos b y. \<not> (tag_here m info pos \<and> tag_size m info pos = 0)"])
    fix f :: "memory \<Rightarrow> u32 \<Rightarrow> u32 \<Rightarrow> boot \<Rightarrow> boot option" and m info pos b y
    assume IH: "\<And>m info pos b y. f m info pos b = Some y \<Longrightarrow> \<not> (tag_here m info pos \<and> tag_size m info pos = 0)"
      and e: "(if pos < load32 m info
        then let tag = info + pos
             in if load32 m tag = 0 then Some b
                else f m info (pos + ((load32 m (tag + 4) + 7) AND NOT 7)) (read_tag m tag b)
        else Some b) = Some y"
    show "\<not> (tag_here m info pos \<and> tag_size m info pos = 0)"
    proof
      assume a: "tag_here m info pos \<and> tag_size m info pos = 0"
      then have "f m info pos (read_tag m (info + pos) b) = Some y"
        using e by (simp add: tag_here_def tag_size_def Let_def)
      from IH [OF this] a show False by blast
    qed
  qed
  with assms show False by blast
qed

text \<open>C26: the loop over the boot information ends on every well-formed list of tags, and reads exactly
  the tags before the last one, each once and in the order of their positions.\<close>

theorem start_kernel_reads_tags:
  assumes "tags_ok m info"
  shows "\<exists>ps. start_kernel m info = Some (fold (\<lambda>p. read_tag m (info + p)) ps
      \<lparr>boot_info = no_info, module_start = 0, module_end = 0, mod_count = 0\<rparr>) \<and>
    sorted_wrt (<) ps \<and> set ps = {p. tag_pos m info p \<and> tag_here m info p}"
proof -
  from tags_read [OF assms tag_first] obtain ps where
    ps: "\<And>b. boot_tags m info 8 b = Some (fold (\<lambda>p. read_tag m (info + p)) ps b)" "sorted_wrt (<) ps"
      "\<And>q. q \<in> set ps \<Longrightarrow> tag_pos m info q \<and> tag_here m info q" "tag_here m info 8 \<Longrightarrow> 8 \<in> set ps"
      "\<And>q. q \<in> set ps \<Longrightarrow> tag_here m info (next_tag m info q) \<Longrightarrow> next_tag m info q \<in> set ps" by blast
  have "tag_here m info p \<Longrightarrow> p \<in> set ps" if "tag_pos m info p" for p
    using that by (induction rule: tag_pos.induct) (auto intro: ps(4,5))
  then have "set ps = {p. tag_pos m info p \<and> tag_here m info p}" using ps(3) by blast
  then show ?thesis using ps(1,2) by (auto simp: start_kernel_def)
qed

section \<open>The buffers of the panic screen\<close>

lemma put_upto_length: "length msg \<le> 251 \<Longrightarrow> length (put_upto xs msg) \<le> 251"
  by (simp add: put_upto_def)

lemma fmt_msg_loop_length: "length msg \<le> 251 \<Longrightarrow> length (fst (fmt_msg_loop fmt args msg)) \<le> 251"
  by (induction fmt args msg rule: fmt_msg_loop.induct)
    (auto simp: Let_def put_upto_length split: list.splits parg.splits)

text \<open>C35: the message that \<open>fmt_msg\<close> builds has at most 251 characters, whatever the format and the
  arguments are, so it ends within the 256 bytes of its buffer; a number in hexadecimal takes at most 10
  characters, is printed as vprintf prints it and reads back as the number.\<close>

theorem panic_message_fits:
  "length (fst (fmt_msg fmt args)) \<le> 251 \<and> length (hex_str v) \<le> 10 \<and> hex_str v = ''0x'' @ fmt_x v \<and>
    read_digits 16 (drop 2 (hex_str v)) = unat v"
proof -
  have "hex_str v = ''0x'' @ fmt_x v" by (simp only: hex_str_def fmt_x_def)
  then show ?thesis using fmt_msg_loop_length [of "[]" fmt args] fmt_x_reads [of v] by (simp add: fmt_msg_def)
qed

section \<open>Example\<close>

text \<open>A block of 32 bytes with a command line and the last tag.\<close>

definition demo_tags :: memory where
  "demo_tags = (\<lambda>a. if a = 0x1000 then 32 else if a = 0x1008 then 1 else if a = 0x100C then 16 else 0)"

lemma demo_tag_words: "load32 demo_tags 0x1000 = 32" "load32 demo_tags 0x1008 = 1" "load32 demo_tags 0x100C = 16"
    "load32 demo_tags 0x1018 = 0"
  by (simp_all add: load32_def demo_tags_def)

lemma demo_tag_here: "tag_here demo_tags 0x1000 8" "\<not> tag_here demo_tags 0x1000 24" "next_tag demo_tags 0x1000 8 = 24"
    "tag_size demo_tags 0x1000 8 = 16"
  by (simp_all add: tag_here_def next_tag_def tag_size_def demo_tag_words)

lemma demo_tag_pos: "tag_pos demo_tags 0x1000 p \<Longrightarrow> p = 8 \<or> p = 24"
  by (induction rule: tag_pos.induct) (auto simp: demo_tag_here)

theorem start_kernel_reads_tags_witness:
  "\<exists>b. start_kernel demo_tags 0x1000 = Some b \<and> cmdline (boot_info b) = 0x1010"
proof -
  have "pos = 8" if "tag_pos demo_tags 0x1000 pos" "tag_here demo_tags 0x1000 pos" for pos
    using demo_tag_pos [OF that(1)] that(2) demo_tag_here(2) by auto
  then have "tags_ok demo_tags 0x1000"
    unfolding tags_ok_def by (fastforce simp: demo_tag_words demo_tag_here)
  from start_kernel_reads_tags [OF this] obtain ps where
    ps: "start_kernel demo_tags 0x1000 = Some (fold (\<lambda>p. read_tag demo_tags (0x1000 + p)) ps
        \<lparr>boot_info = no_info, module_start = 0, module_end = 0, mod_count = 0\<rparr>)" "sorted_wrt (<) ps"
      "set ps = {p. tag_pos demo_tags 0x1000 p \<and> tag_here demo_tags 0x1000 p}" by blast
  have "set ps = {8}" unfolding ps(3) using demo_tag_pos demo_tag_here(1,2) tag_first by auto
  then have "ps = [8]" using ps(2) by (cases ps; cases "tl ps") auto
  then show ?thesis using ps(1) by (simp add: read_tag_def demo_tag_words set_flag_def Let_def)
qed

end
