(* ===== verification/Spec2Isabelle.thy ===== *)
theory Spec2Isabelle
  imports Kernel Sched_Props Sched_Fork Elf_Props Boot_Props
begin

text \<open>
  \<^bold>\<open>Neodymium.\<close> A verification of the Neodymium kernel (src/src), a small 32-bit x86 kernel in C: it
  boots from multiboot 2 or EFI information, drives a text screen, a framebuffer console, a serial line
  and a PS/2 keyboard, manages physical frames, address spaces and a heap, and runs user programs under a
  preemptive scheduler with ten system calls.

  \<^bold>\<open>How the program is modelled.\<close> The global variables of the C files are fields of a chain of records, one
  record per file, each extending the one below: kio (ports and the history of their accesses, tick), vga, fb, fbcon, ps2, pmm,
  idt, vmm, heap, sched. A function of the program is a HOL function on the state; it is polymorphic in the
  fields above its own file, so that it runs in every larger state. A function that may fault, panic or
  loop forever returns \<open>panic + 'a\<close> (\<open>kres\<close>, composed with \<open>kbind\<close>): PageFault for an address that
  does not translate, Panic for a call of panic, Halted for a loop that never ends, Undefined for a read
  past the format or the arguments of printf. printf waits for the serial line as serial_putchar does, so
  all that prints has this type. Integers have their
  width: u8, u16, u32 and u64 are words, and sums wrap where the sums of the code do. Memory is a function
  from addresses to bytes. Until paging is on an address is physical; then every load and store of the model
  goes through the walk of the page tables that are themselves in this memory, as on the processor.

  \<^bold>\<open>Theories and sources.\<close>
  \<^item> Neo_Prelude: words, loops (\<open>for_u32\<close> and \<open>for_err\<close> are the counted loops of C), the result type,
    bytes and words of memory, alignment.
  \<^item> Ports (kernel/asm/io.h, drivers/serial.c, kernel/cmos.h), Text_Console and Vga (drivers/vga.c),
    Framebuffer (drivers/framebuffer.c, fonts), Fbcon (drivers/fbcon.c), Printf (kernel/printf.c), Ps2
    (drivers/ps2.c): the devices. Reads of a port come from an unknown device function of the history of
    port accesses.
  \<^item> Pmm (kernel/pmm.c): the bitmap of frames. The locale frame_allocator is the interface that the
    virtual memory manager relies on; it is interpreted on the operations of pmm.c.
  \<^item> Idt (kernel/idt.c, kernel/gdt.c): descriptor tables and handler tables.
  \<^item> Vmm (kernel/vmm.c): definitions; Vmm_Frame: what every operation leaves alone; Address_Spaces:
    mapping, unmapping, creating and destroying; Vmm_Boot: vmm_init; Vmm_Clone: vmm_clone_address_space.
  \<^item> Heap (kernel/heap.c): definitions; Heap_Words: the heap as words of virtual memory; Heap_Props: the row
    of tiles that the headers and the free list represent, and malloc and free on it; Heap_Grow: growing; Heap_Alloc:
    the allocator as an interface (a locale, interpreted on malloc and free), histories of a client.
  \<^item> Elf (kernel/elf.c) and Sched (kernel/sched.c): definitions. Tasks and saved registers are structs in
    memory, reached through their addresses. Task_Memory: the locale field_store states how fields of objects
    are read and written; it is interpreted on the tasks of the heap, and in Sched_Create on saved
    frames. Sched_Ring: the invariant \<open>sched_ok\<close> and the loops along the ring; Sched_Timer: interrupts;
    Sched_Create: new tasks; Sched_Reap: waiting; Sched_Space: the heap in new address spaces; Sched_Exit: from
    exit to wait; Sched_Props: the properties; Sched_Fork: task_create_fork.
    Elf_Props: memory as the loader sees it, with the locale byte_memory for its loops over bytes, interpreted on the
    loads and stores through the page tables.
  \<^item> Panic (kernel/panic.c), Syscall (kernel/syscall.c and the dispatch of kernel/idt.c), Fb_Init (set-up of
    the display), Boot (boot/boot.c, boot/efi_boot.c), Kernel (kernel/kernel.c): definitions, with the
    properties of Boot and Panic in Boot_Props.

  \<^bold>\<open>What is proved.\<close>
  \<^item> Frames: every history of allocations hands out frames that nobody holds; pmm_init leaves free exactly the
    frames whose first byte the memory map does not reserve, but frame 0 and the kernel; runs of frames; no
    access outside the bitmap.
  \<^item> Address spaces: the well-formedness \<open>vm_ok\<close> is established by vmm_init and kept; mapping a page
    changes the translation of that page in that space and no other; a new space translates as the kernel's;
    a clone has copies of all pages of its own, in frames of its own; destroying gives back exactly what the
    space owns; unmapping and looking up agree with the walk of the processor.
  \<^item> Heap: malloc refines first fit on the row of tiles, free joins neighbours and undoes malloc; blocks of a
    client never overlap while the heap can grow for its requests or refuses them; growing; the boot of the
    heap; the sizes whose arithmetic wraps.
  \<^item> Scheduler: the links in memory are a ring; choosing the next task is a search in that ring; a timer
    interrupt refines a round-robin step and no running task starves; task_create_elf keeps the ring when
    the heap has room; exit and wait hand the exit code to the parent, also when other tasks run in
    between, and free what the child owned; fork gives the child the
    registers of the parent, with eax 0, and a copy of its pages.
  \<^item> Loader: every byte of the segments is at its address, the rest of their pages and the stack page is zero.
  \<^item> Devices and output: the key buffer is a bounded queue between the interrupt and the reader; the
    console never leaves its grid; characters, and rectangles that start on the screen, paint exactly their
    pixels; numbers read back; printf sends and shows the text of its format and arguments; the serial line
    sends what is written; descriptor tables decode to what they encode; panic messages fit.
  \<^item> Boot: the loop over the tags ends and reads each tag once.

  \<^bold>\<open>Bounds.\<close> Loops along links of the heap or of the ring have a bound of 2 to the power 32 rounds (\<open>list_bound\<close>):
  they write nothing that they follow, so a loop that visits more nodes than there are addresses never ends,
  which the model reports as Halted. The properties show that this does not happen: the represented lists are distinct. The
  loop over the boot tags is a partial function whose None is a loop that never ends; the scan of the program headers is bounded by
  the 16-bit count of the file, the backtrace by FRAMES_MAX and the EFI map by EFI_MMAP_MAX_ENTRIES, as in the code.

  \<^bold>\<open>Not modelled.\<close> The assembly stubs (kernel/isr.S, kernel/switch.S, boot code) appear through the
  register frame that they push and pop, and restore_context through the value Resumes. The effect of sti, cli, hlt and of the
  loads of descriptor registers is the order in which a run gives interrupts; interrupts between two statements of the loop of yield
  are not modelled, nor are the TLB and the accessed and dirty bits. User programs run on the processor and are
  outside the model: the kernel sees them through the frames of their interrupts. The EFI service tables of
  boot/efi.h are declared and not used by the program.
\<close>

end
